(* ===== verification/TF_Prelude.thy ===== *)
theory TF_Prelude
  imports Main "HOL-Library.Word" "HOL-Library.List_Lexorder" "HOL-Library.Sublist"
begin

text \<open>
  Shared material of the development: the machine types of \<^verbatim>\<open>core/platform/types.h\<close>,
  the status values of \<^verbatim>\<open>core/lib/core/status.h\<close>, generic facts on words, on the
  lexicographic order of byte strings and on list updates, and the two codec interfaces
  (\<open>codec\<close>: decoding after encoding gives the value back and leaves the rest of the input;
  \<open>order_codec\<close>: the encoding also keeps the order) that the storage components implement.

  Conventions of every theory. A \<^verbatim>\<open>string\<close> or \<^verbatim>\<open>StringPiece\<close> of raw bytes is a
  list of 8-bit words, and a pair of pointers \<^verbatim>\<open>[p, limit)\<close> is the list of bytes
  between them. \<^verbatim>\<open>CHECK\<close> failures (fatal in every build) are values of the model;
  \<^verbatim>\<open>assert\<close> and \<^verbatim>\<open>DCHECK\<close> (absent from release builds) are not part of the
  model's behaviour, and are proved as lemmas where the code relies on them.
\<close>

unbundle bit_operations_syntax

section \<open>Machine types\<close>

type_synonym byte = "8 word"
type_synonym bytes = "byte list"
type_synonym uint16 = "16 word"
type_synonym uint32 = "32 word"
type_synonym uint64 = "64 word"
type_synonym int64 = "64 word" \<comment> \<open>read with \<open>sint\<close>\<close>

section \<open>Status values\<close>

datatype error_code =
    DATA_LOSS | INTERNAL | INVALID_ARGUMENT | OUT_OF_RANGE | NOT_FOUND | CANCELLED
  | FAILED_PRECONDITION | RESOURCE_EXHAUSTED | ABORTED | UNAVAILABLE | UNKNOWN

datatype status = OK | Error error_code string

fun status_ok :: "status \<Rightarrow> bool" where
  "status_ok OK = True"
| "status_ok (Error _ _) = False"

fun code_of :: "status \<Rightarrow> error_code option" where
  "code_of OK = None"
| "code_of (Error c _) = Some c"

lemma status_ok_iff [simp]: "status_ok s \<longleftrightarrow> s = OK"
  by (cases s) auto

section \<open>Collections of rewrite rules\<close>

named_theorems word_bits \<open>which bits the constants of the source have\<close>
named_theorems codec_simps \<open>round trips of the byte codecs\<close>

section \<open>Words\<close>

text \<open>The simplifier reads the bits of a numeral word off the integer, so the constants of the
  source are stated there.\<close>

lemma bit_127 [word_bits]: "bit (127::int) n \<longleftrightarrow> n < 7"
  using bit_mask_iff [of 7 n, where ?'a = int] by (simp add: mask_eq_exp_minus_1)

lemma bit_255 [word_bits]: "bit (255::int) n \<longleftrightarrow> n < 8"
  using bit_mask_iff [of 8 n, where ?'a = int] by (simp add: mask_eq_exp_minus_1)

lemma bit_128 [word_bits]: "bit (128::int) n \<longleftrightarrow> n = 7"
  using bit_exp_iff [of 7 n, where ?'a = int] by auto

lemma push_bit_split7:
  "push_bit s (ucast v AND 127) OR push_bit (s + 7) (ucast (drop_bit 7 v)) =
     (push_bit s (ucast (v :: 'b::len word)) :: 'a::len word)"
proof (rule bit_word_eqI)
  fix n assume "n < LENGTH('a)"
  from this show "bit (push_bit s (ucast v AND 127) OR push_bit (s + 7) (ucast (drop_bit 7 v))
      :: 'a word) n = bit (push_bit s (ucast v) :: 'a word) n"
    by (cases "n < s + 7") (auto simp: bit_simps word_bits)
qed

lemma bit_small_word:
  assumes "unat (w :: 'a::len word) < 2 ^ k" and "k \<le> n" shows "\<not> bit w n"
proof -
  have "(2::nat) ^ k \<le> 2 ^ n" using assms(2) by simp
  then have "unat w < 2 ^ n" using assms(1) by (rule less_le_trans [rotated])
  then have "unat w div 2 ^ n = 0" by (rule div_less)
  then have "\<not> bit (unat w) n" by (simp add: bit_iff_odd)
  then show ?thesis by (simp add: bit_simps)
qed

lemma unat_drop_bit: "unat (drop_bit k (v :: 'a::len word)) = unat v div 2 ^ k"
proof -
  have "unat (drop_bit k v) = drop_bit k (unat v)" by (simp add: unsigned_drop_bit_eq take_bit_nat_eq_self)
  then show ?thesis by (simp add: drop_bit_eq_div)
qed

lemma uint_drop_bit: "uint (drop_bit k (v :: 'a::len word)) = drop_bit k (uint v)"
  by (rule bit_eqI) (auto simp: bit_simps dest: bit_imp_le_length)

lemma ucast_ucast_wide:
  assumes "LENGTH('a) \<le> LENGTH('b) \<or> LENGTH('c) \<le> LENGTH('b)"
  shows "(ucast (ucast (v :: 'a::len word) :: 'b::len word) :: 'c::len word) = ucast v"
  using assms by (intro bit_word_eqI) (auto simp: bit_simps dest: bit_imp_le_length)

lemma ucast_and_255 [simp]: "(ucast (v AND 255) :: byte) = ucast (v :: 'a::len word)"
  by (rule bit_word_eqI) (auto simp: bit_simps word_bits dest: bit_imp_le_length)

lemma ucast_and_eq_0_iff:
  assumes "LENGTH('a) \<le> LENGTH('b)"
  shows "(ucast (v :: 'a::len word) :: 'b::len word) AND numeral m = 0 \<longleftrightarrow> v AND numeral m = 0"
  (is "?l = 0 \<longleftrightarrow> ?r = 0")
proof -
  have "bit ?l n \<longleftrightarrow> bit ?r n" for n
    using assms by (auto simp: bit_simps dest: bit_imp_le_length)
  then show ?thesis by (metis bit_0_eq bot_apply bot_bool_def bit_eq_iff)
qed

section \<open>Lexicographic order of byte strings\<close>

text \<open>\<^verbatim>\<open>StringPiece::compare\<close> is \<^verbatim>\<open>memcmp\<close> on unsigned bytes, then the length: the
  order of \<open>List_Lexorder\<close>.\<close>

lemma lex_append_same [simp]:
  "(xs @ ys < xs @ zs) = (ys < (zs :: 'a::linorder list))"
  by (induction xs) auto

lemma lex_append_same_le [simp]:
  "(xs @ ys \<le> xs @ zs) = (ys \<le> (zs :: 'a::linorder list))"
  by (induction xs) auto

lemma lex_first_diff: "a < b \<Longrightarrow> xs @ a # ys < xs @ b # (zs :: 'a::linorder list)"
  by simp

lemma lex_prefix_le: "xs \<le> xs @ (ys :: 'a::linorder list)"
  by (induction xs) auto

text \<open>Two strings in order are either a proper prefix of one another or differ at a byte.\<close>

lemma lex_less_cases:
  fixes xs ys :: "'a::linorder list"
  assumes "xs < ys"
  obtains (strict_prefix) "strict_prefix xs ys"
  | (differ) p a b us vs where "xs = p @ a # us" "ys = p @ b # vs" "a < b"
  using assms
proof (induction xs arbitrary: ys thesis)
  case Nil
  then show ?case by (cases ys) auto
next
  case (Cons x xs)
  from Cons.prems(3) obtain y ys' where ys: "ys = y # ys'" by (cases ys) auto
  show ?case
  proof (cases "x < y")
    case True
    then show ?thesis using Cons.prems(2) [of "[]" x xs y ys'] ys by simp
  next
    case False
    with Cons.prems(3) ys have eq: "x = y" "xs < ys'" by auto
    show ?thesis
    proof (rule Cons.IH [OF _ _ eq(2)])
      assume "strict_prefix xs ys'"
      then show thesis using Cons.prems(1) ys eq(1) by simp
    next
      fix p a b us vs
      assume "xs = p @ a # us" "ys' = p @ b # vs" "a < b"
      then show thesis using Cons.prems(2) [of "x # p" a us b vs] ys eq(1) by simp
    qed
  qed
qed

section \<open>Codec interfaces\<close>

text \<open>A codec appends an encoding (\<^verbatim>\<open>Put...\<close>, \<^verbatim>\<open>Write...\<close>, \<^verbatim>\<open>EncodeTo\<close>) and
  reads it back from the front of the input (\<^verbatim>\<open>Get...\<close>, \<^verbatim>\<open>Read...\<close>,
  \<^verbatim>\<open>DecodeFrom\<close>), where \<open>None\<close> is failure.\<close>

locale codec =
  fixes put :: "'a \<Rightarrow> 'b list" and get :: "'b list \<Rightarrow> ('a \<times> 'b list) option"
  assumes get_put: "get (put x @ r) = Some (x, r)"
begin

lemma get_put_Nil: "get (put x) = Some (x, [])"
  using get_put [of x "[]"] by simp

lemma put_unique: "put x @ r = put y @ r' \<longleftrightarrow> x = y \<and> r = r'"
  by (metis get_put option.inject prod.inject)

lemma put_inject: "put x = put y \<longleftrightarrow> x = y"
  using put_unique [of x "[]" y "[]"] by simp

lemma prefix_free: "prefix (put x) (put y) \<longleftrightarrow> x = y"
  by (metis append_Nil2 prefix_def put_unique)

end

locale order_codec = codec put get
  for put :: "'a \<Rightarrow> 'b::linorder list" and get +
  fixes rank :: "'a \<Rightarrow> 'c::linorder"
  assumes put_mono: "rank x < rank y \<Longrightarrow> put x < put y"
    and rank_inject: "rank x = rank y \<Longrightarrow> x = y"
begin

text \<open>The order of two encodings does not depend on what follows them: this is what lets the
  fields of a key be concatenated.\<close>

lemma put_less_append:
  assumes "rank x < rank y" shows "put x @ r < put y @ r'"
  using put_mono [OF assms]
proof (cases rule: lex_less_cases)
  case strict_prefix
  then have "x = y" using prefix_free by (auto simp: strict_prefix_def)
  then show ?thesis using assms by simp
next
  case (differ p a b us vs)
  then show ?thesis using lex_first_diff by simp
qed

lemma put_less_iff: "put x @ r < put y @ r' \<longleftrightarrow> rank x < rank y \<or> x = y \<and> r < r'"
proof (cases "rank x" "rank y" rule: linorder_cases)
  case less then show ?thesis using put_less_append by blast
next
  case equal then have "x = y" by (rule rank_inject)
  then show ?thesis by simp
next
  case greater
  then have "put y @ r' < put x @ r" by (rule put_less_append)
  then show ?thesis using greater by auto
qed

lemma put_le_iff: "put x \<le> put y \<longleftrightarrow> rank x \<le> rank y"
  using put_less_iff [of y "[]" x "[]"] by (simp add: not_less [symmetric])

end

end
