(* ===== verification/Coding.thy ===== *)
theory Coding
  imports TF_Prelude
begin

text \<open>
  \<^verbatim>\<open>core/lib/core/coding.cc\<close>, \<^verbatim>\<open>coding.h\<close> and \<^verbatim>\<open>raw_coding.h\<close>: little-endian
  fixed-width integers and base-128 varints. The writers return the bytes they store at
  \<^verbatim>\<open>dst\<close>; the pointer readers take the bytes of \<^verbatim>\<open>[p, limit)\<close> and return the value
  and the bytes from the returned pointer on, \<open>None\<close> for \<^verbatim>\<open>nullptr\<close>. Both branches of
  the byte-order test are modelled; the theory shows they produce the same bytes, so the
  encoding does not depend on the host.
\<close>

section \<open>Fixed-width integers\<close>

text \<open>\<^verbatim>\<open>memcpy(buf, &value, sizeof(value))\<close> on a little-endian host copies the bytes of the
  value from the least significant one up.\<close>

definition memcpy_from_word :: "nat \<Rightarrow> 'a::len word \<Rightarrow> bytes" where
  "memcpy_from_word n v = map (\<lambda>i. ucast (drop_bit (8 * i) v)) [0..<n]"

fun memcpy_to_word :: "bytes \<Rightarrow> 'a::len word" where
  "memcpy_to_word [] = 0"
| "memcpy_to_word (b # bs) = ucast b OR push_bit 8 (memcpy_to_word bs)"

definition kLittleEndian :: bool where
  "kLittleEndian = True"

definition EncodeFixed16 :: "bool \<Rightarrow> uint16 \<Rightarrow> bytes" where
  "EncodeFixed16 le v =
     (if le then memcpy_from_word 2 v
      else [ucast (v AND 0xff), ucast (drop_bit 8 v AND 0xff)])"

definition EncodeFixed32 :: "bool \<Rightarrow> uint32 \<Rightarrow> bytes" where
  "EncodeFixed32 le v =
     (if le then memcpy_from_word 4 v
      else [ucast (v AND 0xff), ucast (drop_bit 8 v AND 0xff),
            ucast (drop_bit 16 v AND 0xff), ucast (drop_bit 24 v AND 0xff)])"

definition EncodeFixed64 :: "bool \<Rightarrow> uint64 \<Rightarrow> bytes" where
  "EncodeFixed64 le v =
     (if le then memcpy_from_word 8 v
      else [ucast (v AND 0xff), ucast (drop_bit 8 v AND 0xff),
            ucast (drop_bit 16 v AND 0xff), ucast (drop_bit 24 v AND 0xff),
            ucast (drop_bit 32 v AND 0xff), ucast (drop_bit 40 v AND 0xff),
            ucast (drop_bit 48 v AND 0xff), ucast (drop_bit 56 v AND 0xff)])"

definition PutFixed16 :: "bytes \<Rightarrow> uint16 \<Rightarrow> bytes" where
  "PutFixed16 dst v = dst @ EncodeFixed16 kLittleEndian v"

definition PutFixed32 :: "bytes \<Rightarrow> uint32 \<Rightarrow> bytes" where
  "PutFixed32 dst v = dst @ EncodeFixed32 kLittleEndian v"

definition PutFixed64 :: "bytes \<Rightarrow> uint64 \<Rightarrow> bytes" where
  "PutFixed64 dst v = dst @ EncodeFixed64 kLittleEndian v"

text \<open>The raw readers do no bounds check: reading fewer bytes than the value has is undefined
  behaviour, the value \<open>None\<close> here.\<close>

definition DecodeFixed16 :: "bool \<Rightarrow> bytes \<Rightarrow> uint16 option" where
  "DecodeFixed16 le p =
     (if length p < 2 then None
      else Some (if le then memcpy_to_word (take 2 p)
                 else ucast (p ! 0) OR push_bit 8 (ucast (p ! 1))))"

definition DecodeFixed32 :: "bool \<Rightarrow> bytes \<Rightarrow> uint32 option" where
  "DecodeFixed32 le p =
     (if length p < 4 then None
      else Some (if le then memcpy_to_word (take 4 p)
                 else ucast (p ! 0) OR push_bit 8 (ucast (p ! 1)) OR
                      push_bit 16 (ucast (p ! 2)) OR push_bit 24 (ucast (p ! 3))))"

definition DecodeFixed64 :: "bool \<Rightarrow> bytes \<Rightarrow> uint64 option" where
  "DecodeFixed64 le p =
     (if le then (if length p < 8 then None else Some (memcpy_to_word (take 8 p)))
      else (case DecodeFixed32 le p of None \<Rightarrow> None
            | Some lo \<Rightarrow> (case DecodeFixed32 le (drop 4 p) of None \<Rightarrow> None
               | Some hi \<Rightarrow> Some (push_bit 32 (ucast hi) OR ucast lo))))"

section \<open>Varints\<close>

definition EncodeVarint32 :: "uint32 \<Rightarrow> bytes" where
  "EncodeVarint32 v =
     (if v < 2 ^ 7 then [ucast v]
      else if v < 2 ^ 14 then [ucast (v OR 128), ucast (drop_bit 7 v)]
      else if v < 2 ^ 21 then
        [ucast (v OR 128), ucast (drop_bit 7 v OR 128), ucast (drop_bit 14 v)]
      else if v < 2 ^ 28 then
        [ucast (v OR 128), ucast (drop_bit 7 v OR 128), ucast (drop_bit 14 v OR 128),
         ucast (drop_bit 21 v)]
      else
        [ucast (v OR 128), ucast (drop_bit 7 v OR 128), ucast (drop_bit 14 v OR 128),
         ucast (drop_bit 21 v OR 128), ucast (drop_bit 28 v)])"

definition PutVarint32 :: "bytes \<Rightarrow> uint32 \<Rightarrow> bytes" where
  "PutVarint32 dst v = dst @ EncodeVarint32 v"

lemma unat_drop7_less: "v \<ge> 128 \<Longrightarrow> unat (drop_bit 7 (v :: 64 word)) < unat v"
  by (auto simp: drop_bit_eq_div unat_div word_le_nat_alt)

function EncodeVarint64 :: "uint64 \<Rightarrow> bytes" where
  "EncodeVarint64 v =
     (if v \<ge> 128 then ucast (v AND 127 OR 128) # EncodeVarint64 (drop_bit 7 v) else [ucast v])"
  by pat_completeness auto
termination
  by (relation "measure unat") (auto simp: unat_drop7_less)

declare EncodeVarint64.simps [simp del]

definition PutVarint64 :: "bytes \<Rightarrow> uint64 \<Rightarrow> bytes" where
  "PutVarint64 dst v = dst @ EncodeVarint64 v"

function VarintLength_loop :: "uint64 \<Rightarrow> nat \<Rightarrow> nat" where
  "VarintLength_loop v len = (if v \<ge> 128 then VarintLength_loop (drop_bit 7 v) (len + 1) else len)"
  by pat_completeness auto
termination
  by (relation "measure (\<lambda>(v, _). unat v)") (auto simp: unat_drop7_less)

declare VarintLength_loop.simps [simp del]

definition VarintLength :: "uint64 \<Rightarrow> nat" where
  "VarintLength v = VarintLength_loop v 1"

text \<open>The loop both varint readers share: \<open>max_shift\<close> is the largest shift the loop condition admits
  (28 and 63), \<open>result\<close> the accumulator at the reader's width.\<close>

fun GetVarint_loop :: "nat \<Rightarrow> nat \<Rightarrow> 'a::len word \<Rightarrow> bytes \<Rightarrow> ('a word \<times> bytes) option" where
  "GetVarint_loop max_shift shift result [] = None"
| "GetVarint_loop max_shift shift result (b # p) =
     (if shift \<le> max_shift then
        (if b AND 128 \<noteq> 0
         then GetVarint_loop max_shift (shift + 7) (result OR push_bit shift (ucast b AND 127)) p
         else Some (result OR push_bit shift (ucast b), p))
      else None)"

definition GetVarint32PtrFallback :: "bytes \<Rightarrow> (uint32 \<times> bytes) option" where
  "GetVarint32PtrFallback p = GetVarint_loop 28 0 0 p"

definition GetVarint32Ptr :: "bytes \<Rightarrow> (uint32 \<times> bytes) option" where
  "GetVarint32Ptr p =
     (case p of
        [] \<Rightarrow> GetVarint32PtrFallback p
      | b # q \<Rightarrow> if (ucast b :: uint32) AND 128 = 0 then Some (ucast b, q)
                 else GetVarint32PtrFallback p)"

definition GetVarint64Ptr :: "bytes \<Rightarrow> (uint64 \<times> bytes) option" where
  "GetVarint64Ptr p = GetVarint_loop 63 0 0 p"

definition GetVarint32 :: "bytes \<Rightarrow> (uint32 \<times> bytes) option" where
  "GetVarint32 input = (case GetVarint32Ptr input of None \<Rightarrow> None | Some (v, q) \<Rightarrow> Some (v, q))"

definition GetVarint64 :: "bytes \<Rightarrow> (uint64 \<times> bytes) option" where
  "GetVarint64 input = (case GetVarint64Ptr input of None \<Rightarrow> None | Some (v, q) \<Rightarrow> Some (v, q))"

section \<open>Fixed-width integers: host independence and round trip\<close>

lemma upt_lits: "[0..<2] = [0, 1]" "[0..<4] = [0, 1, 2, 3]" "[0..<8] = [0, 1, 2, 3, 4, 5, 6, 7]"
  by (simp_all add: upt_rec)

lemma EncodeFixed_host_independent:
  "EncodeFixed16 le v = EncodeFixed16 le' v"
  "EncodeFixed32 le w = EncodeFixed32 le' w"
  "EncodeFixed64 le x = EncodeFixed64 le' x"
  by (simp_all add: EncodeFixed16_def EncodeFixed32_def EncodeFixed64_def memcpy_from_word_def
      upt_lits)

lemma length_EncodeFixed [simp]:
  "length (EncodeFixed16 le v) = 2"
  "length (EncodeFixed32 le w) = 4"
  "length (EncodeFixed64 le x) = 8"
  by (simp_all add: EncodeFixed16_def EncodeFixed32_def EncodeFixed64_def memcpy_from_word_def)

lemma memcpy_to_word_bit:
  "bit (memcpy_to_word bs :: 'a::len word) n \<longleftrightarrow>
     n < LENGTH('a) \<and> n div 8 < length bs \<and> bit (bs ! (n div 8)) (n mod 8)"
proof (induction bs arbitrary: n)
  case (Cons b bs)
  show ?case
  proof (cases "n < 8")
    case True
    then show ?thesis by (auto simp: bit_simps)
  next
    case False
    then obtain m where n: "n = m + 8" by (metis le_add_diff_inverse2 not_less)
    have "(m + 8) div 8 = Suc (m div 8)" "(m + 8) mod 8 = m mod 8" by simp_all
    then show ?thesis unfolding n by (auto simp: bit_simps Cons.IH dest: bit_imp_le_length)
  qed
qed simp

lemma memcpy_to_from_word:
  assumes "8 * k = LENGTH('a)"
  shows "memcpy_to_word (memcpy_from_word k (v :: 'a::len word)) = v"
proof (rule bit_word_eqI)
  fix n assume n: "n < LENGTH('a)"
  then have "n div 8 < k" using assms by simp
  then show "bit (memcpy_to_word (memcpy_from_word k v) :: 'a word) n = bit v n"
    using n by (simp add: memcpy_to_word_bit memcpy_from_word_def bit_simps)
qed

lemma length_ge_4E:
  assumes "\<not> length p < 4" obtains a b c d r where "p = a # b # c # d # r"
  using assms by (auto simp: not_less numeral_eq_Suc Suc_le_length_iff)

lemma memcpy_to_word_Cons4:
  "(memcpy_to_word [a, b, c, d] :: uint32) =
     ucast a OR push_bit 8 (ucast b) OR push_bit 16 (ucast c) OR push_bit 24 (ucast d)"
  by (rule bit_word_eqI) (auto simp: bit_simps)

lemma DecodeFixed32_host_independent: "DecodeFixed32 le p = DecodeFixed32 le' p"
proof (cases "length p < 4")
  case False
  then obtain a b c d r where "p = a # b # c # d # r" by (rule length_ge_4E)
  then show ?thesis
    by (simp add: DecodeFixed32_def memcpy_to_word_Cons4 del: memcpy_to_word.simps)
qed (simp add: DecodeFixed32_def)

lemma DecodeFixed32_EncodeFixed32 [codec_simps]:
  "DecodeFixed32 le (EncodeFixed32 le' v @ r) = Some v"
proof -
  have "DecodeFixed32 True (EncodeFixed32 True v @ r) = Some v"
    using memcpy_to_from_word [of 4 v]
    by (simp add: DecodeFixed32_def EncodeFixed32_def memcpy_from_word_def)
  then show ?thesis
    by (metis DecodeFixed32_host_independent EncodeFixed_host_independent(2))
qed

lemma memcpy_to_word_append:
  "(memcpy_to_word (xs @ ys) :: 'a::len word) =
     memcpy_to_word xs OR push_bit (8 * length xs) (memcpy_to_word ys)"
proof (induction xs)
  case (Cons x xs)
  then show ?case by (simp add: push_bit_or or.assoc push_bit_push_bit add.commute)
qed simp

lemma ucast_memcpy32:
  "length bs \<le> 4 \<Longrightarrow> (ucast (memcpy_to_word bs :: uint32) :: uint64) = memcpy_to_word bs"
  by (rule bit_word_eqI) (auto simp: bit_simps memcpy_to_word_bit)

lemma DecodeFixed32_in_range:
  "\<not> length p < 4 \<Longrightarrow> DecodeFixed32 le p = Some (memcpy_to_word (take 4 p))"
  using DecodeFixed32_host_independent [of le p True] by (simp add: DecodeFixed32_def)

lemma DecodeFixed64_host_independent: "DecodeFixed64 le p = DecodeFixed64 le' p"
proof (cases "length p < 8")
  case True
  then show ?thesis by (auto simp: DecodeFixed64_def DecodeFixed32_def)
next
  case False
  then have "take 8 p = take 4 p @ take 4 (drop 4 p)"
    by (simp add: take_add [of 4 4, simplified])
  then have "(memcpy_to_word (take 8 p) :: uint64) =
      ucast (memcpy_to_word (take 4 p) :: uint32) OR
      push_bit 32 (ucast (memcpy_to_word (take 4 (drop 4 p)) :: uint32))"
    using False by (simp add: memcpy_to_word_append ucast_memcpy32)
  then have "DecodeFixed64 True p = DecodeFixed64 False p"
    using False by (simp add: DecodeFixed64_def DecodeFixed32_in_range or.commute)
  then show ?thesis by (cases le; cases le') auto
qed

lemma DecodeFixed64_EncodeFixed64 [codec_simps]:
  "DecodeFixed64 le (EncodeFixed64 le' v @ r) = Some v"
proof -
  have "DecodeFixed64 True (EncodeFixed64 True v @ r) = Some v"
    using memcpy_to_from_word [of 8 v]
    by (simp add: DecodeFixed64_def EncodeFixed64_def memcpy_from_word_def)
  then show ?thesis
    by (metis DecodeFixed64_host_independent EncodeFixed_host_independent(3))
qed

lemma DecodeFixed16_EncodeFixed16 [codec_simps]:
  "DecodeFixed16 le (EncodeFixed16 le' v @ r) = Some v"
  using memcpy_to_from_word [of 2 v]
  by (auto simp add: DecodeFixed16_def EncodeFixed16_def memcpy_from_word_def upt_lits numeral_2_eq_2)

section \<open>Varints: one encoding, bounded, read back exactly\<close>

lemma varint_byte_more:
  "(ucast (v AND 127 OR 128) :: byte) AND 128 \<noteq> 0"
  "8 \<le> LENGTH('a) \<Longrightarrow>
     (ucast (ucast (v AND 127 OR 128) :: byte) AND 127 :: 'a::len word) = ucast v AND 127"
  for v :: uint64
proof -
  have "bit ((ucast (v AND 127 OR 128) :: byte) AND 128) 7" by (simp add: bit_simps word_bits)
  then show "(ucast (v AND 127 OR 128) :: byte) AND 128 \<noteq> 0" by (metis bit_0_eq bot_apply bot_bool_def)
  show "(ucast (ucast (v AND 127 OR 128) :: byte) AND 127 :: 'a word) = ucast v AND 127"
    by (rule bit_word_eqI) (auto simp: bit_simps word_bits)
qed

lemma varint_byte_last:
  fixes v :: uint64
  assumes "\<not> v \<ge> 128"
  shows "(ucast v :: byte) AND 128 = 0" 
    and "8 \<le> LENGTH('a) \<Longrightarrow> (ucast (ucast v :: byte) :: 'a::len word) = ucast v"
proof -
  have "unat v < 2 ^ 7" using assms by (simp add: word_le_nat_alt)
  then have *: "bit v n \<Longrightarrow> n < 7" for n using bit_small_word by (metis not_le)
  show "(ucast v :: byte) AND 128 = 0"
    by (rule bit_word_eqI) (auto simp: bit_simps word_bits dest: *)
  show "(ucast (ucast v :: byte) :: 'a word) = ucast v"
    by (rule bit_word_eqI) (auto simp: bit_simps dest: *)
qed

lemma GetVarint_loop_EncodeVarint64:
  fixes v :: uint64
  assumes "unat v < 2 ^ (LENGTH('a) - s)" and "7 dvd s" and "s < LENGTH('a)"
    and "\<And>t. 7 dvd t \<Longrightarrow> t < LENGTH('a) \<Longrightarrow> t \<le> m" and "8 \<le> LENGTH('a)"
  shows "GetVarint_loop m s acc (EncodeVarint64 v @ r) =
    Some (acc OR push_bit s (ucast v) :: 'a::len word, r)"
  using assms(1-3)
proof (induction v arbitrary: s acc rule: EncodeVarint64.induct)
  case (1 v)
  have s_le: "s \<le> m" using assms(4) "1.prems" by blast
  show ?case
  proof (cases "v \<ge> 128")
    case True
    have "(2::nat) ^ 7 \<le> unat v" using True by (simp add: word_le_nat_alt)
    then have "(2::nat) ^ 7 < 2 ^ (LENGTH('a) - s)" using "1.prems"(1) by linarith
    then have s7: "s + 7 < LENGTH('a)" by (simp only: power_strict_increasing_iff)
    have "unat (drop_bit 7 v) < 2 ^ (LENGTH('a) - (s + 7))"
    proof -
      have "unat v < 2 ^ (LENGTH('a) - (s + 7)) * 2 ^ 7"
        using "1.prems"(1) s7 by (metis add.commute add_diff_inverse_nat diff_diff_left less_diff_conv
            not_less_iff_gr_or_eq power_add)
      then show ?thesis by (simp add: drop_bit_eq_div unat_div less_mult_imp_div_less)
    qed
    then have IH: "GetVarint_loop m (s + 7) a (EncodeVarint64 (drop_bit 7 v) @ r) =
        Some (a OR push_bit (s + 7) (ucast (drop_bit 7 v)) :: 'a word, r)" for a
      using "1.IH" [OF True] "1.prems"(2) s7 by simp
    show ?thesis
      using True s_le assms(5)
      by (subst EncodeVarint64.simps)
        (simp add: IH varint_byte_more or.assoc push_bit_split7 del: push_bit_and)
  next
    case False
    then show ?thesis using s_le assms(5) by (subst EncodeVarint64.simps) (simp add: varint_byte_last)
  qed
qed

lemma unat_ucast_32_64 [simp]: "unat (ucast (v :: uint32) :: uint64) = unat v"
proof -
  have "unat v < 2 ^ 64" using unsigned_less [of v] by (rule less_le_trans) simp
  then show ?thesis by (simp add: unsigned_ucast_eq take_bit_nat_eq_self)
qed

lemma ucast_drop_bit_32_64: "drop_bit k (ucast (v :: uint32) :: uint64) = ucast (drop_bit k v)"
  by (rule bit_word_eqI) (auto simp: bit_simps dest: bit_imp_le_length)

lemma varint_continue_iff:
  "(ucast (drop_bit k (v :: uint32)) :: uint64) \<ge> 128 \<longleftrightarrow> \<not> unat v < 2 ^ (k + 7)"
proof -
  have "unat v div 2 ^ k < 128 \<longleftrightarrow> unat v < 2 ^ (k + 7)"
    by (simp add: div_less_iff_less_mult power_add mult.commute)
  then show ?thesis by (simp add: word_le_nat_alt unat_drop_bit not_less [symmetric])
qed

lemma varint_byte32:
  "(ucast (ucast (w :: uint32) AND 127 OR 128 :: uint64) :: byte) = ucast (w OR 128)"
  by (rule bit_word_eqI) (auto simp: bit_simps word_bits)

lemma EncodeVarint32_eq: "EncodeVarint32 v = EncodeVarint64 (ucast v)"
proof -
  have step: "EncodeVarint64 (ucast (drop_bit k v)) =
      (if unat v < 2 ^ (k + 7) then [ucast (ucast (drop_bit k v) :: uint64)]
       else ucast (drop_bit k v OR 128) # EncodeVarint64 (ucast (drop_bit (k + 7) v)))" for k
    using varint_continue_iff [of k v] varint_byte32
    by (subst EncodeVarint64.simps) (simp add: ucast_drop_bit_32_64 add.commute)
  have "unat v < 2 ^ (28 + 7)" using unsigned_less [of v] by (rule less_le_trans) simp
  then show ?thesis
    using step [of 0] step [of 7] step [of 14] step [of 21] step [of 28]
    by (simp add: EncodeVarint32_def word_less_nat_alt ucast_ucast_wide)
qed

text \<open>The inline fast path of \<^verbatim>\<open>GetVarint32Ptr\<close> agrees with the loop it bypasses.\<close>

lemma GetVarint32Ptr_eq: "GetVarint32Ptr p = GetVarint32PtrFallback p"
proof (cases p)
  case (Cons b q)
  have "(ucast b :: uint32) AND 128 = 0 \<longleftrightarrow> b AND 128 = 0"
    by (rule ucast_and_eq_0_iff) simp
  then show ?thesis by (simp add: GetVarint32Ptr_def GetVarint32PtrFallback_def Cons)
qed (simp add: GetVarint32Ptr_def)

lemma GetVarint32_EncodeVarint32 [codec_simps]: "GetVarint32 (EncodeVarint32 v @ r) = Some (v, r)"
proof -
  have "GetVarint32PtrFallback (EncodeVarint32 v @ r) = Some (0 OR push_bit 0 (ucast (ucast v :: uint64)) :: uint32, r)"
    unfolding GetVarint32PtrFallback_def EncodeVarint32_eq
    by (rule GetVarint_loop_EncodeVarint64) (use unsigned_less [of v, where ?'a = nat] in auto)
  then have "GetVarint32PtrFallback (EncodeVarint32 v @ r) = Some (v, r)"
    by (simp add: ucast_ucast_wide)
  then show ?thesis by (simp add: GetVarint32_def GetVarint32Ptr_eq)
qed

lemma GetVarint64_EncodeVarint64 [codec_simps]: "GetVarint64 (EncodeVarint64 v @ r) = Some (v, r)"
proof -
  have "GetVarint_loop 63 0 0 (EncodeVarint64 v @ r) = Some (0 OR push_bit 0 (ucast v) :: uint64, r)"
    by (rule GetVarint_loop_EncodeVarint64) (use unsigned_less [of v, where ?'a = nat] in auto)
  then show ?thesis by (simp add: GetVarint64_def GetVarint64Ptr_def)
qed

lemma VarintLength_eq: "VarintLength v = length (EncodeVarint64 v)"
proof -
  have "VarintLength_loop v n + 1 = n + length (EncodeVarint64 v)" for n
    by (induction v n rule: VarintLength_loop.induct)
      (subst VarintLength_loop.simps, subst EncodeVarint64.simps, auto)
  from this [of 1] show ?thesis by (simp add: VarintLength_def)
qed

lemma length_EncodeVarint64_le:
  "unat v < 2 ^ (7 * k) \<Longrightarrow> 0 < k \<Longrightarrow> length (EncodeVarint64 v) \<le> k"
proof (induction v arbitrary: k rule: EncodeVarint64.induct)
  case (1 v)
  show ?case
  proof (cases "v \<ge> 128")
    case True
    then have "(2::nat) ^ 7 < 2 ^ (7 * k)" using "1.prems"(1) by (simp add: word_le_nat_alt)
    then have "7 < 7 * k" by (simp only: power_strict_increasing_iff)
    then have "1 < k" by simp
    then obtain j where k: "k = Suc j" "0 < j" by (cases k) auto
    have "unat (drop_bit 7 v) < 2 ^ (7 * j)"
      using "1.prems"(1) k by (simp add: power_add drop_bit_eq_div unat_div less_mult_imp_div_less)
    then have "length (EncodeVarint64 (drop_bit 7 v)) \<le> j" using "1.IH" [OF True] k(2) by blast
    then show ?thesis using True k by (subst EncodeVarint64.simps) simp
  next
    case False
    then show ?thesis using "1.prems"(2) by (subst EncodeVarint64.simps) simp
  qed
qed
lemma GetVarint_loop_consumes:
  "GetVarint_loop m s acc p = Some (v, q) \<Longrightarrow>
     \<exists>c. p = c @ q \<and> c \<noteq> [] \<and> s + 7 * (length c - 1) \<le> m"
proof (induction m s acc p rule: GetVarint_loop.induct)
  case (2 m s acc b p)
  show ?case
  proof (cases "b AND 128 = 0")
    case True
    then show ?thesis using "2.prems" by (auto split: if_splits intro!: exI [of _ "[b]"])
  next
    case False
    with "2.prems" have "s \<le> m"
      "GetVarint_loop m (s + 7) (acc OR push_bit s (ucast b AND 127)) p = Some (v, q)"
      by (auto split: if_splits)
    then obtain c where "p = c @ q" "c \<noteq> []" "s + 7 + 7 * (length c - 1) \<le> m"
      using "2.IH" False by blast
    then show ?thesis by (intro exI [of _ "b # c"]) (cases c, auto)
  qed
qed simp

section \<open>The codecs provided\<close>

interpretation varint32: codec EncodeVarint32 GetVarint32
  by unfold_locales (rule GetVarint32_EncodeVarint32)

interpretation varint64: codec EncodeVarint64 GetVarint64
  by unfold_locales (rule GetVarint64_EncodeVarint64)

definition GetFixed32 :: "bytes \<Rightarrow> (uint32 \<times> bytes) option" where
  "GetFixed32 p = map_option (\<lambda>v. (v, drop 4 p)) (DecodeFixed32 kLittleEndian p)"

interpretation fixed32: codec "EncodeFixed32 kLittleEndian" GetFixed32
  by unfold_locales (simp add: GetFixed32_def codec_simps)

section \<open>Properties\<close>

text \<open>C11. Varint round trip: whatever the buffer holds before and after, reading back what
  \<^verbatim>\<open>PutVarint32\<close> or \<^verbatim>\<open>PutVarint64\<close> appended returns the value written and leaves
  exactly the bytes that follow it.\<close>

theorem varint_roundtrip:
  "GetVarint32 (drop (length dst) (PutVarint32 dst v @ r)) = Some (v, r) \<and>
   GetVarint64 (drop (length dst) (PutVarint64 dst w @ r)) = Some (w, r)"
  by (simp add: PutVarint32_def PutVarint64_def varint32.get_put varint64.get_put)

text \<open>The unrolled 32-bit encoder writes what the 64-bit loop writes for the same value, the
  encodings fit the buffers of 5 and 10 bytes the callers reserve, and \<^verbatim>\<open>VarintLength\<close> is
  the number of bytes written.\<close>

theorem varint_encoders_agree:
  "EncodeVarint32 v = EncodeVarint64 (ucast v) \<and> length (EncodeVarint32 v) \<le> 5 \<and>
   length (EncodeVarint64 w) \<le> 10 \<and> VarintLength w = length (EncodeVarint64 w)"
proof -
  have "unat v < 2 ^ (7 * 5)" using unsigned_less [of v] by (rule less_le_trans) simp
  moreover have "unat w < 2 ^ (7 * 10)" using unsigned_less [of w] by (rule less_le_trans) simp
  ultimately show ?thesis
    using length_EncodeVarint64_le [of "ucast v" 5] length_EncodeVarint64_le [of w 10]
    by (simp add: EncodeVarint32_eq VarintLength_eq)
qed

text \<open>C12. The varint readers stay inside their input on every byte string, also on corrupt ones: on
  success they have consumed between one and five (ten) bytes of the input and return the rest
  of it unchanged.\<close>

theorem varint_readers_in_bounds:
  "(\<forall>v q. GetVarint32 p = Some (v, q) \<longrightarrow>
      (\<exists>c. p = c @ q \<and> 1 \<le> length c \<and> length c \<le> 5)) \<and>
   (\<forall>v q. GetVarint64 p = Some (v, q) \<longrightarrow>
      (\<exists>c. p = c @ q \<and> 1 \<le> length c \<and> length c \<le> 10))"
proof (intro conjI allI impI)
  fix v q assume "GetVarint32 p = Some (v, q)"
  then have "GetVarint_loop 28 0 0 p = Some (v, q)"
    by (auto simp: GetVarint32_def GetVarint32Ptr_eq GetVarint32PtrFallback_def split: option.splits)
  from GetVarint_loop_consumes [OF this]
  obtain c where "p = c @ q" "c \<noteq> []" "7 * (length c - 1) \<le> 28" by auto
  then show "\<exists>c. p = c @ q \<and> 1 \<le> length c \<and> length c \<le> 5" by (cases c) auto
next
  fix v q assume "GetVarint64 p = Some (v, q)"
  then have "GetVarint_loop 63 0 0 p = Some (v, q)"
    by (auto simp: GetVarint64_def GetVarint64Ptr_def split: option.splits)
  from GetVarint_loop_consumes [OF this]
  obtain c where "p = c @ q" "c \<noteq> []" "7 * (length c - 1) \<le> 63" by auto
  then show "\<exists>c. p = c @ q \<and> 1 \<le> length c \<and> length c \<le> 10" by (cases c) auto
qed

theorem varint_readers_in_bounds_witness:
  "GetVarint32 [172, 2, 9] = Some (300, [9]) \<and>
   (\<exists>c. [172, 2, 9] = c @ [9 :: byte] \<and> 1 \<le> length c \<and> length c \<le> 5)"
proof -
  have g: "GetVarint32 [172, 2, 9] = Some (300, [9])" by code_simp
  show ?thesis using g varint_readers_in_bounds [of "[172, 2, 9]"] by blast
qed

text \<open>Fixed-width integers are stored in the same bytes by little-endian and big-endian hosts,
  and every host reads back the value written by any other.\<close>

theorem fixed_width_portable:
  "EncodeFixed16 le a = EncodeFixed16 le' a \<and> EncodeFixed32 le b = EncodeFixed32 le' b \<and>
   EncodeFixed64 le c = EncodeFixed64 le' c \<and>
   DecodeFixed16 le (EncodeFixed16 le' a @ r) = Some a \<and>
   DecodeFixed32 le (EncodeFixed32 le' b @ r) = Some b \<and>
   DecodeFixed64 le (EncodeFixed64 le' c @ r) = Some c"
  by (intro conjI EncodeFixed_host_independent codec_simps)

end
