(* ===== verification/Ordered_Code.thy ===== *)
theory Ordered_Code
  imports TF_Prelude
begin

text \<open>
  \<^verbatim>\<open>core/lib/strings/ordered_code.cc\<close>: encodings of strings, unsigned and signed numbers whose
  byte-wise order is the order of the values, used to build the keys of checkpoint tables. The
  writers take \<^verbatim>\<open>dest\<close> and return it extended; the readers take \<^verbatim>\<open>*src\<close> and return the
  value with the unread rest, \<open>None\<close> where the code returns false. Signed values are 64-bit words
  read with \<open>sint\<close>. The theory shows that the three encodings are order codecs.
\<close>

section \<open>Strings\<close>

definition kEscape1 :: byte where "kEscape1 = 0"
definition kNullCharacter :: byte where "kNullCharacter = 0xff"
definition kSeparator :: byte where "kSeparator = 1"
definition kEscape2 :: byte where "kEscape2 = 0xff"
definition kFFCharacter :: byte where "kFFCharacter = 0"

definition kEscape1_Separator :: bytes where
  "kEscape1_Separator = [kEscape1, kSeparator]"

lemmas escape_defs =
  kEscape1_def kNullCharacter_def kSeparator_def kEscape2_def kFFCharacter_def
  kEscape1_Separator_def

definition IsSpecialByte :: "byte \<Rightarrow> bool" where
  "IsSpecialByte c \<longleftrightarrow> c + 1 < 2"

text \<open>The bytes of \<^verbatim>\<open>[start, limit)\<close> before the pointer returned, and those from it on.\<close>

fun SkipToNextSpecialByte :: "bytes \<Rightarrow> bytes \<times> bytes" where
  "SkipToNextSpecialByte [] = ([], [])"
| "SkipToNextSpecialByte (c # p) =
     (if IsSpecialByte c then ([], c # p)
      else (let (run, q) = SkipToNextSpecialByte p in (c # run, q)))"

lemma SkipToNextSpecialByte_eq:
  "SkipToNextSpecialByte p =
     (takeWhile (\<lambda>c. \<not> IsSpecialByte c) p, dropWhile (\<lambda>c. \<not> IsSpecialByte c) p)"
  by (induction p) auto

lemma SkipToNextSpecialByte_shorter:
  "(run, c # p) = SkipToNextSpecialByte s \<Longrightarrow> length p < length s"
  by (metis SkipToNextSpecialByte_eq length_Cons length_dropWhile_le less_Suc_eq_le not_less snd_conv
      less_le_trans lessI)

function EncodeStringFragment :: "bytes \<Rightarrow> bytes \<Rightarrow> bytes" where
  "EncodeStringFragment dest s =
     (case SkipToNextSpecialByte s of
        (run, []) \<Rightarrow> dest @ run
      | (run, c # p) \<Rightarrow>
          if c = kEscape1 then EncodeStringFragment (dest @ run @ [kEscape1, kNullCharacter]) p
          else EncodeStringFragment (dest @ run @ [kEscape2, kFFCharacter]) p)"
  by pat_completeness auto
termination
  by (relation "measure (length \<circ> snd)") (auto dest: SkipToNextSpecialByte_shorter)

declare EncodeStringFragment.simps [simp del]

definition WriteString :: "bytes \<Rightarrow> bytes \<Rightarrow> bytes" where
  "WriteString dest s = EncodeStringFragment dest s @ kEscape1_Separator"

text \<open>The scan of \<^verbatim>\<open>ReadStringInternal\<close> stops one byte before the end of the input
  (\<^verbatim>\<open>limit = string_limit - 1\<close>), so a special byte it finds always has a successor.\<close>

lemma drop_eq_Cons2_shorter: "drop n xs = a # b # ys \<Longrightarrow> length ys < length xs"
  by (metis Suc_lessD length_Cons length_drop lessI diff_le_self less_le_trans)

function ReadStringInternal :: "bytes \<Rightarrow> bytes \<Rightarrow> (bytes \<times> bytes) option" where
  "ReadStringInternal result src =
     (let run = fst (SkipToNextSpecialByte (butlast src)) in
      (case drop (length run) src of
         c # nxt # rest \<Rightarrow>
           if c = kEscape1 then
             (if nxt = kSeparator then Some (result @ run, rest)
              else if nxt = kNullCharacter then ReadStringInternal (result @ run @ [0]) rest
              else None)
           else
             (if nxt = kFFCharacter then ReadStringInternal (result @ run @ [0xff]) rest
              else None)
       | _ \<Rightarrow> None))"
  by pat_completeness auto
termination
  by (relation "measure (length \<circ> snd)") (auto dest: drop_eq_Cons2_shorter)

declare ReadStringInternal.simps [simp del]

definition ReadString :: "bytes \<Rightarrow> (bytes \<times> bytes) option" where
  "ReadString src = ReadStringInternal [] src"

fun TEST_Corrupt_loop :: "bytes \<Rightarrow> nat \<Rightarrow> nat \<Rightarrow> bytes" where
  "TEST_Corrupt_loop (a # b # str) seen_seps k =
     (if a = kEscape1 \<and> b = kSeparator then
        (if seen_seps + 1 = k then a # (kSeparator + 1) # str
         else a # TEST_Corrupt_loop (b # str) (seen_seps + 1) k)
      else a # TEST_Corrupt_loop (b # str) seen_seps k)"
| "TEST_Corrupt_loop str seen_seps k = str"

definition TEST_Corrupt :: "bytes \<Rightarrow> nat \<Rightarrow> bytes" where
  "TEST_Corrupt str k = TEST_Corrupt_loop str 0 k"

section \<open>Unsigned numbers\<close>

text \<open>The loop fills \<^verbatim>\<open>buf\<close> from its end; \<open>buf\<close> here is the part already written.\<close>

function WriteNumIncreasing_loop :: "uint64 \<Rightarrow> bytes \<Rightarrow> bytes" where
  "WriteNumIncreasing_loop val buf =
     (if val > 0 then WriteNumIncreasing_loop (drop_bit 8 val) (ucast (val AND 0xff) # buf) else buf)"
  by pat_completeness auto
termination
  by (relation "measure (unat \<circ> fst)") (auto simp: unat_drop_bit word_less_nat_alt)

declare WriteNumIncreasing_loop.simps [simp del]

definition WriteNumIncreasing :: "bytes \<Rightarrow> uint64 \<Rightarrow> bytes" where
  "WriteNumIncreasing dest val =
     (let buf = WriteNumIncreasing_loop val [] in dest @ of_nat (length buf) # buf)"

definition ReadNumIncreasing :: "bytes \<Rightarrow> (uint64 \<times> bytes) option" where
  "ReadNumIncreasing src =
     (case src of
        [] \<Rightarrow> None
      | b # rest \<Rightarrow>
          (let len = unat b in
           if len + 1 > length src \<or> len > 8 then None
           else Some (foldl (\<lambda>tmp c. push_bit 8 tmp OR ucast c) 0 (take len rest),
                      drop (len + 1) src)))"

section \<open>Signed numbers\<close>

definition kMaxSigned64Length :: nat where "kMaxSigned64Length = 10"

definition kLengthToHeaderBits :: "(byte \<times> byte) list" where
  "kLengthToHeaderBits =
     [(0, 0), (0x80, 0), (0xc0, 0), (0xe0, 0), (0xf0, 0), (0xf8, 0), (0xfc, 0), (0xfe, 0),
      (0xff, 0), (0xff, 0x80), (0xff, 0xc0)]"

definition kLengthToMask :: "uint64 list" where
  "kLengthToMask =
     [0, 0x80, 0xc000, 0xe00000, 0xf0000000, 0xf800000000, 0xfc0000000000, 0xfe000000000000,
      0xff00000000000000, 0x8000000000000000, 0]"

definition kBitsToLength :: "nat list" where
  "kBitsToLength =
     [1, 1, 1, 1, 1, 1, 1, 2, 2, 2, 2, 2, 2, 2, 3, 3, 3, 3, 3, 3, 3, 4,
      4, 4, 4, 4, 4, 4, 5, 5, 5, 5, 5, 5, 5, 6, 6, 6, 6, 6, 6, 6, 7, 7,
      7, 7, 7, 7, 7, 8, 8, 8, 8, 8, 8, 8, 9, 9, 9, 9, 9, 9, 9, 10]"

text \<open>\<^verbatim>\<open>__builtin_clzll\<close>: the number of leading zero bits (undefined for 0, which the
  caller excludes).\<close>

definition builtin_clzll :: "uint64 \<Rightarrow> nat" where
  "builtin_clzll n = length (takeWhile (\<lambda>i. \<not> bit n i) (rev [0..<64]))"

definition Log2Floor64 :: "uint64 \<Rightarrow> int" where
  "Log2Floor64 n = (if n = 0 then -1 else 63 XOR int (builtin_clzll n))"

text \<open>The portable version, for compilers other than GCC.\<close>

definition Log2Floor32_step :: "uint32 \<times> int \<Rightarrow> nat \<Rightarrow> uint32 \<times> int" where
  "Log2Floor32_step = (\<lambda>(val, lg) i.
     (let shift = 2 ^ i; x = drop_bit shift val in
      if x \<noteq> 0 then (x, lg + int shift) else (val, lg)))"

definition Log2Floor32_Portable :: "uint32 \<Rightarrow> int" where
  "Log2Floor32_Portable n =
     (if n = 0 then -1 else snd (foldl Log2Floor32_step (n, 0) [4, 3, 2, 1, 0]))"

definition Log2Floor64_Portable :: "uint64 \<Rightarrow> int" where
  "Log2Floor64_Portable n =
     (let topbits = (ucast (drop_bit 32 n) :: uint32) in
      if topbits = 0 then Log2Floor32_Portable (ucast n)
      else 32 + Log2Floor32_Portable topbits)"

definition SignedEncodingLength :: "int64 \<Rightarrow> nat" where
  "SignedEncodingLength n = kBitsToLength ! nat (Log2Floor64 (if sint n < 0 then NOT n else n) + 1)"

definition StoreBigEndian64 :: "uint64 \<Rightarrow> bytes" where
  "StoreBigEndian64 v = map (\<lambda>i. ucast (drop_bit (56 - 8 * i) v AND 0xff)) [0..<8]"

definition LoadBigEndian64 :: "bytes \<Rightarrow> uint64" where
  "LoadBigEndian64 src =
     foldl (\<lambda>result i. result OR push_bit (56 - 8 * i) (ucast (src ! i))) 0 [0..<8]"

definition WriteSignedNumIncreasing :: "bytes \<Rightarrow> int64 \<Rightarrow> bytes" where
  "WriteSignedNumIncreasing dest val =
     (let x = (if sint val < 0 then NOT val else val) in
      if x < 64 then dest @ [fst (kLengthToHeaderBits ! 1) XOR ucast val]
      else
        let sign_byte = (if sint val < 0 then 0xff else 0);
            buf = [sign_byte, sign_byte] @ StoreBigEndian64 val;
            len = SignedEncodingLength x;
            start = drop (10 - len) buf;
            start = start[0 := start ! 0 XOR fst (kLengthToHeaderBits ! len)];
            start = start[1 := start ! 1 XOR snd (kLengthToHeaderBits ! len)]
        in dest @ start)"

definition ReadSignedNumIncreasing :: "bytes \<Rightarrow> (int64 \<times> bytes) option" where
  "ReadSignedNumIncreasing src =
     (if src = [] then None
      else
        let xor_mask = (if \<not> (src ! 0 AND 0x80 \<noteq> 0) then NOT 0 else 0 :: uint64);
            m = ucast (xor_mask AND 0xff) :: byte;
            first_byte = src ! 0 XOR m;
            finish = (\<lambda>len x. Some (x XOR kLengthToMask ! len, drop len src))
        in
          if first_byte \<noteq> 0xff then
            (let len = nat (7 - Log2Floor64 (ucast first_byte XOR 0xff)) in
             if length src < len then None
             else finish len (foldl (\<lambda>x c. push_bit 8 x OR ucast c) xor_mask (take len src)))
          else if length src < 8 then None
          else
            (let second_byte = src ! 1 XOR m in
             if second_byte \<ge> 0x80 then
               (if second_byte < 0xc0 then
                  (if length src < 9 then None
                   else finish 9 (LoadBigEndian64 (drop 1 src)))
                else
                  (let third_byte = src ! 2 XOR m in
                   if second_byte = 0xc0 \<and> third_byte < 0x80 then
                     (if length src < 10 then None
                      else finish 10 (LoadBigEndian64 (drop 2 src)))
                   else None))
             else finish 8 (LoadBigEndian64 src)))"

section \<open>Strings: round trip and order\<close>

text \<open>The escape of one character; the fragment encoder is its pointwise extension.\<close>

definition escape_byte :: "byte \<Rightarrow> bytes" where
  "escape_byte c =
     (if c = kEscape1 then [kEscape1, kNullCharacter]
      else if c = kEscape2 then [kEscape2, kFFCharacter] else [c])"

lemma IsSpecialByte_iff: "IsSpecialByte c \<longleftrightarrow> c = kEscape1 \<or> c = kEscape2"
proof -
  have "c + 1 < 2 \<longleftrightarrow> c = 0 \<or> c = 255" by unat_arith auto
  then show ?thesis by (simp add: IsSpecialByte_def escape_defs)
qed

lemma escape_neq [simp]: "kEscape2 \<noteq> kEscape1" "kNullCharacter \<noteq> kSeparator"
  by (simp_all add: escape_defs)

lemma escape_byte_simps [simp]:
  "escape_byte kEscape1 = [kEscape1, kNullCharacter]"
  "escape_byte kEscape2 = [kEscape2, kFFCharacter]"
  "\<not> IsSpecialByte c \<Longrightarrow> escape_byte c = [c]"
  by (auto simp: escape_byte_def IsSpecialByte_iff)

lemma concat_escape_plain:
  "\<forall>c\<in>set run. \<not> IsSpecialByte c \<Longrightarrow> concat (map escape_byte run) = run"
  by (induction run) auto

lemma SkipToNextSpecialByteD:
  assumes "SkipToNextSpecialByte s = (run, rest)"
  shows "s = run @ rest" "\<forall>c\<in>set run. \<not> IsSpecialByte c"
    "rest = [] \<or> IsSpecialByte (hd rest)"
  using assms hd_dropWhile [of "\<lambda>c. \<not> IsSpecialByte c" s]
  by (auto simp: SkipToNextSpecialByte_eq dest: set_takeWhileD)

lemma EncodeStringFragment_eq: "EncodeStringFragment dest s = dest @ concat (map escape_byte s)"
proof (induction dest s rule: EncodeStringFragment.induct)
  case (1 dest s)
  obtain run rest where sk: "SkipToNextSpecialByte s = (run, rest)" by fastforce
  note d = SkipToNextSpecialByteD [OF sk]
  show ?case
  proof (cases rest)
    case Nil
    then show ?thesis using sk d by (subst EncodeStringFragment.simps) (simp add: concat_escape_plain)
  next
    case (Cons c p)
    then have c: "c = kEscape1 \<or> c = kEscape2" using d(3) by (simp add: IsSpecialByte_iff)
    show ?thesis
      using "1.IH"(1) [OF sk [symmetric] Cons] "1.IH"(2) [OF sk [symmetric] Cons] sk d(1,2) Cons c
      by (subst EncodeStringFragment.simps) (auto simp: concat_escape_plain)
  qed
qed

lemma WriteString_eq: "WriteString dest s = dest @ WriteString [] s"
  by (simp add: WriteString_def EncodeStringFragment_eq)

text \<open>Reading one escaped character at a time.\<close>

lemma ReadStringInternal_end:
  "ReadStringInternal result (kEscape1 # kSeparator # r) = Some (result, r)"
  by (subst ReadStringInternal.simps) (simp add: IsSpecialByte_iff)

lemma ReadStringInternal_escape:
  assumes "r \<noteq> []"
  shows "ReadStringInternal result (escape_byte c @ r) = ReadStringInternal (result @ [c]) r"
proof (cases "IsSpecialByte c")
  case True
  then consider "c = kEscape1" | "c = kEscape2" by (auto simp: IsSpecialByte_iff)
  then show ?thesis
    by cases (subst ReadStringInternal.simps, simp add: IsSpecialByte_iff, simp add: escape_defs)+
next
  case False
  then show ?thesis
    using assms
    by (subst (1 2) ReadStringInternal.simps) (simp add: Let_def case_prod_unfold split: list.split)
qed

lemma ReadStringInternal_roundtrip:
  "ReadStringInternal result (concat (map escape_byte s) @ kEscape1 # kSeparator # r) =
     Some (result @ s, r)"
proof (induction s arbitrary: result)
  case Nil then show ?case by (simp add: ReadStringInternal_end)
next
  case (Cons c s)
  then show ?case
    using ReadStringInternal_escape
      [of "concat (map escape_byte s) @ kEscape1 # kSeparator # r" result c] by simp
qed

lemma ReadString_WriteString [codec_simps]: "ReadString (WriteString [] s @ r) = Some (s, r)"
  using ReadStringInternal_roundtrip [of "[]" s r]
  by (simp add: ReadString_def WriteString_def EncodeStringFragment_eq kEscape1_Separator_def)

lemma escape_byte_less:
  "a < b \<Longrightarrow> escape_byte a @ xs < escape_byte b @ ys"
  using word_order.extremum [of b] word_order.extremum [of a]
  by (auto simp: escape_byte_def escape_defs word_gt_0)

lemma separator_less_escape: "kEscape1_Separator @ xs < escape_byte b @ ys"
  by (auto simp: escape_byte_def escape_defs word_gt_0)

lemma WriteString_mono:
  assumes "x < y" shows "WriteString [] x < WriteString [] y"
  using assms
proof (cases rule: lex_less_cases)
  case strict_prefix
  then obtain b z where "y = x @ b # z" by (auto simp: strict_prefix_def prefix_def) (metis list.exhaust)
  then show ?thesis
    using separator_less_escape [of "[]" b] by (simp add: WriteString_def EncodeStringFragment_eq)
next
  case (differ p a b us vs)
  then show ?thesis
    using escape_byte_less by (simp add: WriteString_def EncodeStringFragment_eq)
qed

interpretation ordered_string: order_codec "WriteString []" ReadString "\<lambda>s. s"
  by unfold_locales (auto intro: ReadString_WriteString WriteString_mono)

section \<open>Big-endian byte strings of integers\<close>

text \<open>The last \<open>n\<close> bytes of the two's complement representation of an integer, most significant
  first: what the number encoders store.\<close>

fun be_bytes :: "nat \<Rightarrow> int \<Rightarrow> bytes" where
  "be_bytes 0 i = []"
| "be_bytes (Suc n) i = word_of_int (drop_bit (8 * n) i) # be_bytes n i"

lemma length_be_bytes [simp]: "length (be_bytes n i) = n"
  by (induction n) auto

lemma be_bytes_numeral:
  "be_bytes (numeral k) i =
     word_of_int (drop_bit (8 * pred_numeral k) i) # be_bytes (pred_numeral k) i"
  by (simp add: numeral_eq_Suc)

lemma be_bytes_nth: "k < n \<Longrightarrow> be_bytes n i ! k = word_of_int (drop_bit (8 * (n - Suc k)) i)"
  by (induction n arbitrary: k) (auto simp: nth_Cons split: nat.split)

lemma drop_be_bytes: "k \<le> n \<Longrightarrow> drop (n - k) (be_bytes n i) = be_bytes k i"
  by (rule nth_equalityI) (auto simp: be_bytes_nth)

lemma be_bytes_cong:
  "take_bit (8 * n) i = take_bit (8 * n) j \<Longrightarrow> be_bytes n i = be_bytes n j"
proof (rule nth_equalityI)
  fix k assume eq: "take_bit (8 * n) i = take_bit (8 * n) j" and k: "k < length (be_bytes n i)"
  have "(word_of_int (drop_bit (8 * (n - Suc k)) i) :: byte) = word_of_int (drop_bit (8 * (n - Suc k)) j)"
  proof (rule bit_word_eqI)
    fix m assume "m < LENGTH(8)"
    then have "8 * (n - Suc k) + m < 8 * n" using k by simp
    then have "bit i (8 * (n - Suc k) + m) = bit j (8 * (n - Suc k) + m)"
      using eq by (metis bit_take_bit_iff)
    then show "bit (word_of_int (drop_bit (8 * (n - Suc k)) i) :: byte) m =
        bit (word_of_int (drop_bit (8 * (n - Suc k)) j) :: byte) m"
      by (simp add: bit_simps)
  qed
  then show "be_bytes n i ! k = be_bytes n j ! k" using k by (simp add: be_bytes_nth)
qed simp

lemma foldl_be_bytes:
  "foldl (\<lambda>x c. push_bit 8 x OR ucast c) a (be_bytes n i) =
     (push_bit (8 * n) a OR word_of_int (take_bit (8 * n) i) :: 'a::len word)"
proof (induction n arbitrary: a)
  case (Suc n)
  have "push_bit (8 * n) (ucast (word_of_int (drop_bit (8 * n) i) :: byte)) OR
      word_of_int (take_bit (8 * n) i) = (word_of_int (take_bit (8 * n + 8) i) :: 'a word)"
  proof (rule bit_word_eqI)
    fix m assume "m < LENGTH('a)"
    then show "bit (push_bit (8 * n) (ucast (word_of_int (drop_bit (8 * n) i) :: byte)) OR
        word_of_int (take_bit (8 * n) i) :: 'a word) m =
        bit (word_of_int (take_bit (8 * n + 8) i) :: 'a word) m"
      by (cases "m < 8 * n") (auto simp: bit_simps)
  qed
  then show ?case by (simp add: Suc.IH push_bit_or or.assoc add.commute)
qed simp

lemma be_bytes_append_zeros:
  "be_bytes (n + k) (push_bit (8 * k) i) = be_bytes n i @ replicate k 0"
proof (rule nth_equalityI)
  fix j assume j: "j < length (be_bytes (n + k) (push_bit (8 * k) i))"
  have "(word_of_int (drop_bit (8 * (n + k - Suc j)) (push_bit (8 * k) i)) :: byte) =
      (if j < n then word_of_int (drop_bit (8 * (n - Suc j)) i) else 0)"
  proof (rule bit_word_eqI)
    fix m assume "m < LENGTH(8)"
    moreover have "8 * (n + k - Suc j) = 8 * (n - Suc j) + 8 * k" if "j < n" using that by simp
    moreover have "8 * (n + k - Suc j) + 8 \<le> 8 * k" if "\<not> j < n" using that j by simp
    ultimately show "bit (word_of_int (drop_bit (8 * (n + k - Suc j)) (push_bit (8 * k) i)) :: byte) m =
        bit (if j < n then word_of_int (drop_bit (8 * (n - Suc j)) i) else 0 :: byte) m"
      by (auto simp: bit_simps)
  qed
  then show "be_bytes (n + k) (push_bit (8 * k) i) ! j = (be_bytes n i @ replicate k 0) ! j"
    using j by (simp add: be_bytes_nth nth_append)
qed simp

lemma be_bytes_less_same_length:
  "take_bit (8 * n) i < take_bit (8 * n) j \<Longrightarrow> be_bytes n i < be_bytes n j"
proof (induction n arbitrary: i j)
  case (Suc n)
  have split: "take_bit (8 * Suc n) x = take_bit 8 (drop_bit (8 * n) x) * 2 ^ (8 * n) + take_bit (8 * n) x"
    for x :: int
    using zmod_zmult2_eq [of 256 x "2 ^ (8 * n)"]
    by (simp add: take_bit_eq_mod drop_bit_eq_div power_add mult.commute add.commute)
  let ?hi = "\<lambda>x :: int. take_bit 8 (drop_bit (8 * n) x)" and ?lo = "\<lambda>x :: int. take_bit (8 * n) x"
  have lo: "0 \<le> ?lo x" "?lo x < 2 ^ (8 * n)" for x :: int by simp_all
  consider "?hi i < ?hi j" | "?hi i = ?hi j" "?lo i < ?lo j"
  proof (cases "?hi i" "?hi j" rule: linorder_cases)
    case greater
    then have "?hi j * 2 ^ (8 * n) + 2 ^ (8 * n) \<le> ?hi i * 2 ^ (8 * n)"
      by (metis add1_zle_eq distrib_right mult_1 mult_right_mono zero_le_numeral zero_le_power)
    then show ?thesis using Suc.prems lo [of i] lo [of j] unfolding split by linarith
  qed (use Suc.prems that split in auto)
  then show ?case
  proof cases
    case 1
    then show ?thesis by (simp add: word_less_def uint_word_of_int_eq)
  next
    case 2
    then have "(word_of_int (drop_bit (8 * n) i) :: byte) = word_of_int (drop_bit (8 * n) j)"
      by (simp add: word_uint_eq_iff uint_word_of_int_eq)
    then show ?thesis using Suc.IH [OF 2(2)] by simp
  qed
qed simp

lemma zeros_least: "length xs = n \<Longrightarrow> replicate n 0 \<le> (xs :: bytes)"
proof (induction n arbitrary: xs)
  case (Suc n)
  then show ?case by (cases xs) (auto simp: word_gt_0)
qed simp

lemma lex_less_padded:
  assumes less: "xs @ replicate a 0 < ys @ replicate b (0 :: byte)"
    and len: "length xs + a = length ys + b"
  shows "xs < ys"
proof (rule ccontr)
  assume "\<not> xs < ys"
  then consider "ys = xs" | "ys < xs" by force
  then show False
  proof cases
    case 1
    then show False using less len by simp
  next
    case 2
    then show False
    proof (cases rule: lex_less_cases)
      case strict_prefix
      then obtain zs where zs: "xs = ys @ zs" by (auto simp: strict_prefix_def prefix_def)
      then have "zs @ replicate a 0 < replicate b 0" using less by simp
      moreover have "length (zs @ replicate a 0) = b" using len zs by simp
      ultimately show False using zeros_least by (metis not_less)
    next
      case (differ p c d us vs)
      then show False using less by auto
    qed
  qed
qed

lemma be_bytes_less:
  assumes "take_bit (8 * k) i * 2 ^ (8 * (N - k)) < take_bit (8 * l) j * 2 ^ (8 * (N - l))"
    and "k \<le> N" "l \<le> N"
  shows "be_bytes k i < be_bytes l j"
proof -
  have *: "take_bit (8 * N) (push_bit (8 * (N - m)) x) = take_bit (8 * m) x * 2 ^ (8 * (N - m))"
    if "m \<le> N" for m and x :: int
  proof -
    have "8 * N - 8 * (N - m) = 8 * m" using that by simp
    then have "take_bit (8 * N) (push_bit (8 * (N - m)) x) = push_bit (8 * (N - m)) (take_bit (8 * m) x)"
      by (simp only: take_bit_push_bit)
    then show ?thesis by (simp only: push_bit_eq_mult)
  qed
  have "be_bytes N (push_bit (8 * (N - k)) i) < be_bytes N (push_bit (8 * (N - l)) j)"
    by (rule be_bytes_less_same_length) (use assms * in simp)
  then have "be_bytes k i @ replicate (N - k) 0 < be_bytes l j @ replicate (N - l) 0"
    using be_bytes_append_zeros [of k "N - k" i] be_bytes_append_zeros [of l "N - l" j] assms(2,3)
    by simp
  then show ?thesis by (rule lex_less_padded) (use assms(2,3) in simp)
qed

lemma be_bytes_snoc: "be_bytes (Suc n) i = be_bytes n (drop_bit 8 i) @ [word_of_int i]"
  by (induction n) (auto simp: add.commute)

text \<open>\<^verbatim>\<open>TEST_Corrupt\<close> looks for the separator as a pair of bytes and so also finds one across
  the escape of \<open>0xff\<close> and a following \<open>0x01\<close>: it then damages the payload, not the separator, and
  the damage goes unnoticed.\<close>

lemma TEST_Corrupt_payload:
  "ReadString (TEST_Corrupt (WriteString [] [0xff, 1]) 1) = Some ([0xff, 2], [])"
  by code_simp

section \<open>Unsigned numbers: round trip and order\<close>

definition num_length :: "uint64 \<Rightarrow> nat" where
  "num_length val = length (WriteNumIncreasing_loop val [])"

lemma WriteNumIncreasing_loop_props:
  "\<exists>n. WriteNumIncreasing_loop val buf = be_bytes n (uint val) @ buf \<and>
       uint val < 2 ^ (8 * n) \<and> (0 < n \<longrightarrow> 2 ^ (8 * (n - 1)) \<le> uint val)"
proof (induction val buf rule: WriteNumIncreasing_loop.induct)
  case (1 val buf)
  show ?case
  proof (cases "val > 0")
    case True
    from "1.IH" [OF True] obtain n where
      n: "WriteNumIncreasing_loop (drop_bit 8 val) (ucast (val AND 0xff) # buf) =
          be_bytes n (uint (drop_bit 8 val)) @ ucast (val AND 0xff) # buf"
        "uint (drop_bit 8 val) < 2 ^ (8 * n)"
        "0 < n \<longrightarrow> 2 ^ (8 * (n - 1)) \<le> uint (drop_bit 8 val)" by blast
    have u: "uint (drop_bit 8 val) = drop_bit 8 (uint val)"
      by (rule uint_drop_bit)
    have "WriteNumIncreasing_loop val buf = be_bytes (Suc n) (uint val) @ buf"
      using n(1) True unfolding be_bytes_snoc u
      by (subst WriteNumIncreasing_loop.simps) simp
    moreover have "uint val < 2 ^ (8 * Suc n)" using n(2) unfolding u
      by (simp add: drop_bit_eq_div power_add)
    moreover have "2 ^ (8 * n) \<le> uint val"
    proof (cases n)
      case 0
      then show ?thesis using True by (simp add: word_less_def)
    next
      case (Suc m)
      then have "2 ^ (8 * m) \<le> uint val div 256" using n(3) unfolding u by (simp add: drop_bit_eq_div)
      then show ?thesis using Suc by (simp add: power_add)
    qed
    ultimately show ?thesis by (intro exI [of _ "Suc n"]) simp
  next
    case False
    then show ?thesis by (intro exI [of _ 0], subst WriteNumIncreasing_loop.simps)
        (simp add: word_gt_0)
  qed
qed

lemma WriteNumIncreasing_loop_eq:
  "WriteNumIncreasing_loop val [] = be_bytes (num_length val) (uint val)"
  "uint val < 2 ^ (8 * num_length val)"
  "0 < num_length val \<Longrightarrow> 2 ^ (8 * (num_length val - 1)) \<le> uint val"
  using WriteNumIncreasing_loop_props [of val "[]"] by (auto simp: num_length_def)

lemma num_length_le: "num_length val \<le> 8"
proof (rule ccontr)
  assume "\<not> num_length val \<le> 8"
  then have "(2::int) ^ 64 \<le> 2 ^ (8 * (num_length val - 1))" by (intro power_increasing) auto
  then show False using WriteNumIncreasing_loop_eq(3) [of val] \<open>\<not> num_length val \<le> 8\<close>
      unsigned_less [of val, where ?'a = int] by simp
qed

lemma WriteNumIncreasing_eq:
  "WriteNumIncreasing dest val =
     dest @ of_nat (num_length val) # be_bytes (num_length val) (uint val)"
  by (simp add: WriteNumIncreasing_def WriteNumIncreasing_loop_eq(1) Let_def)

lemma ReadNumIncreasing_WriteNumIncreasing [codec_simps]:
  "ReadNumIncreasing (WriteNumIncreasing [] val @ r) = Some (val, r)"
proof -
  have "unat (of_nat (num_length val) :: byte) = num_length val"
    using num_length_le [of val] by (simp add: unat_of_nat)
  moreover have "take_bit (8 * num_length val) (uint val) = uint val"
    using WriteNumIncreasing_loop_eq(2) by (simp add: take_bit_int_eq_self)
  ultimately show ?thesis
    using num_length_le [of val] 
    by (simp add: ReadNumIncreasing_def WriteNumIncreasing_eq foldl_be_bytes Let_def)
qed

lemma WriteNumIncreasing_mono:
  assumes "x < y" shows "WriteNumIncreasing [] x < WriteNumIncreasing [] y"
proof -
  have xy: "uint x < uint y" using assms by (simp add: word_less_def)
  have "num_length x \<le> num_length y"
  proof (rule ccontr)
    assume *: "\<not> num_length x \<le> num_length y"
    then have "(2::int) ^ (8 * num_length y) \<le> 2 ^ (8 * (num_length x - 1))"
      by (intro power_increasing) auto
    then show False using WriteNumIncreasing_loop_eq(3) [of x] * WriteNumIncreasing_loop_eq(2) [of y] xy by linarith
  qed
  then consider "num_length x < num_length y" | "num_length x = num_length y" by linarith
  then show ?thesis
  proof cases
    case 1
    then have "(of_nat (num_length x) :: byte) < of_nat (num_length y)"
      using num_length_le [of y] by (simp add: word_less_nat_alt unat_of_nat)
    then show ?thesis by (simp add: WriteNumIncreasing_eq)
  next
    case 2
    then have "take_bit (8 * num_length y) (uint x) < take_bit (8 * num_length y) (uint y)"
      using WriteNumIncreasing_loop_eq(2) [of x] WriteNumIncreasing_loop_eq(2) [of y] xy
      by (simp add: take_bit_int_eq_self)
    then show ?thesis using be_bytes_less_same_length 2 by (simp add: WriteNumIncreasing_eq)
  qed
qed

interpretation ordered_num: order_codec "WriteNumIncreasing []" ReadNumIncreasing "\<lambda>v. v"
  by unfold_locales (auto intro: ReadNumIncreasing_WriteNumIncreasing WriteNumIncreasing_mono)

section \<open>Signed numbers: lengths\<close>

lemma highest_bit:
  assumes "2 ^ k \<le> unat (n :: 'a::len word)" "unat n < 2 ^ Suc k"
  shows "bit n k" "j > k \<Longrightarrow> \<not> bit n j" "k < LENGTH('a)"
proof -
  have "unat n div 2 ^ k = 1" using assms by (simp add: div_nat_eqI)
  then have "bit (unat n) k" by (simp add: bit_iff_odd)
  then show b: "bit n k" by (simp add: bit_simps)
  then show "k < LENGTH('a)" by (rule bit_imp_le_length)
  show "j > k \<Longrightarrow> \<not> bit n j" using bit_small_word [OF assms(2)] by simp
qed

lemma Log2Floor64_unique:
  assumes "2 ^ k \<le> unat n" "unat n < 2 ^ Suc k"
  shows "Log2Floor64 n = int k"
proof -
  note hb = highest_bit [OF assms]
  have k: "k < 64" using hb(3) by simp
  have "[0..<64] = [0..<k] @ k # [Suc k..<64]"
    using k upt_add_eq_append [of 0 k "64 - k"] upt_conv_Cons [of k 64] by simp
  then have "rev [0..<64] = rev [Suc k..<64] @ k # rev [0..<k]" by simp
  moreover have "\<forall>i\<in>set (rev [Suc k..<64]). \<not> bit n i" using hb(2) by simp
  ultimately have "builtin_clzll n = 63 - k"
    using hb(1) k unfolding builtin_clzll_def by (simp add: takeWhile_append takeWhile_eq_all_conv)
  moreover have "n \<noteq> 0" using assms(1) by auto
  moreover have "\<forall>k\<in>set [0..<64]. 63 XOR int (63 - k) = int k" by code_simp
  ultimately show ?thesis using k by (simp add: Log2Floor64_def)
qed

lemma Log2Floor64_bounds:
  assumes "n \<noteq> 0"
  obtains k where "k < 64" "Log2Floor64 n = int k" "2 ^ k \<le> unat n" "unat n < 2 ^ Suc k"
proof -
  have "1 \<le> unat n" using assms by (simp add: unat_gt_0 Suc_leI)
  then obtain k where k: "2 ^ k \<le> unat n" "unat n < 2 ^ (k + 1)"
    using ex_power_ivl1 [of 2 "unat n"] by auto
  then show thesis using that [of k] highest_bit(3) [of k n] Log2Floor64_unique [of k n] by simp
qed

lemma kBitsToLength_eq: "b < 64 \<Longrightarrow> kBitsToLength ! b = b div 7 + 1"
proof -
  have "\<forall>b\<in>set [0..<64]. kBitsToLength ! b = b div 7 + 1" by code_simp
  then show "b < 64 \<Longrightarrow> ?thesis" by simp
qed

text \<open>The header bits of an encoding of \<open>L\<close> bytes, as a number of \<open>8 * L\<close> bits, and the encoded
  number: the payload with the header bits flipped.\<close>

definition header :: "nat \<Rightarrow> int" where
  "header L = push_bit (7 * L) (mask L)"

lemma StoreBigEndian64_eq: "StoreBigEndian64 v = be_bytes 8 (sint v)"
proof (rule nth_equalityI)
  fix k assume "k < length (StoreBigEndian64 v)"
  then have k: "k < 8" by (simp add: StoreBigEndian64_def)
  then have "56 - 8 * k = 8 * (8 - Suc k)" by simp
  then have "StoreBigEndian64 v ! k = ucast (drop_bit (8 * (8 - Suc k)) v)"
    using k by (simp add: StoreBigEndian64_def)
  also have "\<dots> = word_of_int (drop_bit (8 * (8 - Suc k)) (sint v))"
    using k by (intro bit_word_eqI) (auto simp: bit_simps)
  finally show "StoreBigEndian64 v ! k = be_bytes 8 (sint v) ! k" using k by (simp add: be_bytes_nth)
qed (simp add: StoreBigEndian64_def)

lemma drop_bit_small_int:
  fixes i :: int
  assumes "- (2 ^ n) \<le> i" "i < 2 ^ n" shows "drop_bit n i = (if i < 0 then -1 else 0)"
  using assms int_div_pos_eq [of i "2 ^ n" "-1" "i + 2 ^ n"]
  by (auto simp: drop_bit_eq_div div_pos_pos_trivial)

lemma drop_bit_sint: "64 \<le> n \<Longrightarrow> drop_bit n (sint (v :: int64)) = (if sint v < 0 then -1 else 0)"
proof (rule drop_bit_small_int)
  assume "64 \<le> n"
  then have "(2::int) ^ 63 \<le> 2 ^ n" by (intro power_increasing) auto
  then show "- (2 ^ n) \<le> sint v" "sint v < 2 ^ n"
    using sint_ge [of v] sint_lt [of v] by auto
qed

lemma be_bytes_sint10: "be_bytes 10 (sint (v :: int64)) =
   [if sint v < 0 then 0xff else 0, if sint v < 0 then 0xff else 0] @ StoreBigEndian64 v"
  by (simp add: be_bytes_numeral StoreBigEndian64_eq drop_bit_sint)

lemma word_of_int_xor: "(word_of_int (a XOR b) :: 'a::len word) = word_of_int a XOR word_of_int b"
  by (rule bit_word_eqI) (auto simp: bit_simps)

lemma eq_xor_self_iff: "x = x XOR k \<longleftrightarrow> k = (0 :: 'a::len word)"
  by (metis word_bw_assocs(3) word_bw_same(3) xor.left_neutral xor.right_neutral)

lemma WriteSigned_header:
  assumes "2 \<le> L" "L \<le> 10"
  shows "(let b = be_bytes L i;
              b = b[0 := b ! 0 XOR fst (kLengthToHeaderBits ! L)]
          in b[1 := b ! 1 XOR snd (kLengthToHeaderBits ! L)]) = be_bytes L (i XOR header L)"
proof -
  have "L \<in> {2, 3, 4, 5, 6, 7, 8, 9, 10}" using assms by auto
  moreover have lits: "(65408 :: byte) = 128" "(65472 :: byte) = 192" by simp_all
  ultimately show ?thesis
    by (auto simp: kLengthToHeaderBits_def header_def be_bytes_numeral mask_numeral word_of_int_xor eq_xor_self_iff lits)
qed
lemma uint_less_exp_iff: "uint w < 2 ^ k \<longleftrightarrow> unat w < 2 ^ k"
proof -
  have "uint w < 2 ^ k \<longleftrightarrow> int (unat w) < int (2 ^ k)" by simp
  then show ?thesis by (simp only: of_nat_less_iff)
qed

text \<open>The magnitude whose bits decide the length: \<^verbatim>\<open>val < 0 ? ~val : val\<close>.\<close>

definition magnitude :: "int64 \<Rightarrow> uint64" where
  "magnitude v = (if sint v < 0 then NOT v else v)"

lemma sint_eq_uint64: "\<not> sint (v :: int64) < 0 \<Longrightarrow> sint v = uint v"
proof (rule bit_eqI)
  fix n assume "\<not> sint v < 0"
  then have "\<not> bit v 63" using bit_last_iff [of v] by simp
  moreover have "bit v n \<Longrightarrow> n < 64" using bit_imp_le_length [of v n] by simp
  ultimately show "bit (sint v) n = bit (uint v) n"
    by (cases "n < 63"; cases "n = 63") (auto simp: bit_simps min_def)
qed

lemma sint_not: "sint (NOT (v :: int64)) = - sint v - 1"
proof -
  have "sint (NOT v) = NOT (sint v)" 
    by (rule bit_eqI) (auto simp: bit_simps)
  then show ?thesis by (simp add: not_eq_complement)
qed

lemma magnitude_props:
  "sint (magnitude v) = (if sint v < 0 then - sint v - 1 else sint v)"
  "0 \<le> sint (magnitude v)"
  "uint (magnitude v) = (if sint v < 0 then - sint v - 1 else sint v)"
  "unat (magnitude v) < 2 ^ 63"
proof -
  show 1: "sint (magnitude v) = (if sint v < 0 then - sint v - 1 else sint v)"
    by (simp add: magnitude_def sint_not)
  then show 2: "0 \<le> sint (magnitude v)" by auto
  then show 3: "uint (magnitude v) = (if sint v < 0 then - sint v - 1 else sint v)"
    using 1 sint_eq_uint64 [of "magnitude v"] by simp
  have "uint (magnitude v) < 2 ^ 63" using 3 sint_ge [of v] sint_lt [of v] by auto
  then show "unat (magnitude v) < 2 ^ 63" by (simp only: uint_less_exp_iff)
qed

definition signed_bits :: "int64 \<Rightarrow> nat" where
  "signed_bits v = nat (Log2Floor64 (magnitude v) + 1)"

definition signed_length :: "int64 \<Rightarrow> nat" where
  "signed_length v = signed_bits v div 7 + 1"

lemma signed_bits_le_iff: "signed_bits v \<le> k \<longleftrightarrow> unat (magnitude v) < 2 ^ k"
proof (cases "magnitude v = 0")
  case True
  then show ?thesis by (simp add: signed_bits_def Log2Floor64_def)
next
  case False
  then obtain m where m: "Log2Floor64 (magnitude v) = int m"
    "2 ^ m \<le> unat (magnitude v)" "unat (magnitude v) < 2 ^ Suc m"
    by (rule Log2Floor64_bounds)
  then have b: "signed_bits v = Suc m" by (simp add: signed_bits_def)
  have "unat (magnitude v) < 2 ^ k" if "Suc m \<le> k"
    using m(3) power_increasing [OF that, of "2::nat"] by linarith
  moreover have "Suc m \<le> k" if "unat (magnitude v) < 2 ^ k"
  proof -
    have "(2::nat) ^ m < 2 ^ k" using m(2) that by (rule le_less_trans)
    then show ?thesis by (simp only: power_strict_increasing_iff Suc_le_eq)
  qed
  ultimately show ?thesis using b by auto
qed

lemma signed_bits_lt_64: "signed_bits v < 64"
  using signed_bits_le_iff [of v 63] magnitude_props(4) [of v] by simp

lemma signed_length_range: "1 \<le> signed_length v" "signed_length v \<le> 10"
  using signed_bits_lt_64 [of v] by (auto simp: signed_length_def)

lemma magnitude_lt_payload: "unat (magnitude v) < 2 ^ (7 * signed_length v - 1)"
proof -
  have "signed_bits v \<le> 7 * signed_length v - 1" by (simp add: signed_length_def)
  then show ?thesis by (simp only: signed_bits_le_iff)
qed

lemma SignedEncodingLength_magnitude:
  "SignedEncodingLength (magnitude v) = signed_length v"
proof -
  have "magnitude (magnitude v) = magnitude v" using magnitude_props(2) [of v] by (simp add: magnitude_def)
  then have "SignedEncodingLength (magnitude v) = kBitsToLength ! signed_bits v"
    by (simp add: SignedEncodingLength_def signed_bits_def magnitude_def)
  then show ?thesis using kBitsToLength_eq signed_bits_lt_64 by (simp add: signed_length_def)
qed

lemma signed_length_1_iff: "magnitude v < 64 \<longleftrightarrow> signed_length v = 1"
proof -
  have "magnitude v < 64 \<longleftrightarrow> signed_bits v \<le> 6"
    using signed_bits_le_iff [of v 6] by (simp add: word_less_nat_alt)
  then show ?thesis by (auto simp: signed_length_def div_eq_0_iff)
qed

lemma signed_length_mono:
  assumes "unat (magnitude v) \<le> unat (magnitude w)" shows "signed_length v \<le> signed_length w"
proof -
  have "unat (magnitude v) < 2 ^ signed_bits w"
    using assms signed_bits_le_iff [of w "signed_bits w"] by simp
  then have "signed_bits v \<le> signed_bits w" by (simp only: signed_bits_le_iff)
  then show ?thesis by (simp add: signed_length_def div_le_mono)
qed

lemma WriteSignedNumIncreasing_eq:
  "WriteSignedNumIncreasing dest v =
     dest @ be_bytes (signed_length v) (sint v XOR header (signed_length v))"
proof (cases "magnitude v < 64")
  case True
  then have "signed_length v = 1" by (simp add: signed_length_1_iff)
  moreover have "(128 :: byte) XOR ucast v = word_of_int (sint v XOR 128)"
    by (rule bit_word_eqI) (auto simp: bit_simps word_bits)
  ultimately show ?thesis
    using True by (simp add: WriteSignedNumIncreasing_def magnitude_def kLengthToHeaderBits_def
        header_def)
next
  case False
  then have "signed_length v \<noteq> 1" by (simp add: signed_length_1_iff)
  then have L: "2 \<le> signed_length v" "signed_length v \<le> 10" using signed_length_range [of v] by auto
  have "drop (10 - signed_length v) (be_bytes 10 (sint v)) = be_bytes (signed_length v) (sint v)"
    by (rule drop_be_bytes) (rule L)
  then show ?thesis
    using False WriteSigned_header [OF L, of "sint v"]
    by (simp add: WriteSignedNumIncreasing_def magnitude_def [symmetric] Let_def
        SignedEncodingLength_magnitude be_bytes_sint10)
qed
section \<open>Signed numbers: order\<close>

lemma header_eq: "header L = 2 ^ (8 * L) - 2 ^ (7 * L)"
proof -
  have "(2::int) ^ (8 * L) = 2 ^ L * 2 ^ (7 * L)" by (simp flip: power_add)
  then show ?thesis by (simp add: header_def push_bit_eq_mult mask_eq_exp_minus_1 left_diff_distrib)
qed

lemma bit_header_iff: "bit (header L) n \<longleftrightarrow> 7 * L \<le> n \<and> n < 8 * L"
  by (auto simp: header_def bit_simps)

lemma bit_payload:
  assumes "unat (magnitude v) < 2 ^ k" "k \<le> n"
  shows "bit (sint v) n \<longleftrightarrow> sint v < 0"
proof -
  let ?m = "uint (magnitude v)"
  have m: "\<not> bit ?m n" using bit_small_word [OF assms] by (simp add: bit_simps)
  have "sint v = (if sint v < 0 then NOT ?m else ?m)"
    using magnitude_props(3) [of v] by (simp add: not_eq_complement)
  then show ?thesis using m by (metis bit_not_iff possible_bit_int)
qed

lemma encoded_value:
  fixes v :: int64
  defines "L \<equiv> signed_length v"
  shows "take_bit (8 * L) (sint v XOR header L) =
    (if sint v < 0 then 2 ^ (7 * L) + sint v else 2 ^ (8 * L) - 2 ^ (7 * L) + sint v)"
proof -
  have L: "1 \<le> L" using signed_length_range(1) by (simp add: L_def)
  have mag: "unat (magnitude v) < 2 ^ (7 * L - 1)" using magnitude_lt_payload by (simp add: L_def)
  then have b: "7 * L - 1 \<le> n \<Longrightarrow> bit (sint v) n \<longleftrightarrow> sint v < 0" for n by (rule bit_payload)
  then have "uint (magnitude v) < 2 ^ (7 * L - 1)" using mag by (simp only: uint_less_exp_iff)
  moreover have "(2::int) ^ (7 * L - 1) \<le> 2 ^ (7 * L)" by (rule power_increasing) simp_all
  ultimately have "uint (magnitude v) < 2 ^ (7 * L)" by (rule less_le_trans)
  moreover have "(0::int) < 2 ^ (7 * L)" by simp
  ultimately have rng: "- (2 ^ (7 * L)) \<le> sint v" "sint v < 2 ^ (7 * L)"
    unfolding magnitude_props(3) by (auto split: if_splits)
  show ?thesis
  proof (cases "sint v < 0")
    case True
    have "take_bit (8 * L) (sint v XOR header L) = take_bit (7 * L) (sint v)"
      using b True by (intro bit_eqI) (auto simp: bit_simps bit_header_iff)
    also have "\<dots> = take_bit (7 * L) (2 ^ (7 * L) + sint v)" by (simp add: take_bit_eq_mod)
    also have "\<dots> = 2 ^ (7 * L) + sint v" using rng True by (intro take_bit_int_eq_self) auto
    finally show ?thesis using True by simp
  next
    case False
    have "sint v XOR header L = sint v + header L"
      using b False by (intro disjunctive_add_eq_xor [symmetric] bit_eqI)
        (auto simp: bit_simps bit_header_iff)
    then show ?thesis using False rng header_eq [of L] by (simp add: take_bit_int_eq_self)
  qed
qed

lemma encoded_value_padded:
  fixes v :: int64
  defines "L \<equiv> signed_length v"
  shows "take_bit (8 * L) (sint v XOR header L) * 2 ^ (8 * (10 - L)) =
    (if sint v < 0 then 2 ^ (80 - L) + sint v * 2 ^ (80 - 8 * L)
     else 2 ^ 80 - 2 ^ (80 - L) + sint v * 2 ^ (80 - 8 * L))"
proof -
  have L: "L \<le> 10" using signed_length_range(2) by (simp add: L_def)
  then have p: "8 * (10 - L) = 80 - 8 * L" "7 * L + (80 - 8 * L) = 80 - L" "8 * L + (80 - 8 * L) = 80"
    by auto
  have q: "(2::int) ^ (7 * L) * 2 ^ (80 - 8 * L) = 2 ^ (80 - L)"
    "(2::int) ^ (8 * L) * 2 ^ (80 - 8 * L) = 2 ^ 80"
    unfolding power_add [symmetric] p by simp_all
  show ?thesis
    unfolding L_def encoded_value unfolding L_def [symmetric] p(1)
    using q by (simp add: distrib_right left_diff_distrib)
qed

lemma scaled_payload:
  "(if sint v < 0 then - sint v - 1 else sint v) * 2 ^ (80 - 8 * signed_length v) \<le>
     2 ^ (79 - signed_length v) - 2 ^ (80 - 8 * signed_length v)"
proof -
  let ?L = "signed_length v"
  have L: "1 \<le> ?L" "?L \<le> 10" by (rule signed_length_range)+
  have "uint (magnitude v) + 1 \<le> 2 ^ (7 * ?L - 1)"
    using magnitude_lt_payload [of v] by (metis uint_less_exp_iff zless_imp_add1_zle)
  then have "(uint (magnitude v) + 1) * 2 ^ (80 - 8 * ?L) \<le> 2 ^ (7 * ?L - 1) * 2 ^ (80 - 8 * ?L)"
    by (rule mult_right_mono) simp
  moreover have "7 * ?L - 1 + (80 - 8 * ?L) = 79 - ?L" using L by auto
  ultimately show ?thesis
    unfolding power_add [symmetric] magnitude_props(3) by (simp add: distrib_right)
qed

lemma WriteSignedNumIncreasing_mono:
  assumes "sint x < sint y"
  shows "WriteSignedNumIncreasing [] x < WriteSignedNumIncreasing [] y"
proof -
  define K where "K = signed_length x"
  define L where "L = signed_length y"
  note xb = scaled_payload [of x, folded K_def] and yb = scaled_payload [of y, folded L_def]
  have K: "1 \<le> K" "K \<le> 10" and L: "1 \<le> L" "L \<le> 10"
    using signed_length_range by (auto simp: K_def L_def)
  have pos: "(0::int) < 2 ^ (80 - 8 * K)" "(0::int) < 2 ^ (80 - 8 * L)" by simp_all
  have half: "(2::int) ^ (80 - K) = 2 * 2 ^ (79 - K)" "(2::int) ^ (80 - L) = 2 * 2 ^ (79 - L)"
    using K L by (simp_all flip: power_Suc) 
  consider "sint x < 0" "0 \<le> sint y" | "0 \<le> sint x" "K = L" | "0 \<le> sint x" "K < L"
    | "sint y < 0" "K = L" | "sint y < 0" "L < K"
  proof -
    have "0 \<le> sint x \<Longrightarrow> K \<le> L" "sint y < 0 \<Longrightarrow> L \<le> K"
      using assms magnitude_props(3) [of x] magnitude_props(3) [of y]
      unfolding K_def L_def by (auto intro!: signed_length_mono simp: word_le_nat_alt [symmetric] word_le_def)
    then show ?thesis using that by (cases "sint x < 0"; cases "sint y < 0") force+
  qed
  then have "(if sint x < 0 then 2 ^ (80 - K) + sint x * 2 ^ (80 - 8 * K)
       else 2 ^ 80 - 2 ^ (80 - K) + sint x * 2 ^ (80 - 8 * K)) <
      (if sint y < 0 then 2 ^ (80 - L) + sint y * 2 ^ (80 - 8 * L)
       else 2 ^ 80 - 2 ^ (80 - L) + sint y * 2 ^ (80 - 8 * L))"
  proof cases
    case 1
    then have "sint x * 2 ^ (80 - 8 * K) < 0" "0 \<le> sint y * 2 ^ (80 - 8 * L)"
      by (simp_all add: mult_neg_pos)
    moreover have "(2::int) ^ (80 - K) \<le> 2 ^ 79" "(2::int) ^ (80 - L) \<le> 2 ^ 79"
      using K L power_increasing [of "80 - K" 79 "2::int"] power_increasing [of "80 - L" 79 "2::int"]
      by simp_all
    moreover have "(2::int) ^ 80 = 2 * 2 ^ 79" by simp
    ultimately have "2 ^ (80 - K) + sint x * 2 ^ (80 - 8 * K) <
        2 ^ 80 - 2 ^ (80 - L) + sint y * 2 ^ (80 - 8 * L)" by linarith
    then show ?thesis using 1 by simp
  next
    case 2
    then show ?thesis using assms by simp
  next
    case 3
    then have "(2::int) ^ (80 - L) \<le> 2 ^ (79 - K)" by (intro power_increasing) auto
    moreover have "0 \<le> sint y * 2 ^ (80 - 8 * L)" using 3 assms by simp
    moreover have "sint x * 2 ^ (80 - 8 * K) \<le> 2 ^ (79 - K) - 2 ^ (80 - 8 * K)" using xb 3 by simp
    ultimately have "2 ^ 80 - 2 ^ (80 - K) + sint x * 2 ^ (80 - 8 * K) <
        2 ^ 80 - 2 ^ (80 - L) + sint y * 2 ^ (80 - 8 * L)" using half pos by linarith
    then show ?thesis using 3 assms by simp
  next
    case 4
    then show ?thesis using assms by simp
  next
    case 5
    then have "(2::int) ^ (80 - K) \<le> 2 ^ (79 - L)" by (intro power_increasing) auto
    moreover have "sint x * 2 ^ (80 - 8 * K) < 0" using 5 assms by (simp add: mult_neg_pos)
    moreover have "- (sint y * 2 ^ (80 - 8 * L)) \<le> 2 ^ (79 - L)"
      using yb 5 by (simp add: left_diff_distrib)
    ultimately have "2 ^ (80 - K) + sint x * 2 ^ (80 - 8 * K) <
        2 ^ (80 - L) + sint y * 2 ^ (80 - 8 * L)" using half by linarith
    then show ?thesis using 5 assms by simp
  qed
  then show ?thesis
    using K L be_bytes_less [of K "sint x XOR header K" 10 L "sint y XOR header L"]
      encoded_value_padded [of x, folded K_def] encoded_value_padded [of y, folded L_def]
    by (simp add: WriteSignedNumIncreasing_eq K_def L_def)
qed

section \<open>Signed numbers: round trip\<close>

lemma xor_mask_be_bytes:
  assumes "m = (if neg then 0xff else 0)" and "j = (if neg then NOT i else i)"
  shows "k < n \<Longrightarrow> be_bytes n i ! k XOR m = be_bytes n j ! k"
  using assms by (intro bit_word_eqI) (auto simp: be_bytes_nth bit_simps word_bits)

lemma be_bytes_xor_nth:
  "k < n \<Longrightarrow> be_bytes n (i XOR j) ! k = be_bytes n i ! k XOR be_bytes n j ! k"
  by (simp add: be_bytes_nth word_of_int_xor)

text \<open>The normalised leading byte determines lengths up to seven.\<close>

lemma length_from_first_byte:
  assumes "1 \<le> L" "L \<le> 7" "t < 2 ^ (7 - L)"
  defines "f \<equiv> word_of_nat t XOR fst (kLengthToHeaderBits ! L)"
  shows "f \<noteq> 0xff" "nat (7 - Log2Floor64 (ucast f XOR 0xff)) = L"
proof -
  have all: "\<forall>L\<in>set [1..<8]. \<forall>t\<in>set [0..<2 ^ (7 - L)].
      word_of_nat t XOR fst (kLengthToHeaderBits ! L) \<noteq> 0xff \<and>
      nat (7 - Log2Floor64 (ucast (word_of_nat t XOR fst (kLengthToHeaderBits ! L)) XOR 0xff)) = L"
    by code_simp
  have "L \<in> set [1..<8]" "t \<in> set [0..<2 ^ (7 - L)]" using assms by simp_all
  with all have "f \<noteq> 0xff \<and> nat (7 - Log2Floor64 (ucast f XOR 0xff)) = L"
    unfolding f_def by blast
  then show "f \<noteq> 0xff" "nat (7 - Log2Floor64 (ucast f XOR 0xff)) = L" by simp_all
qed

lemma word_of_int_header: "L \<le> 10 \<Longrightarrow> word_of_int (header L) = kLengthToMask ! L"
proof -
  have "\<forall>L\<in>set [0..<11]. word_of_int (header L) = kLengthToMask ! L" by code_simp
  then show "L \<le> 10 \<Longrightarrow> ?thesis" by simp
qed

lemma LoadBigEndian64_be_bytes: "LoadBigEndian64 (be_bytes 8 i @ r) = word_of_int i"
proof -
  have "LoadBigEndian64 (be_bytes 8 i @ r) = foldl (\<lambda>x c. push_bit 8 x OR ucast c) 0 (be_bytes 8 i)"
    by (simp add: LoadBigEndian64_def be_bytes_numeral upt_rec push_bit_or)
  also have "\<dots> = word_of_int i"
    unfolding foldl_be_bytes by (rule bit_word_eqI) (auto simp: bit_simps)
  finally show ?thesis .
qed
lemma xor_header_cancel: "word_of_int (sint v XOR h) XOR word_of_int h = (v :: int64)"
  by (simp add: word_of_int_xor word_bw_assocs)

lemma payload_lt: "uint (magnitude v) < 2 ^ (7 * signed_length v - 1)" "uint (magnitude v) < 2 ^ 63"
  using magnitude_lt_payload magnitude_props(4) by (simp_all only: uint_less_exp_iff)

lemma drop_bit_payload:
  assumes "uint (w :: uint64) < 2 ^ k"
  shows "nat (drop_bit j (uint w)) < 2 ^ (k - j)"
proof -
  have "(2::nat) ^ k \<le> 2 ^ (k - j) * 2 ^ j" unfolding power_add [symmetric] by (rule power_increasing) auto
  then have "unat w < 2 ^ (k - j) * 2 ^ j" using assms unfolding uint_less_exp_iff by linarith
  then have "unat w div 2 ^ j < 2 ^ (k - j)" by (rule less_mult_imp_div_less)
  then show ?thesis by (simp add: uint_drop_bit [symmetric] unat_drop_bit)
qed

lemma sign_extend_word:
  assumes "\<And>n. 8 * L \<le> n \<Longrightarrow> bit i n \<longleftrightarrow> neg" and "M = (if neg then NOT 0 else 0)"
  shows "push_bit (8 * L) M OR word_of_int (take_bit (8 * L) i) = (word_of_int i :: uint64)"
  using assms by (intro bit_word_eqI) (auto simp: bit_simps not_le intro: ccontr)

lemma word_of_nat_7bit: "t < 2 ^ 7 \<Longrightarrow> (word_of_nat t :: byte) < 0x80"
  by (simp add: word_less_nat_alt unat_of_nat)

lemma word_of_nat_6bit:
  assumes "t < 2 ^ 6" shows "0x80 \<le> (word_of_nat t XOR 0x80 :: byte)" "(word_of_nat t XOR 0x80 :: byte) < 0xc0"
proof -
  have "\<forall>t\<in>set [0..<64]. 0x80 \<le> (word_of_nat t XOR 0x80 :: byte) \<and> (word_of_nat t XOR 0x80 :: byte) < 0xc0"
    by code_simp
  moreover have "t \<in> set [0..<64]" using assms by simp
  ultimately show "0x80 \<le> (word_of_nat t XOR 0x80 :: byte)" "(word_of_nat t XOR 0x80 :: byte) < 0xc0"
    by blast+
qed

lemma header_bytes:
  "1 \<le> L \<Longrightarrow> L \<le> 10 \<Longrightarrow> be_bytes L (header L) ! 0 = fst (kLengthToHeaderBits ! L)"
  "be_bytes 8 (header 8) ! 1 = 0" "be_bytes 9 (header 9) ! 1 = 0x80"
  "be_bytes 10 (header 10) ! 1 = 0xc0" "be_bytes 10 (header 10) ! 2 = 0"
proof -
  have "\<forall>L\<in>set [1..<11]. be_bytes L (header L) ! 0 = fst (kLengthToHeaderBits ! L)"
    by code_simp
  then show "1 \<le> L \<Longrightarrow> L \<le> 10 \<Longrightarrow> be_bytes L (header L) ! 0 = fst (kLengthToHeaderBits ! L)"
    by simp
qed code_simp+

lemma byte_and_128_iff: "b AND 128 = 0 \<longleftrightarrow> \<not> bit (b :: byte) 7"
  using bit_iff_and_push_bit_not_eq_0 [of b 7] by (simp add: push_bit_eq_mult)

lemma ReadSignedNumIncreasing_be_bytes:
  fixes v :: int64
  defines "L \<equiv> signed_length v"
  shows "ReadSignedNumIncreasing (be_bytes L (sint v XOR header L) @ r) = Some (v, r)"
proof -
  let ?i = "sint v XOR header L" and ?w = "uint (magnitude v)"
  let ?src = "be_bytes L ?i @ r"
  have L: "1 \<le> L" "L \<le> 10" using signed_length_range by (simp_all add: L_def)
  have w: "?w < 2 ^ (7 * L - 1)" "?w < 2 ^ 63" using payload_lt by (simp_all add: L_def)
  define neg where "neg = (sint v < 0)"
  define M :: uint64 where "M = (if neg then NOT 0 else 0)"
  define m :: byte where "m = (if neg then 0xff else 0)"
  have wi: "(if neg then NOT ?i else ?i) = ?w XOR header L"
    using magnitude_props(3) [of v] by (auto simp: neg_def not_eq_complement [symmetric] bit_eq_iff bit_simps)
  have norm: "?src ! k XOR m = be_bytes L ?w ! k XOR be_bytes L (header L) ! k" if "k < L" for k
    using that xor_mask_be_bytes [OF m_def wi [symmetric], of k L] be_bytes_xor_nth [of k L ?w "header L"]
    by (simp add: nth_append)
  have "be_bytes L ?i ! 0 = word_of_int (drop_bit (8 * (L - 1)) ?i)" using L by (simp add: be_bytes_nth)
  moreover have "8 * (L - 1) + 7 = 8 * L - 1" "7 * L \<le> 8 * L - 1" using L by simp_all
  moreover have "bit (sint v) (8 * L - 1) \<longleftrightarrow> neg"
    unfolding neg_def L_def using magnitude_lt_payload [of v] by (rule bit_payload) simp
  ultimately have sgn: "bit (?src ! 0) 7 \<longleftrightarrow> \<not> neg"
    using L by (simp add: nth_append bit_simps bit_header_iff)
  then have mask: "(if \<not> (?src ! 0 AND 0x80 \<noteq> 0) then NOT 0 else 0) = M"
    by (simp add: byte_and_128_iff M_def)
  have mm: "(ucast (M AND 0xff) :: byte) = m"
  proof -
    have "(ucast (NOT 0 :: uint64) :: byte) = 0xff" by code_simp
    then show ?thesis by (simp add: M_def m_def)
  qed
  have ne: "?src \<noteq> []" using L by (metis append_is_Nil_conv length_be_bytes list.size(3) not_one_le_zero)
  have fin: "word_of_int ?i XOR kLengthToMask ! L = v"
    using word_of_int_header [OF L(2)] xor_header_cancel by metis
  have wn: "be_bytes L ?w ! k = word_of_nat (nat (drop_bit (8 * (L - Suc k)) ?w))" if "k < L" for k
    using that by (simp add: be_bytes_nth)
  consider "L \<le> 7" | "L = 8" | "L = 9" | "L = 10" using L by linarith
  then show ?thesis
  proof cases
    case 1
    define t where "t = nat (drop_bit (8 * (L - 1)) ?w)"
    have "t < 2 ^ (7 * L - 1 - 8 * (L - 1))"
      unfolding t_def by (rule drop_bit_payload) (rule w)
    moreover have "7 * L - 1 - 8 * (L - 1) = 7 - L" using 1 L by simp
    ultimately have t: "t < 2 ^ (7 - L)" by simp
    have f: "?src ! 0 XOR m = word_of_nat t XOR fst (kLengthToHeaderBits ! L)"
      using norm [of 0] wn [of 0] header_bytes(1) [OF L] L by (simp add: t_def)
    have "bit ?i n \<longleftrightarrow> neg" if "8 * L \<le> n" for n
    proof -
      have "bit (sint v) n \<longleftrightarrow> neg"
        unfolding neg_def using magnitude_lt_payload [of v] by (rule bit_payload) (use that L_def in simp)
      then show ?thesis using that by (simp add: bit_simps bit_header_iff)
    qed
    then have x: "foldl (\<lambda>x c. push_bit 8 x OR ucast c) M (be_bytes L ?i) = word_of_int ?i"
      unfolding foldl_be_bytes by (rule sign_extend_word [OF _ M_def])
    show ?thesis
      using length_from_first_byte [OF L(1) 1 t] x fin ne
      unfolding ReadSignedNumIncreasing_def mask Let_def mm f by simp
  next
    case 2
    have "?src ! 0 XOR m = 0xff" "\<not> 0x80 \<le> ?src ! 1 XOR m"
      using 2 w drop_bit_payload [of "magnitude v" 55 56] drop_bit_payload [of "magnitude v" 55 48]
        norm [of 0] norm [of 1] wn [of 0] wn [of 1] header_bytes(1) [OF L] header_bytes(2)
      by (simp_all add: kLengthToHeaderBits_def word_of_nat_7bit not_le del: of_nat_nat)
    then show ?thesis
      using ne fin LoadBigEndian64_be_bytes [of ?i r] 2
      unfolding ReadSignedNumIncreasing_def mask Let_def mm by simp
  next
    case 3
    have "?src ! 0 XOR m = 0xff" "0x80 \<le> ?src ! 1 XOR m" "?src ! 1 XOR m < 0xc0"
      using 3 w drop_bit_payload [of "magnitude v" 62 64] drop_bit_payload [of "magnitude v" 62 56]
        norm [of 0] norm [of 1] wn [of 0] wn [of 1] header_bytes(1) [OF L] header_bytes(3)
      by (simp_all add: kLengthToHeaderBits_def word_of_nat_6bit del: of_nat_nat)
    moreover have "drop 1 ?src = be_bytes 8 ?i @ r" using 3 by (simp add: be_bytes_numeral)
    ultimately show ?thesis
      using ne fin LoadBigEndian64_be_bytes [of ?i r] 3
      unfolding ReadSignedNumIncreasing_def mask Let_def mm by simp
  next
    case 4
    have "?src ! 0 XOR m = 0xff" "?src ! 1 XOR m = 0xc0" "?src ! 2 XOR m < 0x80"
      using 4 w drop_bit_payload [of "magnitude v" 63 72] drop_bit_payload [of "magnitude v" 63 64]
        drop_bit_payload [of "magnitude v" 63 56]
        norm [of 0] norm [of 1] norm [of 2] wn [of 0] wn [of 1] wn [of 2]
        header_bytes(1) [OF L] header_bytes(4,5)
      by (simp_all add: kLengthToHeaderBits_def word_of_nat_7bit del: of_nat_nat)
    moreover have "drop 2 ?src = be_bytes 8 ?i @ r" using 4 by (simp add: be_bytes_numeral)
    ultimately show ?thesis
      using ne fin LoadBigEndian64_be_bytes [of ?i r] 4
      unfolding ReadSignedNumIncreasing_def mask Let_def mm by simp
  qed
qed
lemma ReadSignedNumIncreasing_WriteSignedNumIncreasing [codec_simps]:
  "ReadSignedNumIncreasing (WriteSignedNumIncreasing [] v @ r) = Some (v, r)"
  by (simp add: WriteSignedNumIncreasing_eq ReadSignedNumIncreasing_be_bytes)

interpretation ordered_signed: order_codec "WriteSignedNumIncreasing []" ReadSignedNumIncreasing sint
  by unfold_locales
    (auto intro: ReadSignedNumIncreasing_WriteSignedNumIncreasing WriteSignedNumIncreasing_mono
      simp: signed_word_eqI)

section \<open>The portable logarithm\<close>

definition log_inv :: "uint32 \<Rightarrow> uint32 \<times> int \<Rightarrow> nat \<Rightarrow> bool" where
  "log_inv n p b \<longleftrightarrow>
     (\<exists>m. snd p = int m \<and> unat (fst p) = unat n div 2 ^ m \<and> 0 < unat (fst p) \<and> unat (fst p) < 2 ^ b)"

lemma Log2Floor32_step_inv:
  assumes "log_inv n p (2 * 2 ^ i)" shows "log_inv n (Log2Floor32_step p i) (2 ^ i)"
proof -
  obtain val lg where p: "p = (val, lg)" by (cases p)
  from assms obtain m where m: "lg = int m" "unat val = unat n div 2 ^ m" "0 < unat val"
    "unat val < 2 ^ (2 ^ i + 2 ^ i)" by (auto simp: log_inv_def p mult_2)
  let ?x = "drop_bit (2 ^ i) val"
  have x: "unat ?x = unat val div 2 ^ 2 ^ i" by (rule unat_drop_bit)
  show ?thesis
  proof (cases "?x = 0")
    case True
    then have "unat val < 2 ^ 2 ^ i" using x by (simp add: div_eq_0_iff)
    then show ?thesis using True m by (auto simp: log_inv_def p Log2Floor32_step_def)
  next
    case False
    have "unat ?x < 2 ^ 2 ^ i" using m(4) unfolding x power_add by (rule less_mult_imp_div_less)
    moreover have "unat ?x = unat n div 2 ^ (m + 2 ^ i)"
      by (simp add: x m(2) power_add div_mult2_eq)
    moreover have "0 < unat ?x" using False by (simp add: unat_gt_0)
    ultimately show ?thesis using False m(1)
      by (auto simp: log_inv_def p Log2Floor32_step_def Let_def intro!: exI [of _ "m + 2 ^ i"])
  qed
qed

lemma power_2_interval_unique:
  assumes "(2::nat) ^ m \<le> x" "x < 2 ^ Suc m" "2 ^ k \<le> x" "x < 2 ^ Suc k"
  shows "m = k"
proof -
  have "(2::nat) ^ m < 2 ^ Suc k" "(2::nat) ^ k < 2 ^ Suc m" using assms by linarith+
  then have "m < Suc k" "k < Suc m" by (simp_all only: power_strict_increasing_iff)
  then show ?thesis by simp
qed

lemma Log2Floor32_Portable_unique:
  assumes "2 ^ k \<le> unat n" "unat n < 2 ^ Suc k"
  shows "Log2Floor32_Portable n = int k"
proof -
  have pos: "0 < unat n" using assms(1) by (rule less_le_trans [rotated]) simp
  then have "log_inv n (n, 0) (2 * 2 ^ 4)"
    using unsigned_less [of n, where ?'a = nat] by (auto simp: log_inv_def intro!: exI [of _ 0])
  from this [THEN Log2Floor32_step_inv]
  have "log_inv n (foldl Log2Floor32_step (n, 0) [4, 3]) (2 * 2 ^ 2)"
    using Log2Floor32_step_inv [of n _ 3] by simp
  then have "log_inv n (foldl Log2Floor32_step (n, 0) [4, 3, 2]) (2 * 2 ^ 1)"
    using Log2Floor32_step_inv [of n _ 2] by simp
  then have "log_inv n (foldl Log2Floor32_step (n, 0) [4, 3, 2, 1]) (2 * 2 ^ 0)"
    using Log2Floor32_step_inv [of n _ 1] by simp
  then have "log_inv n (foldl Log2Floor32_step (n, 0) [4, 3, 2, 1, 0]) 1"
    using Log2Floor32_step_inv [of n _ 0] by simp
  then obtain m where m: "snd (foldl Log2Floor32_step (n, 0) [4, 3, 2, 1, 0]) = int m"
    "unat n div 2 ^ m = 1" by (auto simp: log_inv_def)
  have "unat n = 2 ^ m + unat n mod 2 ^ m" using m(2) div_mult_mod_eq [of "unat n" "2 ^ m"] by simp
  moreover have "unat n mod 2 ^ m < 2 ^ m" by simp
  ultimately have "2 ^ m \<le> unat n" "unat n < 2 ^ Suc m" by (simp_all only: power_Suc)
  then have "m = k" using assms by (rule power_2_interval_unique)
  moreover have "n \<noteq> 0" using pos by auto
  ultimately show ?thesis using m(1) by (simp add: Log2Floor32_Portable_def)
qed

lemma Log2Floor64_Portable_eq: "Log2Floor64_Portable n = Log2Floor64 n"
proof (cases "n = 0")
  case True
  then show ?thesis by (simp add: Log2Floor64_Portable_def Log2Floor64_def Log2Floor32_Portable_def)
next
  case False
  then obtain k where k: "k < 64" "Log2Floor64 n = int k" "2 ^ k \<le> unat n" "unat n < 2 ^ Suc k"
    by (rule Log2Floor64_bounds)
  let ?t = "ucast (drop_bit 32 n) :: uint32"
  have c: "unat (ucast x :: uint32) = unat x" if "unat x < 2 ^ 32" for x :: uint64
    using that by (simp add: unsigned_ucast_eq take_bit_nat_eq_self)
  have "unat n div 2 ^ 32 < 2 ^ 32" using unsigned_less [of n, where ?'a = nat] by auto
  then have t: "unat ?t = unat n div 2 ^ 32" using c [of "drop_bit 32 n"] by (simp add: unat_drop_bit)
  show ?thesis
  proof (cases "k < 32")
    case True
    then have "(2::nat) ^ Suc k \<le> 2 ^ 32" by (intro power_increasing) auto
    then have "unat n < 2 ^ 32" using k(4) by linarith
    then have "unat (ucast n :: uint32) = unat n" "?t = 0"
      using c t by (simp_all add: unat_eq_zero [symmetric])
    then show ?thesis
      using Log2Floor32_Portable_unique [of k "ucast n"] k by (simp add: Log2Floor64_Portable_def)
  next
    case False
    then obtain j where j: "k = j + 32" by (metis add.commute le_Suc_ex not_less)
    then have "2 ^ j \<le> unat ?t" "unat ?t < 2 ^ Suc j"
      using k(3,4) unfolding t j by (auto simp: power_add less_mult_imp_div_less less_eq_div_iff_mult_less_eq)
    moreover from this have "?t \<noteq> 0" by (metis not_one_le_zero one_le_numeral one_le_power order.trans unat_0)
    ultimately show ?thesis
      using Log2Floor32_Portable_unique [of j ?t] k(2) j by (simp add: Log2Floor64_Portable_def Let_def)
  qed
qed
section \<open>Properties\<close>

text \<open>C4. The three ordered encodings are read back exactly, whatever follows them, and the writers
  only append to what the buffer already holds.\<close>

theorem ordered_code_roundtrip:
  "ReadString (drop (length d) (WriteString d s @ r)) = Some (s, r) \<and>
   ReadNumIncreasing (drop (length d) (WriteNumIncreasing d n @ r)) = Some (n, r) \<and>
   ReadSignedNumIncreasing (drop (length d) (WriteSignedNumIncreasing d i @ r)) = Some (i, r)"
proof -
  have "WriteString d s = d @ WriteString [] s" by (rule WriteString_eq)
  moreover have "WriteNumIncreasing d n = d @ WriteNumIncreasing [] n"
    by (simp add: WriteNumIncreasing_eq)
  moreover have "WriteSignedNumIncreasing d i = d @ WriteSignedNumIncreasing [] i"
    by (simp add: WriteSignedNumIncreasing_eq)
  ultimately show ?thesis
    by (simp add: ordered_string.get_put ordered_num.get_put ordered_signed.get_put)
qed

text \<open>C3. Byte-wise comparison of encodings, each followed by anything, is comparison of the values
  and then of what follows: strings lexicographically, unsigned numbers by value, signed numbers
  by two's complement value. Keys built by concatenating encodings therefore sort by their
  fields in turn.\<close>

theorem ordered_code_order:
  "(WriteString [] s @ r < WriteString [] s' @ r') = (s < s' \<or> s = s' \<and> r < r') \<and>
   (WriteNumIncreasing [] n @ r < WriteNumIncreasing [] n' @ r') = (n < n' \<or> n = n' \<and> r < r') \<and>
   (WriteSignedNumIncreasing [] i @ r < WriteSignedNumIncreasing [] i' @ r') =
     (sint i < sint i' \<or> i = i' \<and> r < r')"
  by (intro conjI ordered_string.put_less_iff ordered_num.put_less_iff ordered_signed.put_less_iff)

text \<open>Size of the signed encoding, as the comment of the source gives it: at most \<open>k\<close> bytes
  exactly for the numbers of \<open>[-2^(7k-1), 2^(7k-1))\<close>, and never more than ten.\<close>

theorem signed_encoding_size:
  "1 \<le> length (WriteSignedNumIncreasing [] v) \<and>
   length (WriteSignedNumIncreasing [] v) \<le> kMaxSigned64Length \<and>
   (length (WriteSignedNumIncreasing [] v) \<le> Suc k) =
     (- (2 ^ (7 * Suc k - 1)) \<le> sint v \<and> sint v < 2 ^ (7 * Suc k - 1))"
proof -
  have "length (WriteSignedNumIncreasing [] v) = signed_length v"
    by (simp add: WriteSignedNumIncreasing_eq)
  moreover have "signed_length v \<le> Suc k \<longleftrightarrow> signed_bits v \<le> 7 * Suc k - 1"
    unfolding signed_length_def by presburger
  moreover have "\<dots> \<longleftrightarrow> uint (magnitude v) < 2 ^ (7 * Suc k - 1)"
    unfolding signed_bits_le_iff uint_less_exp_iff ..
  moreover have "\<dots> \<longleftrightarrow> - (2 ^ (7 * Suc k - 1)) \<le> sint v \<and> sint v < 2 ^ (7 * Suc k - 1)"
  proof -
    have "(0::int) < 2 ^ (7 * Suc k - 1)" by simp
    then show ?thesis unfolding magnitude_props(3) by (auto split: if_splits)
  qed
  ultimately show ?thesis
    using signed_length_range [of v] by (simp add: kMaxSigned64Length_def)
qed

text \<open>The portable logarithm, used by compilers without a leading-zeros builtin, returns the same
  value on every input as the one based on the builtin.\<close>

theorem portable_log_agrees: "Log2Floor64_Portable n = Log2Floor64 n"
  by (rule Log2Floor64_Portable_eq)

end
