(* ===== verification/Block_Builder.thy ===== *)
theory Block_Builder
  imports Coding
begin

text \<open>
  \<^verbatim>\<open>core/lib/io/block_builder.cc\<close>: the writer of table blocks. Keys are stored as the
  length of the prefix they share with the previous key and the rest; every
  \<^verbatim>\<open>block_restart_interval\<close> entries a key is stored whole and its offset is recorded in the
  restart array. The state of the class is the record \<open>BlockBuilder\<close>; \<open>None\<close> is a
  failed \<^verbatim>\<open>CHECK_LE\<close>. The second half gives the block format as a specification, a list of
  entries with the lengths they share (\<open>enc_entries\<close>, \<open>layout_ok\<close>), and shows that
  the builder refines it.
\<close>

section \<open>Options\<close>

datatype CompressionType = kNoCompression | kSnappyCompression

record Options =
  block_size :: nat
  block_restart_interval :: int
  compression :: CompressionType

definition default_Options :: Options where
  "default_Options = \<lparr>block_size = 262144, block_restart_interval = 16,
     compression = kSnappyCompression\<rparr>"

section \<open>The builder\<close>

record BlockBuilder =
  bb_options :: Options
  bb_buffer :: bytes
  bb_restarts :: "uint32 list"
  bb_counter :: int
  bb_finished :: bool
  bb_last_key :: bytes

definition BlockBuilder_new :: "Options \<Rightarrow> BlockBuilder" where
  "BlockBuilder_new options = \<lparr>bb_options = options, bb_buffer = [], bb_restarts = [0],
     bb_counter = 0, bb_finished = False, bb_last_key = []\<rparr>"

definition BlockBuilder_Reset :: "BlockBuilder \<Rightarrow> BlockBuilder" where
  "BlockBuilder_Reset b = b\<lparr>bb_buffer := [], bb_restarts := [0], bb_counter := 0,
     bb_finished := False, bb_last_key := []\<rparr>"

definition CurrentSizeEstimate :: "BlockBuilder \<Rightarrow> nat" where
  "CurrentSizeEstimate b = length (bb_buffer b) + length (bb_restarts b) * 4 + 4"

definition BlockBuilder_empty :: "BlockBuilder \<Rightarrow> bool" where
  "BlockBuilder_empty b = (bb_buffer b = [])"

definition BlockBuilder_Finish :: "BlockBuilder \<Rightarrow> (BlockBuilder \<times> bytes) option" where
  "BlockBuilder_Finish b =
     (if length (bb_restarts b) \<le> 2 ^ 32 - 1 then
        let buffer = foldl PutFixed32 (bb_buffer b) (bb_restarts b);
            buffer = PutFixed32 buffer (word_of_nat (length (bb_restarts b)))
        in Some (b\<lparr>bb_buffer := buffer, bb_finished := True\<rparr>, buffer)
      else None)"

text \<open>The loop that counts the bytes shared with the previous key.\<close>

function shared_loop :: "bytes \<Rightarrow> bytes \<Rightarrow> nat \<Rightarrow> nat \<Rightarrow> nat" where
  "shared_loop last_key key min_length shared =
     (if shared < min_length \<and> last_key ! shared = key ! shared
      then shared_loop last_key key min_length (shared + 1) else shared)"
  by pat_completeness auto
termination by (relation "measure (\<lambda>(_, _, m, s). m - s)") auto

declare shared_loop.simps [simp del]

definition BlockBuilder_Add :: "bytes \<Rightarrow> bytes \<Rightarrow> BlockBuilder \<Rightarrow> BlockBuilder option" where
  "BlockBuilder_Add key v b =
     (case
        (if bb_counter b < block_restart_interval (bb_options b) then
           Some (shared_loop (bb_last_key b) key (min (length (bb_last_key b)) (length key)) 0, b)
         else if length (bb_buffer b) \<le> 2 ^ 32 - 1 then
           Some (0, b\<lparr>bb_restarts := bb_restarts b @ [word_of_nat (length (bb_buffer b))],
                      bb_counter := 0\<rparr>)
         else None)
      of None \<Rightarrow> None
      | Some (shared, b) \<Rightarrow>
          (let non_shared = length key - shared in
           if shared \<le> 2 ^ 32 - 1 \<and> non_shared \<le> 2 ^ 32 - 1 \<and> length v \<le> 2 ^ 32 - 1 then
             let buffer = PutVarint32 (bb_buffer b) (word_of_nat shared);
                 buffer = PutVarint32 buffer (word_of_nat non_shared);
                 buffer = PutVarint32 buffer (word_of_nat (length v));
                 buffer = buffer @ drop shared key @ v
             in Some (b\<lparr>bb_buffer := buffer,
                        bb_last_key := take shared (bb_last_key b) @ drop shared key,
                        bb_counter := bb_counter b + 1\<rparr>)
           else None))"

fun BlockBuilder_Add_all :: "(bytes \<times> bytes) list \<Rightarrow> BlockBuilder \<Rightarrow> BlockBuilder option" where
  "BlockBuilder_Add_all [] b = Some b"
| "BlockBuilder_Add_all ((k, v) # kvs) b =
     Option.bind (BlockBuilder_Add k v b) (BlockBuilder_Add_all kvs)"

section \<open>The format of a block\<close>

text \<open>An entry is the number of bytes shared with the previous key, the whole key, and the
  value.\<close>

type_synonym entry = "nat \<times> bytes \<times> bytes"

abbreviation entry_key :: "entry \<Rightarrow> bytes" where "entry_key e \<equiv> fst (snd e)"
abbreviation entry_value :: "entry \<Rightarrow> bytes" where "entry_value e \<equiv> snd (snd e)"

definition enc_entry :: "entry \<Rightarrow> bytes" where
  "enc_entry = (\<lambda>(s, k, v). EncodeVarint32 (word_of_nat s) @ EncodeVarint32 (word_of_nat (length k - s)) @
     EncodeVarint32 (word_of_nat (length v)) @ drop s k @ v)"

definition enc_entries :: "entry list \<Rightarrow> bytes" where
  "enc_entries es = concat (map enc_entry es)"

definition entry_offset :: "entry list \<Rightarrow> nat \<Rightarrow> nat" where
  "entry_offset es i = length (enc_entries (take i es))"

definition prev_key :: "entry list \<Rightarrow> nat \<Rightarrow> bytes" where
  "prev_key es i = (if i = 0 then [] else entry_key (es ! (i - 1)))"

definition entry_ok :: "bytes \<Rightarrow> entry \<Rightarrow> bool" where
  "entry_ok prev = (\<lambda>(s, k, v). s \<le> length prev \<and> s \<le> length k \<and> take s k = take s prev \<and>
     s < 2 ^ 32 \<and> length k - s < 2 ^ 32 \<and> length v < 2 ^ 32)"

definition layout_ok :: "entry list \<Rightarrow> nat list \<Rightarrow> bool" where
  "layout_ok es rs \<longleftrightarrow> (\<forall>i < length es. entry_ok (prev_key es i) (es ! i)) \<and>
     rs \<noteq> [] \<and> hd rs = 0 \<and> (\<forall>r \<in> set (tl rs). r < length es \<and> fst (es ! r) = 0) \<and>
     length rs \<le> length es + 1"

definition block_bytes :: "entry list \<Rightarrow> nat list \<Rightarrow> bytes" where
  "block_bytes es rs = enc_entries es @
     concat (map (\<lambda>r. EncodeFixed32 kLittleEndian (word_of_nat (entry_offset es r))) rs) @
     EncodeFixed32 kLittleEndian (word_of_nat (length rs))"

text \<open>What the builder's state means.\<close>

definition builds :: "BlockBuilder \<Rightarrow> entry list \<Rightarrow> nat list \<Rightarrow> bool" where
  "builds b es rs \<longleftrightarrow> layout_ok es rs \<and> bb_buffer b = enc_entries es \<and>
     bb_restarts b = map (\<lambda>r. word_of_nat (entry_offset es r)) rs \<and>
     bb_last_key b = prev_key es (length es)"

lemma builds_new: "builds (BlockBuilder_new opts) [] [0]"
  by (simp add: builds_def BlockBuilder_new_def layout_ok_def enc_entries_def entry_offset_def
      prev_key_def)

lemma builds_Reset: "builds (BlockBuilder_Reset b) [] [0]"
  by (simp add: builds_def BlockBuilder_Reset_def layout_ok_def enc_entries_def entry_offset_def
      prev_key_def)

text \<open>\<^verbatim>\<open>Reset\<close> gives back a freshly constructed builder.\<close>

lemma Reset_is_new: "BlockBuilder_Reset b = BlockBuilder_new (bb_options b)"
  by (simp add: BlockBuilder_Reset_def BlockBuilder_new_def)

lemma shared_loop_spec:
  assumes "s \<le> m" "m \<le> length k" "m \<le> length l" "take s k = take s l"
  shows "shared_loop l k m s \<le> m" "take (shared_loop l k m s) k = take (shared_loop l k m s) l"
  using assms
proof (induction l k m s rule: shared_loop.induct)
  case (1 l k m s)
  { case 1
    then show ?case using "1.IH" by (auto simp: shared_loop.simps [of l k m s] take_Suc_conv_app_nth)
  next
    case 2
    then show ?case using "1.IH" by (auto simp: shared_loop.simps [of l k m s] take_Suc_conv_app_nth)
  }
qed

text \<open>The longest shared prefix: the loop stops only at the end of a key or at a difference.\<close>

lemma shared_loop_maximal:
  "s \<le> m \<Longrightarrow> shared_loop l k m s = m \<or> l ! shared_loop l k m s \<noteq> k ! shared_loop l k m s"
proof (induction l k m s rule: shared_loop.induct)
  case (1 l k m s)
  then show ?case by (subst (1 2 3) shared_loop.simps) auto
qed

lemma enc_entries_snoc: "enc_entries (es @ [e]) = enc_entries es @ enc_entry e"
  by (simp add: enc_entries_def)

lemma entry_offset_snoc: "r \<le> length es \<Longrightarrow> entry_offset (es @ [e]) r = entry_offset es r"
  by (simp add: entry_offset_def)

lemma prev_key_snoc: "r \<le> length es \<Longrightarrow> prev_key (es @ [e]) r = prev_key es r"
  by (auto simp: prev_key_def nth_append)

lemma prev_key_snoc_length: "prev_key (es @ [e]) (Suc (length es)) = entry_key e"
  by (simp add: prev_key_def)

lemma layout_ok_snoc:
  assumes "layout_ok es rs" "entry_ok (prev_key es (length es)) e"
  shows "layout_ok (es @ [e]) rs" "fst e = 0 \<Longrightarrow> layout_ok (es @ [e]) (rs @ [length es])"
proof -
  have "entry_ok (prev_key (es @ [e]) i) ((es @ [e]) ! i)" if "i < Suc (length es)" for i
    using that assms by (cases "i = length es") (auto simp: layout_ok_def prev_key_snoc nth_append)
  then show "layout_ok (es @ [e]) rs" "fst e = 0 \<Longrightarrow> layout_ok (es @ [e]) (rs @ [length es])"
    using assms(1) by (auto simp: layout_ok_def nth_append)
qed

lemma layout_restart_cases:
  assumes "layout_ok es rs" "r \<in> set rs"
  shows "r = 0 \<or> r < length es \<and> fst (es ! r) = 0"
  using assms by (cases rs) (auto simp: layout_ok_def)

lemma layout_restart_le: "layout_ok es rs \<Longrightarrow> r \<in> set rs \<Longrightarrow> r \<le> length es"
  by (auto dest: layout_restart_cases)

lemma take_append_drop_eq:
  "take s k = take s l \<Longrightarrow> s \<le> length k \<Longrightarrow> take s l @ drop s k = k"
  by (metis append_take_drop_id)

text \<open>The one step of the refinement: an entry is appended, possibly as a restart point.\<close>

lemma builds_Add:
  assumes b: "builds b es rs" and add: "BlockBuilder_Add k v b = Some b'"
  shows "\<exists>s rs'. builds b' (es @ [(s, k, v)]) rs' \<and> (rs' = rs \<or> rs' = rs @ [length es] \<and> s = 0)"
proof -
  let ?lk = "bb_last_key b"
  define s where "s = (if bb_counter b < block_restart_interval (bb_options b)
    then shared_loop ?lk k (min (length ?lk) (length k)) 0 else 0)"
  define rs' where "rs' = (if bb_counter b < block_restart_interval (bb_options b)
    then rs else rs @ [length es])"
  have sp: "s \<le> min (length ?lk) (length k)" "take s k = take s ?lk"
    using shared_loop_spec [of 0 "min (length ?lk) (length k)" k ?lk] by (auto simp: s_def)
  have sizes: "s < 2 ^ 32" "length k - s < 2 ^ 32" "length v < 2 ^ 32"
    using add by (auto simp: BlockBuilder_Add_def s_def Let_def split: if_splits)
  let ?e = "(s, k, v)"
  have ok: "entry_ok (prev_key es (length es)) ?e"
    using b sp sizes by (auto simp: entry_ok_def builds_def)
  have lay: "layout_ok (es @ [?e]) rs'"
    using layout_ok_snoc [OF _ ok] b by (auto simp: builds_def rs'_def s_def)
  have buf: "bb_buffer b' = enc_entries (es @ [?e])"
    using add b
    by (auto simp: BlockBuilder_Add_def builds_def enc_entries_snoc enc_entry_def PutVarint32_def
        s_def Let_def split: if_splits)
  have lk: "bb_last_key b' = k"
    using add take_append_drop_eq [OF sp(2)] sp(1)
    by (auto simp: BlockBuilder_Add_def s_def Let_def split: if_splits)
  have "bb_restarts b' = map (\<lambda>r. word_of_nat (entry_offset es r)) rs'"
    using add b
    by (auto simp: BlockBuilder_Add_def builds_def rs'_def entry_offset_def Let_def split: if_splits)
  also have "\<dots> = map (\<lambda>r. word_of_nat (entry_offset (es @ [?e]) r)) rs'"
    using b layout_restart_le [of es rs] by (auto simp: builds_def rs'_def entry_offset_snoc)
  finally have "builds b' (es @ [?e]) rs'"
    using lay buf lk by (simp add: builds_def prev_key_snoc_length)
  moreover have "rs' = rs \<or> rs' = rs @ [length es] \<and> s = 0" by (simp add: rs'_def s_def)
  ultimately show ?thesis by blast
qed

lemma builds_Add_all:
  "builds b es rs \<Longrightarrow> BlockBuilder_Add_all kvs b = Some b' \<Longrightarrow>
     \<exists>es' rs'. builds b' (es @ es') rs' \<and> map snd es' = kvs"
proof (induction kvs arbitrary: b es rs)
  case Nil
  then show ?case by (intro exI [of _ "[]"] exI [of _ rs]) auto
next
  case (Cons kv kvs)
  obtain k v where kv: "kv = (k, v)" by force
  with Cons.prems(2) obtain b1 where b1: "BlockBuilder_Add k v b = Some b1"
    "BlockBuilder_Add_all kvs b1 = Some b'" by (auto split: Option.bind_splits)
  from builds_Add [OF Cons.prems(1) b1(1)] obtain s rs1 where "builds b1 (es @ [(s, k, v)]) rs1"
    by blast
  from Cons.IH [OF this b1(2)] obtain es' rs' where
    "builds b' ((es @ [(s, k, v)]) @ es') rs'" "map snd es' = kvs" by blast
  then show ?case using kv by (intro exI [of _ "(s, k, v) # es'"] exI [of _ rs']) auto
qed

lemma foldl_PutFixed32:
  "foldl PutFixed32 buf rs = buf @ concat (map (EncodeFixed32 kLittleEndian) rs)"
  by (induction rs arbitrary: buf) (auto simp: PutFixed32_def)

lemma builds_Finish:
  assumes "builds b es rs" "BlockBuilder_Finish b = Some (b', contents)"
  shows "contents = block_bytes es rs" "length rs < 2 ^ 32"
  using assms
  by (auto simp: builds_def BlockBuilder_Finish_def block_bytes_def foldl_PutFixed32 PutFixed32_def
      Let_def comp_def split: if_splits)

lemma length_restart_array: "length (concat (map (\<lambda>r. EncodeFixed32 le (f r)) rs)) = 4 * length rs"
  by (induction rs) auto

lemma length_block_bytes: "length (block_bytes es rs) = length (enc_entries es) + 4 * length rs + 4"
  by (simp add: block_bytes_def length_restart_array)

text \<open>The estimate is exact: it is the size of the block that \<^verbatim>\<open>Finish\<close> returns.\<close>

lemma CurrentSizeEstimate_exact:
  "BlockBuilder_Finish b = Some (b', contents) \<Longrightarrow> length contents = CurrentSizeEstimate b"
  using length_restart_array [of kLittleEndian "\<lambda>r. r" "bb_restarts b"]
  by (auto simp: BlockBuilder_Finish_def CurrentSizeEstimate_def foldl_PutFixed32 PutFixed32_def
      Let_def split: if_splits)

text \<open>What makes \<^verbatim>\<open>Add\<close> succeed.\<close>

lemma BlockBuilder_Add_success:
  assumes "length k < 2 ^ 32" "length v < 2 ^ 32" "length (bb_buffer b) < 2 ^ 32"
  shows "\<exists>b'. BlockBuilder_Add k v b = Some b'"
proof -
  have "shared_loop l k (min (length l) (length k)) 0 \<le> length k" for l
    using shared_loop_spec(1) [of 0 "min (length l) (length k)" k l] by simp
  from this [of "bb_last_key b"] show ?thesis
    using assms by (auto simp: BlockBuilder_Add_def Let_def)
qed

end
