(* ===== verification/Table_Iterator.thy ===== *)
theory Table_Iterator
  imports TF_Prelude
begin

text \<open>
  The interface \<^verbatim>\<open>table::Iterator\<close> (\<^verbatim>\<open>core/lib/io/iterator.h\<close>) as a contract:
  an iterator stands at a position of an ordered list of keys and values, walks forward, and seeks to
  the first key not below a target. The two loops every client of the interface writes, the full scan
  and the point lookup, are proved here once; the block iterator and the two-level iterator of a table
  are interpretations.
\<close>

text \<open>The position of the first key not below the target.\<close>

definition seek_pos :: "(bytes \<times> 'v) list \<Rightarrow> bytes \<Rightarrow> nat" where
  "seek_pos kvs target = length (takeWhile (\<lambda>(k, _). k < target) kvs)"

definition keys_sorted :: "(bytes \<times> 'v) list \<Rightarrow> bool" where
  "keys_sorted kvs = sorted_wrt (<) (map fst kvs)"

lemma seek_pos_le: "seek_pos kvs t \<le> length kvs"
  by (simp add: seek_pos_def length_takeWhile_le)

lemma seek_pos_below: "i < seek_pos kvs t \<Longrightarrow> fst (kvs ! i) < t"
  unfolding seek_pos_def by (metis (mono_tags, lifting) case_prod_beta nth_mem set_takeWhileD takeWhile_nth)

lemma seek_pos_at: "seek_pos kvs t < length kvs \<Longrightarrow> \<not> fst (kvs ! seek_pos kvs t) < t"
  unfolding seek_pos_def using nth_length_takeWhile by fastforce

lemma seek_pos_unique:
  assumes "n \<le> length kvs" "\<And>i. i < n \<Longrightarrow> fst (kvs ! i) < t" "n < length kvs \<Longrightarrow> \<not> fst (kvs ! n) < t"
  shows "seek_pos kvs t = n"
proof (rule antisym)
  show "n \<le> seek_pos kvs t"
    using seek_pos_at [of kvs t] assms(1,2) by (metis leI less_le_trans)
  show "seek_pos kvs t \<le> n"
    using seek_pos_below [of n kvs t] seek_pos_le [of kvs t] assms(1,3) by (metis leI less_le_trans)
qed

lemma keys_sorted_nth_less:
  "keys_sorted kvs \<Longrightarrow> i < j \<Longrightarrow> j < length kvs \<Longrightarrow> fst (kvs ! i) < fst (kvs ! j)"
  using sorted_wrt_nth_less [of "(<)" "map fst kvs" i j] by (simp add: keys_sorted_def)

lemma keys_sorted_distinct: "keys_sorted kvs \<Longrightarrow> distinct (map fst kvs)"
  by (simp add: keys_sorted_def strict_sorted_iff)

text \<open>A lookup by \<open>seek_pos\<close> is a lookup in the map.\<close>

lemma seek_pos_lookup:
  assumes "keys_sorted kvs"
  shows "map_of kvs t =
    (if seek_pos kvs t < length kvs \<and> fst (kvs ! seek_pos kvs t) = t
     then Some (snd (kvs ! seek_pos kvs t)) else None)"
proof (cases "t \<in> fst ` set kvs")
  case False
  then have "map_of kvs t = None" by (simp add: map_of_eq_None_iff)
  moreover have "fst (kvs ! i) \<noteq> t" if "i < length kvs" for i using False that by force
  ultimately show ?thesis by simp
next
  case True
  then obtain i where i: "i < length kvs" "fst (kvs ! i) = t" by (metis imageE in_set_conv_nth)
  have "seek_pos kvs t = i"
    using i keys_sorted_nth_less [OF assms] by (intro seek_pos_unique) auto
  moreover have "map_of kvs t = Some (snd (kvs ! i))"
    using i keys_sorted_distinct [OF assms] by (metis map_of_is_SomeI nth_mem prod.collapse)
  ultimately show ?thesis using i by simp
qed

text \<open>It is the position of the least key that is not below the target.\<close>

lemma seek_pos_Min:
  assumes "keys_sorted kvs"
  shows "seek_pos kvs t < length kvs \<longleftrightarrow> (\<exists>k \<in> fst ` set kvs. t \<le> k)"
    "seek_pos kvs t < length kvs \<Longrightarrow> fst (kvs ! seek_pos kvs t) = Min {k \<in> fst ` set kvs. t \<le> k}"
proof -
  have ge: "seek_pos kvs t \<le> i" if "i < length kvs" "t \<le> fst (kvs ! i)" for i
    using seek_pos_below [of i kvs t] that by (meson leD leI)
  show "seek_pos kvs t < length kvs \<longleftrightarrow> (\<exists>k \<in> fst ` set kvs. t \<le> k)" (is "?l \<longleftrightarrow> ?r")
  proof
    assume ?l
    then show ?r using seek_pos_at [of kvs t] by (meson imageI leI nth_mem)
  next
    assume ?r
    then obtain i where "i < length kvs" "t \<le> fst (kvs ! i)" by (metis imageE in_set_conv_nth)
    then show ?l using ge by (metis le_less_trans)
  qed
  assume l: "seek_pos kvs t < length kvs"
  show "fst (kvs ! seek_pos kvs t) = Min {k \<in> fst ` set kvs. t \<le> k}"
  proof (rule Min_eqI [symmetric])
    fix y assume "y \<in> {k \<in> fst ` set kvs. t \<le> k}"
    then obtain i where i: "i < length kvs" "y = fst (kvs ! i)" "t \<le> fst (kvs ! i)"
      by (auto simp: in_set_conv_nth)
    then show "fst (kvs ! seek_pos kvs t) \<le> y"
      using ge [of i] keys_sorted_nth_less [OF assms, of "seek_pos kvs t" i] by (cases "seek_pos kvs t = i") auto
  qed (use l seek_pos_at [OF l] in \<open>auto simp: not_less\<close>)
qed

section \<open>The loops of the clients\<close>

text \<open>\<^verbatim>\<open>for (it->SeekToFirst(); it->Valid(); it->Next())\<close>; \<open>None\<close> when an operation has no
  defined result, or when the loop does not end.\<close>

partial_function (option) scan_from ::
  "('it \<Rightarrow> bool) \<Rightarrow> ('it \<Rightarrow> bytes) \<Rightarrow> ('it \<Rightarrow> bytes option) \<Rightarrow> ('it \<Rightarrow> 'it option) \<Rightarrow>
   (bytes \<times> bytes) list \<Rightarrow> 'it \<Rightarrow> (bytes \<times> bytes) list option" where
  "scan_from valid key val nxt seen it =
     (if valid it then
        (case val it of None \<Rightarrow> None
         | Some v \<Rightarrow> (case nxt it of None \<Rightarrow> None
           | Some it' \<Rightarrow> scan_from valid key val nxt (seen @ [(key it, v)]) it'))
      else Some seen)"

definition scan_all ::
  "('it \<Rightarrow> bool) \<Rightarrow> ('it \<Rightarrow> bytes) \<Rightarrow> ('it \<Rightarrow> bytes option) \<Rightarrow> ('it \<Rightarrow> 'it option) \<Rightarrow>
   ('it \<Rightarrow> 'it option) \<Rightarrow> 'it \<Rightarrow> (bytes \<times> bytes) list option" where
  "scan_all valid key val nxt seek_first it =
     (case seek_first it of None \<Rightarrow> None | Some it' \<Rightarrow> scan_from valid key val nxt [] it')"

text \<open>\<^verbatim>\<open>it->Seek(key); if (it->Valid() && it->key() == key) ... it->value()\<close>, as
  \<^verbatim>\<open>BundleReader::GetBundleEntryProto\<close> does.\<close>

definition point_lookup ::
  "('it \<Rightarrow> bool) \<Rightarrow> ('it \<Rightarrow> bytes) \<Rightarrow> ('it \<Rightarrow> bytes option) \<Rightarrow> (bytes \<Rightarrow> 'it \<Rightarrow> 'it option) \<Rightarrow>
   bytes \<Rightarrow> 'it \<Rightarrow> bytes option option" where
  "point_lookup valid key val seek target it =
     (case seek target it of None \<Rightarrow> None
      | Some it' \<Rightarrow>
          if valid it' \<and> key it' = target then map_option Some (val it') else Some None)"

section \<open>The contract\<close>

locale kv_iterator =
  fixes usable :: "'it \<Rightarrow> (bytes \<times> bytes) list \<Rightarrow> bool"
    and stands_at :: "'it \<Rightarrow> (bytes \<times> bytes) list \<Rightarrow> nat \<Rightarrow> bool"
    and valid :: "'it \<Rightarrow> bool" and key :: "'it \<Rightarrow> bytes" and val :: "'it \<Rightarrow> bytes option"
    and nxt :: "'it \<Rightarrow> 'it option" and seek :: "bytes \<Rightarrow> 'it \<Rightarrow> 'it option"
    and seek_first :: "'it \<Rightarrow> 'it option" and it_ok :: "'it \<Rightarrow> bool"
  assumes usable_sorted: "usable it kvs \<Longrightarrow> keys_sorted kvs"
    and stands_usable: "stands_at it kvs n \<Longrightarrow> usable it kvs"
    and stands_le: "stands_at it kvs n \<Longrightarrow> n \<le> length kvs"
    and stands_ok: "stands_at it kvs n \<Longrightarrow> it_ok it"
    and valid_at: "stands_at it kvs n \<Longrightarrow> valid it \<longleftrightarrow> n < length kvs"
    and key_at: "stands_at it kvs n \<Longrightarrow> n < length kvs \<Longrightarrow> key it = fst (kvs ! n)"
    and val_at: "stands_at it kvs n \<Longrightarrow> n < length kvs \<Longrightarrow> val it = Some (snd (kvs ! n))"
    and nxt_at: "stands_at it kvs n \<Longrightarrow> n < length kvs \<Longrightarrow>
      \<exists>it'. nxt it = Some it' \<and> stands_at it' kvs (Suc n)"
    and seek_first_at: "usable it kvs \<Longrightarrow> \<exists>it'. seek_first it = Some it' \<and> stands_at it' kvs 0"
    and seek_at: "usable it kvs \<Longrightarrow> \<exists>it'. seek t it = Some it' \<and> stands_at it' kvs (seek_pos kvs t)"
begin

lemma scan_from_at: "stands_at it kvs n \<Longrightarrow> scan_from valid key val nxt seen it = Some (seen @ drop n kvs)"
proof (induction "length kvs - n" arbitrary: it n seen rule: less_induct)
  case less
  show ?case
  proof (cases "n < length kvs")
    case False
    then show ?thesis using valid_at [OF less.prems] by (simp add: scan_from.simps)
  next
    case True
    from nxt_at [OF less.prems True] obtain it' where it': "nxt it = Some it'" "stands_at it' kvs (Suc n)"
      by blast
    have "length kvs - Suc n < length kvs - n" using True by simp
    from less.hyps [OF this it'(2)] show ?thesis
      using valid_at [OF less.prems] key_at [OF less.prems True] val_at [OF less.prems True] it' True
      by (simp add: scan_from.simps [of valid key val nxt seen it] Cons_nth_drop_Suc)
  qed
qed

lemma scan_all_usable: "usable it kvs \<Longrightarrow> scan_all valid key val nxt seek_first it = Some kvs"
  using seek_first_at scan_from_at by (fastforce simp: scan_all_def)

lemma point_lookup_usable:
  assumes "usable it kvs" shows "point_lookup valid key val seek t it = Some (map_of kvs t)"
proof -
  from seek_at [OF assms] obtain it' where it': "seek t it = Some it'" "stands_at it' kvs (seek_pos kvs t)"
    by blast
  then show ?thesis
    using valid_at [OF it'(2)] key_at [OF it'(2)] val_at [OF it'(2)] seek_pos_lookup [OF usable_sorted [OF assms], of t]
    by (auto simp: point_lookup_def)
qed

lemma seek_usable:
  assumes "usable it kvs"
  shows "\<exists>it'. seek t it = Some it' \<and> it_ok it' \<and> (valid it' \<longleftrightarrow> (\<exists>k \<in> fst ` set kvs. t \<le> k)) \<and>
    (valid it' \<longrightarrow> key it' = Min {k \<in> fst ` set kvs. t \<le> k})"
proof -
  from seek_at [OF assms] obtain it' where it': "seek t it = Some it'" "stands_at it' kvs (seek_pos kvs t)"
    by blast
  then show ?thesis
    using seek_pos_Min [OF usable_sorted [OF assms], of t] valid_at [OF it'(2)] key_at [OF it'(2)]
      stands_ok [OF it'(2)] by (intro exI [of _ it']) simp
qed

end

end
