(* ===== verification/Block_Reader.thy ===== *)
theory Block_Reader
  imports Block_Builder Table_Iterator
begin

text \<open>
  \<^verbatim>\<open>core/lib/io/block.cc\<close> and \<^verbatim>\<open>iterator.cc\<close>: the reader of table blocks. The
  state of \<^verbatim>\<open>Block::Iter\<close> is the record \<open>BlockIter\<close>, with its offsets at their 32
  bits; \<open>value_\<close> is a piece of the block (\<open>Piece\<close> offset length) or the null piece.
  \<open>None\<close> is a run with no defined result: it reads outside the block, or does not end.
  On a block that the builder wrote none of this happens, and the iterator walks over the entries and
  seeks to the first key not below its target.
\<close>

section \<open>Blocks\<close>

record Block =
  blk_data :: bytes
  blk_size :: nat
  blk_restart_offset :: uint32

definition NumRestarts :: "bytes \<Rightarrow> nat \<Rightarrow> uint32" where
  "NumRestarts data sz = the (DecodeFixed32 kLittleEndian (drop (sz - 4) data))"

text \<open>The constructor leaves \<open>restart_offset_\<close> unset on a bad block; it is not read then.
  \<^verbatim>\<open>1 + NumRestarts()\<close> is a 32-bit sum.\<close>

definition Block_new :: "bytes \<Rightarrow> Block" where
  "Block_new contents =
     (let size = length contents in
      if size < 4 then \<lparr>blk_data = contents, blk_size = 0, blk_restart_offset = 0\<rparr>
      else
        let max_restarts_allowed = (size - 4) div 4 in
        if unat (NumRestarts contents size) > max_restarts_allowed
        then \<lparr>blk_data = contents, blk_size = 0, blk_restart_offset = 0\<rparr>
        else \<lparr>blk_data = contents, blk_size = size,
               blk_restart_offset = word_of_nat (size - unat (1 + NumRestarts contents size) * 4)\<rparr>)"

text \<open>The result is the three lengths and the offset of the key delta, \<open>None\<close> the null
  pointer. \<open>p\<close> and \<open>limit\<close> are offsets in \<open>data\<close>; the bound check adds two
  32-bit numbers.\<close>

definition DecodeEntry :: "bytes \<Rightarrow> nat \<Rightarrow> nat \<Rightarrow> (uint32 \<times> uint32 \<times> uint32 \<times> nat) option" where
  "DecodeEntry data p limit =
     (if limit < p + 3 then None
      else
        let s = take (limit - p) (drop p data);
            shared = ucast (s ! 0); non_shared = ucast (s ! 1); value_length = ucast (s ! 2)
        in case
             (if (shared OR non_shared OR value_length) < (128 :: uint32)
              then Some (shared, non_shared, value_length, p + 3)
              else case GetVarint32Ptr s of None \<Rightarrow> None
                | Some (shared, s) \<Rightarrow> (case GetVarint32Ptr s of None \<Rightarrow> None
                  | Some (non_shared, s) \<Rightarrow> (case GetVarint32Ptr s of None \<Rightarrow> None
                    | Some (value_length, s) \<Rightarrow>
                        Some (shared, non_shared, value_length, limit - length s))))
           of None \<Rightarrow> None
           | Some (shared, non_shared, value_length, p) \<Rightarrow>
               (if (word_of_nat (limit - p) :: uint32) < non_shared + value_length then None
                else Some (shared, non_shared, value_length, p)))"

section \<open>The block iterator\<close>

datatype string_piece = NullPiece | Piece nat nat

record BlockIter =
  it_data :: bytes
  it_restarts :: uint32
  it_num_restarts :: uint32
  it_current :: uint32
  it_restart_index :: uint32
  it_key :: bytes
  it_value :: string_piece
  it_status :: status

definition NextEntryOffset :: "BlockIter \<Rightarrow> uint32 option" where
  "NextEntryOffset it =
     (case it_value it of NullPiece \<Rightarrow> None | Piece off len \<Rightarrow> Some (word_of_nat (off + len)))"

definition GetRestartPoint :: "BlockIter \<Rightarrow> uint32 \<Rightarrow> uint32 option" where
  "GetRestartPoint it index =
     DecodeFixed32 kLittleEndian (drop (unat (it_restarts it) + unat index * 4) (it_data it))"

definition SeekToRestartPoint :: "uint32 \<Rightarrow> BlockIter \<Rightarrow> BlockIter option" where
  "SeekToRestartPoint index it =
     (case GetRestartPoint it index of None \<Rightarrow> None
      | Some offset \<Rightarrow>
          Some (it\<lparr>it_key := [], it_restart_index := index, it_value := Piece (unat offset) 0\<rparr>))"

definition BlockIter_new :: "bytes \<Rightarrow> uint32 \<Rightarrow> uint32 \<Rightarrow> BlockIter" where
  "BlockIter_new data restarts num_restarts =
     \<lparr>it_data = data, it_restarts = restarts, it_num_restarts = num_restarts,
      it_current = restarts, it_restart_index = num_restarts, it_key = [], it_value = NullPiece,
      it_status = OK\<rparr>"

definition BlockIter_Valid :: "BlockIter \<Rightarrow> bool" where
  "BlockIter_Valid it = (it_current it < it_restarts it)"

definition BlockIter_value :: "BlockIter \<Rightarrow> bytes option" where
  "BlockIter_value it =
     (case it_value it of NullPiece \<Rightarrow> Some []
      | Piece off len \<Rightarrow>
          (if off + len \<le> length (it_data it) then Some (take len (drop off (it_data it))) else None))"

definition CorruptionError :: "BlockIter \<Rightarrow> BlockIter" where
  "CorruptionError it =
     it\<lparr>it_current := it_restarts it, it_restart_index := it_num_restarts it,
        it_status := Error DATA_LOSS ''bad entry in block'', it_key := [], it_value := NullPiece\<rparr>"

text \<open>The loop that advances \<open>restart_index_\<close>.\<close>

lemma unat_plus_1: "w < (n :: 'a::len word) \<Longrightarrow> unat (w + 1) = Suc (unat w)"
proof -
  assume "w < n"
  then have "Suc (unat w) < 2 ^ LENGTH('a)"
    using unsigned_less [of n, where ?'a = nat] by (simp add: word_less_nat_alt del: unsigned_less)
  then show ?thesis using unat_word_ariths(1) [of w 1] by simp
qed

lemma restart_index_measure:
  assumes "i + 1 < (n :: uint32)" shows "unat n - unat (2 + i) < unat n - unat (i + 1)"
proof -
  have "2 + i = i + 1 + 1" by simp
  then have "unat (2 + i) = Suc (unat (i + 1))" using unat_plus_1 [OF assms] by simp
  then show ?thesis using assms by (simp add: word_less_nat_alt)
qed

function advance_restart_index :: "BlockIter \<Rightarrow> uint32 \<Rightarrow> uint32 \<Rightarrow> uint32 option" where
  "advance_restart_index it current restart_index =
     (if restart_index + 1 < it_num_restarts it then
        (case GetRestartPoint it (restart_index + 1) of None \<Rightarrow> None
         | Some r \<Rightarrow> (if r < current then advance_restart_index it current (restart_index + 1)
                     else Some restart_index))
      else Some restart_index)"
  by pat_completeness auto
termination
  by (relation "measure (\<lambda>(it, _, i). unat (it_num_restarts it) - unat (i + 1))")
     (auto intro: restart_index_measure)

declare advance_restart_index.simps [simp del]

text \<open>Appending to \<open>key_\<close> reads the key delta, which has no defined result past the end of the
  contents.\<close>

definition ParseNextKey :: "BlockIter \<Rightarrow> (bool \<times> BlockIter) option" where
  "ParseNextKey it =
     (case NextEntryOffset it of None \<Rightarrow> None
      | Some current \<Rightarrow>
          (let it = it\<lparr>it_current := current\<rparr>; p = unat current; limit = unat (it_restarts it) in
           if p \<ge> limit then
             Some (False, it\<lparr>it_current := it_restarts it, it_restart_index := it_num_restarts it\<rparr>)
           else case DecodeEntry (it_data it) p limit of
             None \<Rightarrow> Some (False, CorruptionError it)
           | Some (shared, non_shared, value_length, p) \<Rightarrow>
               (if length (it_key it) < unat shared then Some (False, CorruptionError it)
                else if length (it_data it) < p + unat non_shared then None
                else
                  let it = it\<lparr>it_key := take (unat shared) (it_key it) @
                                        take (unat non_shared) (drop p (it_data it)),
                              it_value := Piece (p + unat non_shared) (unat value_length)\<rparr>
                  in case advance_restart_index it current (it_restart_index it) of None \<Rightarrow> None
                     | Some i \<Rightarrow> Some (True, it\<lparr>it_restart_index := i\<rparr>))))"

definition BlockIter_Next :: "BlockIter \<Rightarrow> BlockIter option" where
  "BlockIter_Next it = map_option snd (ParseNextKey it)"

definition BlockIter_SeekToFirst :: "BlockIter \<Rightarrow> BlockIter option" where
  "BlockIter_SeekToFirst it =
     (case SeekToRestartPoint 0 it of None \<Rightarrow> None | Some it \<Rightarrow> map_option snd (ParseNextKey it))"

text \<open>\<^verbatim>\<open>Compare(piece, target) < 0\<close>: \<^verbatim>\<open>memcmp\<close> of the common length, then the
  lengths.\<close>

definition piece_less :: "bytes \<Rightarrow> nat \<Rightarrow> nat \<Rightarrow> bytes \<Rightarrow> bool option" where
  "piece_less data off len target =
     (let m = min len (length target) in
      if length data < off + m then None
      else let a = take m (drop off data); b = take m target in
           Some (a < b \<or> a = b \<and> len < length target))"

text \<open>The binary search: \<open>Some None\<close> is a corrupt restart point. The midpoint is computed on 32
  bits.\<close>

partial_function (option) Seek_search ::
  "BlockIter \<Rightarrow> bytes \<Rightarrow> uint32 \<Rightarrow> uint32 \<Rightarrow> uint32 option option" where
  "Seek_search it target left right =
     (if left < right then
        let mid = (left + right + 1) div 2 in
        case GetRestartPoint it mid of None \<Rightarrow> None
        | Some region_offset \<Rightarrow>
            (case DecodeEntry (it_data it) (unat region_offset) (unat (it_restarts it)) of
               None \<Rightarrow> Some None
             | Some (shared, non_shared, value_length, key_ptr) \<Rightarrow>
                 if shared \<noteq> 0 then Some None
                 else case piece_less (it_data it) key_ptr (unat non_shared) target of None \<Rightarrow> None
                   | Some below \<Rightarrow> if below then Seek_search it target mid right
                                  else Seek_search it target left (mid - 1))
      else Some (Some left))"

partial_function (option) Seek_linear :: "bytes \<Rightarrow> BlockIter \<Rightarrow> BlockIter option" where
  "Seek_linear target it =
     (case ParseNextKey it of None \<Rightarrow> None
      | Some (parsed, it) \<Rightarrow>
          if \<not> parsed then Some it
          else if \<not> it_key it < target then Some it
          else Seek_linear target it)"

definition BlockIter_Seek :: "bytes \<Rightarrow> BlockIter \<Rightarrow> BlockIter option" where
  "BlockIter_Seek target it =
     (case Seek_search it target 0 (it_num_restarts it - 1) of None \<Rightarrow> None
      | Some None \<Rightarrow> Some (CorruptionError it)
      | Some (Some left) \<Rightarrow>
          (case SeekToRestartPoint left it of None \<Rightarrow> None | Some it \<Rightarrow> Seek_linear target it))"

section \<open>Iterators\<close>

text \<open>The classes that implement \<^verbatim>\<open>Iterator\<close> over one block.\<close>

datatype Iterator = BlockIterator BlockIter | EmptyIterator status

definition NewEmptyIterator :: Iterator where "NewEmptyIterator = EmptyIterator OK"
definition NewErrorIterator :: "status \<Rightarrow> Iterator" where "NewErrorIterator s = EmptyIterator s"

definition Block_NewIterator :: "Block \<Rightarrow> Iterator" where
  "Block_NewIterator b =
     (if blk_size b < 4 then NewErrorIterator (Error DATA_LOSS ''bad block contents'')
      else
        let num_restarts = NumRestarts (blk_data b) (blk_size b) in
        if num_restarts = 0 then NewEmptyIterator
        else BlockIterator (BlockIter_new (blk_data b) (blk_restart_offset b) num_restarts))"

fun Valid :: "Iterator \<Rightarrow> bool" where
  "Valid (BlockIterator it) = BlockIter_Valid it"
| "Valid (EmptyIterator s) = False"

fun status_of :: "Iterator \<Rightarrow> status" where
  "status_of (BlockIterator it) = it_status it"
| "status_of (EmptyIterator s) = s"

fun key_of :: "Iterator \<Rightarrow> bytes" where
  "key_of (BlockIterator it) = it_key it"
| "key_of (EmptyIterator s) = []"

fun value_of :: "Iterator \<Rightarrow> bytes option" where
  "value_of (BlockIterator it) = BlockIter_value it"
| "value_of (EmptyIterator s) = Some []"

fun Next :: "Iterator \<Rightarrow> Iterator option" where
  "Next (BlockIterator it) = map_option BlockIterator (BlockIter_Next it)"
| "Next (EmptyIterator s) = Some (EmptyIterator s)"

fun Seek :: "bytes \<Rightarrow> Iterator \<Rightarrow> Iterator option" where
  "Seek target (BlockIterator it) = map_option BlockIterator (BlockIter_Seek target it)"
| "Seek target (EmptyIterator s) = Some (EmptyIterator s)"

fun SeekToFirst :: "Iterator \<Rightarrow> Iterator option" where
  "SeekToFirst (BlockIterator it) = map_option BlockIterator (BlockIter_SeekToFirst it)"
| "SeekToFirst (EmptyIterator s) = Some (EmptyIterator s)"

section \<open>Decoding an entry\<close>

text \<open>The fast path of \<^verbatim>\<open>DecodeEntry\<close> agrees with three varint reads.\<close>

lemma small_byte_and_128: "b < 128 \<Longrightarrow> (b :: byte) AND 128 = 0"
proof -
  assume "b < 128"
  then have "unat b < 2 ^ 7" by (simp add: word_less_nat_alt)
  then have "\<not> bit b n" if "7 \<le> n" for n using bit_small_word that by blast
  then show ?thesis by (intro bit_word_eqI) (auto simp: bit_simps word_bits)
qed

lemma GetVarint32Ptr_small: "(ucast b :: uint32) < 128 \<Longrightarrow> GetVarint32Ptr (b # q) = Some (ucast b, q)"
proof -
  assume "(ucast b :: uint32) < 128"
  moreover have "unat (ucast b :: uint32) = unat b"
    using unsigned_less [of b, where ?'a = nat]
    by (simp add: unsigned_ucast_eq take_bit_nat_eq_self del: unsigned_less)
  ultimately have "b < 128" by (simp add: word_less_nat_alt)
  then have "(ucast b :: uint32) AND 128 = 0"
    using ucast_and_eq_0_iff [of b, where ?'b = 32] small_byte_and_128 by simp
  then show ?thesis by (simp add: GetVarint32Ptr_def)
qed

lemma or_less_128:
  "a OR b OR c < (128 :: uint32) \<Longrightarrow> a < 128 \<and> b < 128 \<and> c < 128"
  using le_word_or2 [of a "b OR c"] le_word_or2 [of "b" "a OR c"] le_word_or2 [of c "a OR b"]
  by (auto simp: or.left_commute or.commute intro: order.strict_trans1)

definition DecodeEntry_varints :: "bytes \<Rightarrow> (uint32 \<times> uint32 \<times> uint32 \<times> bytes) option" where
  "DecodeEntry_varints s =
     (case GetVarint32 s of None \<Rightarrow> None
      | Some (shared, s) \<Rightarrow> (case GetVarint32 s of None \<Rightarrow> None
        | Some (non_shared, s) \<Rightarrow> (case GetVarint32 s of None \<Rightarrow> None
          | Some (value_length, s) \<Rightarrow> Some (shared, non_shared, value_length, s))))"

lemma GetVarint32_eq_Ptr: "GetVarint32 = GetVarint32Ptr"
  by (auto simp: GetVarint32_def split: option.splits)

lemma DecodeEntry_slow:
  assumes "limit \<le> length data"
  shows "DecodeEntry data p limit =
    (if limit < p + 3 then None
     else case DecodeEntry_varints (take (limit - p) (drop p data)) of None \<Rightarrow> None
       | Some (shared, non_shared, value_length, s) \<Rightarrow>
           (if (word_of_nat (length s) :: uint32) < non_shared + value_length then None
            else Some (shared, non_shared, value_length, limit - length s)))"
proof (cases "limit < p + 3")
  case False
  let ?s = "take (limit - p) (drop p data)"
  have "3 \<le> length ?s" using assms False by simp
  then obtain a b c r where s: "?s = a # b # c # r"
    by (metis Suc_le_length_iff numeral_3_eq_3)
  have len: "length ?s = limit - p" using assms by simp
  then have r: "limit - (p + 3) = length r" "limit - length r = p + 3" using s False by simp_all
  have suffix: "GetVarint32Ptr q = Some (v, q') \<Longrightarrow> length q' \<le> length q" for q v q'
    by (auto simp: GetVarint32Ptr_eq GetVarint32PtrFallback_def dest!: GetVarint_loop_consumes)
  show ?thesis
  proof (cases "(ucast a OR ucast b OR ucast c :: uint32) < 128")
    case True
    from or_less_128 [OF this] have "DecodeEntry_varints ?s = Some (ucast a, ucast b, ucast c, r)"
      by (simp add: DecodeEntry_varints_def GetVarint32_eq_Ptr s GetVarint32Ptr_small)
    then show ?thesis using True False r by (simp add: DecodeEntry_def Let_def s del: of_nat_diff)
  next
    case nf: False
    have le: "length ?s \<le> limit" using len by simp
    show ?thesis
      using nf False s le
      by (auto simp: DecodeEntry_def DecodeEntry_varints_def GetVarint32_eq_Ptr Let_def
          dest!: suffix split: option.split)
  qed
qed (simp add: DecodeEntry_def)

lemma DecodeEntry_varints_enc:
  "DecodeEntry_varints (EncodeVarint32 a @ EncodeVarint32 b @ EncodeVarint32 c @ r) = Some (a, b, c, r)"
  by (simp add: DecodeEntry_varints_def codec_simps)

definition entry_header :: "entry \<Rightarrow> bytes" where
  "entry_header = (\<lambda>(s, k, v). EncodeVarint32 (word_of_nat s) @
     EncodeVarint32 (word_of_nat (length k - s)) @ EncodeVarint32 (word_of_nat (length v)))"

lemma enc_entry_header: "enc_entry (s, k, v) = entry_header (s, k, v) @ drop s k @ v"
  by (simp add: enc_entry_def entry_header_def)

lemma EncodeVarint32_not_Nil: "EncodeVarint32 v \<noteq> []"
  by (simp add: EncodeVarint32_def)

lemma length_entry_header: "3 \<le> length (entry_header e)"
proof -
  have "1 \<le> length (EncodeVarint32 v)" for v using EncodeVarint32_not_Nil [of v] by (simp add: Suc_leI)
  from add_mono [OF this add_mono [OF this this]]
  have "3 \<le> length (EncodeVarint32 x @ EncodeVarint32 y @ EncodeVarint32 z)" for x y z
    by (simp add: numeral_3_eq_3)
  then show ?thesis by (auto simp: entry_header_def split: prod.split)
qed

lemma DecodeEntry_enc:
  assumes data: "data = pre @ enc_entry (s, k, v) @ post" and ok: "entry_ok prev (s, k, v)"
    and limit: "length pre + length (enc_entry (s, k, v)) \<le> limit" "limit \<le> length data"
    and small: "length data < 2 ^ 32"
  shows "DecodeEntry data (length pre) limit =
    Some (word_of_nat s, word_of_nat (length k - s), word_of_nat (length v),
          length pre + length (entry_header (s, k, v)))"
proof -
  let ?h = "entry_header (s, k, v)"
  define t where "t = take (limit - length pre - length ?h) (drop s k @ v @ post)"
  have "take (limit - length pre) (drop (length pre) data) = ?h @ t"
    using limit by (simp add: data enc_entry_header t_def)
  then have var: "DecodeEntry_varints (take (limit - length pre) (drop (length pre) data)) =
      Some (word_of_nat s, word_of_nat (length k - s), word_of_nat (length v), t)"
    by (simp add: entry_header_def DecodeEntry_varints_enc)
  have t: "length t = limit - length pre - length ?h"
    using limit by (simp add: t_def data enc_entry_header)
  have "length k - s + length v \<le> length t" using limit t by (simp add: enc_entry_header)
  moreover have "length t < 2 ^ 32" using t limit(2) small by simp
  ultimately have "\<not> (word_of_nat (length t) :: uint32) <
      word_of_nat (length k - s) + word_of_nat (length v)"
    unfolding of_nat_add [symmetric] by (simp add: word_less_nat_alt unat_of_nat del: of_nat_add)
  moreover have "\<not> limit < length pre + 3"
    using limit(1) length_entry_header [of "(s, k, v)"] by (simp add: enc_entry_header)
  ultimately show ?thesis
    using t limit(1) by (simp add: DecodeEntry_slow [OF limit(2)] var enc_entry_header)
qed

section \<open>Positions of the iterator\<close>

lemma enc_entries_split:
  assumes "i < length es"
  shows "enc_entries es = enc_entries (take i es) @ enc_entry (es ! i) @ enc_entries (drop (Suc i) es)"
  using assms by (subst id_take_nth_drop [OF assms]) (simp add: enc_entries_def)

lemma entry_offset_Suc:
  "i < length es \<Longrightarrow> entry_offset es (Suc i) = entry_offset es i + length (enc_entry (es ! i))"
  by (simp add: entry_offset_def enc_entries_def take_Suc_conv_app_nth)

lemma entry_offset_length: "entry_offset es (length es) = length (enc_entries es)"
  by (simp add: entry_offset_def)

lemma entry_offset_le: "entry_offset es i \<le> length (enc_entries es)"
  by (cases "i < length es") (auto simp: entry_offset_def dest: enc_entries_split)

lemma entry_offset_less: "i < length es \<Longrightarrow> entry_offset es i < length (enc_entries es)"
proof -
  assume i: "i < length es"
  have "0 < length (enc_entry (es ! i))"
    using length_entry_header [of "es ! i"] enc_entry_header by (cases "es ! i") fastforce
  then show ?thesis using entry_offset_Suc [OF i] entry_offset_le [of es "Suc i"] by linarith
qed

text \<open>The iterator is on the block \<open>block_bytes es rs\<close>, of less than 4 GB.\<close>

definition iter_on :: "entry list \<Rightarrow> nat list \<Rightarrow> BlockIter \<Rightarrow> bool" where
  "iter_on es rs it \<longleftrightarrow> layout_ok es rs \<and> length (block_bytes es rs) < 2 ^ 32 \<and>
     it_data it = block_bytes es rs \<and> it_restarts it = word_of_nat (length (enc_entries es)) \<and>
     it_num_restarts it = word_of_nat (length rs) \<and> it_status it = OK"

text \<open>It stands before entry \<open>i\<close>, and \<^verbatim>\<open>ParseNextKey\<close> will read it; it stands at entry
  \<open>i\<close>.\<close>

definition iter_before :: "entry list \<Rightarrow> nat list \<Rightarrow> nat \<Rightarrow> BlockIter \<Rightarrow> bool" where
  "iter_before es rs i it \<longleftrightarrow> iter_on es rs it \<and> i \<le> length es \<and>
     (\<exists>off len. it_value it = Piece off len \<and> off + len = entry_offset es i) \<and>
     (i < length es \<longrightarrow> fst (es ! i) \<le> length (it_key it) \<and>
        take (fst (es ! i)) (it_key it) = take (fst (es ! i)) (entry_key (es ! i)))"

definition iter_at :: "entry list \<Rightarrow> nat list \<Rightarrow> nat \<Rightarrow> BlockIter \<Rightarrow> bool" where
  "iter_at es rs i it \<longleftrightarrow> iter_on es rs it \<and> i \<le> length es \<and>
     it_current it = word_of_nat (entry_offset es i) \<and>
     (i < length es \<longrightarrow> it_key it = entry_key (es ! i) \<and>
        it_value it = Piece (entry_offset es (Suc i) - length (entry_value (es ! i)))
                            (length (entry_value (es ! i))))"

lemma iter_on_sizes:
  assumes "iter_on es rs it"
  shows "length (it_data it) = length (enc_entries es) + 4 * length rs + 4"
    "length (enc_entries es) + 4 * length rs + 4 < 2 ^ 32"
    "unat (it_restarts it) = length (enc_entries es)" "unat (it_num_restarts it) = length rs"
  using assms by (auto simp: iter_on_def length_block_bytes unat_of_nat)

lemma GetRestartPoint_on:
  assumes "iter_on es rs it" "unat j < length rs"
  shows "GetRestartPoint it j = Some (word_of_nat (entry_offset es (rs ! unat j)))"
proof -
  let ?f = "\<lambda>r. EncodeFixed32 kLittleEndian (word_of_nat (entry_offset es r))"
  have "concat (map ?f rs) = concat (map ?f (take (unat j) rs)) @ ?f (rs ! unat j) @
      concat (map ?f (drop (Suc (unat j)) rs))"
    by (subst id_take_nth_drop [OF assms(2)]) simp
  moreover have "length (concat (map ?f (take (unat j) rs))) = unat j * 4"
    using assms(2) length_restart_array [of kLittleEndian _ "take (unat j) rs"] by simp
  ultimately have "drop (length (enc_entries es) + unat j * 4) (it_data it) =
      ?f (rs ! unat j) @ concat (map ?f (drop (Suc (unat j)) rs)) @
      EncodeFixed32 kLittleEndian (word_of_nat (length rs))"
    using assms(1) by (simp add: iter_on_def block_bytes_def)
  then show ?thesis
    using iter_on_sizes [OF assms(1)] by (simp add: GetRestartPoint_def codec_simps)
qed

lemma advance_restart_index_on:
  "iter_on es rs it \<Longrightarrow> \<exists>i. advance_restart_index it c r = Some i"
proof (induction it c r rule: advance_restart_index.induct)
  case (1 it c r)
  have "unat (r + 1) < length rs" if "r + 1 < it_num_restarts it"
    using that iter_on_sizes [OF 1(2)] by (simp add: word_less_nat_alt)
  then show ?case using 1 by (auto simp: advance_restart_index.simps [of it c r] GetRestartPoint_on)
qed

lemma iter_on_update [simp]:
  "iter_on es rs (it\<lparr>it_current := c\<rparr>) = iter_on es rs it"
  "iter_on es rs (it\<lparr>it_restart_index := r\<rparr>) = iter_on es rs it"
  "iter_on es rs (it\<lparr>it_key := k\<rparr>) = iter_on es rs it"
  "iter_on es rs (it\<lparr>it_value := v\<rparr>) = iter_on es rs it"
  by (simp_all add: iter_on_def)

lemma restart_entry_whole:
  assumes lay: "layout_ok es rs" and r: "r \<in> set rs" "r < length es"
  shows "fst (es ! r) = 0"
proof (cases "r = 0")
  case True
  from lay have "\<forall>i < length es. entry_ok (prev_key es i) (es ! i)" by (simp add: layout_ok_def)
  then have ok: "entry_ok (prev_key es r) (es ! r)" using r(2) by blast
  obtain s k v where e: "es ! r = (s, k, v)" by (cases "es ! r")
  from ok have "s \<le> length (prev_key es r)" unfolding e entry_ok_def split by (rule conjunct1)
  then show ?thesis by (simp add: True prev_key_def e [unfolded True])
next
  case False
  then show ?thesis using layout_restart_cases [OF lay r(1)] by simp
qed

lemma SeekToRestartPoint_on:
  assumes "iter_on es rs it" "unat j < length rs"
  shows "\<exists>it'. SeekToRestartPoint j it = Some it' \<and> iter_before es rs (rs ! unat j) it'"
proof -
  let ?r = "rs ! unat j"
  have lay: "layout_ok es rs" using assms(1) by (simp only: iter_on_def)
  have mem: "?r \<in> set rs" using assms(2) by (rule nth_mem)
  have r: "?r \<le> length es" by (rule layout_restart_le [OF lay mem])
  have "entry_offset es ?r < 2 ^ 32"
    using entry_offset_le [of es ?r] iter_on_sizes(2) [OF assms(1)] by linarith
  then have off: "unat (word_of_nat (entry_offset es ?r) :: uint32) = entry_offset es ?r"
    by (simp add: unat_of_nat)
  show ?thesis
    using assms(1) r off restart_entry_whole [OF lay mem]
    by (auto simp add: SeekToRestartPoint_def GetRestartPoint_on [OF assms] iter_before_def)
qed

lemma layout_entry_ok:
  assumes "layout_ok es rs" "i < length es" shows "entry_ok (prev_key es i) (es ! i)"
  using assms by (simp add: layout_ok_def)

text \<open>Decoding the entry at its offset, up to the restart array.\<close>

lemma DecodeEntry_on:
  assumes on: "iter_on es rs it" and i: "i < length es" and e: "es ! i = (s, k, v)"
  shows "DecodeEntry (it_data it) (entry_offset es i) (unat (it_restarts it)) =
      Some (word_of_nat s, word_of_nat (length k - s), word_of_nat (length v),
        entry_offset es i + length (entry_header (s, k, v)))"
    "take (length k - s) (drop (entry_offset es i + length (entry_header (s, k, v))) (it_data it)) = drop s k"
    "entry_offset es i + length (entry_header (s, k, v)) + (length k - s) + length v \<le> length (it_data it)"
    "take (length v) (drop (entry_offset es i + length (entry_header (s, k, v)) + (length k - s)) (it_data it)) = v"
proof -
  define post where "post = enc_entries (drop (Suc i) es) @
     concat (map (\<lambda>r. EncodeFixed32 kLittleEndian (word_of_nat (entry_offset es r))) rs) @
     EncodeFixed32 kLittleEndian (word_of_nat (length rs))"
  have data: "it_data it = enc_entries (take i es) @ enc_entry (s, k, v) @ post"
    using on enc_entries_split [OF i] e by (simp add: iter_on_def block_bytes_def post_def)
  have len: "length (enc_entries (take i es)) = entry_offset es i" by (simp add: entry_offset_def)
  note sz = iter_on_sizes [OF on]
  have lay: "layout_ok es rs" using on by (simp add: iter_on_def)
  have "entry_ok (prev_key es i) (s, k, v)" using layout_entry_ok [OF lay i] e by simp
  moreover have "entry_offset es i + length (enc_entry (s, k, v)) \<le> unat (it_restarts it)"
    using entry_offset_Suc [OF i] entry_offset_le [of es "Suc i"] e sz(3) by simp
  moreover have "unat (it_restarts it) \<le> length (it_data it)" "length (it_data it) < 2 ^ 32"
    using sz by simp_all
  ultimately show "DecodeEntry (it_data it) (entry_offset es i) (unat (it_restarts it)) =
      Some (word_of_nat s, word_of_nat (length k - s), word_of_nat (length v),
        entry_offset es i + length (entry_header (s, k, v)))"
    using DecodeEntry_enc [OF data] len by metis
  show "take (length k - s) (drop (entry_offset es i + length (entry_header (s, k, v))) (it_data it)) = drop s k"
    "entry_offset es i + length (entry_header (s, k, v)) + (length k - s) + length v \<le> length (it_data it)"
    "take (length v) (drop (entry_offset es i + length (entry_header (s, k, v)) + (length k - s)) (it_data it)) = v"
    by (simp_all add: data enc_entry_header len [symmetric])
qed

lemma entry_ok_unat:
  assumes "entry_ok prev (s, k, v)"
  shows "unat (word_of_nat s :: uint32) = s"
    "unat (word_of_nat (length k - s) :: uint32) = length k - s"
    "unat (word_of_nat (length v) :: uint32) = length v"
  using assms by (auto simp: entry_ok_def unat_of_nat simp del: of_nat_diff)

lemma ParseNextKey_entry:
  assumes before: "iter_before es rs i it" and i: "i < length es"
  shows "\<exists>it'. ParseNextKey it = Some (True, it') \<and> iter_at es rs i it'"
proof -
  obtain s k v where e: "es ! i = (s, k, v)" by (cases "es ! i")
  have on: "iter_on es rs it" and lay: "layout_ok es rs"
    using before by (simp_all add: iter_before_def iter_on_def)
  have ok: "entry_ok (prev_key es i) (s, k, v)" using layout_entry_ok [OF lay i] e by simp
  note un = entry_ok_unat [OF ok] and dec = DecodeEntry_on [OF on i e] and sz = iter_on_sizes [OF on]
  let ?p = "entry_offset es i + length (entry_header (s, k, v))"
  have less: "entry_offset es i < length (enc_entries es)" by (rule entry_offset_less [OF i])
  then have cur: "unat (word_of_nat (entry_offset es i) :: uint32) = entry_offset es i"
    using sz(2) by (simp add: unat_of_nat)
  have next_off: "NextEntryOffset it = Some (word_of_nat (entry_offset es i))"
    using before by (auto simp: NextEntryOffset_def iter_before_def simp del: of_nat_add)
  have key: "s \<le> length (it_key it)" "take s (it_key it) = take s k"
    using before i e by (simp_all add: iter_before_def)
  define it1 where "it1 = it\<lparr>it_current := word_of_nat (entry_offset es i),
    it_key := take s (it_key it) @ drop s k, it_value := Piece (?p + (length k - s)) (length v)\<rparr>"
  have on1: "iter_on es rs it1" using on by (simp add: it1_def)
  obtain r where r: "advance_restart_index it1 (word_of_nat (entry_offset es i)) (it_restart_index it1) = Some r"
    using advance_restart_index_on [OF on1] by blast
  have "ParseNextKey it = Some (True, it1\<lparr>it_restart_index := r\<rparr>)"
    using less key(1) dec r
    by (simp add: ParseNextKey_def next_off Let_def cur sz un it1_def)
  moreover have "iter_at es rs i (it1\<lparr>it_restart_index := r\<rparr>)"
    using on i e key(2) entry_offset_Suc [OF i]
    by (simp add: iter_at_def it1_def enc_entry_header)
  ultimately show ?thesis by blast
qed

lemma ParseNextKey_end:
  assumes "iter_before es rs (length es) it"
  shows "\<exists>it'. ParseNextKey it = Some (False, it') \<and> iter_at es rs (length es) it'"
proof -
  have on: "iter_on es rs it" using assms by (simp add: iter_before_def)
  have next_off: "NextEntryOffset it = Some (it_restarts it)"
    using assms on by (auto simp: NextEntryOffset_def iter_before_def iter_on_def entry_offset_length
        simp del: of_nat_add)
  show ?thesis
    using on by (simp add: ParseNextKey_def next_off Let_def iter_at_def) (simp add: iter_on_def entry_offset_length)
qed

lemma ParseNextKey_on:
  assumes "iter_before es rs i it"
  shows "\<exists>it'. ParseNextKey it = Some (i < length es, it') \<and> iter_at es rs i it'"
proof (cases "i < length es")
  case True
  then show ?thesis using ParseNextKey_entry [OF assms] by simp
next
  case False
  then have "i = length es" using assms by (simp add: iter_before_def)
  then show ?thesis using ParseNextKey_end assms by simp
qed

lemma iter_at_before:
  assumes at: "iter_at es rs i it" and i: "i < length es"
  shows "iter_before es rs (Suc i) it"
proof -
  have lay: "layout_ok es rs" using at by (simp add: iter_at_def iter_on_def)
  have "length (entry_value (es ! i)) \<le> entry_offset es (Suc i)"
    using entry_offset_Suc [OF i] enc_entry_header by (cases "es ! i") simp
  moreover have "fst (es ! Suc i) \<le> length (entry_key (es ! i)) \<and>
      take (fst (es ! Suc i)) (entry_key (es ! i)) = take (fst (es ! Suc i)) (entry_key (es ! Suc i))"
    if "Suc i < length es"
    using layout_entry_ok [OF lay that] by (cases "es ! Suc i") (simp add: entry_ok_def prev_key_def)
  ultimately show ?thesis using at i by (simp add: iter_before_def iter_at_def)
qed

lemma BlockIter_Valid_on:
  assumes "iter_at es rs i it" shows "BlockIter_Valid it \<longleftrightarrow> i < length es"
proof -
  have on: "iter_on es rs it" using assms by (simp add: iter_at_def)
  have "unat (it_current it) = entry_offset es i"
    using assms entry_offset_le [of es i] iter_on_sizes(2) [OF on] by (simp add: iter_at_def unat_of_nat)
  then show ?thesis
    using assms entry_offset_less [of i es] iter_on_sizes(3) [OF on]
    by (cases "i < length es") (auto simp: BlockIter_Valid_def word_less_nat_alt iter_at_def entry_offset_length)
qed

lemma BlockIter_value_on:
  assumes at: "iter_at es rs i it" and i: "i < length es"
  shows "BlockIter_value it = Some (entry_value (es ! i))"
proof -
  obtain s k v where e: "es ! i = (s, k, v)" by (cases "es ! i")
  have on: "iter_on es rs it" using at by (simp add: iter_at_def)
  show ?thesis
    using DecodeEntry_on(3,4) [OF on i e] at i e entry_offset_Suc [OF i]
    by (simp add: BlockIter_value_def iter_at_def enc_entry_header add.assoc)
qed

section \<open>Seek\<close>

lemma piece_less_eq:
  assumes "off + len \<le> length data"
  shows "piece_less data off len target = Some (take len (drop off data) < target)"
proof -
  define a where "a = take len (drop off data)"
  have a: "length a = len" using assms by (simp add: a_def)
  have "xs < ys \<longleftrightarrow> take (min (length xs) (length ys)) xs < take (min (length xs) (length ys)) ys \<or>
      take (min (length xs) (length ys)) xs = take (min (length xs) (length ys)) ys \<and> length xs < length ys"
    for xs ys :: bytes
    by (induction xs ys rule: list_induct2') auto
  from this [of a target] show ?thesis
    using assms a by (simp add: piece_less_def Let_def a_def min_def)
qed

lemma mid_word:
  assumes "unat (l :: uint32) < unat r" "unat r < 2 ^ 31"
  shows "unat ((l + r + 1) div 2) = (unat l + unat r + 1) div 2"
proof -
  have "unat (l + r + 1) = unat l + unat r + 1"
    using assms by (simp add: unat_word_ariths)
  then show ?thesis by (simp add: unat_div)
qed

lemma layout_restart_nth:
  assumes "layout_ok es rs" "0 < j" "j < length rs"
  shows "rs ! j < length es" "fst (es ! (rs ! j)) = 0"
proof -
  have "rs ! j = tl rs ! (j - 1)" "j - 1 < length (tl rs)" using assms(2,3) by (cases rs; simp)+
  then have "rs ! j \<in> set (tl rs)" using nth_mem by metis
  then show "rs ! j < length es" "fst (es ! (rs ! j)) = 0" using assms(1) by (simp_all add: layout_ok_def)
qed

text \<open>A probe of the search decodes the whole key at a restart point.\<close>

lemma Seek_probe:
  assumes on: "iter_on es rs it" and j: "unat mid < length rs"
    and i: "rs ! unat mid < length es" and e: "es ! (rs ! unat mid) = (0, k, v)"
  shows "GetRestartPoint it mid = Some (word_of_nat (entry_offset es (rs ! unat mid)))"
    "DecodeEntry (it_data it) (unat (word_of_nat (entry_offset es (rs ! unat mid)) :: uint32))
       (unat (it_restarts it)) = Some (0, word_of_nat (length k), word_of_nat (length v),
         entry_offset es (rs ! unat mid) + length (entry_header (0, k, v)))"
    "piece_less (it_data it) (entry_offset es (rs ! unat mid) + length (entry_header (0, k, v)))
       (unat (word_of_nat (length k) :: uint32)) target = Some (k < target)"
proof -
  let ?i = "rs ! unat mid"
  note dec = DecodeEntry_on [OF on i e] and sz = iter_on_sizes [OF on]
  have "entry_offset es ?i < 2 ^ 32" using entry_offset_le [of es ?i] sz(2) by linarith
  then have off: "unat (word_of_nat (entry_offset es ?i) :: uint32) = entry_offset es ?i"
    by (simp add: unat_of_nat)
  have lay: "layout_ok es rs" using on by (simp add: iter_on_def)
  have "entry_ok (prev_key es ?i) (0, k, v)" using layout_entry_ok [OF lay i] e by simp
  from entry_ok_unat(2) [OF this] have k: "unat (word_of_nat (length k) :: uint32) = length k" by simp
  show "GetRestartPoint it mid = Some (word_of_nat (entry_offset es ?i))"
    by (rule GetRestartPoint_on [OF on j])
  show "DecodeEntry (it_data it) (unat (word_of_nat (entry_offset es ?i) :: uint32))
       (unat (it_restarts it)) = Some (0, word_of_nat (length k), word_of_nat (length v),
         entry_offset es ?i + length (entry_header (0, k, v)))"
    using dec(1) off by simp
  show "piece_less (it_data it) (entry_offset es ?i + length (entry_header (0, k, v)))
       (unat (word_of_nat (length k) :: uint32)) target = Some (k < target)"
    using dec(2,3) by (simp add: k piece_less_eq)
qed

text \<open>The binary search ends at a restart point whose key is below the target, or at the first.\<close>

lemma Seek_search_on:
  assumes on: "iter_on es rs it"
  shows "unat l \<le> unat r \<Longrightarrow> unat r < length rs \<Longrightarrow>
     unat l = 0 \<or> rs ! unat l < length es \<and> entry_key (es ! (rs ! unat l)) < target \<Longrightarrow>
     \<exists>j. Seek_search it target l r = Some (Some j) \<and> unat j < length rs \<and>
       (unat j = 0 \<or> rs ! unat j < length es \<and> entry_key (es ! (rs ! unat j)) < target)"
proof (induction "unat r - unat l" arbitrary: l r rule: less_induct)
  case less
  note sz = iter_on_sizes [OF on]
  show ?case
  proof (cases "l < r")
    case False
    then have "l = r" using less.prems(1) by (simp add: word_less_nat_alt word_unat_eq_iff)
    then show ?thesis using less.prems by (simp add: Seek_search.simps)
  next
    case True
    then have lr: "unat l < unat r" by (simp add: word_less_nat_alt)
    define mid where "mid = (l + r + 1) div 2"
    have m: "unat mid = (unat l + unat r + 1) div 2"
      unfolding mid_def using mid_word [OF lr] less.prems(2) sz(2) by simp
    then have bounds: "unat l < unat mid" "unat mid \<le> unat r" "0 < unat mid" using lr by auto
    then have j: "unat mid < length rs" using less.prems(2) by simp
    let ?i = "rs ! unat mid"
    from layout_restart_nth [OF _ bounds(3) j] on
    have i: "?i < length es" "fst (es ! ?i) = 0" by (simp_all add: iter_on_def)
    then obtain k v where e: "es ! ?i = (0, k, v)" by (cases "es ! ?i") auto
    have step: "Seek_search it target l r =
        (if k < target then Seek_search it target mid r else Seek_search it target l (mid - 1))"
      using True by (simp add: Seek_search.simps [of it target l r] mid_def [symmetric]
          Seek_probe [OF on j i(1) e] Let_def)
    have mid1: "unat (mid - 1) = unat mid - 1" using bounds(3) unat_sub [of 1 mid] by (simp add: word_le_nat_alt)
    show ?thesis
    proof (cases "k < target")
      case True
      with step show ?thesis using less.hyps [of r mid] less.prems bounds i e by simp
    next
      case False
      with step show ?thesis using less.hyps [of "mid - 1" l] less.prems bounds mid1 by simp
    qed
  qed
qed

lemma Seek_linear_on:
  "iter_before es rs i it \<Longrightarrow> \<exists>it' n. Seek_linear target it = Some it' \<and> iter_at es rs n it' \<and> i \<le> n \<and>
     (\<forall>m. i \<le> m \<and> m < n \<longrightarrow> entry_key (es ! m) < target) \<and>
     (n < length es \<longrightarrow> \<not> entry_key (es ! n) < target)"
proof (induction "length es - i" arbitrary: i it rule: less_induct)
  case less
  from ParseNextKey_on [OF less.prems] obtain it1 where
    it1: "ParseNextKey it = Some (i < length es, it1)" "iter_at es rs i it1" by blast
  show ?case
  proof (cases "i < length es \<and> entry_key (es ! i) < target")
    case False
    then have "Seek_linear target it = Some it1"
      using it1 by (auto simp: Seek_linear.simps iter_at_def)
    then show ?thesis using it1(2) False by (intro exI [of _ it1] exI [of _ i]) auto
  next
    case True
    then have "length es - Suc i < length es - i" by linarith
    from less.hyps [OF this iter_at_before [OF it1(2)]] True obtain it' n where
      "Seek_linear target it1 = Some it'" "iter_at es rs n it'" "Suc i \<le> n"
      "\<forall>m. Suc i \<le> m \<and> m < n \<longrightarrow> entry_key (es ! m) < target"
      "n < length es \<longrightarrow> \<not> entry_key (es ! n) < target" by blast
    moreover have "Seek_linear target it = Seek_linear target it1"
      using it1 True by (simp add: Seek_linear.simps [of target it] iter_at_def)
    moreover have "entry_key (es ! m) < target" if "i \<le> m" "m < n" for m
      using calculation(4) True that by (cases "m = i") auto
    ultimately show ?thesis by (intro exI [of _ it'] exI [of _ n]) auto
  qed
qed

abbreviation entries_kvs :: "entry list \<Rightarrow> (bytes \<times> bytes) list" where
  "entries_kvs es \<equiv> map snd es"

lemma BlockIter_Seek_on:
  assumes on: "iter_on es rs it" and sorted: "keys_sorted (entries_kvs es)"
  shows "\<exists>it'. BlockIter_Seek target it = Some it' \<and>
    iter_at es rs (seek_pos (entries_kvs es) target) it'"
proof -
  note sz = iter_on_sizes [OF on]
  have lay: "layout_ok es rs" using on by (simp add: iter_on_def)
  then have "0 < length rs" by (simp add: layout_ok_def)
  then have num: "unat (it_num_restarts it - 1) = length rs - 1"
    using unat_sub [of 1 "it_num_restarts it"] sz(4) by (simp add: word_le_nat_alt Suc_le_eq)
  with Seek_search_on [OF on, of 0 "it_num_restarts it - 1" target] \<open>0 < length rs\<close>
  obtain j where j: "Seek_search it target 0 (it_num_restarts it - 1) = Some (Some j)" "unat j < length rs"
    "unat j = 0 \<or> rs ! unat j < length es \<and> entry_key (es ! (rs ! unat j)) < target" by auto
  from SeekToRestartPoint_on [OF on j(2)] obtain it1 where
    it1: "SeekToRestartPoint j it = Some it1" "iter_before es rs (rs ! unat j) it1" by blast
  from Seek_linear_on [OF it1(2), of target] obtain it' n where
    n: "Seek_linear target it1 = Some it'" "iter_at es rs n it'"
    "\<forall>m. rs ! unat j \<le> m \<and> m < n \<longrightarrow> entry_key (es ! m) < target"
    "n < length es \<longrightarrow> \<not> entry_key (es ! n) < target" by blast
  have le: "n \<le> length es" using n(2) by (simp add: iter_at_def)
  have "seek_pos (entries_kvs es) target = n"
  proof (rule seek_pos_unique)
    fix m assume m: "m < n"
    show "fst (entries_kvs es ! m) < target"
    proof (cases "rs ! unat j \<le> m")
      case True
      then show ?thesis using n(3) m le by simp
    next
      case False
      moreover have "rs ! 0 = 0" using lay hd_conv_nth [of rs] by (simp add: layout_ok_def)
      ultimately have "unat j \<noteq> 0" by (metis le0)
      then have "entry_key (es ! (rs ! unat j)) < target" "rs ! unat j < length es" using j(3) by auto
      moreover have "entry_key (es ! m) < entry_key (es ! (rs ! unat j))"
        using keys_sorted_nth_less [OF sorted, of m "rs ! unat j"] False calculation(2) by simp
      ultimately show ?thesis using m le by simp
    qed
  qed (use le n(4) in auto)
  then show ?thesis using j(1) it1(1) n(1,2) by (simp add: BlockIter_Seek_def)
qed

lemma BlockIter_SeekToFirst_on:
  assumes on: "iter_on es rs it"
  shows "\<exists>it'. BlockIter_SeekToFirst it = Some it' \<and> iter_at es rs 0 it'"
proof -
  have rs: "0 < length rs" "rs ! 0 = 0"
    using on by (auto simp: iter_on_def layout_ok_def hd_conv_nth)
  with SeekToRestartPoint_on [OF on, of 0] obtain it1 where
    it1: "SeekToRestartPoint 0 it = Some it1" "iter_before es rs 0 it1" by auto
  from ParseNextKey_on [OF it1(2)] show ?thesis
    using it1(1) by (auto simp: BlockIter_SeekToFirst_def)
qed

text \<open>The block iterator meets the contract of \<^verbatim>\<open>Iterator\<close>.\<close>

definition block_usable :: "Iterator \<Rightarrow> (bytes \<times> bytes) list \<Rightarrow> bool" where
  "block_usable it kvs \<longleftrightarrow> keys_sorted kvs \<and>
     (\<exists>b es rs. it = BlockIterator b \<and> iter_on es rs b \<and> entries_kvs es = kvs)"

definition block_stands_at :: "Iterator \<Rightarrow> (bytes \<times> bytes) list \<Rightarrow> nat \<Rightarrow> bool" where
  "block_stands_at it kvs n \<longleftrightarrow> keys_sorted kvs \<and>
     (\<exists>b es rs. it = BlockIterator b \<and> iter_at es rs n b \<and> entries_kvs es = kvs)"

interpretation block_iter: kv_iterator block_usable block_stands_at Valid key_of value_of Next Seek
  SeekToFirst "\<lambda>it. status_of it = OK"
proof (unfold_locales, goal_cases)
  case (8 it kvs n)
  then obtain b es rs where it: "it = BlockIterator b" "iter_at es rs n b" "entries_kvs es = kvs"
    by (auto simp: block_stands_at_def)
  then have "iter_before es rs (Suc n) b" using 8 iter_at_before by auto
  from ParseNextKey_on [OF this] show ?case
    using it 8 by (auto simp: block_stands_at_def BlockIter_Next_def)
next
  case (5 it kvs n)
  then show ?case using BlockIter_Valid_on by (fastforce simp: block_stands_at_def)
next
  case (10 it kvs t)
  then show ?case using BlockIter_Seek_on by (fastforce simp: block_stands_at_def block_usable_def)
next
  case (9 it kvs)
  then show ?case using BlockIter_SeekToFirst_on by (fastforce simp: block_stands_at_def block_usable_def)
qed (auto simp: block_usable_def block_stands_at_def iter_at_def iter_on_def BlockIter_Valid_on BlockIter_value_on)

section \<open>Opening a block\<close>

lemma NumRestarts_block:
  assumes "length rs < 2 ^ 32"
  shows "NumRestarts (block_bytes es rs) (length (block_bytes es rs)) = word_of_nat (length rs)"
proof -
  have "drop (length (block_bytes es rs) - 4) (block_bytes es rs) =
      EncodeFixed32 kLittleEndian (word_of_nat (length rs))"
    by (simp add: block_bytes_def)
  then show ?thesis
    using DecodeFixed32_EncodeFixed32 [of kLittleEndian kLittleEndian _ "[]"] by (simp add: NumRestarts_def)
qed

lemma Block_open:
  assumes lay: "layout_ok es rs" and small: "length (block_bytes es rs) < 2 ^ 32"
  shows "\<exists>b. Block_NewIterator (Block_new (block_bytes es rs)) = BlockIterator b \<and> iter_on es rs b"
proof -
  have len: "length (block_bytes es rs) = length (enc_entries es) + 4 * length rs + 4"
    by (rule length_block_bytes)
  then have rs32: "length rs < 2 ^ 32" using small by simp
  have rs: "0 < length rs" using lay by (simp add: layout_ok_def)
  have num: "unat (word_of_nat (length rs) :: uint32) = length rs"
    using rs32 by (simp add: unat_of_nat)
  have one: "unat (1 + word_of_nat (length rs) :: uint32) = length rs + 1"
    using small len by (simp add: unat_word_ariths num)
  have "word_of_nat (length rs) \<noteq> (0 :: uint32)" using num rs by auto
  moreover note NumRestarts_block [OF rs32, of es, unfolded len]
  ultimately show ?thesis
    using small lay num rs
    by (simp add: Block_NewIterator_def Block_new_def Let_def len one
        iter_on_def BlockIter_new_def)
qed

lemma block_usable_open:
  assumes "builds b es rs" "BlockBuilder_Finish b = Some (b', contents)"
    "length contents < 2 ^ 32" "keys_sorted (entries_kvs es)"
  shows "block_usable (Block_NewIterator (Block_new contents)) (entries_kvs es)"
  using builds_Finish [OF assms(1,2)] Block_open [of es rs] assms(1,3,4)
  by (auto simp: block_usable_def builds_def)

text \<open>What \<^verbatim>\<open>DecodeEntry\<close> guarantees on any input.\<close>

lemma DecodeEntry_varints_length:
  "DecodeEntry_varints s = Some (a, b, c, r) \<Longrightarrow> length r + 3 \<le> length s"
proof -
  have c: "length q' + 1 \<le> length q" if "GetVarint32 q = Some (v, q')" for q v q'
    using that by (auto simp: GetVarint32_eq_Ptr GetVarint32Ptr_eq GetVarint32PtrFallback_def Suc_le_eq
        dest!: GetVarint_loop_consumes)
  assume "DecodeEntry_varints s = Some (a, b, c, r)"
  then show ?thesis by (auto simp: DecodeEntry_varints_def split: option.splits dest!: c)
qed

lemma DecodeEntry_bounds:
  assumes "DecodeEntry data p limit = Some (shared, non_shared, value_length, q)" "limit \<le> length data"
  shows "p + 3 \<le> q \<and> q \<le> limit"
  using assms
  by (auto simp: DecodeEntry_slow split: if_splits option.splits dest!: DecodeEntry_varints_length)

text \<open>The three lengths of an entry as numbers, and the offset of its key delta: three varints before the limit.\<close>

definition entry_lengths :: "bytes \<Rightarrow> nat \<Rightarrow> nat \<Rightarrow> (nat \<times> nat \<times> nat \<times> nat) option" where
  "entry_lengths data p limit =
     map_option (\<lambda>(shared, non_shared, value_length, s). (unat shared, unat non_shared, unat value_length, limit - length s))
       (DecodeEntry_varints (take (limit - p) (drop p data)))"

lemma DecodeEntry_lengths:
  assumes "limit \<le> length data" "limit < 2 ^ 32"
  shows "case entry_lengths data p limit of None \<Rightarrow> DecodeEntry data p limit = None
    | Some (s, n, v, q) \<Rightarrow> p + 3 \<le> q \<and> q \<le> limit \<and> s < 2 ^ 32 \<and> n < 2 ^ 32 \<and> v < 2 ^ 32 \<and>
        DecodeEntry data p limit = (if limit - q < (n + v) mod 2 ^ 32 then None else Some (word_of_nat s, word_of_nat n, word_of_nat v, q))"
proof (cases "DecodeEntry_varints (take (limit - p) (drop p data))")
  case None
  then show ?thesis using DecodeEntry_slow [OF assms(1), of p] by (simp add: entry_lengths_def)
next
  case (Some r)
  obtain s n v rest where r: "r = (s, n, v, rest)" by (cases r)
  have l: "length rest + 3 \<le> limit - p" using DecodeEntry_varints_length [OF Some [unfolded r]] by simp
  have w: "unat (word_of_nat (length rest) :: uint32) = length rest" using l assms(2) by (simp add: unat_of_nat)
  have "(word_of_nat (length rest) < n + v) \<longleftrightarrow> length rest < (unat n + unat v) mod 2 ^ 32"
    unfolding word_less_nat_alt w by (simp add: unat_word_ariths)
  moreover have "unat n < 2 ^ 32" "unat v < 2 ^ 32" "unat s < 2 ^ 32"
    using unsigned_less [of n, where ?'a = nat] unsigned_less [of v, where ?'a = nat] unsigned_less [of s, where ?'a = nat]
    by (simp_all del: unsigned_less)
  moreover have "\<not> limit < p + 3" "p + 3 \<le> limit - length rest" "limit - (limit - length rest) = length rest" using l by linarith+
  ultimately show ?thesis using DecodeEntry_slow [OF assms(1), of p] Some r by (simp add: entry_lengths_def)
qed

lemma advance_restart_index_ends:
  "unat (it_restarts it) + 4 * unat (it_num_restarts it) \<le> length (it_data it) \<Longrightarrow> \<exists>i. advance_restart_index it c r = Some i"
proof (induction it c r rule: advance_restart_index.induct)
  case (1 it c r)
  show ?case
  proof (cases "r + 1 < it_num_restarts it")
    case True
    then have "unat (r + 1) < unat (it_num_restarts it)" by (simp add: word_less_nat_alt)
    then have "GetRestartPoint it (r + 1) \<noteq> None" using "1.prems" by (simp add: GetRestartPoint_def DecodeFixed32_def)
    then obtain x where "GetRestartPoint it (r + 1) = Some x" by blast
    then show ?thesis using 1 True by (subst advance_restart_index.simps) simp
  qed (subst advance_restart_index.simps, simp)
qed

text \<open>A step over an entry that \<^verbatim>\<open>DecodeEntry\<close> accepts, whose key delta lies in the block.\<close>

lemma ParseNextKey_accepts:
  assumes next_at: "NextEntryOffset it = Some c" and c: "unat c < unat (it_restarts it)"
    and arr: "unat (it_restarts it) + 4 * unat (it_num_restarts it) \<le> length (it_data it)"
    and dec: "DecodeEntry (it_data it) (unat c) (unat (it_restarts it)) = Some (word_of_nat s, word_of_nat n, word_of_nat v, q)"
    and small: "s < 2 ^ 32" "n < 2 ^ 32" "v < 2 ^ 32" and s: "s \<le> length (it_key it)" and q: "q + n \<le> length (it_data it)"
  shows "\<exists>it'. ParseNextKey it = Some (True, it') \<and> BlockIter_Valid it' \<and> it_status it' = it_status it \<and> it_current it' = c \<and>
    it_data it' = it_data it \<and> it_key it' = take s (it_key it) @ take n (drop q (it_data it)) \<and> it_value it' = Piece (q + n) v"
proof -
  let ?it = "it\<lparr>it_current := c, it_key := take s (it_key it) @ take n (drop q (it_data it)), it_value := Piece (q + n) v\<rparr>"
  obtain i where i: "advance_restart_index ?it c (it_restart_index it) = Some i"
    using advance_restart_index_ends [of ?it c "it_restart_index it"] arr by auto
  have u: "unat (word_of_nat s :: uint32) = s" "unat (word_of_nat n :: uint32) = n" "unat (word_of_nat v :: uint32) = v"
    using small by (simp_all add: unat_of_nat)
  have "ParseNextKey it = Some (True, ?it\<lparr>it_restart_index := i\<rparr>)"
    using next_at c dec s q u i by (simp add: ParseNextKey_def Let_def)
  then show ?thesis using c by (simp add: BlockIter_Valid_def word_less_nat_alt)
qed

lemma ParseNextKey_rejects:
  assumes "NextEntryOffset it = Some c" "unat c < unat (it_restarts it)"
    and "case DecodeEntry (it_data it) (unat c) (unat (it_restarts it)) of None \<Rightarrow> True | Some (s, _) \<Rightarrow> length (it_key it) < unat s"
  shows "\<exists>it'. ParseNextKey it = Some (False, it') \<and> \<not> BlockIter_Valid it' \<and> it_status it' = Error DATA_LOSS ''bad entry in block''"
  using assms by (auto simp: ParseNextKey_def Let_def CorruptionError_def BlockIter_Valid_def split: option.splits)

section \<open>Properties\<close>

text \<open>C2. A block that the builder wrote reads back: for every restart interval, if keys were added
  in strictly increasing order and no \<^verbatim>\<open>CHECK\<close> failed, then on the finished block (below 4 GB)
  a scan returns exactly the entries, \<^verbatim>\<open>Seek\<close> followed by a key comparison is lookup in the map
  of the entries, and \<^verbatim>\<open>Seek\<close> stands at the least key that is not below its target.\<close>

theorem block_roundtrip:
  assumes "keys_sorted kvs"
    and "BlockBuilder_Add_all kvs (BlockBuilder_new opts) = Some b"
    and "BlockBuilder_Finish b = Some (b', contents)" and "length contents < 2 ^ 32"
    and "it = Block_NewIterator (Block_new contents)"
  shows "scan_all Valid key_of value_of Next SeekToFirst it = Some kvs \<and>
    point_lookup Valid key_of value_of Seek target it = Some (map_of kvs target) \<and>
    (\<exists>it'. Seek target it = Some it' \<and> status_of it' = OK \<and>
       (Valid it' \<longleftrightarrow> (\<exists>k \<in> fst ` set kvs. target \<le> k)) \<and>
       (Valid it' \<longrightarrow> key_of it' = Min {k \<in> fst ` set kvs. target \<le> k}))"
proof -
  from builds_Add_all [OF builds_new assms(2)] obtain es rs where
    "builds b es rs" "entries_kvs es = kvs" by auto
  then have u: "block_usable it kvs" using block_usable_open assms by metis
  show ?thesis
    using block_iter.scan_all_usable [OF u] block_iter.point_lookup_usable [OF u]
      block_iter.seek_usable [OF u] by blast
qed

definition example_kvs :: "(bytes \<times> bytes) list" where
  "example_kvs = [([1], [10]), ([1, 2], []), ([3], [11, 12])]"

theorem block_roundtrip_witness:
  "\<exists>b b' contents. BlockBuilder_Add_all example_kvs (BlockBuilder_new (default_Options\<lparr>block_restart_interval := 2\<rparr>)) = Some b \<and>
     BlockBuilder_Finish b = Some (b', contents) \<and>
     point_lookup Valid key_of value_of Seek [1, 2] (Block_NewIterator (Block_new contents)) = Some (Some [])"
proof -
  let ?o = "default_Options\<lparr>block_restart_interval := 2\<rparr>"
  have s: "keys_sorted example_kvs" by (simp add: keys_sorted_def example_kvs_def)
  obtain b where b: "BlockBuilder_Add_all example_kvs (BlockBuilder_new ?o) = Some b"
     "bb_restarts b = [0, 9]" "length (bb_buffer b) = 15"
    by (simp add: example_kvs_def BlockBuilder_Add_def BlockBuilder_new_def default_Options_def
      shared_loop.simps Let_def PutVarint32_def EncodeVarint32_def)
  obtain b' contents where f: "BlockBuilder_Finish b = Some (b', contents)" "length contents = 27"
    using b(2,3) by (simp add: BlockBuilder_Finish_def Let_def PutFixed32_def)
  have l: "length contents < 2 ^ 32" using f(2) by simp
  show ?thesis
    using block_roundtrip [OF s b(1) f(1) l refl, of "[1, 2]"] b(1) f(1) by (simp add: example_kvs_def) 
qed

text \<open>C9. What a step of the iterator does on an arbitrary block, also a corrupt one. At the restart array it ends without an
  error. Before it, an entry whose three lengths parse, that shares no more than the current key and that ends before the
  restart array is returned: the iterator is valid, its key is the shared prefix with the key delta and its value the bytes
  behind. Every other entry ends the iteration with a data loss status, unless the sum of its lengths overflows 32 bits. A
  block without room for its restart array yields an error iterator.\<close>

theorem block_iterator_errors:
  assumes "NextEntryOffset it = Some c" "unat (it_restarts it) + 4 * unat (it_num_restarts it) \<le> length (it_data it)"
  shows "(unat (it_restarts it) \<le> unat c \<longrightarrow>
      (\<exists>it'. ParseNextKey it = Some (False, it') \<and> \<not> BlockIter_Valid it' \<and> it_status it' = it_status it)) \<and>
    (unat c < unat (it_restarts it) \<longrightarrow>
      (let corrupt = (\<exists>it'. ParseNextKey it = Some (False, it') \<and> \<not> BlockIter_Valid it' \<and> it_status it' = Error DATA_LOSS ''bad entry in block'')
       in case entry_lengths (it_data it) (unat c) (unat (it_restarts it)) of None \<Rightarrow> corrupt
        | Some (s, n, v, q) \<Rightarrow>
            if s \<le> length (it_key it) \<and> q + n + v \<le> unat (it_restarts it)
            then \<exists>it'. ParseNextKey it = Some (True, it') \<and> BlockIter_Valid it' \<and> it_status it' = it_status it \<and> it_current it' = c \<and>
              it_key it' = take s (it_key it) @ take n (drop q (it_data it)) \<and>
              BlockIter_value it' = Some (take v (drop (q + n) (it_data it))) \<and> unat c + 3 \<le> q
            else n + v < 2 ^ 32 \<longrightarrow> corrupt)) \<and>
    (length contents < 4 \<or> (length contents - 4) div 4 < unat (NumRestarts contents (length contents)) \<longrightarrow>
      Block_NewIterator (Block_new contents) = EmptyIterator (Error DATA_LOSS ''bad block contents''))"
proof (intro conjI impI)
  let ?r = "unat (it_restarts it)" and ?d = "it_data it"
  show "\<exists>it'. ParseNextKey it = Some (False, it') \<and> \<not> BlockIter_Valid it' \<and> it_status it' = it_status it" if "?r \<le> unat c"
    using assms(1) that by (simp add: ParseNextKey_def Let_def BlockIter_Valid_def)
  show "Block_NewIterator (Block_new contents) = EmptyIterator (Error DATA_LOSS ''bad block contents'')"
    if "length contents < 4 \<or> (length contents - 4) div 4 < unat (NumRestarts contents (length contents))"
    using that by (auto simp: Block_NewIterator_def Block_new_def NewErrorIterator_def Let_def)
  assume c: "unat c < ?r"
  have r32: "?r \<le> length ?d" "?r < 2 ^ 32"
    using assms(2) unsigned_less [of "it_restarts it", where ?'a = nat] by (simp_all del: unsigned_less)
  note dec = DecodeEntry_lengths [OF r32, of "unat c"]
  note bad = ParseNextKey_rejects [OF assms(1) c]
  show "let corrupt = (\<exists>it'. ParseNextKey it = Some (False, it') \<and> \<not> BlockIter_Valid it' \<and> it_status it' = Error DATA_LOSS ''bad entry in block'')
     in case entry_lengths ?d (unat c) ?r of None \<Rightarrow> corrupt
      | Some (s, n, v, q) \<Rightarrow>
          if s \<le> length (it_key it) \<and> q + n + v \<le> ?r
          then \<exists>it'. ParseNextKey it = Some (True, it') \<and> BlockIter_Valid it' \<and> it_status it' = it_status it \<and> it_current it' = c \<and>
            it_key it' = take s (it_key it) @ take n (drop q ?d) \<and>
            BlockIter_value it' = Some (take v (drop (q + n) ?d)) \<and> unat c + 3 \<le> q
          else n + v < 2 ^ 32 \<longrightarrow> corrupt"
  proof (cases "entry_lengths ?d (unat c) ?r")
    case None
    then show ?thesis using dec bad by simp
  next
    case (Some l)
    obtain s n v q where l: "l = (s, n, v, q)" by (cases l)
    have d: "unat c + 3 \<le> q" "q \<le> ?r" "s < 2 ^ 32" "n < 2 ^ 32" "v < 2 ^ 32"
      "DecodeEntry ?d (unat c) ?r = (if ?r - q < (n + v) mod 2 ^ 32 then None else Some (word_of_nat s, word_of_nat n, word_of_nat v, q))"
      using dec Some l by simp_all
    show ?thesis
    proof (cases "s \<le> length (it_key it) \<and> q + n + v \<le> ?r")
      case True
      then have "(n + v) mod 2 ^ 32 = n + v" using r32(2) by simp
      then have ok: "DecodeEntry ?d (unat c) ?r = Some (word_of_nat s, word_of_nat n, word_of_nat v, q)"
        using d(2,6) True by (simp add: not_less le_diff_conv2)
      have "s \<le> length (it_key it)" "q + n \<le> length ?d" using True r32(1) by simp_all
      from ParseNextKey_accepts [OF assms(1) c assms(2) ok d(3-5) this] True r32(1) d(1) Some l
      show ?thesis by (auto simp: Let_def BlockIter_value_def)
    next
      case False
      have "unat (word_of_nat s :: uint32) = s" using d(3) by (simp add: unat_of_nat)
      then have "case DecodeEntry ?d (unat c) ?r of None \<Rightarrow> True | Some (s, _) \<Rightarrow> length (it_key it) < unat s" if "n + v < 2 ^ 32"
        using False d(2,6) that by (auto split: if_splits)
      then show ?thesis using bad Some l False by (auto simp: Let_def)
    qed
  qed
qed

definition small_iter :: "byte \<Rightarrow> BlockIter" where
  "small_iter non_shared = (BlockIter_new [0, non_shared, 0, 7, 0, 0, 0, 0, 1, 0, 0, 0] 4 1)\<lparr>it_value := Piece 0 0\<rparr>"

theorem block_iterator_errors_witness:
  "(\<exists>it'. ParseNextKey (small_iter 1) = Some (True, it') \<and> it_key it' = [7]) \<and>
   (\<exists>it'. ParseNextKey (small_iter 5) = Some (False, it') \<and> it_status it' = Error DATA_LOSS ''bad entry in block'')"
proof -
  have e: "entry_lengths [0, 1, 0, 7, 0, 0, 0, 0, 1, 0, 0, 0] 0 4 = Some (0, 1, 0, 3)"
    "entry_lengths [0, 5, 0, 7, 0, 0, 0, 0, 1, 0, 0, 0] 0 4 = Some (0, 5, 0, 3)"
    by (simp_all add: entry_lengths_def DecodeEntry_varints_def GetVarint32_def GetVarint32Ptr_def)
  have n: "NextEntryOffset (small_iter x) = Some 0"
    "unat (it_restarts (small_iter x)) + 4 * unat (it_num_restarts (small_iter x)) \<le> length (it_data (small_iter x))" for x
    by (simp_all add: small_iter_def NextEntryOffset_def BlockIter_new_def)
  show ?thesis
    using block_iterator_errors [OF n, of 1] block_iterator_errors [OF n, of 5] e by (auto simp: small_iter_def BlockIter_new_def Let_def)
qed

text \<open>C10. Which lengths wrap: \<^verbatim>\<open>DecodeEntry\<close> accepts an entry that goes beyond the restart array exactly if the sum of the
  two lengths reaches \<open>2 ^ 32\<close> and what is left modulo \<open>2 ^ 32\<close> fits, although its comment promises not to go past the limit.
  On such an entry \<^verbatim>\<open>ParseNextKey\<close> appends key bytes from behind the end of the block, or it makes the iterator valid,
  without an error, with a value that is not inside of the block.\<close>

theorem DecodeEntry_wraps:
  assumes "NextEntryOffset it = Some c" "unat c < unat (it_restarts it)"
    and "unat (it_restarts it) + 4 * unat (it_num_restarts it) \<le> length (it_data it)" "length (it_data it) < 2 ^ 32"
    and "entry_lengths (it_data it) (unat c) (unat (it_restarts it)) = Some (s, n, v, q)" "s \<le> length (it_key it)"
  shows "(DecodeEntry (it_data it) (unat c) (unat (it_restarts it)) \<noteq> None \<and> unat (it_restarts it) < q + n + v \<longleftrightarrow>
      2 ^ 32 \<le> n + v \<and> n + v - 2 ^ 32 \<le> unat (it_restarts it) - q) \<and>
    (2 ^ 32 \<le> n + v \<and> n + v - 2 ^ 32 \<le> unat (it_restarts it) - q \<longrightarrow>
      (if length (it_data it) < q + n then ParseNextKey it = None
       else \<exists>it'. ParseNextKey it = Some (True, it') \<and> BlockIter_Valid it' \<and> it_status it' = it_status it \<and>
         it_value it' = Piece (q + n) v \<and> length (it_data it) < q + n + v))"
proof -
  let ?r = "unat (it_restarts it)" and ?d = "it_data it"
  have r32: "?r \<le> length ?d" "?r < 2 ^ 32" using assms(3,4) by simp_all
  have d: "q \<le> ?r" "s < 2 ^ 32" "n < 2 ^ 32" "v < 2 ^ 32"
    "DecodeEntry ?d (unat c) ?r = (if ?r - q < (n + v) mod 2 ^ 32 then None else Some (word_of_nat s, word_of_nat n, word_of_nat v, q))"
    using DecodeEntry_lengths [OF r32, of "unat c"] assms(5) by simp_all
  have m: "(n + v) mod 2 ^ 32 = (if 2 ^ 32 \<le> n + v then n + v - 2 ^ 32 else n + v)" using d(3,4) by (simp add: le_mod_geq)
  have "DecodeEntry ?d (unat c) ?r \<noteq> None \<and> ?r < q + n + v \<longleftrightarrow> 2 ^ 32 \<le> n + v \<and> n + v - 2 ^ 32 \<le> ?r - q"
    unfolding d(5) m using d(1) r32(2) by auto
  moreover have "if length ?d < q + n then ParseNextKey it = None
       else \<exists>it'. ParseNextKey it = Some (True, it') \<and> BlockIter_Valid it' \<and> it_status it' = it_status it \<and>
         it_value it' = Piece (q + n) v \<and> length ?d < q + n + v"
    if w: "2 ^ 32 \<le> n + v \<and> n + v - 2 ^ 32 \<le> ?r - q"
  proof -
    have ok: "DecodeEntry ?d (unat c) ?r = Some (word_of_nat s, word_of_nat n, word_of_nat v, q)" using d(5) m w by simp
    have u: "unat (word_of_nat s :: uint32) = s" "unat (word_of_nat n :: uint32) = n" using d(2,3) by (simp_all add: unat_of_nat)
    show ?thesis
    proof (cases "length ?d < q + n")
      case True
      then show ?thesis using assms(1,2,6) ok u by (simp add: ParseNextKey_def Let_def)
    next
      case False
      then have q: "q + n \<le> length ?d" by simp
      have "length ?d < q + n + v" using w assms(4) by simp
      then show ?thesis using ParseNextKey_accepts [OF assms(1,2,3) ok d(2,3,4) assms(6) q] False by auto
    qed
  qed
  ultimately show ?thesis by blast
qed

definition wrapping_iter :: BlockIter where
  "wrapping_iter = (BlockIter_new [0, 255, 255, 255, 255, 15, 1, 0, 0, 0, 0, 1, 0, 0, 0] 7 1)\<lparr>it_value := Piece 0 0\<rparr>"

theorem DecodeEntry_wraps_witness:
  "DecodeEntry (it_data wrapping_iter) 0 7 \<noteq> None \<and> ParseNextKey wrapping_iter = None"
proof -
  have "entry_lengths (it_data wrapping_iter) (unat (0 :: uint32)) (unat (it_restarts wrapping_iter)) = Some (0, 0xffffffff, 1, 7)"
    by (simp add: wrapping_iter_def BlockIter_new_def entry_lengths_def DecodeEntry_varints_def GetVarint32_def GetVarint32Ptr_def
        GetVarint32PtrFallback_def Let_def)
  from DecodeEntry_wraps [of wrapping_iter 0, OF _ _ _ _ this]
  show ?thesis by (simp add: wrapping_iter_def BlockIter_new_def NextEntryOffset_def)
qed

end
