(* ===== verification/Table_Format.thy ===== *)
theory Table_Format
  imports Block_Reader Crc32c
begin

text \<open>
  \<^verbatim>\<open>core/lib/io/format.cc\<close>: the pointers to blocks (\<^verbatim>\<open>BlockHandle\<close>), the footer of a
  table file, and \<^verbatim>\<open>ReadBlock\<close>, which checks a stored block's checksum and undoes its
  compression. The file (\<^verbatim>\<open>RandomAccessFile::Read\<close>) and the Snappy library are parameters; the
  checksum is the one of theory \<open>Crc32c\<close>, taken at address 0 on the portable path, since it is
  shown there not to depend on either.
\<close>

section \<open>The environment\<close>

text \<open>\<open>Snappy_Compress\<close> is \<open>None\<close> where the function returns false;
  \<open>Snappy_Uncompress\<close> gets the length of the output buffer and returns its contents.\<close>

record snappy =
  Snappy_Compress :: "bytes \<Rightarrow> bytes option"
  Snappy_GetUncompressedLength :: "bytes \<Rightarrow> nat option"
  Snappy_Uncompress :: "bytes \<Rightarrow> nat \<Rightarrow> bytes option"

text \<open>The library undoes its own compression of inputs whose length fits into the 32 bits the format has for it.\<close>

locale snappy_codec =
  fixes sn :: snappy
  assumes uncompress: "Snappy_Compress sn raw = Some c \<Longrightarrow> length raw < 2 ^ 32 \<Longrightarrow>
    Snappy_GetUncompressedLength sn c = Some (length raw) \<and>
    Snappy_Uncompress sn c (length raw) = Some raw"

text \<open>\<^verbatim>\<open>platform/posix/port.cc\<close> built without \<^verbatim>\<open>TF_USE_SNAPPY\<close>.\<close>

definition port_no_snappy :: snappy where
  "port_no_snappy = \<lparr>Snappy_Compress = \<lambda>_. None, Snappy_GetUncompressedLength = \<lambda>_. None,
     Snappy_Uncompress = \<lambda>_ _. None\<rparr>"

interpretation no_snappy: snappy_codec port_no_snappy
  by unfold_locales (simp add: port_no_snappy_def)

type_synonym file_reader = "uint64 \<Rightarrow> nat \<Rightarrow> status \<times> bytes"

text \<open>The documented behaviour of \<^verbatim>\<open>Read\<close> inside the file.\<close>

definition reads_file :: "file_reader \<Rightarrow> bytes \<Rightarrow> bool" where
  "reads_file rd F \<longleftrightarrow>
     (\<forall>off n. unat off + n \<le> length F \<longrightarrow> rd off n = (OK, take n (drop (unat off) F)))"

section \<open>Handles\<close>

record BlockHandle =
  bh_offset :: uint64
  bh_size :: uint64

definition BlockHandle_new :: BlockHandle where
  "BlockHandle_new = \<lparr>bh_offset = NOT 0, bh_size = NOT 0\<rparr>"

definition kMaxEncodedLength :: nat where "kMaxEncodedLength = 10 + 10"

definition BlockHandle_EncodeTo :: "BlockHandle \<Rightarrow> bytes \<Rightarrow> bytes" where
  "BlockHandle_EncodeTo h dst = PutVarint64 (PutVarint64 dst (bh_offset h)) (bh_size h)"

definition BlockHandle_DecodeFrom :: "BlockHandle \<Rightarrow> bytes \<Rightarrow> status \<times> BlockHandle \<times> bytes" where
  "BlockHandle_DecodeFrom h input =
     (case GetVarint64 input of
        None \<Rightarrow> (Error DATA_LOSS ''bad block handle'', h, input)
      | Some (off, input) \<Rightarrow>
          (case GetVarint64 input of
             None \<Rightarrow> (Error DATA_LOSS ''bad block handle'', h\<lparr>bh_offset := off\<rparr>, input)
           | Some (sz, input) \<Rightarrow> (OK, h\<lparr>bh_offset := off, bh_size := sz\<rparr>, input)))"

section \<open>The footer\<close>

record Footer =
  metaindex_handle :: BlockHandle
  index_handle :: BlockHandle

definition kTableMagicNumber :: uint64 where "kTableMagicNumber = 0xdb4775248b80fb57"

definition kEncodedLength :: nat where "kEncodedLength = 2 * kMaxEncodedLength + 8"

definition string_resize :: "nat \<Rightarrow> bytes \<Rightarrow> bytes" where
  "string_resize n s = take n s @ replicate (n - length s) 0"

definition Footer_EncodeTo :: "Footer \<Rightarrow> bytes \<Rightarrow> bytes" where
  "Footer_EncodeTo f dst =
     (let dst = BlockHandle_EncodeTo (metaindex_handle f) dst;
          dst = BlockHandle_EncodeTo (index_handle f) dst;
          dst = string_resize (2 * kMaxEncodedLength) dst;
          dst = PutFixed32 dst (ucast (kTableMagicNumber AND 0xffffffff));
          dst = PutFixed32 dst (ucast (drop_bit 32 kTableMagicNumber))
      in dst)"

text \<open>\<open>None\<close>: the input is shorter than a footer, and the magic number is read outside it.\<close>

definition Footer_DecodeFrom :: "Footer \<Rightarrow> bytes \<Rightarrow> (status \<times> Footer \<times> bytes) option" where
  "Footer_DecodeFrom f input =
     (case (DecodeFixed32 kLittleEndian (drop (kEncodedLength - 8) input),
            DecodeFixed32 kLittleEndian (drop (kEncodedLength - 4) input)) of
        (Some magic_lo, Some magic_hi) \<Rightarrow>
          (let magic = (push_bit 32 (ucast magic_hi) :: uint64) OR ucast magic_lo in
           if magic \<noteq> kTableMagicNumber
           then Some (Error DATA_LOSS ''not an sstable (bad magic number)'', f, input)
           else
             let (result, mh, rest) = BlockHandle_DecodeFrom (metaindex_handle f) input;
                 f = f\<lparr>metaindex_handle := mh\<rparr>
             in if result \<noteq> OK then Some (result, f, rest)
                else
                  let (result, ih, rest) = BlockHandle_DecodeFrom (index_handle f) rest;
                      f = f\<lparr>index_handle := ih\<rparr>
                  in if result \<noteq> OK then Some (result, f, rest)
                     else Some (OK, f, drop kEncodedLength input))
      | _ \<Rightarrow> None)"

section \<open>Reading a block\<close>

definition kBlockTrailerSize :: nat where "kBlockTrailerSize = 5"

definition crc_Value :: "bytes \<Rightarrow> uint32" where
  "crc_Value data = Extend None 0 0 data"

fun compression_byte :: "CompressionType \<Rightarrow> byte" where
  "compression_byte kNoCompression = 0"
| "compression_byte kSnappyCompression = 1"

definition ReadBlock :: "file_reader \<Rightarrow> snappy \<Rightarrow> BlockHandle \<Rightarrow> status \<times> bytes" where
  "ReadBlock rd sn handle =
     (let n = unat (bh_size handle) in
      if kBlockTrailerSize > (2 ^ 64 - 1) - n
      then (Error DATA_LOSS ''handle.size() too big'', [])
      else
        let (s, contents) = rd (bh_offset handle) (n + kBlockTrailerSize) in
        if s \<noteq> OK then (s, [])
        else if length contents \<noteq> n + kBlockTrailerSize
        then (Error DATA_LOSS ''truncated block read'', [])
        else
          let crc = Unmask (the (DecodeFixed32 kLittleEndian (drop (n + 1) contents)));
              actual = crc_Value (take (n + 1) contents);
              data = take n contents
          in if actual \<noteq> crc then (Error DATA_LOSS ''block checksum mismatch'', [])
             else if contents ! n = compression_byte kNoCompression then (OK, data)
             else if contents ! n = compression_byte kSnappyCompression then
               (case Snappy_GetUncompressedLength sn data of
                  None \<Rightarrow> (Error DATA_LOSS ''corrupted compressed block contents'', [])
                | Some ulength \<Rightarrow>
                    (case Snappy_Uncompress sn data ulength of
                       None \<Rightarrow> (Error DATA_LOSS ''corrupted compressed block contents'', [])
                     | Some ubuf \<Rightarrow> (OK, ubuf)))
             else (Error DATA_LOSS ''bad block type'', []))"

section \<open>Round trips\<close>

lemma BlockHandle_EncodeTo_eq:
  "BlockHandle_EncodeTo h dst = dst @ EncodeVarint64 (bh_offset h) @ EncodeVarint64 (bh_size h)"
  by (simp add: BlockHandle_EncodeTo_def PutVarint64_def)

lemma BlockHandle_roundtrip [codec_simps]:
  "BlockHandle_DecodeFrom h0 (EncodeVarint64 (bh_offset h) @ EncodeVarint64 (bh_size h) @ r) = (OK, h, r)"
  by (simp add: BlockHandle_DecodeFrom_def codec_simps)

definition GetBlockHandle :: "bytes \<Rightarrow> (BlockHandle \<times> bytes) option" where
  "GetBlockHandle input =
     (case BlockHandle_DecodeFrom BlockHandle_new input of (s, h, r) \<Rightarrow> if s = OK then Some (h, r) else None)"

interpretation block_handle: codec "\<lambda>h. BlockHandle_EncodeTo h []" GetBlockHandle
  by unfold_locales (simp add: GetBlockHandle_def BlockHandle_EncodeTo_eq codec_simps)

lemma length_EncodeVarint64: "length (EncodeVarint64 v) \<le> 10"
  using length_EncodeVarint64_le [of v 10] unsigned_less [of v, where ?'a = nat]
  by (simp del: unsigned_less)

lemma length_BlockHandle_EncodeTo: "length (BlockHandle_EncodeTo h []) \<le> kMaxEncodedLength"
  using length_EncodeVarint64 [of "bh_offset h"] length_EncodeVarint64 [of "bh_size h"]
  by (simp add: BlockHandle_EncodeTo_eq kMaxEncodedLength_def)

lemma Footer_EncodeTo_shape:
  "\<exists>pad. Footer_EncodeTo f [] = BlockHandle_EncodeTo (metaindex_handle f) [] @
     BlockHandle_EncodeTo (index_handle f) [] @ pad @
     EncodeFixed32 kLittleEndian (ucast (kTableMagicNumber AND 0xffffffff)) @
     EncodeFixed32 kLittleEndian (ucast (drop_bit 32 kTableMagicNumber)) \<and>
     length (BlockHandle_EncodeTo (metaindex_handle f) [] @ BlockHandle_EncodeTo (index_handle f) [] @ pad) = 40"
  using length_BlockHandle_EncodeTo [of "metaindex_handle f"] length_BlockHandle_EncodeTo [of "index_handle f"]
  by (auto simp: Footer_EncodeTo_def string_resize_def BlockHandle_EncodeTo_eq PutFixed32_def Let_def
      kMaxEncodedLength_def)

lemma length_Footer_EncodeTo: "length (Footer_EncodeTo f []) = kEncodedLength"
  using Footer_EncodeTo_shape [of f] by (auto simp: kEncodedLength_def kMaxEncodedLength_def)

lemma Footer_roundtrip: "Footer_DecodeFrom f0 (Footer_EncodeTo f [] @ r) = Some (OK, f, r)"
proof -
  from Footer_EncodeTo_shape [of f] obtain pad where pad:
    "Footer_EncodeTo f [] = BlockHandle_EncodeTo (metaindex_handle f) [] @
     BlockHandle_EncodeTo (index_handle f) [] @ pad @
     EncodeFixed32 kLittleEndian (ucast (kTableMagicNumber AND 0xffffffff)) @
     EncodeFixed32 kLittleEndian (ucast (drop_bit 32 kTableMagicNumber))"
    "length (BlockHandle_EncodeTo (metaindex_handle f) [] @ BlockHandle_EncodeTo (index_handle f) [] @ pad) = 40"
    by blast
  let ?in = "Footer_EncodeTo f [] @ r"
  have lo: "drop 40 ?in = EncodeFixed32 kLittleEndian (ucast (kTableMagicNumber AND 0xffffffff)) @
      EncodeFixed32 kLittleEndian (ucast (drop_bit 32 kTableMagicNumber)) @ r"
    and hi: "drop 44 ?in = EncodeFixed32 kLittleEndian (ucast (drop_bit 32 kTableMagicNumber)) @ r"
    unfolding pad(1) using pad(2) by simp_all
  have magic: "(push_bit 32 (ucast (ucast (drop_bit 32 kTableMagicNumber) :: uint32)) :: uint64) OR
      ucast (ucast (kTableMagicNumber AND 0xffffffff) :: uint32) = kTableMagicNumber"
    by (simp add: kTableMagicNumber_def)
  have dm: "BlockHandle_DecodeFrom h0 ?in = (OK, metaindex_handle f, BlockHandle_EncodeTo (index_handle f) [] @ pad @
     EncodeFixed32 kLittleEndian (ucast (kTableMagicNumber AND 0xffffffff)) @
     EncodeFixed32 kLittleEndian (ucast (drop_bit 32 kTableMagicNumber)) @ r)" for h0
    unfolding pad(1) by (simp add: BlockHandle_EncodeTo_eq codec_simps)
  have di: "BlockHandle_DecodeFrom h0 (BlockHandle_EncodeTo (index_handle f) [] @ q) = (OK, index_handle f, q)"
    for h0 q by (simp add: BlockHandle_EncodeTo_eq codec_simps)
  have "drop kEncodedLength ?in = r" by (simp add: length_Footer_EncodeTo)
  then show ?thesis
    using lo hi magic dm di
    by (simp add: Footer_DecodeFrom_def kEncodedLength_def kMaxEncodedLength_def DecodeFixed32_EncodeFixed32 Let_def)
qed

section \<open>Stored blocks\<close>

text \<open>A block as it lies in the file: the stored bytes, the type, and the masked checksum of both.\<close>

definition stored_block :: "byte \<Rightarrow> bytes \<Rightarrow> bytes" where
  "stored_block t data = data @ [t] @ EncodeFixed32 kLittleEndian (Mask (crc_Value (data @ [t])))"

definition unstore :: "snappy \<Rightarrow> byte \<Rightarrow> bytes \<Rightarrow> bytes option" where
  "unstore sn t data =
     (if t = compression_byte kNoCompression then Some data
      else if t = compression_byte kSnappyCompression then
        Option.bind (Snappy_GetUncompressedLength sn data) (Snappy_Uncompress sn data)
      else None)"

definition block_stored :: "snappy \<Rightarrow> bytes \<Rightarrow> BlockHandle \<Rightarrow> bytes \<Rightarrow> bool" where
  "block_stored sn F h raw \<longleftrightarrow>
     (\<exists>pre t data post. F = pre @ stored_block t data @ post \<and> unat (bh_offset h) = length pre \<and>
        unat (bh_size h) = length data \<and> unstore sn t data = Some raw)"

lemma length_stored_block [simp]: "length (stored_block t data) = length data + 5"
  by (simp add: stored_block_def)

lemma block_stored_append: "block_stored sn F h raw \<Longrightarrow> block_stored sn (F @ G) h raw"
  unfolding block_stored_def by (metis append.assoc)

text \<open>What \<^verbatim>\<open>ReadBlock\<close> does with the bytes the file returns.\<close>

lemma ReadBlock_read:
  assumes rd: "reads_file rd F" and F: "F = pre @ data @ [t] @ EncodeFixed32 kLittleEndian c @ post"
    and h: "unat (bh_offset h) = length pre" "unat (bh_size h) = length data" and small: "length F < 2 ^ 64"
  shows "ReadBlock rd sn h =
    (if crc_Value (data @ [t]) \<noteq> Unmask c then (Error DATA_LOSS ''block checksum mismatch'', [])
     else if t = compression_byte kNoCompression then (OK, data)
     else if t = compression_byte kSnappyCompression then
       (case unstore sn t data of None \<Rightarrow> (Error DATA_LOSS ''corrupted compressed block contents'', [])
        | Some raw \<Rightarrow> (OK, raw))
     else (Error DATA_LOSS ''bad block type'', []))"
proof -
  let ?c = "data @ [t] @ EncodeFixed32 kLittleEndian c"
  have len: "length ?c = length data + kBlockTrailerSize" by (simp add: kBlockTrailerSize_def)
  have "rd (bh_offset h) (length data + kBlockTrailerSize) = (OK, ?c)"
    using rd h F by (simp add: reads_file_def kBlockTrailerSize_def)
  moreover have "\<not> kBlockTrailerSize > (2 ^ 64 - 1) - length data"
    using small by (simp add: F kBlockTrailerSize_def)
  moreover have "DecodeFixed32 kLittleEndian (drop (length data + 1) ?c) = Some c"
    using DecodeFixed32_EncodeFixed32 [of kLittleEndian kLittleEndian c "[]"] by simp
  moreover have "take (length data + 1) ?c = data @ [t]" "?c ! length data = t" "take (length data) ?c = data"
    by (simp_all add: nth_append)
  ultimately show ?thesis
    using len h(2) by (auto simp: ReadBlock_def unstore_def Let_def split: option.split)
qed

lemma ReadBlock_stored:
  assumes "block_stored sn F h raw" "reads_file rd F" "length F < 2 ^ 64"
  shows "ReadBlock rd sn h = (OK, raw)"
proof -
  from assms(1) obtain pre t data post where
    F: "F = pre @ data @ [t] @ EncodeFixed32 kLittleEndian (Mask (crc_Value (data @ [t]))) @ post"
    and h: "unat (bh_offset h) = length pre" "unat (bh_size h) = length data"
    and u: "unstore sn t data = Some raw"
    by (auto simp: block_stored_def stored_block_def)
  show ?thesis
    using ReadBlock_read [OF assms(2) F h assms(3), of sn] u
    by (auto simp: Mask_Unmask unstore_def split: if_splits)
qed

lemma EncodeFixed32_DecodeFixed32:
  assumes "length q = 4" shows "EncodeFixed32 kLittleEndian (the (DecodeFixed32 kLittleEndian q)) = q"
  using memcpy_from_to_word [of q, where ?'a = 32] assms by (simp add: EncodeFixed32_def DecodeFixed32_def kLittleEndian_def)

lemma EncodeFixed64_DecodeFixed64:
  assumes "length q = 8" shows "EncodeFixed64 kLittleEndian (the (DecodeFixed64 kLittleEndian q)) = q"
  using memcpy_from_to_word [of q, where ?'a = 64] assms by (simp add: EncodeFixed64_def DecodeFixed64_def kLittleEndian_def)

section \<open>Properties\<close>

text \<open>The footer occupies exactly \<^verbatim>\<open>kEncodedLength\<close> bytes whatever handles it holds, and
  decoding it gives both handles back and leaves what follows.\<close>

theorem footer_roundtrip:
  "length (Footer_EncodeTo f []) = kEncodedLength \<and>
   Footer_DecodeFrom f0 (Footer_EncodeTo f [] @ r) = Some (OK, f, r)"
  using length_Footer_EncodeTo Footer_roundtrip by blast

text \<open>C7. A damaged block is never returned: if the data and type of a stored block were changed within four consecutive
  bytes and its checksum is as it was, or if only the checksum was changed, \<^verbatim>\<open>ReadBlock\<close> reports a checksum mismatch,
  whatever the compression library does.\<close>

theorem ReadBlock_detects_corruption:
  assumes "reads_file rd F" "length F < 2 ^ 64"
    and F: "F = pre @ data' @ [t'] @ c' @ post"
    and "unat (bh_offset h) = length pre" "unat (bh_size h) = length data'"
    and c: "c = EncodeFixed32 kLittleEndian (Mask (crc_Value (data @ [t])))"
    and damage: "c' = c \<and> data @ [t] = a @ u @ b \<and> data' @ [t'] = a @ v @ b \<and> length u = length v \<and> length u \<le> 4 \<and> u \<noteq> v \<or>
      data' = data \<and> t' = t \<and> length c' = 4 \<and> c' \<noteq> c"
  shows "ReadBlock rd sn h = (Error DATA_LOSS ''block checksum mismatch'', [])"
  using damage
proof
  assume d: "c' = c \<and> data @ [t] = a @ u @ b \<and> data' @ [t'] = a @ v @ b \<and> length u = length v \<and> length u \<le> 4 \<and> u \<noteq> v"
  then have "crc_Value (data' @ [t']) \<noteq> crc_Value (data @ [t])"
    unfolding crc_Value_def using Extend_differs [of u v] by metis
  then show ?thesis
    using ReadBlock_read [OF assms(1) _ assms(4,5,2)] F d c by (simp add: Mask_Unmask)
next
  assume d: "data' = data \<and> t' = t \<and> length c' = 4 \<and> c' \<noteq> c"
  then obtain w where w: "c' = EncodeFixed32 kLittleEndian w" using EncodeFixed32_DecodeFixed32 [of c'] by metis
  then have "w \<noteq> Mask (crc_Value (data @ [t]))" using d c by blast
  then have "crc_Value (data @ [t]) \<noteq> Unmask w" by (metis Unmask_Mask)
  then show ?thesis
    using ReadBlock_read [OF assms(1) F [unfolded w] assms(4,5,2)] d by simp
qed

definition corrupt_file :: bytes where
  "corrupt_file = [8, 0] @ EncodeFixed32 kLittleEndian (Mask (crc_Value [7, 0]))"

definition memory_read :: "bytes \<Rightarrow> file_reader" where
  "memory_read F off n =
     (if unat off + n \<le> length F then (OK, take n (drop (unat off) F))
      else (Error OUT_OF_RANGE ''EOF'', drop (unat off) F))"

lemma reads_memory: "reads_file (memory_read F) F"
  by (simp add: reads_file_def memory_read_def)

theorem ReadBlock_detects_corruption_witness:
  "ReadBlock (memory_read corrupt_file) port_no_snappy \<lparr>bh_offset = 0, bh_size = 1\<rparr> =
     (Error DATA_LOSS ''block checksum mismatch'', [])"
  by (rule ReadBlock_detects_corruption [OF reads_memory _ _ _ _ refl, where pre = "[]" and data' = "[8]" and t' = 0 and data = "[7]" and t = 0
        and post = "[]" and a = "[]" and u = "[7]" and v = "[8]" and b = "[0]" and c' = "EncodeFixed32 kLittleEndian (Mask (crc_Value [7, 0]))"])
     (simp_all add: corrupt_file_def)

end
