(* ===== verification/Table_Builder.thy ===== *)
theory Table_Builder
  imports Table_Format
begin

text \<open>
  \<^verbatim>\<open>core/lib/io/table_builder.cc\<close>: the writer of table files. It fills a data block, writes it
  when it is large enough, and records for each written block a key that separates it from the next
  one and the block's handle in the index block; the index entry waits for the first key of the next
  block, so that the separator can be short. The state \<^verbatim>\<open>Rep\<close> is the record
  \<open>TableBuilder\<close>, over the type of the file; \<^verbatim>\<open>WritableFile::Append\<close> is the parameter
  \<open>ap\<close>. \<open>None\<close> is a failed \<^verbatim>\<open>CHECK\<close> of the block builder.
\<close>

section \<open>Separators\<close>

definition FindShortestSeparator :: "bytes \<Rightarrow> bytes \<Rightarrow> bytes" where
  "FindShortestSeparator start limit =
     (let min_length = min (length start) (length limit);
          diff_index = shared_loop start limit min_length 0
      in if diff_index \<ge> min_length then start
         else
           let diff_byte = start ! diff_index in
           if diff_byte < 0xff \<and> unat diff_byte + 1 < unat (limit ! diff_index)
           then take (diff_index + 1) (start[diff_index := diff_byte + 1])
           else start)"

fun FindShortSuccessor :: "bytes \<Rightarrow> bytes" where
  "FindShortSuccessor [] = []"
| "FindShortSuccessor (b # key) = (if b \<noteq> 0xff then [b + 1] else b # FindShortSuccessor key)"

section \<open>The table builder\<close>

record 'f TableBuilder =
  tb_options :: Options
  tb_file :: 'f
  tb_offset :: uint64
  tb_status :: status
  tb_data_block :: BlockBuilder
  tb_index_block :: BlockBuilder
  tb_last_key :: bytes
  tb_num_entries :: int64
  tb_closed :: bool
  tb_pending_index_entry :: bool
  tb_pending_handle :: BlockHandle
  tb_compressed_output :: bytes

type_synonym 'f appender = "'f \<Rightarrow> bytes \<Rightarrow> status \<times> 'f"

definition TableBuilder_new :: "Options \<Rightarrow> 'f \<Rightarrow> 'f TableBuilder" where
  "TableBuilder_new opt f =
     \<lparr>tb_options = opt, tb_file = f, tb_offset = 0, tb_status = OK,
      tb_data_block = BlockBuilder_new opt,
      tb_index_block = BlockBuilder_new (opt\<lparr>block_restart_interval := 1\<rparr>),
      tb_last_key = [], tb_num_entries = 0, tb_closed = False, tb_pending_index_entry = False,
      tb_pending_handle = BlockHandle_new, tb_compressed_output = []\<rparr>"

definition WriteRawBlock ::
  "'f appender \<Rightarrow> bytes \<Rightarrow> CompressionType \<Rightarrow> 'f TableBuilder \<Rightarrow> 'f TableBuilder \<times> BlockHandle" where
  "WriteRawBlock ap block_contents type r =
     (let handle = \<lparr>bh_offset = tb_offset r, bh_size = word_of_nat (length block_contents)\<rparr>;
          (s, f) = ap (tb_file r) block_contents;
          r = r\<lparr>tb_status := s, tb_file := f\<rparr>
      in if s = OK then
           let t = compression_byte type;
               crc = crc_Value block_contents;
               crc = Extend None 0 crc [t];
               trailer = t # EncodeFixed32 kLittleEndian (Mask crc);
               (s, f) = ap (tb_file r) trailer;
               r = r\<lparr>tb_status := s, tb_file := f\<rparr>
           in if s = OK
              then (r\<lparr>tb_offset := tb_offset r + word_of_nat (length block_contents + kBlockTrailerSize)\<rparr>, handle)
              else (r, handle)
         else (r, handle))"

text \<open>The choice of what to store: the compressed block when it saves an eighth.\<close>

definition compress_block :: "snappy \<Rightarrow> CompressionType \<Rightarrow> bytes \<Rightarrow> bytes \<times> CompressionType" where
  "compress_block sn type raw =
     (case type of
        kNoCompression \<Rightarrow> (raw, kNoCompression)
      | kSnappyCompression \<Rightarrow>
          (case Snappy_Compress sn raw of
             Some compressed \<Rightarrow>
               (if length compressed < length raw - length raw div 8 then (compressed, kSnappyCompression)
                else (raw, kNoCompression))
           | None \<Rightarrow> (raw, kNoCompression)))"

definition WriteBlock ::
  "'f appender \<Rightarrow> snappy \<Rightarrow> BlockBuilder \<Rightarrow> 'f TableBuilder \<Rightarrow>
   ('f TableBuilder \<times> BlockBuilder \<times> BlockHandle) option" where
  "WriteBlock ap sn block r =
     (case BlockBuilder_Finish block of None \<Rightarrow> None
      | Some (block, raw) \<Rightarrow>
          (let (block_contents, type) = compress_block sn (compression (tb_options r)) raw;
               (r, handle) = WriteRawBlock ap block_contents type r;
               r = r\<lparr>tb_compressed_output := []\<rparr>
           in Some (r, BlockBuilder_Reset block, handle)))"

definition Flush :: "'f appender \<Rightarrow> snappy \<Rightarrow> 'f TableBuilder \<Rightarrow> 'f TableBuilder option" where
  "Flush ap sn r =
     (if tb_status r \<noteq> OK then Some r
      else if BlockBuilder_empty (tb_data_block r) then Some r
      else case WriteBlock ap sn (tb_data_block r) r of None \<Rightarrow> None
        | Some (r, block, handle) \<Rightarrow>
            (let r = r\<lparr>tb_data_block := block, tb_pending_handle := handle\<rparr> in
             if tb_status r = OK then Some (r\<lparr>tb_pending_index_entry := True\<rparr>) else Some r))"

text \<open>Emitting the delayed index entry, under the key \<open>sep\<close>.\<close>

definition add_index_entry :: "bytes \<Rightarrow> 'f TableBuilder \<Rightarrow> 'f TableBuilder option" where
  "add_index_entry sep r =
     (let r = r\<lparr>tb_last_key := sep\<rparr>;
          handle_encoding = BlockHandle_EncodeTo (tb_pending_handle r) []
      in case BlockBuilder_Add (tb_last_key r) handle_encoding (tb_index_block r) of None \<Rightarrow> None
         | Some block \<Rightarrow> Some (r\<lparr>tb_index_block := block, tb_pending_index_entry := False\<rparr>))"

definition TableBuilder_Add ::
  "'f appender \<Rightarrow> snappy \<Rightarrow> bytes \<Rightarrow> bytes \<Rightarrow> 'f TableBuilder \<Rightarrow> 'f TableBuilder option" where
  "TableBuilder_Add ap sn key v r =
     (if tb_status r \<noteq> OK then Some r
      else
        case
          (if 0 <s tb_num_entries r \<and> length key + length v \<ge> 2 * block_size (tb_options r) mod 2 ^ 64
           then Flush ap sn r else Some r)
        of None \<Rightarrow> None
        | Some r \<Rightarrow>
          (case
             (if tb_pending_index_entry r
              then add_index_entry (FindShortestSeparator (tb_last_key r) key) r
              else Some r)
           of None \<Rightarrow> None
           | Some r \<Rightarrow>
               (let r = r\<lparr>tb_last_key := key, tb_num_entries := tb_num_entries r + 1\<rparr> in
                case BlockBuilder_Add key v (tb_data_block r) of None \<Rightarrow> None
                | Some block \<Rightarrow>
                    (let r = r\<lparr>tb_data_block := block\<rparr> in
                     if CurrentSizeEstimate block \<ge> block_size (tb_options r)
                     then Flush ap sn r else Some r))))"

definition TableBuilder_Finish :: "'f appender \<Rightarrow> snappy \<Rightarrow> 'f TableBuilder \<Rightarrow> 'f TableBuilder option" where
  "TableBuilder_Finish ap sn r =
     (case Flush ap sn r of None \<Rightarrow> None
      | Some r \<Rightarrow>
        (let r = r\<lparr>tb_closed := True\<rparr> in
         case
           (if tb_status r = OK
            then map_option (\<lambda>(r, _, h). (r, h)) (WriteBlock ap sn (BlockBuilder_new (tb_options r)) r)
            else Some (r, BlockHandle_new))
         of None \<Rightarrow> None
         | Some (r, metaindex_block_handle) \<Rightarrow>
           (case
              (if tb_status r = OK then
                 (case (if tb_pending_index_entry r
                        then add_index_entry (FindShortSuccessor (tb_last_key r)) r else Some r)
                  of None \<Rightarrow> None
                  | Some r \<Rightarrow>
                      map_option (\<lambda>(r, block, h). (r\<lparr>tb_index_block := block\<rparr>, h))
                        (WriteBlock ap sn (tb_index_block r) r))
               else Some (r, BlockHandle_new))
            of None \<Rightarrow> None
            | Some (r, index_block_handle) \<Rightarrow>
                (if tb_status r = OK then
                   let footer = \<lparr>metaindex_handle = metaindex_block_handle,
                                 index_handle = index_block_handle\<rparr>;
                       footer_encoding = Footer_EncodeTo footer [];
                       (s, f) = ap (tb_file r) footer_encoding;
                       r = r\<lparr>tb_status := s, tb_file := f\<rparr>
                   in if s = OK
                      then Some (r\<lparr>tb_offset := tb_offset r + word_of_nat (length footer_encoding)\<rparr>)
                      else Some r
                 else Some r))))"

definition TableBuilder_Abandon :: "'f TableBuilder \<Rightarrow> 'f TableBuilder" where
  "TableBuilder_Abandon r = r\<lparr>tb_closed := True\<rparr>"

definition NumEntries :: "'f TableBuilder \<Rightarrow> uint64" where
  "NumEntries r = tb_num_entries r"

definition FileSize :: "'f TableBuilder \<Rightarrow> uint64" where
  "FileSize r = tb_offset r"

fun TableBuilder_Add_all ::
  "'f appender \<Rightarrow> snappy \<Rightarrow> (bytes \<times> bytes) list \<Rightarrow> 'f TableBuilder \<Rightarrow> 'f TableBuilder option" where
  "TableBuilder_Add_all ap sn [] r = Some r"
| "TableBuilder_Add_all ap sn ((k, v) # kvs) r =
     Option.bind (TableBuilder_Add ap sn k v r) (TableBuilder_Add_all ap sn kvs)"

section \<open>Separators separate\<close>

lemma FindShortestSeparator_spec:
  assumes "start < limit"
  shows "start \<le> FindShortestSeparator start limit" "FindShortestSeparator start limit < limit"
    "length (FindShortestSeparator start limit) \<le> length start"
proof -
  let ?m = "min (length start) (length limit)"
  define d where "d = shared_loop start limit ?m 0"
  have d: "d \<le> ?m" "take d limit = take d start"
    using shared_loop_spec [of 0 ?m limit start] by (auto simp: d_def)
  show "length (FindShortestSeparator start limit) \<le> length start"
    by (auto simp: FindShortestSeparator_def Let_def not_le)
  let ?b = "start ! d" and ?c = "limit ! d"
  have "start \<le> FindShortestSeparator start limit \<and> FindShortestSeparator start limit < limit"
  proof (cases "d < ?m \<and> ?b < 0xff \<and> unat ?b + 1 < unat ?c")
    case True
    then have u: "unat (?b + 1) = unat ?b + 1" using unat_plus_1 [of ?b 255] by simp
    have s: "start = take d start @ ?b # drop (Suc d) start" using True by (intro id_take_nth_drop) simp
    have l: "limit = take d start @ ?c # drop (Suc d) limit"
      using True d(2) id_take_nth_drop [of d limit] by simp
    have "FindShortestSeparator start limit = take d start @ [?b + 1]"
      using True by (simp add: FindShortestSeparator_def d_def [symmetric] Let_def take_Suc_conv_app_nth min_le_iff_disj)
    moreover have "start \<le> take d start @ [?b + 1]"
      using u by (subst s) (simp add: word_less_nat_alt)
    moreover have "take d start @ [?b + 1] < limit"
      using u True by (subst l) (simp add: word_less_nat_alt)
    ultimately show ?thesis by simp
  next
    case False
    then have "FindShortestSeparator start limit = start"
      by (auto simp: FindShortestSeparator_def d_def [symmetric] Let_def)
    then show ?thesis using assms by simp
  qed
  then show "start \<le> FindShortestSeparator start limit" "FindShortestSeparator start limit < limit"
    by simp_all
qed

lemma FindShortSuccessor_spec:
  "key \<le> FindShortSuccessor key \<and> length (FindShortSuccessor key) \<le> length key"
proof (induction key)
  case (Cons b key)
  have "unat (b + 1) = unat b + 1" if "b \<noteq> 0xff"
  proof -
    have "(0xff :: byte) = - 1" by simp
    then have "b < - 1" using that by (metis word_order.not_eq_extremum)
    then show ?thesis using unat_plus_1 by simp
  qed
  then show ?case using Cons by (auto simp: word_less_nat_alt)
qed simp

section \<open>Sizes\<close>

text \<open>A bound on what an entry costs, in the data blocks and in the index.\<close>

definition cost :: "(bytes \<times> bytes) list \<Rightarrow> nat" where
  "cost kvs = sum_list (map (\<lambda>(k, v). length k + length v + 64) kvs)"

lemma cost_append [simp]: "cost (xs @ ys) = cost xs + cost ys"
  by (simp add: cost_def)

lemma cost_Nil [simp]: "cost [] = 0"
  by (simp add: cost_def)

lemma cost_Cons [simp]: "cost ((k, v) # kvs) = length k + length v + 64 + cost kvs"
  by (simp add: cost_def)

lemma length_EncodeVarint32: "length (EncodeVarint32 v) \<le> 5"
  by (simp add: EncodeVarint32_def)

lemma length_enc_entry: "length (enc_entry (s, k, v)) \<le> length k + length v + 15"
  using length_EncodeVarint32 [of "word_of_nat s"] length_EncodeVarint32 [of "word_of_nat (length k - s)"]
    length_EncodeVarint32 [of "word_of_nat (length v)"]
  by (simp add: enc_entry_def)

lemma length_enc_entries: "length (enc_entries es) + 40 * length es \<le> cost (map snd es)"
proof (induction es)
  case (Cons e es)
  obtain s k v where e: "e = (s, k, v)" by (cases e)
  show ?case using Cons length_enc_entry [of s k v] by (simp add: enc_entries_def e)
qed (simp add: enc_entries_def)

lemma length_block_bytes_le:
  assumes "layout_ok es rs" shows "length (block_bytes es rs) \<le> cost (map snd es) + 8"
proof -
  have "length rs \<le> length es + 1" using assms by (simp add: layout_ok_def)
  then show ?thesis using length_enc_entries [of es] by (simp add: length_block_bytes)
qed

lemma length_block_bytes_less:
  assumes "layout_ok es rs" "es \<noteq> []" shows "length (block_bytes es rs) + 5 \<le> cost (map snd es)"
proof -
  have "length rs \<le> length es + 1" using assms by (simp add: layout_ok_def)
  moreover have "1 \<le> length es" using assms(2) by (cases es) auto
  ultimately show ?thesis using length_enc_entries [of es] by (simp add: length_block_bytes)
qed

lemma builds_empty_iff: "builds b es rs \<Longrightarrow> BlockBuilder_empty b \<longleftrightarrow> es = []"
proof -
  have "enc_entry e \<noteq> []" for e
    using length_entry_header [of e] enc_entry_header by (cases e) fastforce
  then show "builds b es rs \<Longrightarrow> BlockBuilder_empty b \<longleftrightarrow> es = []"
    by (cases es) (auto simp: builds_def BlockBuilder_empty_def enc_entries_def)
qed

lemma builds_Finish_ok:
  assumes "builds b es rs" "cost (map snd es) + 8 < 2 ^ 32"
  shows "\<exists>b'. BlockBuilder_Finish b = Some (b', block_bytes es rs)" "length (block_bytes es rs) < 2 ^ 32"
proof -
  have lay: "layout_ok es rs" using assms(1) by (simp add: builds_def)
  show "length (block_bytes es rs) < 2 ^ 32" using length_block_bytes_le [OF lay] assms(2) by simp
  then have "length (bb_restarts b) \<le> 2 ^ 32 - 1"
    using assms(1) by (simp add: length_block_bytes builds_def)
  then obtain b' c where "BlockBuilder_Finish b = Some (b', c)"
    by (auto simp: BlockBuilder_Finish_def Let_def)
  then show "\<exists>b'. BlockBuilder_Finish b = Some (b', block_bytes es rs)"
    using builds_Finish [OF assms(1)] by blast
qed

lemma builds_Add_ok:
  assumes "builds b es rs" "cost (map snd es @ [(k, v)]) < 2 ^ 32"
  shows "\<exists>b' es' rs'. BlockBuilder_Add k v b = Some b' \<and> builds b' es' rs' \<and>
    map snd es' = map snd es @ [(k, v)]"
proof -
  have "length (bb_buffer b) < 2 ^ 32" "length k < 2 ^ 32" "length v < 2 ^ 32"
    using assms length_enc_entries [of es] by (simp_all add: builds_def)
  from BlockBuilder_Add_success [OF this(2,3,1)] obtain b' where b': "BlockBuilder_Add k v b = Some b'"
    by blast
  from builds_Add [OF assms(1) b'] obtain s rs' where "builds b' (es @ [(s, k, v)]) rs'" by blast
  then show ?thesis using b' by (intro exI [of _ b'] exI [of _ "es @ [(s, k, v)]"] exI [of _ rs']) simp
qed

section \<open>The layout of a table\<close>

text \<open>A written data block: its separator, its handle and its entries.\<close>

type_synonym data_block = "bytes \<times> BlockHandle \<times> (bytes \<times> bytes) list"

abbreviation db_sep :: "data_block \<Rightarrow> bytes" where "db_sep d \<equiv> fst d"
abbreviation db_handle :: "data_block \<Rightarrow> BlockHandle" where "db_handle d \<equiv> fst (snd d)"
abbreviation db_kvs :: "data_block \<Rightarrow> (bytes \<times> bytes) list" where "db_kvs d \<equiv> snd (snd d)"

definition table_kvs :: "data_block list \<Rightarrow> (bytes \<times> bytes) list" where
  "table_kvs ds = concat (map db_kvs ds)"

definition index_kvs :: "data_block list \<Rightarrow> (bytes \<times> bytes) list" where
  "index_kvs ds = map (\<lambda>d. (db_sep d, BlockHandle_EncodeTo (db_handle d) [])) ds"

text \<open>Each separator is not below the keys of its block, and below all keys that follow.\<close>

fun separated :: "data_block list \<Rightarrow> (bytes \<times> bytes) list \<Rightarrow> bool" where
  "separated [] cur = True"
| "separated (d # ds) cur =
     ((\<forall>k \<in> fst ` set (db_kvs d). k \<le> db_sep d) \<and>
      (\<forall>k \<in> fst ` set (table_kvs ds @ cur). db_sep d < k) \<and> separated ds cur)"

definition stored_kvs :: "snappy \<Rightarrow> bytes \<Rightarrow> BlockHandle \<Rightarrow> (bytes \<times> bytes) list \<Rightarrow> bool" where
  "stored_kvs sn F h kvs \<longleftrightarrow>
     (\<exists>es rs. layout_ok es rs \<and> length (block_bytes es rs) < 2 ^ 32 \<and> map snd es = kvs \<and>
        block_stored sn F h (block_bytes es rs))"

definition blocks_ok :: "snappy \<Rightarrow> bytes \<Rightarrow> data_block list \<Rightarrow> bool" where
  "blocks_ok sn F ds \<longleftrightarrow> distinct (map db_handle ds) \<and>
     (\<forall>d \<in> set ds. db_kvs d \<noteq> [] \<and> stored_kvs sn F (db_handle d) (db_kvs d) \<and>
        unat (bh_offset (db_handle d)) < length F \<and> length (db_sep d) \<le> length (fst (last (db_kvs d))))"

lemma table_kvs_simps [simp]:
  "table_kvs [] = []" "table_kvs (d # ds) = db_kvs d @ table_kvs ds"
  "table_kvs (ds @ ds') = table_kvs ds @ table_kvs ds'"
  by (simp_all add: table_kvs_def)

lemma index_kvs_append [simp]: "index_kvs (ds @ ds') = index_kvs ds @ index_kvs ds'"
  by (simp add: index_kvs_def)

lemma stored_kvs_append: "stored_kvs sn F h kvs \<Longrightarrow> stored_kvs sn (F @ G) h kvs"
  using block_stored_append unfolding stored_kvs_def by blast

lemma separated_add:
  "separated ds cur \<Longrightarrow> (\<And>d. d \<in> set ds \<Longrightarrow> db_sep d < k) \<Longrightarrow> separated ds (cur @ [(k, v)])"
  by (induction ds) auto

lemma separated_flush:
  "separated ds (cur @ rest) \<Longrightarrow> \<forall>k \<in> fst ` set cur. k \<le> sep \<Longrightarrow> \<forall>k \<in> fst ` set rest. sep < k \<Longrightarrow>
     separated (ds @ [(sep, h, cur)]) rest"
  by (induction ds) auto

lemma separated_change_last:
  "separated (ds @ [(sep, h, kvs)]) [] \<Longrightarrow> \<forall>k \<in> fst ` set kvs. k \<le> sep' \<Longrightarrow>
     separated (ds @ [(sep', h, kvs)]) []"
  by (induction ds) auto

lemma separated_last: "separated (ds @ [d]) cur \<Longrightarrow> k \<in> fst ` set (db_kvs d) \<Longrightarrow> k \<le> db_sep d"
  by (induction ds) auto

lemma separated_butlast: "separated (ds @ [(sep, h, kvs)]) [] \<Longrightarrow> separated ds kvs"
  by (induction ds) auto

lemma keys_sorted_append:
  "keys_sorted (xs @ ys) \<longleftrightarrow> keys_sorted xs \<and> keys_sorted ys \<and> (\<forall>x \<in> set xs. \<forall>y \<in> set ys. fst x < fst y)"
  by (auto simp: keys_sorted_def sorted_wrt_append)

lemma keys_sorted_last:
  "keys_sorted kvs \<Longrightarrow> \<forall>k \<in> fst ` set kvs. k \<le> fst (last kvs)"
  by (induction kvs rule: rev_induct) (auto simp: keys_sorted_append intro: less_imp_le)

text \<open>Separators of blocks with entries are strictly increasing, so the index block is in order.\<close>

lemma index_sorted:
  assumes "separated ds cur" "\<And>d. d \<in> set ds \<Longrightarrow> db_kvs d \<noteq> []"
  shows "keys_sorted (index_kvs ds)"
  using assms
proof (induction ds)
  case (Cons d ds)
  have "db_sep d < db_sep e" if e: "e \<in> set ds" for e
  proof -
    have "db_kvs e \<noteq> []" using Cons.prems(2) [of e] e by simp
    then obtain k where k: "k \<in> fst ` set (db_kvs e)" by (meson ex_in_conv image_is_empty set_empty)
    obtain xs ys where ds: "ds = xs @ e # ys" using split_list [OF e] by blast
    then have "db_sep d < k" using k Cons.prems(1) by auto
    moreover have "separated (xs @ e # ys) cur \<Longrightarrow> k \<le> db_sep e" using k by (induction xs) auto
    ultimately show ?thesis using Cons.prems(1) ds by auto
  qed
  then show ?case using Cons by (auto simp: index_kvs_def keys_sorted_def)
qed (simp add: index_kvs_def keys_sorted_def)

lemma cost_last: "kvs \<noteq> [] \<Longrightarrow> length (fst (last kvs)) + 64 \<le> cost kvs"
  by (cases kvs rule: rev_cases) auto

text \<open>The index costs no more than the data.\<close>

lemma cost_index:
  assumes "\<forall>d \<in> set ds. db_kvs d \<noteq> [] \<and> length (db_sep d) \<le> length (fst (last (db_kvs d)))"
  shows "cost (index_kvs ds) \<le> 2 * cost (table_kvs ds)"
  using assms
proof (induction ds)
  case (Cons d ds)
  have "length (BlockHandle_EncodeTo (db_handle d) []) \<le> 20"
    using length_BlockHandle_EncodeTo by (simp add: kMaxEncodedLength_def)
  moreover have "length (db_sep d) + 64 \<le> cost (db_kvs d)" using cost_last [of "db_kvs d"] Cons.prems by force
  ultimately show ?case using Cons by (simp add: index_kvs_def)
qed (simp add: index_kvs_def)

text \<open>A complete table file with the entries \<open>kvs\<close>.\<close>

definition table_file :: "snappy \<Rightarrow> bytes \<Rightarrow> (bytes \<times> bytes) list \<Rightarrow> bool" where
  "table_file sn F kvs \<longleftrightarrow>
     (\<exists>ds mh ih F0. F = F0 @ Footer_EncodeTo \<lparr>metaindex_handle = mh, index_handle = ih\<rparr> [] \<and>
        stored_kvs sn F0 ih (index_kvs ds) \<and> distinct (map db_handle ds) \<and>
        (\<forall>d \<in> set ds. db_kvs d \<noteq> [] \<and> stored_kvs sn F0 (db_handle d) (db_kvs d)) \<and>
        separated ds [] \<and> table_kvs ds = kvs \<and> keys_sorted kvs \<and> length F < 2 ^ 63)"

section \<open>Writing blocks to a file\<close>

text \<open>What the builder relies on: a successful \<^verbatim>\<open>Append\<close> appends.\<close>

locale table_storage = snappy_codec sn for sn :: snappy +
  fixes ap :: "'f appender" and contents :: "'f \<Rightarrow> bytes"
  assumes append: "ap f d = (OK, f') \<Longrightarrow> contents f' = contents f @ d"
begin

lemma unstore_compress:
  assumes "compress_block sn c raw = (stored, t)" "length raw < 2 ^ 32"
  shows "unstore sn (compression_byte t) stored = Some raw" "length stored \<le> length raw"
  using assms(1) uncompress [OF _ assms(2)]
  by (auto simp: compress_block_def unstore_def split: CompressionType.splits option.splits if_splits)

lemma WriteRawBlock_ok:
  assumes "WriteRawBlock ap data t r = (r', h)" and off: "tb_offset r = word_of_nat (length (contents (tb_file r)))"
    and small: "length (contents (tb_file r)) < 2 ^ 64" "length data < 2 ^ 64"
  shows "h = \<lparr>bh_offset = tb_offset r, bh_size = word_of_nat (length data)\<rparr>"
    "\<exists>f' o' s'. r' = r\<lparr>tb_file := f', tb_offset := o', tb_status := s'\<rparr> \<and>
       (s' = OK \<longrightarrow> contents f' = contents (tb_file r) @ stored_block (compression_byte t) data \<and>
          o' = word_of_nat (length (contents f')))"
proof -
  obtain s1 f1 where 1: "ap (tb_file r) data = (s1, f1)" by force
  let ?tr = "compression_byte t # EncodeFixed32 kLittleEndian (Mask (crc_Value (data @ [compression_byte t])))"
  obtain s2 f2 where 2: "ap f1 ?tr = (s2, f2)" by force
  have crc: "Extend None 0 (crc_Value data) [x] = crc_Value (data @ [x])" for x
    using Extend_concat [of 0 0 0 data "[x]" 0] by (simp add: crc_Value_def)
  have w: "WriteRawBlock ap data t r = (if s1 = OK then
      (if s2 = OK then (r\<lparr>tb_file := f2, tb_offset := tb_offset r + word_of_nat (length data + kBlockTrailerSize), tb_status := s2\<rparr>,
          \<lparr>bh_offset = tb_offset r, bh_size = word_of_nat (length data)\<rparr>)
       else (r\<lparr>tb_file := f2, tb_status := s2\<rparr>, \<lparr>bh_offset = tb_offset r, bh_size = word_of_nat (length data)\<rparr>))
      else (r\<lparr>tb_file := f1, tb_status := s1\<rparr>, \<lparr>bh_offset = tb_offset r, bh_size = word_of_nat (length data)\<rparr>))"
    using 1 2 by (simp add: WriteRawBlock_def crc Let_def)
  show "h = \<lparr>bh_offset = tb_offset r, bh_size = word_of_nat (length data)\<rparr>"
    using assms(1) w by (auto split: if_splits)
  have "contents f2 = contents (tb_file r) @ stored_block (compression_byte t) data"
    if "s1 = OK" "s2 = OK"
    using append [OF 1 [unfolded that]] append [OF 2 [unfolded that]] by (simp add: stored_block_def)
  then show "\<exists>f' o' s'. r' = r\<lparr>tb_file := f', tb_offset := o', tb_status := s'\<rparr> \<and>
       (s' = OK \<longrightarrow> contents f' = contents (tb_file r) @ stored_block (compression_byte t) data \<and>
          o' = word_of_nat (length (contents f')))"
    using assms(1) w off
    by (intro exI [of _ "if s1 = OK then f2 else f1"]
          exI [of _ "if s1 = OK \<and> s2 = OK then tb_offset r + word_of_nat (length data + kBlockTrailerSize)
             else tb_offset r"]
          exI [of _ "if s1 = OK then s2 else s1"], cases r)
       (auto simp: kBlockTrailerSize_def split: if_splits)
qed

lemma WriteBlock_ok:
  assumes b: "builds b es rs" and small: "cost (map snd es) + 8 < 2 ^ 32"
    and off: "tb_offset r = word_of_nat (length (contents (tb_file r)))"
    and F: "length (contents (tb_file r)) < 2 ^ 63"
  shows "\<exists>f' o' s' b' h. WriteBlock ap sn b r =
      Some (r\<lparr>tb_file := f', tb_offset := o', tb_status := s', tb_compressed_output := []\<rparr>, b', h) \<and>
    builds b' [] [0] \<and>
    (s' = OK \<longrightarrow> (\<exists>G. contents f' = contents (tb_file r) @ G \<and> o' = word_of_nat (length (contents f')) \<and>
       length G \<le> length (block_bytes es rs) + 5 \<and> G \<noteq> [] \<and>
       unat (bh_offset h) = length (contents (tb_file r)) \<and>
       block_stored sn (contents f') h (block_bytes es rs)))"
proof -
  from builds_Finish_ok [OF b small] obtain b1 where
    b1: "BlockBuilder_Finish b = Some (b1, block_bytes es rs)" and raw: "length (block_bytes es rs) < 2 ^ 32"
    by blast
  obtain st t where c: "compress_block sn (compression (tb_options r)) (block_bytes es rs) = (st, t)" by force
  note un = unstore_compress [OF c raw]
  obtain r' h where w: "WriteRawBlock ap st t r = (r', h)" by force
  have sizes: "length (contents (tb_file r)) < 2 ^ 64" "length st < 2 ^ 64" using F raw un(2) by simp_all
  note wr = WriteRawBlock_ok [OF w off sizes]
  from wr(2) obtain f' o' s' where r': "r' = r\<lparr>tb_file := f', tb_offset := o', tb_status := s'\<rparr>"
    and ok: "s' = OK \<Longrightarrow> contents f' = contents (tb_file r) @ stored_block (compression_byte t) st \<and>
          o' = word_of_nat (length (contents f'))" by blast
  have h: "unat (bh_offset h) = length (contents (tb_file r))" "unat (bh_size h) = length st"
    using wr(1) off sizes by (simp_all add: unat_of_nat)
  have "block_stored sn (contents f') h (block_bytes es rs)" if "s' = OK"
    using ok [OF that] h un(1) unfolding block_stored_def
    by (intro exI [of _ "contents (tb_file r)"] exI [of _ "compression_byte t"] exI [of _ st] exI [of _ "[]"]) simp
  then show ?thesis
    using b1 c w r' ok h un(2) builds_Reset [of b1]
    by (intro exI [of _ f'] exI [of _ o'] exI [of _ s'] exI [of _ "BlockBuilder_Reset b1"] exI [of _ h])
       (auto simp: WriteBlock_def stored_block_def)
qed

text \<open>The invariant of the builder while its status is OK: \<open>ds\<close> are the written blocks and
  \<open>cur\<close> the entries of the block being filled.\<close>

definition tb_inv :: "'f TableBuilder \<Rightarrow> data_block list \<Rightarrow> (bytes \<times> bytes) list \<Rightarrow> bool" where
  "tb_inv r ds cur \<longleftrightarrow> tb_status r = OK \<and>
     length (contents (tb_file r)) \<le> cost (table_kvs ds) + (if tb_closed r then 20 else 0) \<and>
     tb_offset r = word_of_nat (length (contents (tb_file r))) \<and>
     blocks_ok sn (contents (tb_file r)) ds \<and> separated ds cur \<and> keys_sorted (table_kvs ds @ cur) \<and>
     (\<exists>es rs. builds (tb_data_block r) es rs \<and> map snd es = cur) \<and>
     (\<exists>es rs. builds (tb_index_block r) es rs \<and>
        map snd es = index_kvs (if tb_pending_index_entry r then butlast ds else ds)) \<and>
     (tb_pending_index_entry r \<longrightarrow> cur = [] \<and> ds \<noteq> [] \<and> db_handle (last ds) = tb_pending_handle r \<and>
        db_sep (last ds) = tb_last_key r) \<and>
     (\<not> tb_pending_index_entry r \<and> cur = [] \<longrightarrow> ds = []) \<and>
     (table_kvs ds @ cur \<noteq> [] \<longrightarrow> tb_last_key r = fst (last (table_kvs ds @ cur)))"

lemma tb_inv_new: "contents f = [] \<Longrightarrow> tb_inv (TableBuilder_new opt f) [] []"
  using builds_new [of opt] builds_new [of "opt\<lparr>block_restart_interval := 1\<rparr>"]
  by (fastforce simp: tb_inv_def TableBuilder_new_def blocks_ok_def index_kvs_def keys_sorted_def)

lemma Flush_failed: "tb_status r \<noteq> OK \<Longrightarrow> Flush ap sn r = Some r"
  by (simp add: Flush_def)

lemma Flush_empty: "tb_inv r ds [] \<Longrightarrow> Flush ap sn r = Some r"
  using builds_empty_iff by (fastforce simp: Flush_def tb_inv_def)

lemma blocks_ok_flush:
  assumes "blocks_ok sn F ds" "stored_kvs sn (F @ G) h kvs" "kvs \<noteq> []" "unat (bh_offset h) = length F"
    "G \<noteq> []" "length sep \<le> length (fst (last kvs))"
  shows "blocks_ok sn (F @ G) (ds @ [(sep, h, kvs)])"
proof -
  have "h \<notin> db_handle ` set ds" using assms(1,4) by (fastforce simp: blocks_ok_def)
  moreover have "stored_kvs sn (F @ G) (db_handle d) (db_kvs d)" if "d \<in> set ds" for d
    using assms(1) that stored_kvs_append by (auto simp: blocks_ok_def)
  ultimately show ?thesis using assms by (fastforce simp: blocks_ok_def)
qed

lemma Flush_full:
  assumes inv: "tb_inv r ds cur" and cur: "cur \<noteq> []" and small: "2 * cost (table_kvs ds @ cur) + 100 < 2 ^ 32"
  shows "\<exists>r'. Flush ap sn r = Some r' \<and> tb_options r' = tb_options r \<and> tb_num_entries r' = tb_num_entries r \<and>
    \<not> (tb_status r' \<noteq> OK \<and> tb_pending_index_entry r') \<and> builds (tb_data_block r') [] [0] \<and>
    (tb_status r' = OK \<longrightarrow> (\<exists>h. tb_inv r' (ds @ [(tb_last_key r, h, cur)]) []))"
proof -
  let ?F = "contents (tb_file r)"
  from inv obtain es rs where b: "builds (tb_data_block r) es rs" "map snd es = cur" by (auto simp: tb_inv_def)
  have np: "\<not> tb_pending_index_entry r" using inv cur by (auto simp: tb_inv_def)
  have bo: "blocks_ok sn ?F ds" using inv by (simp add: tb_inv_def)
  have lenF: "length ?F \<le> cost (table_kvs ds) + (if tb_closed r then 20 else 0)"
    using inv by (simp add: tb_inv_def)
  then have "length ?F < 2 ^ 63" using small by (simp split: if_splits)
  moreover have "tb_offset r = word_of_nat (length ?F)" using inv by (simp add: tb_inv_def)
  moreover have "cost (map snd es) + 8 < 2 ^ 32" using small b(2) by simp
  ultimately obtain f' o' s' b' h where
    w: "WriteBlock ap sn (tb_data_block r) r =
      Some (r\<lparr>tb_file := f', tb_offset := o', tb_status := s', tb_compressed_output := []\<rparr>, b', h)"
    and b': "builds b' [] [0]"
    and ok: "s' = OK \<Longrightarrow> \<exists>G. contents f' = ?F @ G \<and> o' = word_of_nat (length (contents f')) \<and>
       length G \<le> length (block_bytes es rs) + 5 \<and> G \<noteq> [] \<and> unat (bh_offset h) = length ?F \<and>
       block_stored sn (contents f') h (block_bytes es rs)"
    using WriteBlock_ok [OF b(1)] by blast
  have ne: "\<not> BlockBuilder_empty (tb_data_block r)" using builds_empty_iff [OF b(1)] b(2) cur by auto
  define r' where "r' = r\<lparr>tb_file := f', tb_offset := o', tb_status := s', tb_compressed_output := [],
    tb_data_block := b', tb_pending_handle := h, tb_pending_index_entry := (s' = OK)\<rparr>"
  have fl: "Flush ap sn r = Some r'"
    using ne w inv np by (cases r) (auto simp: Flush_def tb_inv_def r'_def Let_def)
  have "tb_inv r' (ds @ [(tb_last_key r, h, cur)]) []" if s': "s' = OK"
  proof -
    from ok [OF s'] obtain G where G: "contents f' = ?F @ G" "o' = word_of_nat (length (contents f'))"
      "length G \<le> length (block_bytes es rs) + 5" "G \<noteq> []" "unat (bh_offset h) = length ?F"
      "block_stored sn (contents f') h (block_bytes es rs)" by blast
    have lay: "layout_ok es rs" using b(1) by (simp add: builds_def)
    have len: "length (block_bytes es rs) + 5 \<le> cost cur"
      using length_block_bytes_less [OF lay] b(2) cur by auto
    have st: "stored_kvs sn (?F @ G) h cur"
      unfolding stored_kvs_def using lay b(2) G(1,6) len small
      by (intro exI [of _ es] exI [of _ rs]) simp
    have lk: "tb_last_key r = fst (last cur)" using inv cur by (simp add: tb_inv_def)
    have "blocks_ok sn (?F @ G) (ds @ [(tb_last_key r, h, cur)])"
      using blocks_ok_flush [OF bo st cur G(5)] G(4) lk by simp
    moreover have "length (?F @ G) \<le> cost (table_kvs (ds @ [(tb_last_key r, h, cur)])) + (if tb_closed r then 20 else 0)"
      using lenF G(3) len by simp
    moreover have "keys_sorted cur" using inv by (auto simp: tb_inv_def keys_sorted_append)
    then have "separated (ds @ [(tb_last_key r, h, cur)]) []"
      using inv keys_sorted_last [of cur] lk by (intro separated_flush) (auto simp: tb_inv_def)
    ultimately show ?thesis
      using inv G b' s' lk cur np by (auto simp: tb_inv_def r'_def)
  qed
  then show ?thesis using fl b' np by (auto simp: r'_def)
qed

lemma blocks_ok_resep:
  assumes "blocks_ok sn F (ds @ [(sep, h, kvs)])" "length sep' \<le> length sep"
  shows "blocks_ok sn F (ds @ [(sep', h, kvs)])"
  using assms by (auto simp: blocks_ok_def)

text \<open>Emitting the index entry: the last separator is replaced by one that is not below it.\<close>

lemma add_index_entry_ok:
  assumes inv: "tb_inv r ds []" and pend: "tb_pending_index_entry r"
    and sep: "tb_last_key r \<le> sep" "length sep \<le> length (tb_last_key r)"
    and small: "2 * cost (table_kvs ds) + 100 < 2 ^ 32"
  shows "\<exists>b' ds0 h kvs. ds = ds0 @ [(tb_last_key r, h, kvs)] \<and> add_index_entry sep r =
      Some (r\<lparr>tb_last_key := sep, tb_index_block := b', tb_pending_index_entry := False\<rparr>) \<and>
    blocks_ok sn (contents (tb_file r)) (ds0 @ [(sep, h, kvs)]) \<and> separated (ds0 @ [(sep, h, kvs)]) [] \<and>
    (\<exists>es rs. builds b' es rs \<and> map snd es = index_kvs (ds0 @ [(sep, h, kvs)]))"
proof -
  have "ds \<noteq> []" using inv pend by (simp add: tb_inv_def)
  then obtain ds0 d where ds: "ds = ds0 @ [d]" by (cases ds rule: rev_cases) auto
  define h kvs where "h = db_handle d" and "kvs = db_kvs d"
  have d: "d = (tb_last_key r, h, kvs)" "h = tb_pending_handle r"
    using inv pend ds by (simp_all add: tb_inv_def h_def kvs_def prod_eq_iff)
  have bo: "blocks_ok sn (contents (tb_file r)) (ds0 @ [(tb_last_key r, h, kvs)])"
    using inv ds d by (simp add: tb_inv_def)
  have bo': "blocks_ok sn (contents (tb_file r)) (ds0 @ [(sep, h, kvs)])"
    by (rule blocks_ok_resep [OF bo sep(2)])
  have "separated (ds0 @ [(tb_last_key r, h, kvs)]) []" using inv ds d by (simp add: tb_inv_def)
  then have se: "separated (ds0 @ [(sep, h, kvs)]) []"
  proof (rule separated_change_last, intro ballI)
    fix k assume "k \<in> fst ` set kvs"
    then have "k \<le> tb_last_key r"
      using separated_last [of ds0 "(tb_last_key r, h, kvs)" "[]" k] inv ds d by (simp add: tb_inv_def)
    then show "k \<le> sep" using sep(1) by (rule order.trans)
  qed
  have "\<exists>es rs. builds (tb_index_block r) es rs \<and> map snd es = index_kvs ds0"
    using inv pend ds by (simp add: tb_inv_def)
  then obtain es rs where es: "builds (tb_index_block r) es rs" "map snd es = index_kvs ds0" by blast
  have "cost (index_kvs (ds0 @ [(sep, h, kvs)])) \<le> 2 * cost (table_kvs (ds0 @ [(sep, h, kvs)]))"
    by (rule cost_index) (use bo' in \<open>auto simp: blocks_ok_def\<close>)
  then have "cost (map snd es @ [(sep, BlockHandle_EncodeTo h [])]) < 2 ^ 32"
    using small ds d es(2) by (simp add: index_kvs_def)
  from builds_Add_ok [OF es(1) this] obtain b' es' rs' where
    b': "BlockBuilder_Add sep (BlockHandle_EncodeTo h []) (tb_index_block r) = Some b'" "builds b' es' rs'"
    "map snd es' = map snd es @ [(sep, BlockHandle_EncodeTo h [])]" by blast
  have idx: "map snd es' = index_kvs (ds0 @ [(sep, h, kvs)])"
    unfolding b'(3) es(2) by (simp add: index_kvs_def)
  have "add_index_entry sep r =
      Some (r\<lparr>tb_last_key := sep, tb_index_block := b', tb_pending_index_entry := False\<rparr>)"
    using b'(1) d(2) by (simp add: add_index_entry_def Let_def)
  then show ?thesis using bo' se ds d(1) b'(2) idx
    by (intro exI [of _ b'] exI [of _ ds0] exI [of _ h] exI [of _ kvs] conjI exI [of _ es'] exI [of _ rs']) simp_all
qed

text \<open>The second half of \<^verbatim>\<open>Add\<close>: the entry goes to the data block, which may be flushed.\<close>

definition add_data :: "bytes \<Rightarrow> bytes \<Rightarrow> 'f TableBuilder \<Rightarrow> 'f TableBuilder option" where
  "add_data key v r =
     (let r = r\<lparr>tb_last_key := key, tb_num_entries := tb_num_entries r + 1\<rparr> in
      case BlockBuilder_Add key v (tb_data_block r) of None \<Rightarrow> None
      | Some block \<Rightarrow>
          (let r = r\<lparr>tb_data_block := block\<rparr> in
           if CurrentSizeEstimate block \<ge> block_size (tb_options r) then Flush ap sn r else Some r))"

definition add_index :: "bytes \<Rightarrow> 'f TableBuilder \<Rightarrow> 'f TableBuilder option" where
  "add_index key r =
     (if tb_pending_index_entry r then add_index_entry (FindShortestSeparator (tb_last_key r) key) r
      else Some r)"

lemma TableBuilder_Add_eq:
  "TableBuilder_Add ap sn key v r =
     (if tb_status r \<noteq> OK then Some r
      else Option.bind (if 0 <s tb_num_entries r \<and> length key + length v \<ge> 2 * block_size (tb_options r) mod 2 ^ 64
           then Flush ap sn r else Some r)
         (\<lambda>r. Option.bind (add_index key r) (add_data key v)))"
  by (auto simp: TableBuilder_Add_def add_index_def add_data_def Let_def split: option.splits Option.bind_splits)

text \<open>The state between the two halves: no index entry is pending and all separators are below the
  key.\<close>

definition ready :: "'f TableBuilder \<Rightarrow> data_block list \<Rightarrow> (bytes \<times> bytes) list \<Rightarrow> bytes \<Rightarrow> bool" where
  "ready r ds cur key \<longleftrightarrow> tb_status r = OK \<and> \<not> tb_pending_index_entry r \<and>
     length (contents (tb_file r)) \<le> cost (table_kvs ds) + (if tb_closed r then 20 else 0) \<and>
     tb_offset r = word_of_nat (length (contents (tb_file r))) \<and>
     blocks_ok sn (contents (tb_file r)) ds \<and> separated ds cur \<and> (\<forall>d \<in> set ds. db_sep d < key) \<and>
     (\<exists>es rs. builds (tb_data_block r) es rs \<and> map snd es = cur) \<and>
     (\<exists>es rs. builds (tb_index_block r) es rs \<and> map snd es = index_kvs ds)"

lemma separated_below:
  assumes "separated ds cur" "\<And>d. d \<in> set ds \<Longrightarrow> db_kvs d \<noteq> []" "cur \<noteq> []"
    "\<And>k. k \<in> fst ` set cur \<Longrightarrow> k < key"
  shows "d \<in> set ds \<Longrightarrow> db_sep d < key"
  using assms
proof (induction ds)
  case (Cons e ds)
  obtain k where "k \<in> fst ` set cur" using Cons.prems(4) by (cases cur) auto
  then have "db_sep e < k" "k < key" using Cons.prems(2,5) by auto
  then show ?case using Cons by auto
qed simp

lemma add_index_ready:
  assumes inv: "tb_inv r ds cur" and key: "\<forall>k \<in> fst ` set (table_kvs ds @ cur). k < key"
    and small: "2 * cost (table_kvs ds @ cur) + 100 < 2 ^ 32"
  shows "\<exists>r' ds'. add_index key r = Some r' \<and> ready r' ds' cur key \<and> table_kvs ds' = table_kvs ds \<and>
    tb_data_block r' = tb_data_block r"
proof (cases "tb_pending_index_entry r")
  case False
  have "db_sep d < key" if "d \<in> set ds" for d
  proof (rule separated_below [of ds cur])
    show "separated ds cur" using inv by (simp add: tb_inv_def)
    show "db_kvs e \<noteq> []" if "e \<in> set ds" for e
      using inv that by (auto simp: tb_inv_def blocks_ok_def)
    show "cur \<noteq> []" using inv False that by (auto simp: tb_inv_def)
  qed (use key that in auto)
  then have "ready r ds cur key" using inv False by (simp add: ready_def tb_inv_def)
  then show ?thesis using False by (auto simp: add_index_def)
next
  case True
  have c: "cur = []" using inv True by (simp add: tb_inv_def)
  let ?sep = "FindShortestSeparator (tb_last_key r) key"
  have "table_kvs ds \<noteq> []"
    using inv True by (cases ds rule: rev_cases) (auto simp: tb_inv_def blocks_ok_def)
  then have "tb_last_key r < key" using inv c key last_in_set by (fastforce simp: tb_inv_def)
  note sep = FindShortestSeparator_spec [OF this]
  have small': "2 * cost (table_kvs ds) + 100 < 2 ^ 32" using small by simp
  from add_index_entry_ok [OF inv [unfolded c] True sep(1,3) small'] obtain b' ds0 h kvs where
    *: "ds = ds0 @ [(tb_last_key r, h, kvs)]" "add_index_entry ?sep r =
      Some (r\<lparr>tb_last_key := ?sep, tb_index_block := b', tb_pending_index_entry := False\<rparr>)"
    "blocks_ok sn (contents (tb_file r)) (ds0 @ [(?sep, h, kvs)])" "separated (ds0 @ [(?sep, h, kvs)]) []"
    "\<exists>es rs. builds b' es rs \<and> map snd es = index_kvs (ds0 @ [(?sep, h, kvs)])" by blast
  let ?r' = "r\<lparr>tb_last_key := ?sep, tb_index_block := b', tb_pending_index_entry := False\<rparr>"
  have "db_sep d < key" if "d \<in> set ds0" for d
  proof (rule separated_below [of ds0 kvs])
    show "separated ds0 kvs" by (rule separated_butlast [OF *(4)])
    show "db_kvs e \<noteq> []" if "e \<in> set ds0" for e using *(3) that by (auto simp: blocks_ok_def)
    show "kvs \<noteq> []" using *(3) by (auto simp: blocks_ok_def)
  qed (use key that *(1) in auto)
  then have "\<forall>d \<in> set (ds0 @ [(?sep, h, kvs)]). db_sep d < key" using sep(2) by auto
  moreover have "table_kvs ds = table_kvs (ds0 @ [(?sep, h, kvs)])" using *(1) by simp
  ultimately have "ready ?r' (ds0 @ [(?sep, h, kvs)]) cur key"
    using inv *(3-5) c by (simp add: ready_def tb_inv_def)
  then show ?thesis using *(1,2) True
    by (intro exI [of _ ?r'] exI [of _ "ds0 @ [(?sep, h, kvs)]"]) (simp add: add_index_def)
qed

lemma add_data_failed:
  assumes "tb_status r \<noteq> OK" "builds (tb_data_block r) [] [0]" "cost [(key, v)] < 2 ^ 32"
  shows "\<exists>r'. add_data key v r = Some r' \<and> tb_status r' \<noteq> OK"
proof -
  from builds_Add_ok [OF assms(2), of key v] assms(3) obtain b' where
    b': "BlockBuilder_Add key v (tb_data_block r) = Some b'" by auto
  then show ?thesis using assms(1) by (auto simp: add_data_def Let_def Flush_failed)
qed

lemma add_data_ok:
  assumes rd: "ready r ds cur key" and sorted: "keys_sorted (table_kvs ds @ cur @ [(key, v)])"
    and small: "2 * cost (table_kvs ds @ cur @ [(key, v)]) + 100 < 2 ^ 32"
  shows "\<exists>r'. add_data key v r = Some r' \<and> (tb_status r' = OK \<longrightarrow>
    (\<exists>ds' cur'. tb_inv r' ds' cur' \<and> table_kvs ds' @ cur' = table_kvs ds @ cur @ [(key, v)]))"
proof -
  have "\<exists>es rs. builds (tb_data_block r) es rs \<and> map snd es = cur" using rd by (simp add: ready_def)
  then obtain es rs where b: "builds (tb_data_block r) es rs" "map snd es = cur" by blast
  have "cost (map snd es @ [(key, v)]) < 2 ^ 32" using small b(2) by simp
  from builds_Add_ok [OF b(1) this] obtain b' es' rs' where
    b': "BlockBuilder_Add key v (tb_data_block r) = Some b'" "builds b' es' rs'"
    "map snd es' = cur @ [(key, v)]" unfolding b(2) by blast
  define r1 where "r1 = r\<lparr>tb_last_key := key, tb_num_entries := tb_num_entries r + 1, tb_data_block := b'\<rparr>"
  have sep: "separated ds (cur @ [(key, v)])"
    using rd by (intro separated_add) (auto simp: ready_def)
  have inv: "tb_inv r1 ds (cur @ [(key, v)])"
    using rd sep sorted b'(2,3) by (auto simp: ready_def tb_inv_def r1_def)
  have ad: "add_data key v r = (if CurrentSizeEstimate b' \<ge> block_size (tb_options r) then Flush ap sn r1 else Some r1)"
    using b'(1) by (simp add: add_data_def Let_def r1_def)
  show ?thesis
  proof (cases "CurrentSizeEstimate b' \<ge> block_size (tb_options r)")
    case False
    then show ?thesis using ad inv by auto
  next
    case True
    have "cur @ [(key, v)] \<noteq> []" by simp
    from Flush_full [OF inv this small] obtain r' where r': "Flush ap sn r1 = Some r'"
      "tb_status r' = OK \<longrightarrow> (\<exists>h. tb_inv r' (ds @ [(tb_last_key r1, h, cur @ [(key, v)])]) [])" by blast
    have "table_kvs (ds @ [(tb_last_key r1, h, cur @ [(key, v)])]) @ [] = table_kvs ds @ cur @ [(key, v)]" for h
      by simp
    then show ?thesis using ad True r' by metis
  qed
qed

lemma TableBuilder_Add_ok:
  assumes inv: "tb_inv r ds cur" and sorted: "keys_sorted (table_kvs ds @ cur @ [(key, v)])"
    and small: "2 * cost (table_kvs ds @ cur @ [(key, v)]) + 100 < 2 ^ 32"
  shows "\<exists>r'. TableBuilder_Add ap sn key v r = Some r' \<and> (tb_status r' = OK \<longrightarrow>
    (\<exists>ds' cur'. tb_inv r' ds' cur' \<and> table_kvs ds' @ cur' = table_kvs ds @ cur @ [(key, v)]))"
proof -
  have st: "tb_status r = OK" using inv by (simp add: tb_inv_def)
  have step: "\<exists>r'. Option.bind (add_index key r0) (add_data key v) = Some r' \<and> (tb_status r' = OK \<longrightarrow>
      (\<exists>ds' cur'. tb_inv r' ds' cur' \<and> table_kvs ds' @ cur' = table_kvs ds @ cur @ [(key, v)]))"
    if inv0: "tb_inv r0 ds0 cur0" and eq: "table_kvs ds0 @ cur0 = table_kvs ds @ cur" for r0 ds0 cur0
  proof -
    have all: "table_kvs ds0 @ cur0 @ [(key, v)] = table_kvs ds @ cur @ [(key, v)]"
      using eq by (metis append.assoc)
    have less: "\<forall>k \<in> fst ` set (table_kvs ds0 @ cur0). k < key"
    proof -
      have "keys_sorted ((table_kvs ds0 @ cur0) @ [(key, v)])" using sorted all by simp
      then show ?thesis unfolding keys_sorted_append by simp
    qed
    have "2 * cost (table_kvs ds0 @ cur0) + 100 < 2 ^ 32" using small unfolding eq by simp
    from add_index_ready [OF inv0 less this] obtain r1 ds1 where
      r1: "add_index key r0 = Some r1" "ready r1 ds1 cur0 key" "table_kvs ds1 = table_kvs ds0" by blast
    have "keys_sorted (table_kvs ds1 @ cur0 @ [(key, v)])" "2 * cost (table_kvs ds1 @ cur0 @ [(key, v)]) + 100 < 2 ^ 32"
      unfolding r1(3) all by (rule sorted, rule small)
    from add_data_ok [OF r1(2) this] show ?thesis unfolding r1(3) all by (simp add: r1(1))
  qed
  show ?thesis
  proof (cases "0 <s tb_num_entries r \<and> length key + length v \<ge> 2 * block_size (tb_options r) mod 2 ^ 64 \<and> cur \<noteq> []")
    case False
    then have "TableBuilder_Add ap sn key v r = Option.bind (add_index key r) (add_data key v)"
    proof (cases "cur = []")
      case True
      then have "Flush ap sn r = Some r" using Flush_empty inv by simp
      then show ?thesis using st by (simp add: TableBuilder_Add_eq)
    next
      case ne: False
      then show ?thesis using st False by (auto simp: TableBuilder_Add_eq)
    qed
    then show ?thesis using step [OF inv refl] by simp
  next
    case True
    have "2 * cost (table_kvs ds @ cur) + 100 < 2 ^ 32" using small by simp
    from Flush_full [OF inv _ this] True obtain r1 where r1: "Flush ap sn r = Some r1"
      "\<not> (tb_status r1 \<noteq> OK \<and> tb_pending_index_entry r1)" "builds (tb_data_block r1) [] [0]"
      "tb_status r1 = OK \<longrightarrow> (\<exists>h. tb_inv r1 (ds @ [(tb_last_key r, h, cur)]) [])" by blast
    have a: "TableBuilder_Add ap sn key v r = Option.bind (add_index key r1) (add_data key v)"
      using st True r1(1) by (simp add: TableBuilder_Add_eq)
    show ?thesis
    proof (cases "tb_status r1 = OK")
      case True
      with r1(4) obtain h where "tb_inv r1 (ds @ [(tb_last_key r, h, cur)]) []" by blast
      from step [OF this] a show ?thesis by simp
    next
      case False
      then have "add_index key r1 = Some r1" using r1(2) by (simp add: add_index_def)
      moreover have "cost [(key, v)] < 2 ^ 32" using small by simp
      moreover from add_data_failed [OF False r1(3) this] obtain r' where
        "add_data key v r1 = Some r'" "tb_status r' \<noteq> OK" by blast
      ultimately show ?thesis using a by simp
    qed
  qed
qed

lemma TableBuilder_Add_all_failed:
  "tb_status r \<noteq> OK \<Longrightarrow> TableBuilder_Add_all ap sn kvs r = Some r"
  by (induction kvs) (auto simp: TableBuilder_Add_def)

lemma TableBuilder_Add_all_ok:
  "tb_inv r ds cur \<Longrightarrow> keys_sorted (table_kvs ds @ cur @ kvs) \<Longrightarrow>
    2 * cost (table_kvs ds @ cur @ kvs) + 100 < 2 ^ 32 \<Longrightarrow>
    \<exists>r'. TableBuilder_Add_all ap sn kvs r = Some r' \<and> (tb_status r' = OK \<longrightarrow>
      (\<exists>ds' cur'. tb_inv r' ds' cur' \<and> table_kvs ds' @ cur' = table_kvs ds @ cur @ kvs))"
proof (induction kvs arbitrary: r ds cur)
  case (Cons kv kvs)
  obtain k v where kv: "kv = (k, v)" by force
  have sorted: "keys_sorted (table_kvs ds @ cur @ [(k, v)])"
    using Cons.prems(2) keys_sorted_append [of "table_kvs ds @ cur @ [(k, v)]" kvs] by (simp add: kv)
  have "2 * cost (table_kvs ds @ cur @ [(k, v)]) + 100 < 2 ^ 32" using Cons.prems(3) by (simp add: kv)
  from TableBuilder_Add_ok [OF Cons.prems(1) sorted this] obtain r1 where
    r1: "TableBuilder_Add ap sn k v r = Some r1" "tb_status r1 = OK \<longrightarrow>
      (\<exists>ds' cur'. tb_inv r1 ds' cur' \<and> table_kvs ds' @ cur' = table_kvs ds @ cur @ [(k, v)])" by blast
  show ?case
  proof (cases "tb_status r1 = OK")
    case False
    then show ?thesis using r1(1) TableBuilder_Add_all_failed by (simp add: kv)
  next
    case True
    with r1(2) obtain ds1 cur1 where i1: "tb_inv r1 ds1 cur1"
      and eq: "table_kvs ds1 @ cur1 = table_kvs ds @ cur @ [(k, v)]" by blast
    have "table_kvs ds1 @ cur1 @ kvs = (table_kvs ds1 @ cur1) @ kvs" by simp
    also have "\<dots> = table_kvs ds @ cur @ kv # kvs" unfolding eq kv by simp
    finally have all: "table_kvs ds1 @ cur1 @ kvs = table_kvs ds @ cur @ kv # kvs" .
    show ?thesis using Cons.IH [OF i1] Cons.prems(2,3) r1(1) unfolding all by (simp add: kv)
  qed
qed auto

text \<open>The end of \<^verbatim>\<open>Finish\<close>, from the writing of the metaindex block on, in steps.\<close>

definition finish_index :: "'f TableBuilder \<Rightarrow> ('f TableBuilder \<times> BlockHandle) option" where
  "finish_index r =
     (if tb_status r = OK then
        (case (if tb_pending_index_entry r
               then add_index_entry (FindShortSuccessor (tb_last_key r)) r else Some r)
         of None \<Rightarrow> None
         | Some r \<Rightarrow>
             map_option (\<lambda>(r, block, h). (r\<lparr>tb_index_block := block\<rparr>, h)) (WriteBlock ap sn (tb_index_block r) r))
      else Some (r, BlockHandle_new))"

definition finish_footer :: "BlockHandle \<Rightarrow> BlockHandle \<Rightarrow> 'f TableBuilder \<Rightarrow> 'f TableBuilder option" where
  "finish_footer mh ih r =
     (if tb_status r = OK then
        let footer_encoding = Footer_EncodeTo \<lparr>metaindex_handle = mh, index_handle = ih\<rparr> [];
            (s, f) = ap (tb_file r) footer_encoding;
            r = r\<lparr>tb_status := s, tb_file := f\<rparr>
        in if s = OK then Some (r\<lparr>tb_offset := tb_offset r + word_of_nat (length footer_encoding)\<rparr>) else Some r
      else Some r)"

definition finish_meta :: "'f TableBuilder \<Rightarrow> ('f TableBuilder \<times> BlockHandle) option" where
  "finish_meta r =
     (if tb_status r = OK
      then map_option (\<lambda>(r, _, h). (r, h)) (WriteBlock ap sn (BlockBuilder_new (tb_options r)) r)
      else Some (r, BlockHandle_new))"

lemma TableBuilder_Finish_eq:
  "TableBuilder_Finish ap sn r =
     Option.bind (Flush ap sn r) (\<lambda>r. Option.bind (finish_meta (r\<lparr>tb_closed := True\<rparr>))
       (\<lambda>(r, mh). Option.bind (finish_index r) (\<lambda>(r, ih). finish_footer mh ih r)))"
  unfolding TableBuilder_Finish_def finish_meta_def finish_index_def finish_footer_def Let_def
  by (auto split: option.splits Option.bind_splits prod.splits)

lemma finish_footer_ok:
  assumes off: "tb_status r = OK \<Longrightarrow> tb_offset r = word_of_nat (length (contents (tb_file r)))"
  shows "\<exists>r'. finish_footer mh ih r = Some r' \<and> (tb_status r' = OK \<longrightarrow> tb_status r = OK \<and>
    contents (tb_file r') = contents (tb_file r) @ Footer_EncodeTo \<lparr>metaindex_handle = mh, index_handle = ih\<rparr> [] \<and>
    tb_offset r' = word_of_nat (length (contents (tb_file r'))))"
proof -
  obtain s f where a: "ap (tb_file r) (Footer_EncodeTo \<lparr>metaindex_handle = mh, index_handle = ih\<rparr> []) = (s, f)"
    by force
  then show ?thesis
    using append [of "tb_file r" _ f] off by (cases "tb_status r = OK"; cases "s = OK") (auto simp: finish_footer_def Let_def)
qed

text \<open>The metaindex block is an empty block: it only makes the file longer.\<close>

lemma finish_meta_ok:
  assumes st: "tb_status r = OK" and off: "tb_offset r = word_of_nat (length (contents (tb_file r)))"
    and F: "length (contents (tb_file r)) < 2 ^ 62"
  shows "\<exists>f' o' s' h. finish_meta r =
      Some (r\<lparr>tb_file := f', tb_offset := o', tb_status := s', tb_compressed_output := []\<rparr>, h) \<and>
    (s' = OK \<longrightarrow> (\<exists>G. contents f' = contents (tb_file r) @ G \<and> length G \<le> 20 \<and> o' = word_of_nat (length (contents f'))))"
proof -
  have "length (contents (tb_file r)) < 2 ^ 63" "cost (map snd []) + 8 < 2 ^ 32" using F by simp_all
  from WriteBlock_ok [OF builds_new this(2) off this(1), of "tb_options r"] obtain f' o' s' b' h where
    w: "WriteBlock ap sn (BlockBuilder_new (tb_options r)) r =
      Some (r\<lparr>tb_file := f', tb_offset := o', tb_status := s', tb_compressed_output := []\<rparr>, b', h)"
    and ok: "s' = OK \<longrightarrow> (\<exists>G. contents f' = contents (tb_file r) @ G \<and> o' = word_of_nat (length (contents f')) \<and>
       length G \<le> length (block_bytes [] [0]) + 5 \<and> G \<noteq> [] \<and>
       unat (bh_offset h) = length (contents (tb_file r)) \<and>
       block_stored sn (contents f') h (block_bytes [] [0]))" by blast
  have "length (block_bytes [] [0]) = 8" by (simp add: length_block_bytes enc_entries_def)
  then have "s' = OK \<longrightarrow> (\<exists>G. contents f' = contents (tb_file r) @ G \<and> length G \<le> 20 \<and> o' = word_of_nat (length (contents f')))"
    using ok by auto
  moreover have "finish_meta r = Some (r\<lparr>tb_file := f', tb_offset := o', tb_status := s', tb_compressed_output := []\<rparr>, h)"
    using st w by (simp add: finish_meta_def)
  ultimately show ?thesis by blast
qed

lemma tb_inv_meta:
  assumes "tb_inv r ds []" "\<not> tb_closed r" "contents f' = contents (tb_file r) @ G" "length G \<le> 20"
    "o' = word_of_nat (length (contents f'))"
  shows "tb_inv (r\<lparr>tb_closed := True, tb_file := f', tb_offset := o', tb_status := OK, tb_compressed_output := []\<rparr>) ds []"
proof -
  have "blocks_ok sn (contents (tb_file r) @ G) ds"
    using assms(1) stored_kvs_append by (fastforce simp: tb_inv_def blocks_ok_def)
  then show ?thesis using assms by (auto simp: tb_inv_def)
qed

lemma finish_index_ok:
  assumes inv: "tb_inv r ds []" and small: "2 * cost (table_kvs ds) + 100 < 2 ^ 32"
  shows "\<exists>r' ih. finish_index r = Some (r', ih) \<and> (tb_status r' = OK \<longrightarrow>
    tb_offset r' = word_of_nat (length (contents (tb_file r'))) \<and> length (contents (tb_file r')) < 2 ^ 62 \<and>
    (\<exists>ds'. table_kvs ds' = table_kvs ds \<and> blocks_ok sn (contents (tb_file r')) ds' \<and> separated ds' [] \<and>
       stored_kvs sn (contents (tb_file r')) ih (index_kvs ds')))"
proof -
  have st: "tb_status r = OK" using inv by (simp add: tb_inv_def)
  have "\<exists>ds' r1. (if tb_pending_index_entry r
               then add_index_entry (FindShortSuccessor (tb_last_key r)) r else Some r) = Some r1 \<and>
      table_kvs ds' = table_kvs ds \<and> blocks_ok sn (contents (tb_file r)) ds' \<and> separated ds' [] \<and>
      tb_file r1 = tb_file r \<and> tb_offset r1 = tb_offset r \<and>
      (\<exists>es rs. builds (tb_index_block r1) es rs \<and> map snd es = index_kvs ds')"
  proof (cases "tb_pending_index_entry r")
    case False
    moreover from inv have "blocks_ok sn (contents (tb_file r)) ds" "separated ds []"
      "\<exists>es rs. builds (tb_index_block r) es rs \<and> map snd es = index_kvs ds"
      using False by (simp_all only: tb_inv_def if_False)
    ultimately show ?thesis by (intro exI [of _ ds] exI [of _ r]) simp
  next
    case True
    let ?sep = "FindShortSuccessor (tb_last_key r)"
    have "tb_last_key r \<le> ?sep" "length ?sep \<le> length (tb_last_key r)"
      using FindShortSuccessor_spec by blast+
    from add_index_entry_ok [OF inv True this small] obtain b' ds0 h kvs where
      *: "ds = ds0 @ [(tb_last_key r, h, kvs)]" "add_index_entry ?sep r =
        Some (r\<lparr>tb_last_key := ?sep, tb_index_block := b', tb_pending_index_entry := False\<rparr>)"
      "blocks_ok sn (contents (tb_file r)) (ds0 @ [(?sep, h, kvs)])" "separated (ds0 @ [(?sep, h, kvs)]) []"
      "\<exists>es rs. builds b' es rs \<and> map snd es = index_kvs (ds0 @ [(?sep, h, kvs)])" by blast
    then show ?thesis using True
      by (intro exI [of _ "ds0 @ [(?sep, h, kvs)]"]
           exI [of _ "r\<lparr>tb_last_key := ?sep, tb_index_block := b', tb_pending_index_entry := False\<rparr>"]) simp
  qed
  then obtain ds' r1 es rs where r1: "(if tb_pending_index_entry r
               then add_index_entry (FindShortSuccessor (tb_last_key r)) r else Some r) = Some r1"
    and ds': "table_kvs ds' = table_kvs ds" "blocks_ok sn (contents (tb_file r)) ds'" "separated ds' []"
    and f1: "tb_file r1 = tb_file r" "tb_offset r1 = tb_offset r"
    and es: "builds (tb_index_block r1) es rs" "map snd es = index_kvs ds'" by blast
  have ci: "cost (index_kvs ds') \<le> 2 * cost (table_kvs ds')"
    by (rule cost_index) (use ds'(2) in \<open>auto simp: blocks_ok_def\<close>)
  then have sm: "cost (map snd es) + 8 < 2 ^ 32" using small ds'(1) es(2) by simp
  have F: "length (contents (tb_file r)) \<le> cost (table_kvs ds) + 20"
    using inv by (simp add: tb_inv_def split: if_splits)
  then have F63: "length (contents (tb_file r1)) < 2 ^ 63" using small f1 by simp
  have off: "tb_offset r1 = word_of_nat (length (contents (tb_file r1)))"
    using inv f1 by (simp add: tb_inv_def)
  from WriteBlock_ok [OF es(1) sm off F63] obtain f' o' s' b' h where
    w: "WriteBlock ap sn (tb_index_block r1) r1 =
      Some (r1\<lparr>tb_file := f', tb_offset := o', tb_status := s', tb_compressed_output := []\<rparr>, b', h)"
    and ok: "s' = OK \<Longrightarrow> \<exists>G. contents f' = contents (tb_file r1) @ G \<and> o' = word_of_nat (length (contents f')) \<and>
       length G \<le> length (block_bytes es rs) + 5 \<and> block_stored sn (contents f') h (block_bytes es rs)" by blast
  have lay: "layout_ok es rs" using es(1) by (simp add: builds_def)
  have len: "length (block_bytes es rs) \<le> cost (index_kvs ds') + 8" using length_block_bytes_le [OF lay] es(2) by simp
  have "o' = word_of_nat (length (contents f')) \<and> length (contents f') < 2 ^ 62 \<and>
      blocks_ok sn (contents f') ds' \<and> stored_kvs sn (contents f') h (index_kvs ds')" if "s' = OK"
  proof -
    from ok [OF that] obtain G where G: "contents f' = contents (tb_file r) @ G" "o' = word_of_nat (length (contents f'))"
      "length G \<le> length (block_bytes es rs) + 5" "block_stored sn (contents f') h (block_bytes es rs)"
      unfolding f1 by blast
    have "length (contents f') < 2 ^ 62" using G(1,3) len ci F small ds'(1) by simp
    moreover have "blocks_ok sn (contents f') ds'"
      unfolding G(1) using ds'(2) stored_kvs_append by (fastforce simp: blocks_ok_def)
    moreover have "stored_kvs sn (contents f') h (index_kvs ds')"
      unfolding stored_kvs_def using lay es(2) G(4) len ci small ds'(1)
      by (intro exI [of _ es] exI [of _ rs]) simp
    ultimately show ?thesis using G(2) by blast
  qed
  then show ?thesis using st r1 w ds'(1,3)
    by (intro exI [of _ "r1\<lparr>tb_file := f', tb_offset := o', tb_status := s', tb_compressed_output := [], tb_index_block := b'\<rparr>"]
         exI [of _ h]) (auto simp: finish_index_def)
qed

text \<open>The flag of a closed builder, and the status when every append succeeds.\<close>

lemma WriteRawBlock_frame:
  "WriteRawBlock ap d t r = (r', h) \<Longrightarrow> tb_closed r' = tb_closed r \<and>
     ((\<forall>f d. fst (ap f d) = OK) \<longrightarrow> tb_status r' = OK)"
  by (auto simp: WriteRawBlock_def Let_def split: prod.splits if_splits) (metis fst_conv)+

lemma WriteBlock_frame:
  "WriteBlock ap sn b r = Some (r', b', h) \<Longrightarrow> tb_closed r' = tb_closed r \<and>
     ((\<forall>f d. fst (ap f d) = OK) \<longrightarrow> tb_status r' = OK)"
  by (auto simp: WriteBlock_def Let_def split: prod.splits option.splits dest: WriteRawBlock_frame)

definition frame :: "'f TableBuilder \<Rightarrow> 'f TableBuilder option \<Rightarrow> bool" where
  "frame r x \<longleftrightarrow> (\<forall>r'. x = Some r' \<longrightarrow> tb_closed r' = tb_closed r \<and>
     ((\<forall>f d. fst (ap f d) = OK) \<and> tb_status r = OK \<longrightarrow> tb_status r' = OK))"

lemma frame_bind:
  assumes "frame r x" "\<And>r'. frame r' (g r')" shows "frame r (Option.bind x g)"
proof (cases x)
  case (Some r1)
  have "frame r1 (g r1)" by (rule assms(2))
  then show ?thesis using assms(1) unfolding Some frame_def by (simp del: all_simps)
qed (simp add: frame_def)

lemma frame_Flush: "frame r (Flush ap sn r)"
  by (auto simp: frame_def Flush_def Let_def split: option.splits if_splits prod.splits dest!: WriteBlock_frame)

lemma frame_add_index: "frame r (add_index key r)"
  by (auto simp: frame_def add_index_def add_index_entry_def Let_def split: option.splits if_splits)

lemma frame_add_data: "frame r (add_data key v r)"
  using frame_Flush by (fastforce simp: frame_def add_data_def Let_def split: option.splits if_splits)

lemma frame_Some: "frame r (Some r)"
  by (simp add: frame_def)

lemma frame_Add: "frame r (TableBuilder_Add ap sn k v r)"
  unfolding TableBuilder_Add_eq
  by (auto intro!: frame_bind frame_Some frame_Flush frame_add_index frame_add_data)

lemma frame_Add_all: "frame r (TableBuilder_Add_all ap sn kvs r)"
  by (induction kvs arbitrary: r) (auto intro!: frame_bind frame_Some frame_Add)

lemma Finish_status:
  assumes "\<forall>f d. fst (ap f d) = OK" "tb_status r = OK" "TableBuilder_Finish ap sn r = Some r'"
  shows "tb_status r' = OK"
proof -
  from assms(3) obtain r1 where 1: "Flush ap sn r = Some r1"
    by (cases "Flush ap sn r") (auto simp: TableBuilder_Finish_eq)
  with assms(3) obtain r2 mh where 2: "finish_meta (r1\<lparr>tb_closed := True\<rparr>) = Some (r2, mh)"
    by (cases "finish_meta (r1\<lparr>tb_closed := True\<rparr>)") (auto simp: TableBuilder_Finish_eq)
  with assms(3) 1 obtain r3 ih where 3: "finish_index r2 = Some (r3, ih)"
    by (cases "finish_index r2") (auto simp: TableBuilder_Finish_eq)
  with assms(3) 1 2 have 4: "finish_footer mh ih r3 = Some r'" by (simp add: TableBuilder_Finish_eq)
  have "tb_status r1 = OK" using 1 frame_Flush [of r] assms(1,2) by (auto simp: frame_def)
  then have "tb_status r2 = OK" using 2 assms(1) by (auto simp: finish_meta_def dest!: WriteBlock_frame)
  then have "tb_status r3 = OK" using 3 assms(1) by (auto simp: finish_index_def split: option.splits dest!: WriteBlock_frame)
  then show ?thesis using 4 assms(1) by (auto simp: finish_footer_def Let_def split: prod.splits if_splits) (metis fst_conv)
qed

lemma Finish_failed: "tb_status r \<noteq> OK \<Longrightarrow> \<exists>r'. TableBuilder_Finish ap sn r = Some r' \<and> tb_status r' \<noteq> OK"
  by (simp add: TableBuilder_Finish_eq Flush_failed finish_meta_def finish_index_def finish_footer_def)

lemma Finish_flushed:
  assumes inv: "tb_inv r ds []" and cl: "\<not> tb_closed r" and small: "2 * cost (table_kvs ds) + 100 < 2 ^ 32"
    and fl: "Flush ap sn r0 = Some r"
  shows "\<exists>r'. TableBuilder_Finish ap sn r0 = Some r' \<and> (tb_status r' = OK \<longrightarrow>
    table_file sn (contents (tb_file r')) (table_kvs ds) \<and> FileSize r' = word_of_nat (length (contents (tb_file r'))))"
proof -
  let ?r = "r\<lparr>tb_closed := True\<rparr>"
  have "tb_status ?r = OK" "tb_offset ?r = word_of_nat (length (contents (tb_file ?r)))"
    "length (contents (tb_file ?r)) < 2 ^ 62"
    using inv small cl by (simp_all add: tb_inv_def)
  from finish_meta_ok [OF this] obtain f' o' s' mh where
    m: "finish_meta ?r = Some (r\<lparr>tb_closed := True, tb_file := f', tb_offset := o', tb_status := s', tb_compressed_output := []\<rparr>, mh)"
    and mok: "s' = OK \<longrightarrow> (\<exists>G. contents f' = contents (tb_file r) @ G \<and> length G \<le> 20 \<and> o' = word_of_nat (length (contents f')))"
    by auto
  let ?r2 = "r\<lparr>tb_closed := True, tb_file := f', tb_offset := o', tb_status := s', tb_compressed_output := []\<rparr>"
  show ?thesis
  proof (cases "s' = OK")
    case False
    then show ?thesis using fl m
      by (simp add: TableBuilder_Finish_eq finish_index_def finish_footer_def)
  next
    case True
    with mok obtain G where "contents f' = contents (tb_file r) @ G" "length G \<le> 20"
      "o' = word_of_nat (length (contents f'))" by blast
    from tb_inv_meta [OF inv cl this] have "tb_inv ?r2 ds []" using True by simp
    from finish_index_ok [OF this small] obtain r3 ih where
      i: "finish_index ?r2 = Some (r3, ih)" and iok: "tb_status r3 = OK \<longrightarrow>
      tb_offset r3 = word_of_nat (length (contents (tb_file r3))) \<and> length (contents (tb_file r3)) < 2 ^ 62 \<and>
      (\<exists>ds'. table_kvs ds' = table_kvs ds \<and> blocks_ok sn (contents (tb_file r3)) ds' \<and> separated ds' [] \<and>
       stored_kvs sn (contents (tb_file r3)) ih (index_kvs ds'))" by blast
    from finish_footer_ok [of r3 mh ih] iok obtain r' where
      r': "finish_footer mh ih r3 = Some r'" "tb_status r' = OK \<longrightarrow> tb_status r3 = OK \<and>
        contents (tb_file r') = contents (tb_file r3) @ Footer_EncodeTo \<lparr>metaindex_handle = mh, index_handle = ih\<rparr> [] \<and>
        tb_offset r' = word_of_nat (length (contents (tb_file r')))" by blast
    have "table_file sn (contents (tb_file r')) (table_kvs ds)" if "tb_status r' = OK"
    proof -
      from that r'(2) iok obtain ds' where ds': "table_kvs ds' = table_kvs ds"
        "blocks_ok sn (contents (tb_file r3)) ds'" "separated ds' []"
        "stored_kvs sn (contents (tb_file r3)) ih (index_kvs ds')"
        "length (contents (tb_file r3)) < 2 ^ 62" "contents (tb_file r') = contents (tb_file r3) @ Footer_EncodeTo \<lparr>metaindex_handle = mh, index_handle = ih\<rparr> []"
        by blast
      then have "length (contents (tb_file r')) < 2 ^ 63"
        by (simp add: length_Footer_EncodeTo kEncodedLength_def kMaxEncodedLength_def)
      moreover have "keys_sorted (table_kvs ds)" using inv by (simp add: tb_inv_def)
      ultimately show ?thesis unfolding table_file_def using ds'
        by (intro exI [of _ ds'] exI [of _ mh] exI [of _ ih] exI [of _ "contents (tb_file r3)"])
           (auto simp: blocks_ok_def)
    qed
    then show ?thesis using fl m i r' by (auto simp: TableBuilder_Finish_eq FileSize_def)
  qed
qed

lemma Finish_ok:
  assumes inv: "tb_inv r ds cur" and cl: "\<not> tb_closed r" and small: "2 * cost (table_kvs ds @ cur) + 100 < 2 ^ 32"
  shows "\<exists>r'. TableBuilder_Finish ap sn r = Some r' \<and> (tb_status r' = OK \<longrightarrow>
    table_file sn (contents (tb_file r')) (table_kvs ds @ cur) \<and>
    FileSize r' = word_of_nat (length (contents (tb_file r'))))"
proof (cases "cur = []")
  case True
  then show ?thesis using Finish_flushed [of r ds r] inv cl small Flush_empty [of r ds] by simp
next
  case False
  from Flush_full [OF inv False small] obtain r1 where r1: "Flush ap sn r = Some r1"
    "tb_status r1 = OK \<longrightarrow> (\<exists>h. tb_inv r1 (ds @ [(tb_last_key r, h, cur)]) [])" by blast
  have cl1: "\<not> tb_closed r1" using frame_Flush [of r] r1(1) cl by (simp add: frame_def)
  show ?thesis
  proof (cases "tb_status r1 = OK")
    case True
    with r1(2) obtain h where "tb_inv r1 (ds @ [(tb_last_key r, h, cur)]) []" by blast
    from Finish_flushed [OF this cl1 _ r1(1)] small show ?thesis by simp
  next
    case False
    then show ?thesis using r1(1)
      by (simp add: TableBuilder_Finish_eq finish_meta_def finish_index_def finish_footer_def)
  qed
qed

lemma build_table:
  assumes "contents f = []" "keys_sorted kvs" "2 * cost kvs + 100 < 2 ^ 32"
  shows "\<exists>r. Option.bind (TableBuilder_Add_all ap sn kvs (TableBuilder_new opt f)) (TableBuilder_Finish ap sn) = Some r \<and>
    ((\<forall>f d. fst (ap f d) = OK) \<longrightarrow> tb_status r = OK) \<and>
    (tb_status r = OK \<longrightarrow> table_file sn (contents (tb_file r)) kvs \<and>
       FileSize r = word_of_nat (length (contents (tb_file r))))"
proof -
  let ?r0 = "TableBuilder_new opt f"
  from TableBuilder_Add_all_ok [OF tb_inv_new [OF assms(1), of opt], of kvs] assms(2,3) obtain r1 where
    r1: "TableBuilder_Add_all ap sn kvs ?r0 = Some r1" "tb_status r1 = OK \<longrightarrow>
      (\<exists>ds' cur'. tb_inv r1 ds' cur' \<and> table_kvs ds' @ cur' = kvs)" by auto
  have fr: "\<not> tb_closed r1" "(\<forall>f d. fst (ap f d) = OK) \<longrightarrow> tb_status r1 = OK"
    using frame_Add_all [of ?r0 kvs] r1(1) by (simp_all add: frame_def TableBuilder_new_def)
  show ?thesis
  proof (cases "tb_status r1 = OK")
    case False
    then show ?thesis using Finish_failed [OF False] r1(1) fr(2) by auto
  next
    case True
    with r1(2) obtain ds cur where "tb_inv r1 ds cur" and kvs: "table_kvs ds @ cur = kvs" by blast
    from Finish_ok [OF this(1) fr(1)] assms(3) obtain r' where
      "TableBuilder_Finish ap sn r1 = Some r'" "tb_status r' = OK \<longrightarrow> table_file sn (contents (tb_file r')) kvs \<and>
        FileSize r' = word_of_nat (length (contents (tb_file r')))" unfolding kvs by blast
    then show ?thesis using r1(1) Finish_status [OF _ True] by auto
  qed
qed

end

text \<open>The contract holds of a file kept in memory, in a build without Snappy.\<close>

definition memory_append :: "bytes appender" where
  "memory_append f d = (OK, f @ d)"

interpretation memory_table: table_storage port_no_snappy memory_append "\<lambda>f. f"
  by unfold_locales (simp add: memory_append_def)

section \<open>Properties\<close>

text \<open>C8. The index keys separate: for two keys in order, \<^verbatim>\<open>FindShortestSeparator\<close> returns a key
  not below the first, below the second, and not longer than the first; \<^verbatim>\<open>FindShortSuccessor\<close>
  returns a key not below its argument and not longer.\<close>

theorem separators_separate:
  assumes "start < limit"
  shows "start \<le> FindShortestSeparator start limit \<and> FindShortestSeparator start limit < limit \<and>
    length (FindShortestSeparator start limit) \<le> length start \<and>
    start \<le> FindShortSuccessor start \<and> length (FindShortSuccessor start) \<le> length start"
  using FindShortestSeparator_spec [OF assms] FindShortSuccessor_spec [of start] by blast

theorem separators_separate_witness:
  "[116, 1, 9] \<le> FindShortestSeparator [116, 1, 9] [116, 5] \<and> FindShortestSeparator [116, 1, 9] [116, 5] < [116, 5] \<and>
   length (FindShortestSeparator [116, 1, 9] [116, 5]) \<le> 3"
  using separators_separate [of "[116, 1, 9]" "[116, 5]"] by simp

end
