(* ===== verification/Table_Reader.thy ===== *)
theory Table_Reader
  imports Table_Builder
begin

text \<open>
  \<^verbatim>\<open>core/lib/io/table.cc\<close> and \<^verbatim>\<open>two_level_iterator.cc\<close>: the reader of table files. The
  two-level iterator walks over the index block and, for the block an index entry points to, over the
  entries of the block; the block is read again only when the handle changes. The iterator meets the
  contract of \<open>kv_iterator\<close> on every table the builder wrote. As in the block reader,
  \<open>None\<close> is a run with no defined result.
\<close>

section \<open>Tables\<close>

record Table =
  t_options :: Options
  t_file :: file_reader
  t_snappy :: snappy
  t_metaindex_handle :: BlockHandle
  t_index_block :: Block

definition Footer_new :: Footer where
  "Footer_new = \<lparr>metaindex_handle = BlockHandle_new, index_handle = BlockHandle_new\<rparr>"

definition Table_Open ::
  "Options \<Rightarrow> file_reader \<Rightarrow> snappy \<Rightarrow> uint64 \<Rightarrow> (status \<times> Table option) option" where
  "Table_Open options rd sn sz =
     (if unat sz < kEncodedLength
      then Some (Error DATA_LOSS ''file is too short to be an sstable'', None)
      else
        let (s, footer_input) = rd (sz - word_of_nat kEncodedLength) kEncodedLength in
        if s \<noteq> OK then Some (s, None)
        else case Footer_DecodeFrom Footer_new footer_input of None \<Rightarrow> None
          | Some (s, footer, _) \<Rightarrow>
              (if s \<noteq> OK then Some (s, None)
               else
                 let (s, contents) = ReadBlock rd sn (index_handle footer) in
                 if s \<noteq> OK then Some (s, None)
                 else Some (OK, Some \<lparr>t_options = options, t_file = rd, t_snappy = sn,
                        t_metaindex_handle = metaindex_handle footer,
                        t_index_block = Block_new contents\<rparr>)))"

definition BlockReader :: "Table \<Rightarrow> bytes \<Rightarrow> Iterator" where
  "BlockReader table index_value =
     (let (s, handle, input) = BlockHandle_DecodeFrom BlockHandle_new index_value in
      if s \<noteq> OK then NewErrorIterator s
      else
        let (s, contents) = ReadBlock (t_file table) (t_snappy table) handle in
        if s \<noteq> OK then NewErrorIterator s
        else Block_NewIterator (Block_new contents))"

text \<open>The result is the status and what the callback \<^verbatim>\<open>saver\<close> is given, if it is called.\<close>

definition InternalGet :: "Table \<Rightarrow> bytes \<Rightarrow> (status \<times> (bytes \<times> bytes) option) option" where
  "InternalGet t k =
     (case Seek k (Block_NewIterator (t_index_block t)) of None \<Rightarrow> None
      | Some iiter \<Rightarrow>
          (if Valid iiter then
             (case value_of iiter of None \<Rightarrow> None
              | Some handle \<Rightarrow>
                  (case Seek k (BlockReader t handle) of None \<Rightarrow> None
                   | Some block_iter \<Rightarrow>
                       (let s = status_of block_iter;
                            s' = (if s = OK then status_of iiter else s)
                        in if Valid block_iter
                           then map_option (\<lambda>v. (s', Some (key_of block_iter, v))) (value_of block_iter)
                           else Some (s', None))))
           else Some (status_of iiter, None)))"

definition ApproximateOffsetOf :: "Table \<Rightarrow> bytes \<Rightarrow> uint64 option" where
  "ApproximateOffsetOf t key =
     (case Seek key (Block_NewIterator (t_index_block t)) of None \<Rightarrow> None
      | Some index_iter \<Rightarrow>
          (if Valid index_iter then
             (case value_of index_iter of None \<Rightarrow> None
              | Some input \<Rightarrow>
                  (let (s, handle, _) = BlockHandle_DecodeFrom BlockHandle_new input in
                   Some (if s = OK then bh_offset handle else bh_offset (t_metaindex_handle t))))
           else Some (bh_offset (t_metaindex_handle t))))"

section \<open>The two-level iterator\<close>

record TwoLevelIterator =
  tl_table :: Table
  tl_status :: status
  tl_index_iter :: Iterator
  tl_data_iter :: "Iterator option"
  tl_data_block_handle :: bytes

definition NewTwoLevelIterator :: "Iterator \<Rightarrow> Table \<Rightarrow> TwoLevelIterator" where
  "NewTwoLevelIterator index_iter table =
     \<lparr>tl_table = table, tl_status = OK, tl_index_iter = index_iter, tl_data_iter = None,
      tl_data_block_handle = []\<rparr>"

definition Table_NewIterator :: "Table \<Rightarrow> TwoLevelIterator" where
  "Table_NewIterator t = NewTwoLevelIterator (Block_NewIterator (t_index_block t)) t"

definition TwoLevel_Valid :: "TwoLevelIterator \<Rightarrow> bool" where
  "TwoLevel_Valid tli = (case tl_data_iter tli of None \<Rightarrow> False | Some it \<Rightarrow> Valid it)"

definition TwoLevel_key :: "TwoLevelIterator \<Rightarrow> bytes" where
  "TwoLevel_key tli = (case tl_data_iter tli of None \<Rightarrow> [] | Some it \<Rightarrow> key_of it)"

definition TwoLevel_value :: "TwoLevelIterator \<Rightarrow> bytes option" where
  "TwoLevel_value tli = (case tl_data_iter tli of None \<Rightarrow> None | Some it \<Rightarrow> value_of it)"

definition TwoLevel_status :: "TwoLevelIterator \<Rightarrow> status" where
  "TwoLevel_status tli =
     (if status_of (tl_index_iter tli) \<noteq> OK then status_of (tl_index_iter tli)
      else case tl_data_iter tli of
          Some it \<Rightarrow> (if status_of it \<noteq> OK then status_of it else tl_status tli)
        | None \<Rightarrow> tl_status tli)"

definition SaveError :: "status \<Rightarrow> TwoLevelIterator \<Rightarrow> TwoLevelIterator" where
  "SaveError s tli = (if tl_status tli = OK \<and> s \<noteq> OK then tli\<lparr>tl_status := s\<rparr> else tli)"

definition SetDataIterator :: "Iterator option \<Rightarrow> TwoLevelIterator \<Rightarrow> TwoLevelIterator" where
  "SetDataIterator data_iter tli =
     (case tl_data_iter tli of None \<Rightarrow> tli | Some it \<Rightarrow> SaveError (status_of it) tli)\<lparr>tl_data_iter := data_iter\<rparr>"

definition InitDataBlock :: "TwoLevelIterator \<Rightarrow> TwoLevelIterator option" where
  "InitDataBlock tli =
     (if \<not> Valid (tl_index_iter tli) then Some (SetDataIterator None tli)
      else case value_of (tl_index_iter tli) of None \<Rightarrow> None
        | Some handle \<Rightarrow>
            (if tl_data_iter tli \<noteq> None \<and> handle = tl_data_block_handle tli then Some tli
             else Some (SetDataIterator (Some (BlockReader (tl_table tli) handle))
                         (tli\<lparr>tl_data_block_handle := handle\<rparr>))))"

text \<open>An operation of the data iterator, if there is one.\<close>

definition on_data :: "(Iterator \<Rightarrow> Iterator option) \<Rightarrow> TwoLevelIterator \<Rightarrow> TwoLevelIterator option" where
  "on_data f tli =
     (case tl_data_iter tli of None \<Rightarrow> Some tli
      | Some it \<Rightarrow> map_option (\<lambda>it'. tli\<lparr>tl_data_iter := Some it'\<rparr>) (f it))"

partial_function (option) SkipEmptyDataBlocksForward :: "TwoLevelIterator \<Rightarrow> TwoLevelIterator option" where
  "SkipEmptyDataBlocksForward tli =
     (if tl_data_iter tli = None \<or> \<not> Valid (the (tl_data_iter tli)) then
        if \<not> Valid (tl_index_iter tli) then Some (SetDataIterator None tli)
        else case Next (tl_index_iter tli) of None \<Rightarrow> None
          | Some index_iter \<Rightarrow>
              (case InitDataBlock (tli\<lparr>tl_index_iter := index_iter\<rparr>) of None \<Rightarrow> None
               | Some tli \<Rightarrow> (case on_data SeekToFirst tli of None \<Rightarrow> None
                 | Some tli \<Rightarrow> SkipEmptyDataBlocksForward tli))
      else Some tli)"

definition TwoLevel_Seek :: "bytes \<Rightarrow> TwoLevelIterator \<Rightarrow> TwoLevelIterator option" where
  "TwoLevel_Seek target tli =
     (case Seek target (tl_index_iter tli) of None \<Rightarrow> None
      | Some index_iter \<Rightarrow>
          (case InitDataBlock (tli\<lparr>tl_index_iter := index_iter\<rparr>) of None \<Rightarrow> None
           | Some tli \<Rightarrow> (case on_data (Seek target) tli of None \<Rightarrow> None
             | Some tli \<Rightarrow> SkipEmptyDataBlocksForward tli)))"

definition TwoLevel_SeekToFirst :: "TwoLevelIterator \<Rightarrow> TwoLevelIterator option" where
  "TwoLevel_SeekToFirst tli =
     (case SeekToFirst (tl_index_iter tli) of None \<Rightarrow> None
      | Some index_iter \<Rightarrow>
          (case InitDataBlock (tli\<lparr>tl_index_iter := index_iter\<rparr>) of None \<Rightarrow> None
           | Some tli \<Rightarrow> (case on_data SeekToFirst tli of None \<Rightarrow> None
             | Some tli \<Rightarrow> SkipEmptyDataBlocksForward tli)))"

definition TwoLevel_Next :: "TwoLevelIterator \<Rightarrow> TwoLevelIterator option" where
  "TwoLevel_Next tli =
     (case tl_data_iter tli of None \<Rightarrow> None
      | Some it \<Rightarrow> (case Next it of None \<Rightarrow> None
        | Some it' \<Rightarrow> SkipEmptyDataBlocksForward (tli\<lparr>tl_data_iter := Some it'\<rparr>)))"

section \<open>Reading the blocks of a table\<close>

definition readable :: "Table \<Rightarrow> BlockHandle \<Rightarrow> (bytes \<times> bytes) list \<Rightarrow> bool" where
  "readable t h kvs \<longleftrightarrow>
     (\<exists>es rs. layout_ok es rs \<and> length (block_bytes es rs) < 2 ^ 32 \<and> map snd es = kvs \<and>
        ReadBlock (t_file t) (t_snappy t) h = (OK, block_bytes es rs))"

definition table_ok :: "Table \<Rightarrow> data_block list \<Rightarrow> bool" where
  "table_ok t ds \<longleftrightarrow> distinct (map db_handle ds) \<and>
     (\<forall>d \<in> set ds. db_kvs d \<noteq> [] \<and> readable t (db_handle d) (db_kvs d)) \<and>
     separated ds [] \<and> keys_sorted (table_kvs ds) \<and>
     block_usable (Block_NewIterator (t_index_block t)) (index_kvs ds)"

abbreviation enc_handle :: "BlockHandle \<Rightarrow> bytes" where
  "enc_handle h \<equiv> BlockHandle_EncodeTo h []"

lemma BlockReader_usable:
  assumes "readable t h kvs" "keys_sorted kvs"
  shows "block_usable (BlockReader t (enc_handle h)) kvs"
proof -
  from assms(1) obtain es rs where *: "layout_ok es rs" "length (block_bytes es rs) < 2 ^ 32"
    "map snd es = kvs" "ReadBlock (t_file t) (t_snappy t) h = (OK, block_bytes es rs)"
    by (auto simp: readable_def)
  have "BlockHandle_DecodeFrom BlockHandle_new (enc_handle h) = (OK, h, [])"
    using BlockHandle_roundtrip [of BlockHandle_new h "[]"] by (simp add: BlockHandle_EncodeTo_eq)
  then have "BlockReader t (enc_handle h) = Block_NewIterator (Block_new (block_bytes es rs))"
    using *(4) by (simp add: BlockReader_def)
  then show ?thesis using Block_open [OF *(1,2)] *(3) assms(2) by (auto simp: block_usable_def)
qed

lemma keys_sorted_block:
  "keys_sorted (table_kvs ds) \<Longrightarrow> d \<in> set ds \<Longrightarrow> keys_sorted (db_kvs d)"
  by (induction ds) (auto simp: keys_sorted_append)

lemma block_usable_status: "block_usable it kvs \<Longrightarrow> status_of it = OK"
  by (auto simp: block_usable_def iter_on_def)

lemma table_ok_block:
  assumes "table_ok t ds" "d \<in> set ds"
  shows "block_usable (BlockReader t (enc_handle (db_handle d))) (db_kvs d)"
  using assms keys_sorted_block [of ds d] by (intro BlockReader_usable) (simp_all add: table_ok_def)

lemma length_index_kvs [simp]: "length (index_kvs ds) = length ds"
  by (simp add: index_kvs_def)

lemma index_kvs_nth: "i < length ds \<Longrightarrow> index_kvs ds ! i = (db_sep (ds ! i), enc_handle (db_handle (ds ! i)))"
  by (simp add: index_kvs_def)

lemma Open_table_file:
  assumes "table_file sn F kvs" "reads_file rd F"
  shows "\<exists>t ds. Table_Open opts rd sn (word_of_nat (length F)) = Some (OK, Some t) \<and>
    table_ok t ds \<and> table_kvs ds = kvs"
proof -
  from assms(1) obtain ds mh ih F0 where
    F: "F = F0 @ Footer_EncodeTo \<lparr>metaindex_handle = mh, index_handle = ih\<rparr> []"
    and ix: "stored_kvs sn F0 ih (index_kvs ds)" and dist: "distinct (map db_handle ds)"
    and bl: "\<forall>d \<in> set ds. db_kvs d \<noteq> [] \<and> stored_kvs sn F0 (db_handle d) (db_kvs d)"
    and sep: "separated ds []" and kvs: "table_kvs ds = kvs" "keys_sorted kvs" and small: "length F < 2 ^ 63"
    by (auto simp: table_file_def)
  let ?f = "\<lparr>metaindex_handle = mh, index_handle = ih\<rparr>"
  have un: "unat (word_of_nat (length F) :: uint64) = length F" using small by (simp add: unat_of_nat)
  have len: "length F = length F0 + kEncodedLength" using F by (simp add: length_Footer_EncodeTo)
  have "word_of_nat (length F) - word_of_nat kEncodedLength = (word_of_nat (length F0) :: uint64)" by (simp add: len)
  moreover have "unat (word_of_nat (length F0) :: uint64) = length F0" using small len by (simp add: unat_of_nat)
  ultimately have foot: "rd (word_of_nat (length F) - word_of_nat kEncodedLength) kEncodedLength = (OK, Footer_EncodeTo ?f [])"
    using assms(2) len by (simp add: reads_file_def F length_Footer_EncodeTo)
  have dec: "Footer_DecodeFrom Footer_new (Footer_EncodeTo ?f []) = Some (OK, ?f, [])"
    using Footer_roundtrip [of Footer_new ?f "[]"] by simp
  have rb: "stored_kvs sn F0 h l \<Longrightarrow> \<exists>es rs. layout_ok es rs \<and> length (block_bytes es rs) < 2 ^ 32 \<and> map snd es = l \<and>
      ReadBlock rd sn h = (OK, block_bytes es rs)" for h l
    using ReadBlock_stored [OF _ assms(2)] stored_kvs_append [of sn F0 h l] small F unfolding stored_kvs_def by fastforce
  from rb [OF ix] obtain es rs where es: "layout_ok es rs" "length (block_bytes es rs) < 2 ^ 32"
    "map snd es = index_kvs ds" "ReadBlock rd sn ih = (OK, block_bytes es rs)" by blast
  define t where "t = \<lparr>t_options = opts, t_file = rd, t_snappy = sn, t_metaindex_handle = mh,
     t_index_block = Block_new (block_bytes es rs)\<rparr>"
  have op: "Table_Open opts rd sn (word_of_nat (length F)) = Some (OK, Some t)"
    using foot dec es(4) len un by (simp add: Table_Open_def t_def)
  have "keys_sorted (index_kvs ds)" using index_sorted [OF sep] bl by blast
  then have "block_usable (Block_NewIterator (t_index_block t)) (index_kvs ds)"
    using Block_open [OF es(1,2)] es(3) by (auto simp: block_usable_def t_def)
  then have "table_ok t ds"
    using dist bl rb sep kvs by (auto simp: table_ok_def readable_def t_def)
  then show ?thesis using op kvs by blast
qed

section \<open>Positions of the two-level iterator\<close>

definition tl_base :: "TwoLevelIterator \<Rightarrow> data_block list \<Rightarrow> bool" where
  "tl_base tli ds \<longleftrightarrow> table_ok (tl_table tli) ds \<and> tl_status tli = OK \<and>
     block_usable (tl_index_iter tli) (index_kvs ds) \<and>
     (\<forall>di. tl_data_iter tli = Some di \<longrightarrow>
        (\<exists>d \<in> set ds. tl_data_block_handle tli = enc_handle (db_handle d) \<and> block_usable di (db_kvs d)))"

text \<open>The index iterator stands at block \<open>i\<close>, the data iterator at entry \<open>j\<close> of it (with
  \<open>j\<close> possibly the end of the block); past the last block there is no data iterator.\<close>

definition tl_in :: "TwoLevelIterator \<Rightarrow> data_block list \<Rightarrow> nat \<Rightarrow> nat \<Rightarrow> bool" where
  "tl_in tli ds i j \<longleftrightarrow> tl_base tli ds \<and> block_stands_at (tl_index_iter tli) (index_kvs ds) i \<and>
     (if i < length ds then
        (\<exists>di. tl_data_iter tli = Some di \<and> block_stands_at di (db_kvs (ds ! i)) j \<and>
           tl_data_block_handle tli = enc_handle (db_handle (ds ! i)))
      else tl_data_iter tli = None)"

definition block_pos :: "data_block list \<Rightarrow> nat \<Rightarrow> nat \<Rightarrow> nat" where
  "block_pos ds i j = length (table_kvs (take i ds)) + (if i < length ds then j else 0)"

definition tl_usable :: "TwoLevelIterator \<Rightarrow> (bytes \<times> bytes) list \<Rightarrow> bool" where
  "tl_usable tli kvs \<longleftrightarrow> (\<exists>ds. tl_base tli ds \<and> table_kvs ds = kvs)"

definition tl_stands_at :: "TwoLevelIterator \<Rightarrow> (bytes \<times> bytes) list \<Rightarrow> nat \<Rightarrow> bool" where
  "tl_stands_at tli kvs n \<longleftrightarrow>
     (\<exists>ds i j. tl_in tli ds i j \<and> (i < length ds \<longrightarrow> j < length (db_kvs (ds ! i))) \<and>
        table_kvs ds = kvs \<and> n = block_pos ds i j)"

lemma table_kvs_split:
  assumes "i < length ds"
  shows "table_kvs ds = table_kvs (take i ds) @ db_kvs (ds ! i) @ table_kvs (drop (Suc i) ds)"
  by (subst id_take_nth_drop [OF assms]) simp

lemma block_pos_Suc:
  "i < length ds \<Longrightarrow> block_pos ds i (length (db_kvs (ds ! i))) = block_pos ds (Suc i) 0"
  by (simp add: block_pos_def take_Suc_conv_app_nth)

lemma block_pos_Suc': "i < length ds \<Longrightarrow> block_pos ds i (Suc j) = Suc (block_pos ds i j)"
  by (simp add: block_pos_def)

lemma SetDataIterator_base:
  assumes "tl_base tli ds" shows "SetDataIterator x tli = tli\<lparr>tl_data_iter := x\<rparr>"
  using assms block_usable_status
  by (auto simp: tl_base_def SetDataIterator_def SaveError_def split: option.splits)

text \<open>\<^verbatim>\<open>InitDataBlock\<close> leaves a data iterator on the block the index points to.\<close>

lemma InitDataBlock_on:
  assumes base: "tl_base tli ds" and ix: "block_stands_at (tl_index_iter tli) (index_kvs ds) i"
  shows "\<exists>tli'. InitDataBlock tli = Some tli' \<and> tl_base tli' ds \<and> tl_index_iter tli' = tl_index_iter tli \<and>
    (if i < length ds then (\<exists>di. tl_data_iter tli' = Some di \<and> block_usable di (db_kvs (ds ! i))) \<and>
        tl_data_block_handle tli' = enc_handle (db_handle (ds ! i))
     else tl_data_iter tli' = None)"
proof (cases "i < length ds")
  case False
  then have "\<not> Valid (tl_index_iter tli)" using block_iter.valid_at [OF ix] by simp
  then have "InitDataBlock tli = Some (tli\<lparr>tl_data_iter := None\<rparr>)"
    using SetDataIterator_base [OF base] by (simp add: InitDataBlock_def)
  then show ?thesis using base False by (auto simp: tl_base_def)
next
  case True
  let ?d = "ds ! i"
  let ?h = "enc_handle (db_handle ?d)"
  have d: "?d \<in> set ds" using True by simp
  have v: "Valid (tl_index_iter tli)" "value_of (tl_index_iter tli) = Some ?h"
    using block_iter.valid_at [OF ix] block_iter.val_at [OF ix] True by (simp_all add: index_kvs_nth)
  show ?thesis
  proof (cases "tl_data_iter tli \<noteq> None \<and> ?h = tl_data_block_handle tli")
    case same: True
    then obtain di e where di: "tl_data_iter tli = Some di" "e \<in> set ds"
      "tl_data_block_handle tli = enc_handle (db_handle e)" "block_usable di (db_kvs e)"
      using base by (auto simp: tl_base_def)
    then have "db_handle e = db_handle ?d" using same block_handle.put_inject by metis
    then have "e = ?d" using base di(2) d by (auto simp: tl_base_def table_ok_def distinct_map inj_on_def)
    then show ?thesis using same v di base True by (intro exI [of _ tli]) (simp add: InitDataBlock_def)
  next
    case False
    let ?tl = "tli\<lparr>tl_data_block_handle := ?h, tl_data_iter := Some (BlockReader (tl_table tli) ?h)\<rparr>"
    have u: "block_usable (BlockReader (tl_table tli) ?h) (db_kvs ?d)"
      by (rule table_ok_block [OF _ d]) (use base in \<open>simp add: tl_base_def\<close>)
    have "SetDataIterator (Some (BlockReader (tl_table tli) ?h)) (tli\<lparr>tl_data_block_handle := ?h\<rparr>) = ?tl"
      using base block_usable_status
      by (auto simp: tl_base_def SetDataIterator_def SaveError_def split: option.splits)
    then have "InitDataBlock tli = Some ?tl" using False v by (auto simp: InitDataBlock_def)
    moreover have "tl_base ?tl ds" using base u d by (auto simp: tl_base_def)
    ultimately show ?thesis using True u by (intro exI [of _ ?tl]) simp
  qed
qed

lemma tl_base_index: "tl_base tli ds \<Longrightarrow> block_usable it (index_kvs ds) \<Longrightarrow> tl_base (tli\<lparr>tl_index_iter := it\<rparr>) ds"
  by (simp add: tl_base_def)

lemma tl_base_data:
  "tl_base tli ds \<Longrightarrow> d \<in> set ds \<Longrightarrow> tl_data_block_handle tli = enc_handle (db_handle d) \<Longrightarrow>
     block_usable it (db_kvs d) \<Longrightarrow> tl_base (tli\<lparr>tl_data_iter := Some it\<rparr>) ds"
  by (auto simp: tl_base_def)

text \<open>The common part of the three moves: after the index has moved to block \<open>i\<close>, the data
  iterator is created and moved to \<open>j\<close>.\<close>

lemma Init_then_move:
  assumes base: "tl_base tli ds" and ix: "block_stands_at it (index_kvs ds) i"
    and f: "\<And>di. i < length ds \<Longrightarrow> block_usable di (db_kvs (ds ! i)) \<Longrightarrow>
      \<exists>di'. f di = Some di' \<and> block_stands_at di' (db_kvs (ds ! i)) j"
  shows "\<exists>tl1 tl2. InitDataBlock (tli\<lparr>tl_index_iter := it\<rparr>) = Some tl1 \<and> on_data f tl1 = Some tl2 \<and> tl_in tl2 ds i j"
proof -
  have "tl_base (tli\<lparr>tl_index_iter := it\<rparr>) ds"
    using tl_base_index [OF base block_iter.stands_usable [OF ix]] .
  from InitDataBlock_on [OF this] ix obtain tl1 where
    tl1: "InitDataBlock (tli\<lparr>tl_index_iter := it\<rparr>) = Some tl1" "tl_base tl1 ds" "tl_index_iter tl1 = it"
    "if i < length ds then (\<exists>di. tl_data_iter tl1 = Some di \<and> block_usable di (db_kvs (ds ! i))) \<and>
        tl_data_block_handle tl1 = enc_handle (db_handle (ds ! i)) else tl_data_iter tl1 = None" by auto
  show ?thesis
  proof (cases "i < length ds")
    case False
    then show ?thesis using tl1 ix by (intro exI [of _ tl1]) (simp add: on_data_def tl_in_def)
  next
    case True
    with tl1(4) obtain di where di: "tl_data_iter tl1 = Some di" "block_usable di (db_kvs (ds ! i))"
      "tl_data_block_handle tl1 = enc_handle (db_handle (ds ! i))" by auto
    from f [OF True di(2)] obtain di' where di': "f di = Some di'" "block_stands_at di' (db_kvs (ds ! i)) j" by blast
    have "tl_base (tl1\<lparr>tl_data_iter := Some di'\<rparr>) ds"
      using tl_base_data [OF tl1(2) nth_mem [OF True] di(3) block_iter.stands_usable [OF di'(2)]] .
    then show ?thesis using tl1 di di' ix True
      by (intro exI [of _ tl1] exI [of _ "tl1\<lparr>tl_data_iter := Some di'\<rparr>"]) (simp add: on_data_def tl_in_def)
  qed
qed

text \<open>Skipping: at most one block is left, since no block is empty.\<close>

lemma Skip_valid:
  assumes "tl_in tli ds i j" "i < length ds \<longrightarrow> j < length (db_kvs (ds ! i))" "i \<le> length ds"
  shows "SkipEmptyDataBlocksForward tli = Some tli"
proof (cases "i < length ds")
  case True
  then obtain di where "tl_data_iter tli = Some di" "block_stands_at di (db_kvs (ds ! i)) j"
    using assms(1) by (auto simp: tl_in_def)
  then show ?thesis using block_iter.valid_at assms(2) True
    by (subst SkipEmptyDataBlocksForward.simps) simp
next
  case False
  then have "block_stands_at (tl_index_iter tli) (index_kvs ds) i" "tl_data_iter tli = None" "tl_base tli ds"
    using assms(1) by (auto simp: tl_in_def)
  moreover have "tli\<lparr>tl_data_iter := None\<rparr> = tli" using calculation(2) by simp
  ultimately show ?thesis using block_iter.valid_at [of "tl_index_iter tli"] False assms(3) SetDataIterator_base
    by (subst SkipEmptyDataBlocksForward.simps) simp
qed

lemma tl_in_le: "tl_in tli ds i j \<Longrightarrow> i \<le> length ds"
  using block_iter.stands_le by (fastforce simp: tl_in_def)

lemma table_ok_nonempty: "table_ok t ds \<Longrightarrow> i < length ds \<Longrightarrow> db_kvs (ds ! i) \<noteq> []"
  by (auto simp: table_ok_def)

lemma Skip_on:
  assumes inn: "tl_in tli ds i j"
  shows "\<exists>tli'. SkipEmptyDataBlocksForward tli = Some tli' \<and> tl_stands_at tli' (table_kvs ds) (block_pos ds i j)"
proof (cases "i < length ds \<longrightarrow> j < length (db_kvs (ds ! i))")
  case True
  have "tl_stands_at tli (table_kvs ds) (block_pos ds i j)"
    unfolding tl_stands_at_def using inn True by blast
  then show ?thesis using Skip_valid [OF inn True tl_in_le [OF inn]] by blast
next
  case False
  then have i: "i < length ds" and j: "length (db_kvs (ds ! i)) \<le> j" by simp_all
  from inn i obtain di where di: "tl_data_iter tli = Some di" "block_stands_at di (db_kvs (ds ! i)) j"
    and ix: "block_stands_at (tl_index_iter tli) (index_kvs ds) i" and base: "tl_base tli ds"
    by (auto simp: tl_in_def)
  have nv: "\<not> Valid di" and jl: "j = length (db_kvs (ds ! i))"
    using block_iter.valid_at [OF di(2)] block_iter.stands_le [OF di(2)] j by simp_all
  have iv: "Valid (tl_index_iter tli)" using block_iter.valid_at [OF ix] i by simp
  from block_iter.nxt_at [OF ix] i obtain it where
    it: "Next (tl_index_iter tli) = Some it" "block_stands_at it (index_kvs ds) (Suc i)" by auto
  from Init_then_move [OF base it(2), of SeekToFirst 0] block_iter.seek_first_at obtain tl1 tl2 where
    tl: "InitDataBlock (tli\<lparr>tl_index_iter := it\<rparr>) = Some tl1" "on_data SeekToFirst tl1 = Some tl2" "tl_in tl2 ds (Suc i) 0"
    by blast
  have "table_ok (tl_table tl2) ds" using tl(3) by (simp add: tl_in_def tl_base_def)
  then have ok: "Suc i < length ds \<longrightarrow> 0 < length (db_kvs (ds ! Suc i))" using table_ok_nonempty by blast
  have "SkipEmptyDataBlocksForward tli = SkipEmptyDataBlocksForward tl2"
    using di nv iv it tl by (subst SkipEmptyDataBlocksForward.simps) simp
  also have "\<dots> = Some tl2" by (rule Skip_valid [OF tl(3) ok tl_in_le [OF tl(3)]])
  finally show ?thesis
    using tl(3) ok block_pos_Suc [OF i] unfolding tl_stands_at_def jl by metis
qed

lemma seek_pos_Nil [simp]: "seek_pos [] t = 0"
  by (simp add: seek_pos_def)

lemma seek_pos_append:
  "seek_pos (xs @ ys) t = (if \<forall>k \<in> fst ` set xs. k < t then length xs + seek_pos ys t else seek_pos xs t)"
  by (induction xs) (auto simp: seek_pos_def)

lemma seek_pos_0: "\<forall>k \<in> fst ` set xs. \<not> k < t \<Longrightarrow> seek_pos xs t = 0"
  by (cases xs) (auto simp: seek_pos_def)

lemma separated_nth:
  "separated ds cur \<Longrightarrow> i < length ds \<Longrightarrow>
     (\<forall>k \<in> fst ` set (db_kvs (ds ! i)). k \<le> db_sep (ds ! i)) \<and>
     (\<forall>k \<in> fst ` set (table_kvs (drop (Suc i) ds) @ cur). db_sep (ds ! i) < k)"
proof (induction ds arbitrary: i)
  case (Cons d ds)
  show ?case
  proof (cases i)
    case 0
    then show ?thesis using Cons.prems(1) by simp
  next
    case (Suc j)
    have "separated ds cur" "j < length ds" using Cons.prems Suc by simp_all
    from Cons.IH [OF this] show ?thesis by (simp add: Suc)
  qed
qed simp

text \<open>The block the index points to is the one that decides the search.\<close>

lemma seek_pos_table:
  assumes sep: "separated ds []" and i: "i = seek_pos (index_kvs ds) t"
  shows "seek_pos (table_kvs ds) t = block_pos ds i (seek_pos (db_kvs (ds ! i)) t)"
proof -
  have le: "i \<le> length ds" using seek_pos_le [of "index_kvs ds" t] i by simp
  have "k < t" if "k \<in> fst ` set (table_kvs (take i ds))" for k
  proof -
    from that obtain d where d: "d \<in> set (take i ds)" "k \<in> fst ` set (db_kvs d)" by (auto simp: table_kvs_def)
    then obtain m where m: "m < i" "d = ds ! m" using le by (auto simp: in_set_conv_nth)
    have "k \<le> db_sep (ds ! m)" using separated_nth [OF sep, of m] m le d(2) by auto
    moreover have "db_sep (ds ! m) < t"
      using seek_pos_below [of m "index_kvs ds" t] m(1) i le by (simp add: index_kvs_nth)
    ultimately show "k < t" by (rule order.strict_trans1)
  qed
  then have before: "\<forall>k \<in> fst ` set (table_kvs (take i ds)). k < t" by blast
  show ?thesis
  proof (cases "i < length ds")
    case False
    then have "take i ds = ds" using le by simp
    then show ?thesis using before seek_pos_append [of "table_kvs ds" "[]" t] False
      by (simp add: block_pos_def seek_pos_def)
  next
    case True
    let ?x = "db_kvs (ds ! i)" and ?r = "table_kvs (drop (Suc i) ds)"
    have "\<not> db_sep (ds ! i) < t"
      using seek_pos_at [of "index_kvs ds" t] True i by (simp add: index_kvs_nth)
    then have "\<forall>k \<in> fst ` set ?r. \<not> k < t" using separated_nth [OF sep True] by (force dest: less_trans)
    then have r0: "seek_pos ?r t = 0" by (rule seek_pos_0)
    have "seek_pos (?x @ ?r) t = seek_pos ?x t"
    proof (cases "\<forall>k \<in> fst ` set ?x. k < t")
      case all: True
      then show ?thesis using seek_pos_append [of ?x "[]" t] seek_pos_append [of ?x ?r t] r0 by simp
    next
      case False
      then show ?thesis using seek_pos_append [of ?x ?r t] by auto
    qed
    moreover have "seek_pos (table_kvs ds) t = length (table_kvs (take i ds)) + seek_pos (?x @ ?r) t"
      using seek_pos_append [of "table_kvs (take i ds)" "?x @ ?r" t] before table_kvs_split [OF True] by simp
    ultimately show ?thesis using True by (simp add: block_pos_def)
  qed
qed

section \<open>The two-level iterator meets the contract\<close>

lemma TwoLevel_Seek_on:
  assumes base: "tl_base tli ds"
  shows "\<exists>tli'. TwoLevel_Seek t tli = Some tli' \<and> tl_stands_at tli' (table_kvs ds) (seek_pos (table_kvs ds) t)"
proof -
  have u: "block_usable (tl_index_iter tli) (index_kvs ds)" and sep: "separated ds []"
    using base by (simp_all add: tl_base_def table_ok_def)
  let ?i = "seek_pos (index_kvs ds) t"
  from block_iter.seek_at [OF u] obtain it where
    it: "Seek t (tl_index_iter tli) = Some it" "block_stands_at it (index_kvs ds) ?i" by blast
  from Init_then_move [OF base it(2), of "Seek t"] block_iter.seek_at obtain tl1 tl2 where
    tl: "InitDataBlock (tli\<lparr>tl_index_iter := it\<rparr>) = Some tl1" "on_data (Seek t) tl1 = Some tl2"
      "tl_in tl2 ds ?i (seek_pos (db_kvs (ds ! ?i)) t)" by blast
  from Skip_on [OF tl(3)] show ?thesis
    using it(1) tl(1,2) seek_pos_table [OF sep refl, of t] by (simp add: TwoLevel_Seek_def)
qed

lemma TwoLevel_SeekToFirst_on:
  assumes base: "tl_base tli ds"
  shows "\<exists>tli'. TwoLevel_SeekToFirst tli = Some tli' \<and> tl_stands_at tli' (table_kvs ds) 0"
proof -
  have u: "block_usable (tl_index_iter tli) (index_kvs ds)" using base by (simp add: tl_base_def)
  from block_iter.seek_first_at [OF u] obtain it where
    it: "SeekToFirst (tl_index_iter tli) = Some it" "block_stands_at it (index_kvs ds) 0" by blast
  from Init_then_move [OF base it(2), of SeekToFirst 0] block_iter.seek_first_at obtain tl1 tl2 where
    tl: "InitDataBlock (tli\<lparr>tl_index_iter := it\<rparr>) = Some tl1" "on_data SeekToFirst tl1 = Some tl2" "tl_in tl2 ds 0 0"
    by blast
  have "block_pos ds 0 0 = 0" by (simp add: block_pos_def)
  then show ?thesis using it(1) tl(1,2) Skip_on [OF tl(3)] by (simp add: TwoLevel_SeekToFirst_def)
qed

text \<open>Where the iterator stands, seen from the list of all entries.\<close>

lemma tl_stands_atE:
  assumes "tl_stands_at tli kvs n" "n < length kvs"
  obtains ds i j di where "tl_in tli ds i j" "table_kvs ds = kvs" "i < length ds" "j < length (db_kvs (ds ! i))"
    "n = block_pos ds i j" "tl_data_iter tli = Some di" "block_stands_at di (db_kvs (ds ! i)) j"
    "kvs ! n = db_kvs (ds ! i) ! j"
proof -
  from assms(1) obtain ds i j where *: "tl_in tli ds i j" "i < length ds \<longrightarrow> j < length (db_kvs (ds ! i))"
    "table_kvs ds = kvs" "n = block_pos ds i j" by (auto simp: tl_stands_at_def)
  have i: "i < length ds"
  proof (rule ccontr)
    assume "\<not> i < length ds"
    then have "n = length kvs" using * by (simp add: block_pos_def)
    then show False using assms(2) by simp
  qed
  then obtain di where "tl_data_iter tli = Some di" "block_stands_at di (db_kvs (ds ! i)) j"
    using *(1) by (auto simp: tl_in_def)
  moreover have "kvs ! n = db_kvs (ds ! i) ! j"
    using table_kvs_split [OF i] *(2-4) i by (simp add: block_pos_def nth_append)
  ultimately show ?thesis using * i that by blast
qed

lemma tl_stands_valid:
  assumes "tl_stands_at tli kvs n"
  shows "n \<le> length kvs \<and> (TwoLevel_Valid tli \<longleftrightarrow> n < length kvs)"
proof -
  from assms obtain ds i j where *: "tl_in tli ds i j" "i < length ds \<longrightarrow> j < length (db_kvs (ds ! i))"
    "table_kvs ds = kvs" "n = block_pos ds i j" by (auto simp: tl_stands_at_def)
  show ?thesis
  proof (cases "i < length ds")
    case True
    then obtain di where di: "tl_data_iter tli = Some di" "block_stands_at di (db_kvs (ds ! i)) j"
      using *(1) by (auto simp: tl_in_def)
    then have "TwoLevel_Valid tli" using block_iter.valid_at [OF di(2)] *(2) True by (simp add: TwoLevel_Valid_def)
    moreover have "n < length kvs" using table_kvs_split [OF True] * True by (simp add: block_pos_def)
    ultimately show ?thesis by simp
  next
    case False
    then show ?thesis using * by (simp add: tl_in_def TwoLevel_Valid_def block_pos_def)
  qed
qed

lemma TwoLevel_Next_on:
  assumes "tl_stands_at tli kvs n" "n < length kvs"
  shows "\<exists>tli'. TwoLevel_Next tli = Some tli' \<and> tl_stands_at tli' kvs (Suc n)"
  using assms
proof (rule tl_stands_atE)
  fix ds i j di
  assume *: "tl_in tli ds i j" "table_kvs ds = kvs" "i < length ds" "j < length (db_kvs (ds ! i))"
    "n = block_pos ds i j" "tl_data_iter tli = Some di" "block_stands_at di (db_kvs (ds ! i)) j"
  from block_iter.nxt_at [OF *(7,4)] obtain di' where
    di': "Next di = Some di'" "block_stands_at di' (db_kvs (ds ! i)) (Suc j)" by blast
  have base: "tl_base tli ds" and h: "tl_data_block_handle tli = enc_handle (db_handle (ds ! i))"
    using *(1,3) by (auto simp: tl_in_def)
  have "tl_base (tli\<lparr>tl_data_iter := Some di'\<rparr>) ds"
    by (rule tl_base_data [OF base nth_mem [OF *(3)] h block_iter.stands_usable [OF di'(2)]])
  then have "tl_in (tli\<lparr>tl_data_iter := Some di'\<rparr>) ds i (Suc j)"
    using *(1,3) di'(2) h by (simp add: tl_in_def)
  from Skip_on [OF this] show ?thesis
    using *(2,3,5,6) di'(1) block_pos_Suc' by (simp add: TwoLevel_Next_def)
qed

interpretation two_level: kv_iterator tl_usable tl_stands_at TwoLevel_Valid TwoLevel_key TwoLevel_value
  TwoLevel_Next TwoLevel_Seek TwoLevel_SeekToFirst "\<lambda>it. TwoLevel_status it = OK"
proof (unfold_locales, goal_cases)
  case (1 it kvs)
  then show ?case by (auto simp: tl_usable_def tl_base_def table_ok_def)
next
  case (2 it kvs n)
  then show ?case by (auto simp: tl_usable_def tl_stands_at_def tl_in_def)
next
  case (3 it kvs n)
  then show ?case using tl_stands_valid by blast
next
  case (4 it kvs n)
  then obtain ds where "tl_base it ds" by (auto simp: tl_stands_at_def tl_in_def)
  then show ?case using block_usable_status by (auto simp: tl_base_def TwoLevel_status_def split: option.split)
next
  case (5 it kvs n)
  then show ?case using tl_stands_valid by blast
next
  case (6 it kvs n)
  then show ?case by (rule tl_stands_atE) (simp add: TwoLevel_key_def block_iter.key_at)
next
  case (7 it kvs n)
  then show ?case by (rule tl_stands_atE) (simp add: TwoLevel_value_def block_iter.val_at)
next
  case (8 it kvs n)
  then show ?case by (rule TwoLevel_Next_on)
next
  case (9 it kvs)
  then show ?case using TwoLevel_SeekToFirst_on by (auto simp: tl_usable_def)
next
  case (10 it kvs t)
  then show ?case using TwoLevel_Seek_on by (auto simp: tl_usable_def)
qed

lemma Table_NewIterator_usable: "table_ok t ds \<Longrightarrow> tl_usable (Table_NewIterator t) (table_kvs ds)"
  by (auto simp: tl_usable_def tl_base_def Table_NewIterator_def NewTwoLevelIterator_def table_ok_def)

section \<open>Point reads\<close>

lemma InternalGet_on:
  assumes ok: "table_ok t ds" and i: "i = seek_pos (index_kvs ds) k"
  shows "InternalGet t k = Some (OK,
    if i < length ds \<and> seek_pos (db_kvs (ds ! i)) k < length (db_kvs (ds ! i))
    then Some (db_kvs (ds ! i) ! seek_pos (db_kvs (ds ! i)) k) else None)"
proof -
  have u: "block_usable (Block_NewIterator (t_index_block t)) (index_kvs ds)" using ok by (simp add: table_ok_def)
  from block_iter.seek_at [OF u, of k] obtain it where
    it: "Seek k (Block_NewIterator (t_index_block t)) = Some it" "block_stands_at it (index_kvs ds) i"
    unfolding i by blast
  note v = block_iter.valid_at [OF it(2)] block_iter.stands_ok [OF it(2)]
  show ?thesis
  proof (cases "i < length ds")
    case False
    then show ?thesis using it(1) v by (simp add: InternalGet_def)
  next
    case True
    have val: "value_of it = Some (enc_handle (db_handle (ds ! i)))"
      using block_iter.val_at [OF it(2)] True by (simp add: index_kvs_nth)
    from block_iter.seek_at [OF table_ok_block [OF ok nth_mem [OF True]], of k] obtain bi where
      bi: "Seek k (BlockReader t (enc_handle (db_handle (ds ! i)))) = Some bi"
        "block_stands_at bi (db_kvs (ds ! i)) (seek_pos (db_kvs (ds ! i)) k)" by blast
    show ?thesis
      using it(1) v val True bi(1) block_iter.valid_at [OF bi(2)] block_iter.stands_ok [OF bi(2)]
        block_iter.key_at [OF bi(2)] block_iter.val_at [OF bi(2)]
      by (simp add: InternalGet_def)
  qed
qed

lemma InternalGet_lookup:
  assumes ok: "table_ok t ds"
  shows "\<exists>x. InternalGet t k = Some (OK, x) \<and>
    (case x of Some (k', v) \<Rightarrow> (k', v) \<in> set (table_kvs ds) \<and> k \<le> k' \<and> map_of (table_kvs ds) k = (if k' = k then Some v else None)
     | None \<Rightarrow> map_of (table_kvs ds) k = None)"
proof -
  define i where "i = seek_pos (index_kvs ds) k"
  let ?b = "db_kvs (ds ! i)" and ?j = "seek_pos (db_kvs (ds ! i)) k" and ?n = "seek_pos (table_kvs ds) k"
  have sep: "separated ds []" and sorted: "keys_sorted (table_kvs ds)" using ok by (simp_all add: table_ok_def)
  have n: "?n = block_pos ds i ?j" by (rule seek_pos_table [OF sep i_def])
  note get = InternalGet_on [OF ok i_def]
  note look = seek_pos_lookup [OF sorted, of k]
  show ?thesis
  proof (cases "i < length ds \<and> ?j < length ?b")
    case True
    have at: "?n < length (table_kvs ds)" "table_kvs ds ! ?n = ?b ! ?j"
      using table_kvs_split [of i ds] True n by (auto simp: block_pos_def nth_append)
    have "\<not> fst (?b ! ?j) < k" using seek_pos_at [of ?b k] True by simp
    moreover have "?b ! ?j \<in> set (table_kvs ds)" using at nth_mem by metis
    ultimately show ?thesis using get True look at
      by (intro exI [of _ "Some (?b ! ?j)"]) (auto simp: not_less split: prod.split)
  next
    case False
    have "map_of (table_kvs ds) k = None"
    proof (cases "i < length ds")
      case True
      then have j: "?j = length ?b" using False seek_pos_le [of ?b k] by simp
      have "\<not> (?n < length (table_kvs ds) \<and> fst (table_kvs ds ! ?n) = k)"
      proof
        assume a: "?n < length (table_kvs ds) \<and> fst (table_kvs ds ! ?n) = k"
        let ?r = "table_kvs (drop (Suc i) ds)"
        have split: "table_kvs ds = (table_kvs (take i ds) @ ?b) @ ?r" using table_kvs_split [OF True] by simp
        have "?n = length (table_kvs (take i ds) @ ?b)" using n j True by (simp add: block_pos_def)
        then have "?r \<noteq> []" "table_kvs ds ! ?n = ?r ! 0" using a unfolding split by (auto simp: nth_append)
        then have "k \<in> fst ` set ?r" using a by (metis image_eqI length_greater_0_conv nth_mem)
        then have "db_sep (ds ! i) < k" using separated_nth [OF sep True] by auto
        then show False using seek_pos_at [of "index_kvs ds" k] True by (simp add: i_def [symmetric] index_kvs_nth)
      qed
      then show ?thesis using look by auto
    next
      case False
      then have "?n = length (table_kvs ds)" using n by (simp add: block_pos_def)
      then show ?thesis using look by simp
    qed
    then show ?thesis using get False by auto
  qed
qed

section \<open>Properties\<close>

text \<open>C1. A table reads back. For every list of entries in strictly increasing key order (below 2 GB),
  every block size, restart interval and compression setting: no \<^verbatim>\<open>CHECK\<close> of the builder fails; if
  every append succeeds the final status is OK; and whenever the final status is OK, opening the written
  file succeeds, a scan of the table returns exactly the entries, and a seek followed by a key
  comparison is lookup in their map.\<close>

theorem table_roundtrip:
  assumes "table_storage sn ap contents" "contents f = []" "keys_sorted kvs" "2 * cost kvs + 100 < 2 ^ 32"
  shows "\<exists>r. Option.bind (TableBuilder_Add_all ap sn kvs (TableBuilder_new opt f)) (TableBuilder_Finish ap sn) = Some r \<and>
    ((\<forall>f d. fst (ap f d) = OK) \<longrightarrow> tb_status r = OK) \<and>
    (tb_status r = OK \<longrightarrow> (\<forall>rd opts. reads_file rd (contents (tb_file r)) \<longrightarrow>
      (\<exists>t. Table_Open opts rd sn (FileSize r) = Some (OK, Some t) \<and>
         scan_all TwoLevel_Valid TwoLevel_key TwoLevel_value TwoLevel_Next TwoLevel_SeekToFirst (Table_NewIterator t) = Some kvs \<and>
         (\<forall>k. point_lookup TwoLevel_Valid TwoLevel_key TwoLevel_value TwoLevel_Seek k (Table_NewIterator t) =
            Some (map_of kvs k)))))"
proof -
  from table_storage.build_table [OF assms(1) _ assms(3,4), of f opt] assms(2) obtain r where
    r: "Option.bind (TableBuilder_Add_all ap sn kvs (TableBuilder_new opt f)) (TableBuilder_Finish ap sn) = Some r"
      "(\<forall>f d. fst (ap f d) = OK) \<longrightarrow> tb_status r = OK"
      "tb_status r = OK \<longrightarrow> table_file sn (contents (tb_file r)) kvs \<and>
       FileSize r = word_of_nat (length (contents (tb_file r)))" by blast
  have "\<exists>t. Table_Open opts rd sn (FileSize r) = Some (OK, Some t) \<and>
         scan_all TwoLevel_Valid TwoLevel_key TwoLevel_value TwoLevel_Next TwoLevel_SeekToFirst (Table_NewIterator t) = Some kvs \<and>
         (\<forall>k. point_lookup TwoLevel_Valid TwoLevel_key TwoLevel_value TwoLevel_Seek k (Table_NewIterator t) =
            Some (map_of kvs k))" if ok: "tb_status r = OK" and rd: "reads_file rd (contents (tb_file r))" for rd opts
  proof -
    from r(3) ok have tf: "table_file sn (contents (tb_file r)) kvs"
      and fs: "FileSize r = word_of_nat (length (contents (tb_file r)))" by simp_all
    from Open_table_file [OF tf rd, of opts] obtain t ds where
      t: "Table_Open opts rd sn (FileSize r) = Some (OK, Some t)" "table_ok t ds" "table_kvs ds = kvs"
      unfolding fs by blast
    have u: "tl_usable (Table_NewIterator t) kvs" using Table_NewIterator_usable [OF t(2)] t(3) by simp
    show ?thesis using t(1) two_level.scan_all_usable [OF u] two_level.point_lookup_usable [OF u] by blast
  qed
  then show ?thesis using r(1,2) by blast
qed

theorem table_roundtrip_witness:
  "\<exists>r. Option.bind (TableBuilder_Add_all memory_append port_no_snappy example_kvs (TableBuilder_new default_Options []))
     (TableBuilder_Finish memory_append port_no_snappy) = Some r \<and> tb_status r = OK \<and>
     (\<exists>t. Table_Open default_Options (memory_read (tb_file r)) port_no_snappy (FileSize r) = Some (OK, Some t) \<and>
        point_lookup TwoLevel_Valid TwoLevel_key TwoLevel_value TwoLevel_Seek [3] (Table_NewIterator t) = Some (Some [11, 12]))"
proof -
  have s: "keys_sorted example_kvs" "2 * cost example_kvs + 100 < 2 ^ 32"
    by (simp_all add: keys_sorted_def example_kvs_def)
  have ap: "\<forall>f d. fst (memory_append f d) = OK" by (simp add: memory_append_def)
  have m: "map_of example_kvs [3] = Some [11, 12]" by (simp add: example_kvs_def)
  from table_roundtrip [OF memory_table.table_storage_axioms refl s, of default_Options] ap obtain r where
    r: "Option.bind (TableBuilder_Add_all memory_append port_no_snappy example_kvs (TableBuilder_new default_Options []))
     (TableBuilder_Finish memory_append port_no_snappy) = Some r" "tb_status r = OK"
    "\<forall>rd opts. reads_file rd (tb_file r) \<longrightarrow>
      (\<exists>t. Table_Open opts rd port_no_snappy (FileSize r) = Some (OK, Some t) \<and>
         scan_all TwoLevel_Valid TwoLevel_key TwoLevel_value TwoLevel_Next TwoLevel_SeekToFirst (Table_NewIterator t) = Some example_kvs \<and>
         (\<forall>k. point_lookup TwoLevel_Valid TwoLevel_key TwoLevel_value TwoLevel_Seek k (Table_NewIterator t) =
            Some (map_of example_kvs k)))" by blast
  from r(3) reads_memory [of "tb_file r"] obtain t where
    "Table_Open default_Options (memory_read (tb_file r)) port_no_snappy (FileSize r) = Some (OK, Some t)"
    "point_lookup TwoLevel_Valid TwoLevel_key TwoLevel_value TwoLevel_Seek [3] (Table_NewIterator t) = Some (Some [11, 12])"
    using m by metis
  then show ?thesis using r(1,2) by blast
qed

text \<open>C5. \<^verbatim>\<open>InternalGet\<close> on an opened table reads one block: it succeeds, what it passes to the
  callback is an entry of the table whose key is not below the one asked for, it passes the entry of
  the key when the table has one, and calls back with another key, or not at all, only when the table has
  none.\<close>

theorem InternalGet_finds:
  assumes "table_file sn F kvs" "reads_file rd F"
    "Table_Open opts rd sn (word_of_nat (length F)) = Some (OK, Some t)"
  shows "\<exists>x. InternalGet t k = Some (OK, x) \<and>
    (case x of Some (k', v) \<Rightarrow> (k', v) \<in> set kvs \<and> k \<le> k' \<and> map_of kvs k = (if k' = k then Some v else None)
     | None \<Rightarrow> map_of kvs k = None)"
  using Open_table_file [OF assms(1,2), of opts] assms(3) InternalGet_lookup by fastforce

lemma example_table: "\<exists>F. table_file port_no_snappy F example_kvs"
proof -
  have s: "keys_sorted example_kvs" "2 * cost example_kvs + 100 < 2 ^ 32"
    by (simp_all add: keys_sorted_def example_kvs_def)
  have "\<forall>f d. fst (memory_append f d) = OK" by (simp add: memory_append_def)
  then show ?thesis using memory_table.build_table [OF refl s] by metis
qed

theorem InternalGet_finds_witness:
  "\<exists>F t x. Table_Open default_Options (memory_read F) port_no_snappy (word_of_nat (length F)) = Some (OK, Some t) \<and>
     InternalGet t [3] = Some (OK, Some x) \<and> snd x = [11, 12]"
proof -
  from example_table obtain F where F: "table_file port_no_snappy F example_kvs" by blast
  from Open_table_file [OF F reads_memory, of default_Options] obtain t where
    t: "Table_Open default_Options (memory_read F) port_no_snappy (word_of_nat (length F)) = Some (OK, Some t)" by blast
  have m: "map_of example_kvs [3] = Some [11, 12]" by (simp add: example_kvs_def)
  from InternalGet_finds [OF F reads_memory t, of "[3]"] obtain x where
    x: "InternalGet t [3] = Some (OK, x)" "case x of Some (k', v) \<Rightarrow> (k', v) \<in> set example_kvs \<and> [3] \<le> k' \<and>
      map_of example_kvs [3] = (if k' = [3] then Some v else None) | None \<Rightarrow> map_of example_kvs [3] = None" by blast
  then show ?thesis using t m by (cases x) (auto split: if_splits)
qed

end
