(* ===== verification/Input_Stream.thy ===== *)
theory Input_Stream
  imports Table_Format
begin

text \<open>
  \<^verbatim>\<open>core/lib/io/inputstream_interface.cc\<close>, \<^verbatim>\<open>random_inputstream.cc\<close> and
  \<^verbatim>\<open>buffered_inputstream.cc\<close>: sequential reading of a file. The virtual functions of
  \<^verbatim>\<open>InputStreamInterface\<close> are a record of functions on the state of the stream, and the locale
  \<open>input_stream\<close> is the contract of the interface for a file with contents \<open>F\<close>; both streams of the source
  are shown to satisfy it. Reads take the previous contents of \<^verbatim>\<open>*result\<close> and return the new ones. An
  \<^verbatim>\<open>int64\<close> is an integer; files are shorter than \<open>2 ^ 63\<close> bytes where that matters.
\<close>

section \<open>The interface\<close>

record 's stream_ops =
  ReadNBytes :: "int \<Rightarrow> bytes \<Rightarrow> 's \<Rightarrow> status \<times> bytes \<times> 's"
  SkipNBytes :: "int \<Rightarrow> 's \<Rightarrow> status \<times> 's"
  Tell :: "'s \<Rightarrow> int"
  Reset :: "'s \<Rightarrow> status \<times> 's"

fun IsOutOfRange :: "status \<Rightarrow> bool" where
  "IsOutOfRange (Error OUT_OF_RANGE _) = True"
| "IsOutOfRange _ = False"

lemma code_of_OutOfRange: "IsOutOfRange s \<Longrightarrow> code_of s = Some OUT_OF_RANGE"
  by (cases s rule: IsOutOfRange.cases) auto

definition kMaxSkipSize :: int where "kMaxSkipSize = 8 * 1024 * 1024"

text \<open>The default \<^verbatim>\<open>InputStreamInterface::SkipNBytes\<close>.\<close>

function SkipNBytes_loop :: "(int \<Rightarrow> bytes \<Rightarrow> 's \<Rightarrow> status \<times> bytes \<times> 's) \<Rightarrow> int \<Rightarrow> bytes \<Rightarrow> 's \<Rightarrow> status \<times> 's" where
  "SkipNBytes_loop readn bytes_to_skip unused s =
     (if bytes_to_skip > 0 then
        let bytes_to_read = min kMaxSkipSize bytes_to_skip;
            (st, unused, s) = readn bytes_to_read unused s
        in if st \<noteq> OK then (st, s) else SkipNBytes_loop readn (bytes_to_skip - bytes_to_read) unused s
      else (OK, s))"
  by pat_completeness auto
termination
  by (relation "measure (\<lambda>(_, n, _). nat n)") (auto simp: kMaxSkipSize_def)

definition default_SkipNBytes ::
  "(int \<Rightarrow> bytes \<Rightarrow> 's \<Rightarrow> status \<times> bytes \<times> 's) \<Rightarrow> int \<Rightarrow> 's \<Rightarrow> status \<times> 's" where
  "default_SkipNBytes readn bytes_to_skip s =
     (if bytes_to_skip < 0 then (Error INVALID_ARGUMENT ''Can't skip a negative number of bytes'', s)
      else SkipNBytes_loop readn bytes_to_skip [] s)"

section \<open>RandomAccessInputStream\<close>

record RandomAccessInputStream =
  ra_pos :: int

definition RandomAccessInputStream_new :: RandomAccessInputStream where
  "RandomAccessInputStream_new = \<lparr>ra_pos = 0\<rparr>"

definition RA_ReadNBytes :: "file_reader \<Rightarrow> int \<Rightarrow> bytes \<Rightarrow> RandomAccessInputStream \<Rightarrow>
    status \<times> bytes \<times> RandomAccessInputStream" where
  "RA_ReadNBytes rd bytes_to_read result r =
     (if bytes_to_read < 0 then (Error INVALID_ARGUMENT ''Cannot read negative number of bytes'', result, r)
      else
        let (s, data) = rd (word_of_int (ra_pos r)) (nat bytes_to_read)
        in (s, data, if s = OK \<or> IsOutOfRange s then r\<lparr>ra_pos := ra_pos r + int (length data)\<rparr> else r))"

function RA_SkipNBytes_loop :: "file_reader \<Rightarrow> int \<Rightarrow> RandomAccessInputStream \<Rightarrow> status \<times> RandomAccessInputStream" where
  "RA_SkipNBytes_loop rd bytes_to_skip r =
     (if bytes_to_skip > 0 then
        let bytes_to_read = min kMaxSkipSize bytes_to_skip;
            (s, data) = rd (word_of_int (ra_pos r)) (nat bytes_to_read)
        in if s = OK \<or> IsOutOfRange s then
             let r = r\<lparr>ra_pos := ra_pos r + int (length data)\<rparr>
             in if int (length data) < bytes_to_read then (Error OUT_OF_RANGE ''reached end of file'', r)
                else RA_SkipNBytes_loop rd (bytes_to_skip - bytes_to_read) r
           else (s, r)
      else (OK, r))"
  by pat_completeness auto
termination
  by (relation "measure (\<lambda>(_, n, _). nat n)") (auto simp: kMaxSkipSize_def)

definition RA_SkipNBytes :: "file_reader \<Rightarrow> int \<Rightarrow> RandomAccessInputStream \<Rightarrow> status \<times> RandomAccessInputStream" where
  "RA_SkipNBytes rd bytes_to_skip r =
     (if bytes_to_skip < 0 then (Error INVALID_ARGUMENT ''Can't skip a negative number of bytes'', r)
      else if bytes_to_skip > 0 \<and>
          (let (s, data) = rd (word_of_int (ra_pos r + bytes_to_skip - 1)) 1
           in (s = OK \<or> IsOutOfRange s) \<and> length data = 1)
        then (OK, r\<lparr>ra_pos := ra_pos r + bytes_to_skip\<rparr>)
      else RA_SkipNBytes_loop rd bytes_to_skip r)"

definition RA_Seek :: "int \<Rightarrow> RandomAccessInputStream \<Rightarrow> status \<times> RandomAccessInputStream" where
  "RA_Seek position r = (OK, r\<lparr>ra_pos := position\<rparr>)"

definition RA_ops :: "file_reader \<Rightarrow> RandomAccessInputStream stream_ops" where
  "RA_ops rd = \<lparr>ReadNBytes = RA_ReadNBytes rd, SkipNBytes = RA_SkipNBytes rd, Tell = ra_pos, Reset = RA_Seek 0\<rparr>"

section \<open>BufferedInputStream\<close>

record 's BufferedInputStream =
  bi_input_stream :: 's
  bi_size :: nat
  bi_buf :: bytes
  bi_pos :: nat
  bi_limit :: nat
  bi_file_status :: status

definition BufferedInputStream_new :: "'s \<Rightarrow> nat \<Rightarrow> 's BufferedInputStream" where
  "BufferedInputStream_new input buffer_size =
     \<lparr>bi_input_stream = input, bi_size = buffer_size, bi_buf = [], bi_pos = 0, bi_limit = 0, bi_file_status = OK\<rparr>"

definition FillBuffer :: "'s stream_ops \<Rightarrow> 's BufferedInputStream \<Rightarrow> status \<times> 's BufferedInputStream" where
  "FillBuffer st b =
     (if bi_file_status b \<noteq> OK then (bi_file_status b, b\<lparr>bi_pos := 0, bi_limit := 0\<rparr>)
      else
        let (s, buf, input) = ReadNBytes st (int (bi_size b)) (bi_buf b) (bi_input_stream b);
            b = b\<lparr>bi_input_stream := input, bi_buf := buf, bi_pos := 0, bi_limit := length buf\<rparr>
        in (s, if buf = [] then b\<lparr>bi_file_status := s\<rparr> else b))"

text \<open>The loop of \<^verbatim>\<open>ReadNBytes\<close>. It copies at least one byte in each round: the guard on
  \<open>piece\<close> makes the function total on states with \<^verbatim>\<open>limit_ < pos_\<close>, which never occur.\<close>

function Buf_ReadNBytes_loop :: "'s stream_ops \<Rightarrow> nat \<Rightarrow> bytes \<Rightarrow> status \<Rightarrow> 's BufferedInputStream \<Rightarrow>
    status \<times> bytes \<times> 's BufferedInputStream" where
  "Buf_ReadNBytes_loop st bytes_to_read result s b =
     (if length result < bytes_to_read then
        let (s, b) = (if bi_pos b = bi_limit b then FillBuffer st b else (s, b))
        in if bi_limit b = 0 then (s, result, b\<lparr>bi_file_status := s\<rparr>)
           else
             let bytes_to_copy = min (bi_limit b - bi_pos b) (bytes_to_read - length result);
                 piece = take bytes_to_copy (drop (bi_pos b) (bi_buf b))
             in if piece = [] then (s, result, b)
                else Buf_ReadNBytes_loop st bytes_to_read (result @ piece) s
                       (b\<lparr>bi_pos := bi_pos b + bytes_to_copy\<rparr>)
      else (s, result, b))"
  by pat_completeness auto
termination
  by (relation "measure (\<lambda>(_, n, result, _). n - length result)") auto

definition Buf_ReadNBytes :: "'s stream_ops \<Rightarrow> int \<Rightarrow> bytes \<Rightarrow> 's BufferedInputStream \<Rightarrow>
    status \<times> bytes \<times> 's BufferedInputStream" where
  "Buf_ReadNBytes st bytes_to_read result b =
     (if bytes_to_read < 0 then (Error INVALID_ARGUMENT ''Can't read a negative number of bytes: '', result, b)
      else if bi_file_status b \<noteq> OK \<and> bytes_to_read > 0 then (bi_file_status b, [], b)
      else
        let (s, result, b) = Buf_ReadNBytes_loop st (nat bytes_to_read) [] OK b
        in (if IsOutOfRange s \<and> length result = nat bytes_to_read then OK else s, result, b))"

definition Buf_SkipNBytes :: "'s stream_ops \<Rightarrow> int \<Rightarrow> 's BufferedInputStream \<Rightarrow> status \<times> 's BufferedInputStream" where
  "Buf_SkipNBytes st bytes_to_skip b =
     (if bytes_to_skip < 0 then (Error INVALID_ARGUMENT ''Can only skip forward, not '', b)
      else if int (bi_pos b) + bytes_to_skip < int (bi_limit b) then (OK, b\<lparr>bi_pos := bi_pos b + nat bytes_to_skip\<rparr>)
      else
        let (s, input) = SkipNBytes st (bytes_to_skip - (int (bi_limit b) - int (bi_pos b))) (bi_input_stream b);
            b = b\<lparr>bi_input_stream := input, bi_pos := 0, bi_limit := 0\<rparr>
        in (s, if IsOutOfRange s then b\<lparr>bi_file_status := s\<rparr> else b))"

definition Buf_Tell :: "'s stream_ops \<Rightarrow> 's BufferedInputStream \<Rightarrow> int" where
  "Buf_Tell st b = Tell st (bi_input_stream b) - (int (bi_limit b) - int (bi_pos b))"

definition Buf_Reset :: "'s stream_ops \<Rightarrow> 's BufferedInputStream \<Rightarrow> status \<times> 's BufferedInputStream" where
  "Buf_Reset st b =
     (let (s, input) = Reset st (bi_input_stream b) in
      if s \<noteq> OK then (s, b\<lparr>bi_input_stream := input\<rparr>)
      else (OK, b\<lparr>bi_input_stream := input, bi_pos := 0, bi_limit := 0, bi_file_status := OK\<rparr>))"

definition Buf_Seek :: "'s stream_ops \<Rightarrow> int \<Rightarrow> 's BufferedInputStream \<Rightarrow> status \<times> 's BufferedInputStream" where
  "Buf_Seek st position b =
     (if position < 0 then (Error INVALID_ARGUMENT ''Seeking to a negative position: '', b)
      else
        let bufpos = Buf_Tell st b in
        if position < bufpos then
          let (s, b) = Buf_Reset st b in if s \<noteq> OK then (s, b) else Buf_SkipNBytes st position b
        else Buf_SkipNBytes st (position - bufpos) b)"

definition Buf_ops :: "'s stream_ops \<Rightarrow> 's BufferedInputStream stream_ops" where
  "Buf_ops st = \<lparr>ReadNBytes = Buf_ReadNBytes st, SkipNBytes = Buf_SkipNBytes st, Tell = Buf_Tell st, Reset = Buf_Reset st\<rparr>"

text \<open>\<^verbatim>\<open>ReadLineHelper\<close> and \<^verbatim>\<open>ReadAll\<close> read as long as the stream has data: \<open>None\<close> is a run
  that never ends.\<close>

partial_function (option) ReadLine_loop :: "'s stream_ops \<Rightarrow> bool \<Rightarrow> bytes \<Rightarrow> status \<Rightarrow> 's BufferedInputStream \<Rightarrow>
    (status \<times> bytes \<times> 's BufferedInputStream) option" where
  "ReadLine_loop st include_eol result s b =
     (let (s, b) = (if bi_pos b = bi_limit b then FillBuffer st b else (s, b))
      in if bi_limit b = 0 then
           Some (if IsOutOfRange s \<and> result \<noteq> [] then OK else s, result, b)
         else
           let c = bi_buf b ! bi_pos b; b = b\<lparr>bi_pos := Suc (bi_pos b)\<rparr>
           in if c = 10 then Some (OK, if include_eol then result @ [c] else result, b)
              else ReadLine_loop st include_eol (if c \<noteq> 13 then result @ [c] else result) s b)"

definition ReadLineHelper :: "'s stream_ops \<Rightarrow> bool \<Rightarrow> 's BufferedInputStream \<Rightarrow>
    (status \<times> bytes \<times> 's BufferedInputStream) option" where
  "ReadLineHelper st include_eol b = ReadLine_loop st include_eol [] OK b"

definition ReadLine :: "'s stream_ops \<Rightarrow> 's BufferedInputStream \<Rightarrow> (status \<times> bytes \<times> 's BufferedInputStream) option" where
  "ReadLine st b = ReadLineHelper st False b"

definition ReadLineAsString :: "'s stream_ops \<Rightarrow> 's BufferedInputStream \<Rightarrow> (bytes \<times> 's BufferedInputStream) option" where
  "ReadLineAsString st b = map_option snd (ReadLineHelper st True b)"

partial_function (option) ReadAll_loop :: "'s stream_ops \<Rightarrow> bytes \<Rightarrow> status \<Rightarrow> 's BufferedInputStream \<Rightarrow>
    (status \<times> bytes \<times> 's BufferedInputStream) option" where
  "ReadAll_loop st result s b =
     (if s = OK then
        let (s, b) = FillBuffer st b
        in if bi_limit b = 0 then Some (s, result, b)
           else ReadAll_loop st (result @ bi_buf b) s (b\<lparr>bi_pos := bi_limit b\<rparr>)
      else Some (s, result, b))"

definition ReadAll :: "'s stream_ops \<Rightarrow> 's BufferedInputStream \<Rightarrow> (status \<times> bytes \<times> 's BufferedInputStream) option" where
  "ReadAll st b =
     map_option (\<lambda>(s, result, b). if IsOutOfRange s then (OK, result, b\<lparr>bi_file_status := s\<rparr>) else (s, result, b))
       (ReadAll_loop st [] OK b)"

declare SkipNBytes_loop.simps [simp del] RA_SkipNBytes_loop.simps [simp del] Buf_ReadNBytes_loop.simps [simp del]

section \<open>The contract of a stream\<close>

text \<open>A stream over a file with contents \<open>F\<close>; \<open>at s p\<close> says that \<open>s\<close> is a state of the stream at position
  \<open>p\<close>. Reading and skipping stop at the end of the file with \<^verbatim>\<open>OUT_OF_RANGE\<close>.\<close>

locale readable_stream =
  fixes F :: bytes and st :: "'s stream_ops" and at :: "'s \<Rightarrow> nat \<Rightarrow> bool"
  assumes at_bound: "at s p \<Longrightarrow> p \<le> length F"
    and read_in: "at s p \<Longrightarrow> p + n \<le> length F \<Longrightarrow>
      \<exists>s'. ReadNBytes st (int n) r s = (OK, take n (drop p F), s') \<and> at s' (p + n)"
    and read_past: "at s p \<Longrightarrow> length F < p + n \<Longrightarrow> n < 2 ^ 63 \<Longrightarrow>
      \<exists>m s'. ReadNBytes st (int n) r s = (Error OUT_OF_RANGE m, drop p F, s') \<and> at s' (length F)"

text \<open>The whole interface. A read of a negative number of bytes only has to leave the stream at some position.\<close>

locale input_stream = readable_stream F st at for F and st :: "'s stream_ops" and at +
  assumes skip_in: "at s p \<Longrightarrow> p + n \<le> length F \<Longrightarrow> \<exists>s'. SkipNBytes st (int n) s = (OK, s') \<and> at s' (p + n)"
    and skip_past: "at s p \<Longrightarrow> length F < p + n \<Longrightarrow> n < 2 ^ 63 \<Longrightarrow>
      \<exists>m s'. SkipNBytes st (int n) s = (Error OUT_OF_RANGE m, s') \<and> at s' (length F)"
    and read_negative: "at s p \<Longrightarrow> k < 0 \<Longrightarrow>
      \<exists>e d s' p'. ReadNBytes st k r s = (e, d, s') \<and> at s' p' \<and> (e = OK \<longrightarrow> length d < 2 ^ 63)"
    and skip_negative: "at s p \<Longrightarrow> k < 0 \<Longrightarrow> \<exists>m. SkipNBytes st k s = (Error INVALID_ARGUMENT m, s)"
    and tell: "at s p \<Longrightarrow> Tell st s = int p"
    and reset: "at s p \<Longrightarrow> \<exists>s'. Reset st s = (OK, s') \<and> at s' 0"

definition ra_at :: "bytes \<Rightarrow> RandomAccessInputStream \<Rightarrow> nat \<Rightarrow> bool" where
  "ra_at F r p \<longleftrightarrow> ra_pos r = int p \<and> p \<le> length F \<and> length F < 2 ^ 63"

lemma word_pos: "p < 2 ^ 64 \<Longrightarrow> unat (word_of_int (int p) :: uint64) = p"
  by (simp add: unsigned_of_nat take_bit_nat_eq_self)

text \<open>The documented behaviour of \<^verbatim>\<open>RandomAccessFile::Read\<close>.\<close>

locale random_access_file =
  fixes rd :: file_reader and F :: bytes
  assumes file_in: "unat off + n \<le> length F \<Longrightarrow> rd off n = (OK, take n (drop (unat off) F))"
    and file_past: "0 < n \<Longrightarrow> length F < unat off + n \<Longrightarrow> \<exists>m. rd off n = (Error OUT_OF_RANGE m, drop (unat off) F)"
begin

lemma ra_read_in:
  "ra_at F r p \<Longrightarrow> p + n \<le> length F \<Longrightarrow> rd (word_of_int (ra_pos r)) n = (OK, take n (drop p F))"
  using file_in [of "word_of_int (int p)" n] word_pos [of p] by (simp add: ra_at_def)

lemma ra_read_past:
  "ra_at F r p \<Longrightarrow> length F < p + n \<Longrightarrow> \<exists>m. rd (word_of_int (ra_pos r)) n = (Error OUT_OF_RANGE m, drop p F)"
  using file_past [of n "word_of_int (int p)"] word_pos [of p] by (simp add: ra_at_def)

lemma ra_skip_loop_past:
  "ra_at F r p \<Longrightarrow> int (length F) < int p + n \<Longrightarrow>
     \<exists>m s'. RA_SkipNBytes_loop rd n r = (Error OUT_OF_RANGE m, s') \<and> ra_at F s' (length F)"
proof (induction "nat n" arbitrary: n r p rule: less_induct)
  case less
  define k where "k = min kMaxSkipSize n"
  have n: "0 < n" using less.prems by (simp add: ra_at_def)
  have k: "0 < k" "k \<le> n" using n by (simp_all add: kMaxSkipSize_def k_def)
  note loop = RA_SkipNBytes_loop.simps [of rd n r, folded k_def]
  show ?case
  proof (cases "p + nat k \<le> length F")
    case True
    let ?r = "r\<lparr>ra_pos := ra_pos r + k\<rparr>"
    have at: "ra_at F ?r (p + nat k)" using less.prems(1) True k by (simp add: ra_at_def)
    have "RA_SkipNBytes_loop rd n r = RA_SkipNBytes_loop rd (n - k) ?r"
      using ra_read_in [OF less.prems(1) True] n k True by (simp add: loop Let_def)
    moreover have "\<exists>m s'. RA_SkipNBytes_loop rd (n - k) ?r = (Error OUT_OF_RANGE m, s') \<and> ra_at F s' (length F)"
      using less.hyps [of "n - k" ?r "p + nat k"] at less.prems(2) n k by simp
    ultimately show ?thesis by simp
  next
    case False
    obtain m where m: "rd (word_of_int (ra_pos r)) (nat k) = (Error OUT_OF_RANGE m, drop p F)"
      using ra_read_past [OF less.prems(1), of "nat k"] False by auto
    let ?r = "r\<lparr>ra_pos := ra_pos r + int (length F - p)\<rparr>"
    have "int (length F - p) < k" using False k less.prems(1) by (auto simp: ra_at_def)
    then have "RA_SkipNBytes_loop rd n r = (Error OUT_OF_RANGE ''reached end of file'', ?r)"
      using m n k by (simp add: loop Let_def)
    moreover have "ra_at F ?r (length F)" using less.prems(1) by (simp add: ra_at_def)
    ultimately show ?thesis by blast
  qed
qed

lemma ra_is_stream: "input_stream F (RA_ops rd) (ra_at F)"
proof
  fix r p n k and old :: bytes
  assume at: "ra_at F r p"
  show "\<exists>e d s' p'. ReadNBytes (RA_ops rd) k old r = (e, d, s') \<and> ra_at F s' p' \<and> (e = OK \<longrightarrow> length d < 2 ^ 63)"
    "\<exists>m. SkipNBytes (RA_ops rd) k r = (Error INVALID_ARGUMENT m, r)" if "k < 0"
    using that at by (auto simp: RA_ops_def RA_ReadNBytes_def RA_SkipNBytes_def)
  show "p \<le> length F" using at by (simp add: ra_at_def)
  show "Tell (RA_ops rd) r = int p" using at by (simp add: ra_at_def RA_ops_def)
  show "\<exists>s'. Reset (RA_ops rd) r = (OK, s') \<and> ra_at F s' 0" using at by (simp add: ra_at_def RA_ops_def RA_Seek_def)
  show "\<exists>s'. ReadNBytes (RA_ops rd) (int n) old r = (OK, take n (drop p F), s') \<and> ra_at F s' (p + n)"
    if "p + n \<le> length F"
    using ra_read_in [OF at that] at that by (simp add: RA_ops_def RA_ReadNBytes_def ra_at_def)
  show "\<exists>m s'. ReadNBytes (RA_ops rd) (int n) old r = (Error OUT_OF_RANGE m, drop p F, s') \<and> ra_at F s' (length F)"
    if "length F < p + n"
    using ra_read_past [OF at that] at by (auto simp: RA_ops_def RA_ReadNBytes_def ra_at_def)
  show "\<exists>s'. SkipNBytes (RA_ops rd) (int n) r = (OK, s') \<and> ra_at F s' (p + n)" if in_file: "p + n \<le> length F"
  proof (cases "n = 0")
    case False
    define q where "q = p + n - 1"
    have q: "ra_pos r + int n - 1 = int q" "q < length F" "q < 2 ^ 64" using at False in_file by (auto simp: ra_at_def q_def)
    have "rd (word_of_int (int q)) 1 = (OK, take 1 (drop q F))"
      using file_in [of "word_of_int (int q)" 1] q(2) unfolding word_pos [OF q(3)] by simp
    then have "SkipNBytes (RA_ops rd) (int n) r = (OK, r\<lparr>ra_pos := ra_pos r + int n\<rparr>)"
      unfolding RA_ops_def RA_SkipNBytes_def stream_ops.simps q(1) using q(2) False by simp
    then show ?thesis using at in_file by (simp add: ra_at_def)
  qed (use at in \<open>simp add: RA_ops_def RA_SkipNBytes_def ra_at_def RA_SkipNBytes_loop.simps [of rd 0]\<close>)
  show "\<exists>m s'. SkipNBytes (RA_ops rd) (int n) r = (Error OUT_OF_RANGE m, s') \<and> ra_at F s' (length F)"
    if past: "length F < p + n" "n < 2 ^ 63"
  proof -
    have n: "0 < n" using at past(1) by (simp add: ra_at_def)
    define q where "q = p + n - 1"
    have q: "ra_pos r + int n - 1 = int q" "length F \<le> q" "q < 2 ^ 64" using at n past by (auto simp: ra_at_def q_def)
    obtain m where "rd (word_of_int (int q)) 1 = (Error OUT_OF_RANGE m, drop q F)"
      using file_past [of 1 "word_of_int (int q)"] q(2) unfolding word_pos [OF q(3)] by auto
    then have "SkipNBytes (RA_ops rd) (int n) r = RA_SkipNBytes_loop rd (int n) r"
      unfolding RA_ops_def RA_SkipNBytes_def stream_ops.simps q(1) using q(2) by simp
    then show ?thesis using ra_skip_loop_past [OF at, of "int n"] past(1) by simp
  qed
qed

end

text \<open>The state of a buffer over a stream: \<^verbatim>\<open>buf_[pos_, limit_)\<close> holds the bytes of the file up to the
  position of the underlying stream, and an error is only remembered at the end of the file.\<close>

definition buf_at :: "bytes \<Rightarrow> ('s \<Rightarrow> nat \<Rightarrow> bool) \<Rightarrow> 's BufferedInputStream \<Rightarrow> nat \<Rightarrow> bool" where
  "buf_at F at b p \<longleftrightarrow> bi_pos b \<le> bi_limit b \<and> bi_limit b \<le> length (bi_buf b) \<and> 0 < bi_size b \<and> bi_size b < 2 ^ 63 \<and>
     (\<exists>q. at (bi_input_stream b) q \<and> q = p + (bi_limit b - bi_pos b) \<and>
        take (bi_limit b - bi_pos b) (drop (bi_pos b) (bi_buf b)) = take (bi_limit b - bi_pos b) (drop p F) \<and>
        (bi_file_status b = OK \<or> IsOutOfRange (bi_file_status b) \<and> q = length F \<and> bi_pos b = bi_limit b))"

text \<open>A run of reads: for each of them its error code, if any, and its bytes.\<close>

fun read_run :: "'s stream_ops \<Rightarrow> nat list \<Rightarrow> 's \<Rightarrow> (error_code option \<times> bytes) list" where
  "read_run st [] s = []"
| "read_run st (n # ns) s = (let (e, r, s) = ReadNBytes st (int n) [] s in (code_of e, r) # read_run st ns s)"

fun file_run :: "bytes \<Rightarrow> nat \<Rightarrow> nat list \<Rightarrow> (error_code option \<times> bytes) list" where
  "file_run F p [] = []"
| "file_run F p (n # ns) =
     (if p + n \<le> length F then (None, take n (drop p F)) # file_run F (p + n) ns
      else (Some OUT_OF_RANGE, drop p F) # file_run F (length F) ns)"

text \<open>A run of calls: for each of them its error code, its bytes and the position after it; and the same calls on a
  position in a file.\<close>

datatype stream_call = StRead nat | StSkip nat | StReset

fun stream_step :: "'s stream_ops \<Rightarrow> stream_call \<Rightarrow> 's \<Rightarrow> (error_code option \<times> bytes) \<times> 's" where
  "stream_step st (StRead n) s = (let (e, r, s) = ReadNBytes st (int n) [] s in ((code_of e, r), s))"
| "stream_step st (StSkip n) s = (let (e, s) = SkipNBytes st (int n) s in ((code_of e, []), s))"
| "stream_step st StReset s = (let (e, s) = Reset st s in ((code_of e, []), s))"

fun stream_run :: "'s stream_ops \<Rightarrow> stream_call list \<Rightarrow> 's \<Rightarrow> ((error_code option \<times> bytes) \<times> int) list" where
  "stream_run st [] s = []"
| "stream_run st (c # cs) s = (let (a, s) = stream_step st c s in (a, Tell st s) # stream_run st cs s)"

fun position_step :: "bytes \<Rightarrow> stream_call \<Rightarrow> nat \<Rightarrow> (error_code option \<times> bytes) \<times> nat" where
  "position_step F (StRead n) p =
     (if p + n \<le> length F then ((None, take n (drop p F)), p + n) else ((Some OUT_OF_RANGE, drop p F), length F))"
| "position_step F (StSkip n) p = (if p + n \<le> length F then ((None, []), p + n) else ((Some OUT_OF_RANGE, []), length F))"
| "position_step F StReset p = ((None, []), 0)"

fun position_run :: "bytes \<Rightarrow> stream_call list \<Rightarrow> nat \<Rightarrow> ((error_code option \<times> bytes) \<times> int) list" where
  "position_run F [] p = []"
| "position_run F (c # cs) p = (let (a, p) = position_step F c p in (a, int p) # position_run F cs p)"

fun stream_call_ok :: "stream_call \<Rightarrow> bool" where
  "stream_call_ok (StRead n) \<longleftrightarrow> n < 2 ^ 63"
| "stream_call_ok (StSkip n) \<longleftrightarrow> n < 2 ^ 63"
| "stream_call_ok StReset \<longleftrightarrow> True"

text \<open>The default \<^verbatim>\<open>SkipNBytes\<close> keeps the contract of any stream whose reads keep it.\<close>

context readable_stream
begin

lemma default_skip_loop:
  "at s p \<Longrightarrow> 0 \<le> n \<Longrightarrow> n < 2 ^ 63 \<Longrightarrow>
     (if int p + n \<le> int (length F) then \<exists>s'. SkipNBytes_loop (ReadNBytes st) n u s = (OK, s') \<and> at s' (p + nat n)
      else \<exists>m s'. SkipNBytes_loop (ReadNBytes st) n u s = (Error OUT_OF_RANGE m, s') \<and> at s' (length F))"
proof (induction "nat n" arbitrary: n u s p rule: less_induct)
  case less
  define k where "k = min kMaxSkipSize n"
  note loop = SkipNBytes_loop.simps [of "ReadNBytes st" n u s, folded k_def]
  show ?case
  proof (cases "n = 0")
    case True
    then show ?thesis using less.prems(1) at_bound [OF less.prems(1)] by (simp add: SkipNBytes_loop.simps [of _ 0])
  next
    case False
    then have k: "0 < k" "k \<le> n" using less.prems by (auto simp: kMaxSkipSize_def k_def)
    then have k_eq: "int (nat k) = k" by simp
    show ?thesis
    proof (cases "p + nat k \<le> length F")
      case True
      obtain s' where s': "ReadNBytes st k u s = (OK, take (nat k) (drop p F), s')" "at s' (p + nat k)"
        using read_in [OF less.prems(1) True, of u] k_eq by metis
      have next_loop: "SkipNBytes_loop (ReadNBytes st) n u s = SkipNBytes_loop (ReadNBytes st) (n - k) (take (nat k) (drop p F)) s'"
        using s'(1) k by (simp add: loop Let_def)
      from less.hyps [of "n - k" s' "p + nat k" "take (nat k) (drop p F)"] s'(2) less.prems(3) k
      show ?thesis unfolding next_loop using k by (simp add: nat_diff_distrib split: if_splits)
    next
      case past: False
      have "nat k < 2 ^ 63" using k less.prems(3) by (simp add: nat_less_iff)
      then obtain m s' where s': "ReadNBytes st k u s = (Error OUT_OF_RANGE m, drop p F, s')" "at s' (length F)"
        using read_past [OF less.prems(1), of "nat k" u] past k_eq by (metis not_le)
      have "SkipNBytes_loop (ReadNBytes st) n u s = (Error OUT_OF_RANGE m, s')" using s'(1) k by (simp add: loop Let_def)
      then show ?thesis using s'(2) past k by auto
    qed
  qed
qed

end

context input_stream
begin

lemma fill_empty:
  assumes b: "buf_at F at b p" "bi_pos b = bi_limit b"
  shows "\<exists>s b'. FillBuffer st b = (s, b') \<and>
    (if p = length F then bi_limit b' = 0 \<and> IsOutOfRange s \<and> buf_at F at b' p \<and> bi_file_status b' = s
     else 0 < bi_limit b' \<and> bi_pos b' = 0 \<and> buf_at F at b' p \<and> (s = OK \<or> IsOutOfRange s \<and> p + bi_limit b' = length F) \<and>
       bi_file_status b' = OK \<and> bi_limit b' = length (bi_buf b'))"
proof -
  have at: "at (bi_input_stream b) p" using b by (auto simp: buf_at_def)
  have sz: "0 < bi_size b" "bi_size b < 2 ^ 63" using b(1) by (auto simp: buf_at_def)
  show ?thesis
  proof (cases "bi_file_status b = OK")
    case False
    then have "IsOutOfRange (bi_file_status b)" "p = length F" using b by (auto simp: buf_at_def)
    then show ?thesis using b False at sz by (auto simp: FillBuffer_def buf_at_def)
  next
    case True
    show ?thesis
    proof (cases "p + bi_size b \<le> length F")
      case in_file: True
      obtain s' where "ReadNBytes st (int (bi_size b)) (bi_buf b) (bi_input_stream b) = (OK, take (bi_size b) (drop p F), s')"
        "at s' (p + bi_size b)" using read_in [OF at in_file] by blast
      then show ?thesis using True in_file sz by (simp add: FillBuffer_def buf_at_def)
    next
      case False
      obtain m s' where "ReadNBytes st (int (bi_size b)) (bi_buf b) (bi_input_stream b) = (Error OUT_OF_RANGE m, drop p F, s')"
        "at s' (length F)" using read_past [OF at _ sz(2)] False by (meson not_le)
      then show ?thesis using True sz at_bound [OF at] by (cases "p = length F") (simp_all add: FillBuffer_def buf_at_def)
    qed
  qed
qed

lemma buf_piece:
  assumes b: "buf_at F at b p" and k: "k \<le> bi_limit b - bi_pos b"
  shows "take k (drop (bi_pos b) (bi_buf b)) = take k (drop p F)" "p + k \<le> length F"
    "length (take k (drop (bi_pos b) (bi_buf b))) = k" "buf_at F at (b\<lparr>bi_pos := bi_pos b + k\<rparr>) (p + k)"
proof -
  let ?n = "bi_limit b - bi_pos b"
  have bl: "bi_pos b \<le> bi_limit b" "bi_limit b \<le> length (bi_buf b)" using b by (auto simp: buf_at_def)
  have at: "at (bi_input_stream b) (p + ?n)" and eq: "take ?n (drop (bi_pos b) (bi_buf b)) = take ?n (drop p F)"
    and fs: "bi_file_status b = OK \<or> IsOutOfRange (bi_file_status b) \<and> p + ?n = length F \<and> bi_pos b = bi_limit b"
    using b by (auto simp: buf_at_def)
  show "p + k \<le> length F" using at_bound [OF at] k by simp
  show piece: "take k (drop (bi_pos b) (bi_buf b)) = take k (drop p F)"
    using arg_cong [OF eq, of "take k"] k by (simp add: min_absorb1)
  show "length (take k (drop (bi_pos b) (bi_buf b))) = k" using k bl by simp
  have rest: "bi_limit b - (bi_pos b + k) = ?n - k" by simp
  have "drop k (take ?n (drop (bi_pos b) (bi_buf b))) = drop k (take ?n (drop p F))" using eq by simp
  then have "take (?n - k) (drop (bi_pos b + k) (bi_buf b)) = take (?n - k) (drop (p + k) F)"
    by (simp only: drop_take drop_drop add.commute [of k])
  note next_piece = this
  have pk: "p + k + (?n - k) = p + ?n" using k by simp
  have fs': "bi_file_status b = OK \<or> IsOutOfRange (bi_file_status b) \<and> p + ?n = length F \<and> bi_pos b + k = bi_limit b"
    using fs k by auto
  let ?b = "b\<lparr>bi_pos := bi_pos b + k\<rparr>"
  have fields: "bi_pos ?b = bi_pos b + k" "bi_limit ?b = bi_limit b" "bi_buf ?b = bi_buf b" "bi_size ?b = bi_size b"
    "bi_input_stream ?b = bi_input_stream b" "bi_file_status ?b = bi_file_status b" by simp_all
  show "buf_at F at ?b (p + k)"
    unfolding buf_at_def fields rest
  proof (intro conjI exI [of _ "p + ?n"])
    show "bi_pos b + k \<le> bi_limit b" "bi_limit b \<le> length (bi_buf b)" using k bl by auto
    show "0 < bi_size b" "bi_size b < 2 ^ 63" using b by (auto simp: buf_at_def)
  qed (fact at, simp only: pk, fact next_piece, fact fs')
qed

lemma buf_read_loop:
  "buf_at F at b p \<Longrightarrow> length result \<le> n \<Longrightarrow> s = OK \<or> IsOutOfRange s \<Longrightarrow>
     (if p + (n - length result) \<le> length F
      then \<exists>s' b'. Buf_ReadNBytes_loop st n result s b = (s', result @ take (n - length result) (drop p F), b') \<and>
        (s' = OK \<or> IsOutOfRange s') \<and> buf_at F at b' (p + (n - length result))
      else \<exists>s' b'. Buf_ReadNBytes_loop st n result s b = (s', result @ drop p F, b') \<and>
        IsOutOfRange s' \<and> buf_at F at b' (length F))"
proof (induction "n - length result" arbitrary: result s b p rule: less_induct)
  case less
  note loop = Buf_ReadNBytes_loop.simps [of st n result s b]
  show ?case
  proof (cases "length result < n")
    case False
    then have "n - length result = 0" "p \<le> length F" using buf_piece(2) [OF less.prems(1), of 0] by auto
    then show ?thesis using False less.prems by (simp add: loop)
  next
    case True
    define sb where "sb = (if bi_pos b = bi_limit b then FillBuffer st b else (s, b))"
    obtain s1 b1 where sb: "sb = (s1, b1)" by fastforce
    have fill: "if bi_pos b = bi_limit b \<and> p = length F then bi_limit b1 = 0 \<and> IsOutOfRange s1 \<and> buf_at F at b1 p \<and> bi_file_status b1 = s1
        else bi_pos b1 < bi_limit b1 \<and> buf_at F at b1 p \<and> (s1 = OK \<or> IsOutOfRange s1)"
    proof (cases "bi_pos b = bi_limit b")
      case True
      then show ?thesis using fill_empty [OF less.prems(1) True] sb by (auto simp: sb_def split: if_splits)
    next
      case False
      then show ?thesis using sb less.prems by (auto simp: sb_def buf_at_def)
    qed
    show ?thesis
    proof (cases "bi_pos b = bi_limit b \<and> p = length F")
      case eof: True
      have e: "b1\<lparr>bi_file_status := s1\<rparr> = b1" using fill eof by simp
      have "Buf_ReadNBytes_loop st n result s b = (s1, result, b1)"
        using True fill eof sb e unfolding loop sb_def [symmetric] by simp
      then show ?thesis using fill eof True by auto
    next
      case False
      then have f: "bi_pos b1 < bi_limit b1" "buf_at F at b1 p" "s1 = OK \<or> IsOutOfRange s1" using fill by auto
      define k where "k = min (bi_limit b1 - bi_pos b1) (n - length result)"
      have k: "k \<le> bi_limit b1 - bi_pos b1" "0 < k" "k \<le> n - length result" using f(1) True by (auto simp: k_def)
      note pc = buf_piece [OF f(2) k(1)]
      let ?b = "b1\<lparr>bi_pos := bi_pos b1 + k\<rparr>" and ?r = "result @ take k (drop p F)"
      have len: "length ?r = length result + k" using pc(1,3) by simp
      have "bi_pos b1 < length (bi_buf b1)" using f(1,2) by (auto simp: buf_at_def)
      then have step: "Buf_ReadNBytes_loop st n result s b = Buf_ReadNBytes_loop st n ?r s1 ?b"
        unfolding loop sb_def [symmetric] sb using True f(1) k(2) by (simp add: Let_def k_def [symmetric] pc(1))
      have IH: "if p + k + (n - length ?r) \<le> length F
        then \<exists>s' b'. Buf_ReadNBytes_loop st n ?r s1 ?b = (s', ?r @ take (n - length ?r) (drop (p + k) F), b') \<and>
          (s' = OK \<or> IsOutOfRange s') \<and> buf_at F at b' (p + k + (n - length ?r))
        else \<exists>s' b'. Buf_ReadNBytes_loop st n ?r s1 ?b = (s', ?r @ drop (p + k) F, b') \<and> IsOutOfRange s' \<and> buf_at F at b' (length F)"
        by (rule less.hyps) (use len k pc(4) f(3) in auto)
      have m: "k + (n - length ?r) = n - length result" "p + k + (n - length ?r) = p + (n - length result)" using len k by auto
      have t1: "take k (drop p F) @ take (n - length ?r) (drop (p + k) F) = take (n - length result) (drop p F)"
        using take_add [of k "n - length ?r" "drop p F"] unfolding m(1) by (simp add: add.commute)
      have t2: "take k (drop p F) @ drop (p + k) F = drop p F"
        using append_take_drop_id [of k "drop p F"] by (simp add: add.commute)
      show ?thesis using IH unfolding step m(2) append_assoc t1 t2 .
    qed
  qed
qed

lemma buf_skip_inner:
  assumes b: "buf_at F at b p" and n: "\<not> bi_pos b + n < bi_limit b" "p + n \<le> length F \<or> n < 2 ^ 63"
  shows "if p + n \<le> length F then \<exists>b'. Buf_SkipNBytes st (int n) b = (OK, b') \<and> buf_at F at b' (p + n)
    else \<exists>m b'. Buf_SkipNBytes st (int n) b = (Error OUT_OF_RANGE m, b') \<and> buf_at F at b' (length F)"
proof -
  define k where "k = bi_limit b - bi_pos b"
  have bl: "bi_pos b \<le> bi_limit b" using b by (simp add: buf_at_def)
  then have k: "k \<le> n" "int n - (int (bi_limit b) - int (bi_pos b)) = int (n - k)" using n(1) by (auto simp: k_def)
  have at: "at (bi_input_stream b) (p + k)" using b by (auto simp: buf_at_def k_def)
  have sz: "0 < bi_size b" "bi_size b < 2 ^ 63" using b by (auto simp: buf_at_def)
  have fs: "bi_file_status b = OK \<or> IsOutOfRange (bi_file_status b) \<and> p = length F"
    using b by (auto simp: buf_at_def)
  have nl: "\<not> int (bi_pos b) + int n < int (bi_limit b)" using n(1) by simp
  have sk: "Buf_SkipNBytes st (int n) b =
      (let (s, input) = SkipNBytes st (int (n - k)) (bi_input_stream b);
            b = b\<lparr>bi_input_stream := input, bi_pos := 0, bi_limit := 0\<rparr>
        in (s, if IsOutOfRange s then b\<lparr>bi_file_status := s\<rparr> else b))"
    unfolding Buf_SkipNBytes_def k(2) using nl by simp
  show ?thesis
  proof (cases "p + n \<le> length F")
    case True
    then obtain s' where "SkipNBytes st (int (n - k)) (bi_input_stream b) = (OK, s')" "at s' (p + k + (n - k))"
      using skip_in [OF at, of "n - k"] k by auto
    then show ?thesis using True k fs sz unfolding sk by (auto simp: buf_at_def)
  next
    case False
    then obtain m s' where "SkipNBytes st (int (n - k)) (bi_input_stream b) = (Error OUT_OF_RANGE m, s')" "at s' (length F)"
      using skip_past [OF at, of "n - k"] k less_imp_diff_less [of n "2 ^ 63" k] n(2) by auto
    then show ?thesis using False k sz unfolding sk by (auto simp: buf_at_def)
  qed
qed

lemma buf_skip:
  assumes b: "buf_at F at b p" and n: "p + n \<le> length F \<or> n < 2 ^ 63"
  shows "if p + n \<le> length F then \<exists>b'. Buf_SkipNBytes st (int n) b = (OK, b') \<and> buf_at F at b' (p + n)
    else \<exists>m b'. Buf_SkipNBytes st (int n) b = (Error OUT_OF_RANGE m, b') \<and> buf_at F at b' (length F)"
proof (cases "bi_pos b + n < bi_limit b")
  case True
  then show ?thesis using buf_piece(2,4) [OF b, of n] by (simp add: Buf_SkipNBytes_def)
qed (use buf_skip_inner [OF b _ n] in blast)

lemma buf_read:
  assumes b: "buf_at F at b p"
  shows "if p + n \<le> length F then \<exists>b'. Buf_ReadNBytes st (int n) r b = (OK, take n (drop p F), b') \<and> buf_at F at b' (p + n)
    else \<exists>m b'. Buf_ReadNBytes st (int n) r b = (Error OUT_OF_RANGE m, drop p F, b') \<and> buf_at F at b' (length F)"
proof (cases "bi_file_status b \<noteq> OK \<and> n > 0")
  case True
  then obtain m where "bi_file_status b = Error OUT_OF_RANGE m" "p = length F"
    using b by (auto simp: buf_at_def elim!: IsOutOfRange.elims)
  then show ?thesis using True b by (auto simp: Buf_ReadNBytes_def)
next
  case False
  have un: "Buf_ReadNBytes st (int n) r b = (let (s, result, b) = Buf_ReadNBytes_loop st n [] OK b
        in (if IsOutOfRange s \<and> length result = n then OK else s, result, b))"
    using False by (auto simp: Buf_ReadNBytes_def)
  note l = buf_read_loop [OF b, of "[]" n OK]
  show ?thesis
  proof (cases "p + n \<le> length F")
    case True
    then obtain s' b' where "Buf_ReadNBytes_loop st n [] OK b = (s', take n (drop p F), b')"
      "s' = OK \<or> IsOutOfRange s'" "buf_at F at b' (p + n)" using l by auto
    then show ?thesis using True by (auto simp: un)
  next
    case past: False
    then obtain s' b' where "Buf_ReadNBytes_loop st n [] OK b = (s', drop p F, b')" "IsOutOfRange s'" "buf_at F at b' (length F)"
      using l by auto
    then show ?thesis using past buf_piece(2) [OF b, of 0] by (auto simp: un elim!: IsOutOfRange.elims)
  qed
qed

lemma buf_tell_reset:
  assumes b: "buf_at F at b p"
  shows "Buf_Tell st b = int p" "\<exists>b'. Buf_Reset st b = (OK, b') \<and> buf_at F at b' 0"
proof -
  have at: "at (bi_input_stream b) (p + (bi_limit b - bi_pos b))" "bi_pos b \<le> bi_limit b" using b by (auto simp: buf_at_def)
  show "Buf_Tell st b = int p" using tell [OF at(1)] at(2) by (simp add: Buf_Tell_def)
  obtain s' where "Reset st (bi_input_stream b) = (OK, s')" "at s' 0" using reset [OF at(1)] by blast
  then show "\<exists>b'. Buf_Reset st b = (OK, b') \<and> buf_at F at b' 0" using b by (auto simp: Buf_Reset_def buf_at_def)
qed

lemma buffered_is_stream: "input_stream F (Buf_ops st) (buf_at F at)"
  (is "input_stream F ?ops _")
proof
  fix b p n k and r :: bytes
  assume b: "buf_at F at b p"
  show "\<exists>e d s' p'. ReadNBytes ?ops k r b = (e, d, s') \<and> buf_at F at s' p' \<and> (e = OK \<longrightarrow> length d < 2 ^ 63)"
    "\<exists>m. SkipNBytes ?ops k b = (Error INVALID_ARGUMENT m, b)" if "k < 0"
    using that b by (auto simp: Buf_ops_def Buf_ReadNBytes_def Buf_SkipNBytes_def)
  show "p \<le> length F" using buf_piece(2) [OF b, of 0] by simp
  show "Tell ?ops b = int p" "\<exists>b'. Reset ?ops b = (OK, b') \<and> buf_at F at b' 0" using buf_tell_reset [OF b] by (simp_all add: Buf_ops_def)
  show "\<exists>b'. ReadNBytes ?ops (int n) r b = (OK, take n (drop p F), b') \<and> buf_at F at b' (p + n)" if "p + n \<le> length F"
    using buf_read [OF b, of n r] that by (simp add: Buf_ops_def)
  show "\<exists>m b'. ReadNBytes ?ops (int n) r b = (Error OUT_OF_RANGE m, drop p F, b') \<and> buf_at F at b' (length F)"
    if "length F < p + n" using buf_read [OF b, of n r] that by (simp add: Buf_ops_def)
  show "\<exists>b'. SkipNBytes ?ops (int n) b = (OK, b') \<and> buf_at F at b' (p + n)" if "p + n \<le> length F"
    using buf_skip [OF b, of n] that by (simp add: Buf_ops_def)
  show "\<exists>m b'. SkipNBytes ?ops (int n) b = (Error OUT_OF_RANGE m, b') \<and> buf_at F at b' (length F)"
    if "length F < p + n" "n < 2 ^ 63" using buf_skip [OF b, of n] that by (simp add: Buf_ops_def)
qed

lemma buf_new: "at s p \<Longrightarrow> 0 < n \<Longrightarrow> n < 2 ^ 63 \<Longrightarrow> buf_at F at (BufferedInputStream_new s n) p"
  by (simp add: buf_at_def BufferedInputStream_new_def)

text \<open>One step of the readers that take a byte at a time.\<close>

lemma buf_next_byte:
  assumes b: "buf_at F at b p" and s: "s = OK \<or> IsOutOfRange s" and sb: "(if bi_pos b = bi_limit b then FillBuffer st b else (s, b)) = (s1, b1)"
  shows "if p = length F then bi_limit b1 = 0 \<and> IsOutOfRange s1 \<and> buf_at F at b1 p
    else bi_limit b1 \<noteq> 0 \<and> bi_buf b1 ! bi_pos b1 = F ! p \<and> buf_at F at (b1\<lparr>bi_pos := Suc (bi_pos b1)\<rparr>) (Suc p) \<and>
      (s1 = OK \<or> IsOutOfRange s1)"
proof -
  have pl: "p \<le> length F" using buf_piece(2) [OF b, of 0] by simp
  have byte: "bi_buf c ! bi_pos c = F ! p \<and> buf_at F at (c\<lparr>bi_pos := Suc (bi_pos c)\<rparr>) (Suc p) \<and> p \<noteq> length F"
    if c: "buf_at F at c p" "bi_pos c < bi_limit c" for c
  proof -
    note pc = buf_piece [OF c(1), of 1]
    have k: "1 \<le> bi_limit c - bi_pos c" using c(2) by simp
    have lim: "bi_limit c \<le> length (bi_buf c)" using c(1) by (simp add: buf_at_def)
    have lt: "p < length F" "bi_pos c < length (bi_buf c)" using pc(2) [OF k] c(2) lim by linarith+
    have "take 1 (drop (bi_pos c) (bi_buf c)) = [bi_buf c ! bi_pos c]" "take 1 (drop p F) = [F ! p]"
      using lt by (simp_all add: take_Suc hd_drop_conv_nth)
    then show ?thesis using pc(1,4) [OF k] lt by simp
  qed
  show ?thesis
  proof (cases "bi_pos b = bi_limit b")
    case True
    then have sb': "FillBuffer st b = (s1, b1)" using sb by simp
    note fe = fill_empty [OF b True, unfolded sb' prod.inject]
    show ?thesis
    proof (cases "p = length F")
      case eof: True
      then show ?thesis using fe by simp
    next
      case False
      then have "0 < bi_limit b1" "bi_pos b1 = 0" "buf_at F at b1 p" "s1 = OK \<or> IsOutOfRange s1" using fe by auto
      then show ?thesis using byte [of b1] False by simp
    qed
  next
    case False
    then have e: "b1 = b" "s1 = s" using sb by simp_all
    have "bi_pos b < bi_limit b" using False b by (simp add: buf_at_def)
    from byte [OF b this] show ?thesis using \<open>bi_pos b < bi_limit b\<close> s unfolding e by simp
  qed
qed

lemma ReadLine_loop_correct:
  "buf_at F at b p \<Longrightarrow> s = OK \<or> IsOutOfRange s \<Longrightarrow>
   (\<exists>s' b'. ReadLine_loop st eol result s b = Some (s', result @ filter (\<lambda>c. c \<noteq> 13) (takeWhile (\<lambda>c. c \<noteq> 10) (drop p F)) @
        (if eol \<and> 10 \<in> set (drop p F) then [10] else []), b') \<and>
      buf_at F at b' (min (length F) (p + length (takeWhile (\<lambda>c. c \<noteq> 10) (drop p F)) + 1)) \<and>
      (s' = OK \<or> IsOutOfRange s') \<and>
      (IsOutOfRange s' \<longleftrightarrow> 10 \<notin> set (drop p F) \<and> result @ filter (\<lambda>c. c \<noteq> 13) (drop p F) = []))"
proof (induction "length F - p" arbitrary: result s b p rule: less_induct)
  case less
  obtain s1 b1 where sb: "(if bi_pos b = bi_limit b then FillBuffer st b else (s, b)) = (s1, b1)" by fastforce
  note nb = buf_next_byte [OF less.prems sb]
  note loop = ReadLine_loop.simps [of st eol result s b]
  have pl: "p \<le> length F" using buf_piece(2) [OF less.prems(1), of 0] by simp
  show ?case
  proof (cases "p = length F")
    case True
    then have f: "bi_limit b1 = 0" "IsOutOfRange s1" "buf_at F at b1 p" using nb by auto
    then show ?thesis using True sb unfolding loop by (auto simp: Let_def)
  next
    case False
    then have lt: "p < length F" using pl by simp
    define c where "c = F ! p"
    define b2 where "b2 = b1\<lparr>bi_pos := Suc (bi_pos b1)\<rparr>"
    have f: "bi_limit b1 \<noteq> 0" "bi_buf b1 ! bi_pos b1 = c" "buf_at F at b2 (Suc p)" "s1 = OK \<or> IsOutOfRange s1"
      using nb False by (auto simp: c_def b2_def)
    have d: "drop p F = c # drop (Suc p) F" using lt by (simp add: c_def Cons_nth_drop_Suc)
    show ?thesis
    proof (cases "c = 10")
      case True
      then have "ReadLine_loop st eol result s b = Some (OK, if eol then result @ [c] else result, b2)"
        unfolding loop sb using f by (simp add: Let_def b2_def)
      then show ?thesis using True f(3) lt unfolding d by (auto simp: min_absorb2 Suc_leI)
    next
      case nl: False
      let ?r = "if c \<noteq> 13 then result @ [c] else result"
      have step: "ReadLine_loop st eol result s b = ReadLine_loop st eol ?r s1 b2"
        unfolding loop sb using f nl by (simp add: Let_def b2_def)
      have "length F - Suc p < length F - p" using lt by simp
      from less.hyps [OF this f(3,4), of ?r] show ?thesis unfolding step d using nl by (auto split: if_splits)
    qed
  qed
qed

lemma ReadAll_loop_correct:
  "buf_at F at b p \<Longrightarrow> bi_pos b = bi_limit b \<Longrightarrow>
     \<exists>s' b'. ReadAll_loop st result OK b = Some (s', result @ drop p F, b') \<and> IsOutOfRange s' \<and>
       bi_pos b' = bi_limit b' \<and> at (bi_input_stream b') (length F)"
proof (induction "length F - p" arbitrary: result b p rule: less_induct)
  case less
  note loop = ReadAll_loop.simps [of st result OK b]
  obtain s1 b1 where sb: "FillBuffer st b = (s1, b1)" and
    f: "if p = length F then bi_limit b1 = 0 \<and> IsOutOfRange s1 \<and> buf_at F at b1 p \<and> bi_file_status b1 = s1
     else 0 < bi_limit b1 \<and> bi_pos b1 = 0 \<and> buf_at F at b1 p \<and> (s1 = OK \<or> IsOutOfRange s1 \<and> p + bi_limit b1 = length F) \<and>
       bi_file_status b1 = OK \<and> bi_limit b1 = length (bi_buf b1)"
    using fill_empty [OF less.prems] by blast
  show ?case
  proof (cases "p = length F")
    case True
    then have g: "bi_limit b1 = 0" "IsOutOfRange s1" "buf_at F at b1 p" using f by auto
    then have "bi_pos b1 = 0" "at (bi_input_stream b1) (length F)" using True by (auto simp: buf_at_def)
    then show ?thesis using True sb g unfolding loop by simp
  next
    case False
    define l where "l = bi_limit b1"
    define b2 where "b2 = b1\<lparr>bi_pos := l\<rparr>"
    have g: "0 < l" "bi_pos b1 = 0" "buf_at F at b1 p" "s1 = OK \<or> IsOutOfRange s1 \<and> p + l = length F" "l = length (bi_buf b1)"
      using f False by (auto simp: l_def)
    have pc: "bi_buf b1 = take l (drop p F)" "p + l \<le> length F" "buf_at F at b2 (p + l)"
      using buf_piece(1,2,4) [OF g(3), of l] g(2,5) by (simp_all add: l_def b2_def)
    have b2: "bi_pos b2 = bi_limit b2" by (simp add: b2_def l_def)
    have step: "ReadAll_loop st result OK b = ReadAll_loop st (result @ take l (drop p F)) s1 b2"
      unfolding loop sb using g(1) pc(1) by (simp add: Let_def l_def b2_def)
    from g(4) show ?thesis
    proof
      assume ok: "s1 = OK"
      have "length F - (p + l) < length F - p" using g(1) pc(2) by simp
      moreover have "take l (drop p F) @ drop (p + l) F = drop p F"
        using append_take_drop_id [of l "drop p F"] by (simp add: add.commute)
      ultimately show ?thesis
        using less.hyps [of "p + l" b2 "result @ take l (drop p F)"] pc(3) b2 unfolding step ok by simp
    next
      assume e: "IsOutOfRange s1 \<and> p + l = length F"
      then have "s1 \<noteq> OK" by auto
      then have "ReadAll_loop st result OK b = Some (s1, result @ take l (drop p F), b2)"
        unfolding step by (subst ReadAll_loop.simps) simp
      moreover have "take l (drop p F) = drop p F"
      proof (rule take_all)
        have "length F - p = l" using e by linarith
        then show "length (drop p F) \<le> l" by simp
      qed
      moreover have "at (bi_input_stream b2) (length F)" using pc(3) b2 e by (auto simp: buf_at_def)
      ultimately show ?thesis using e b2 by auto
    qed
  qed
qed

lemma ReadAll_correct:
  assumes b: "buf_at F at b p"
  shows "\<exists>b'. ReadAll st b = Some (OK, drop (p + (bi_limit b - bi_pos b)) F, b')"
proof -
  let ?q = "p + (bi_limit b - bi_pos b)"
  let ?b = "b\<lparr>bi_pos := bi_pos b + (bi_limit b - bi_pos b)\<rparr>"
  have q: "buf_at F at ?b ?q" using buf_piece(4) [OF b, of "bi_limit b - bi_pos b"] by simp
  have full: "bi_pos ?b = bi_limit ?b" using b by (simp add: buf_at_def)
  have same: "FillBuffer st ?b = FillBuffer st b" by (simp add: FillBuffer_def case_prod_beta Let_def)
  have "ReadAll_loop st [] OK b = ReadAll_loop st [] OK ?b"
    by (subst (1 2) ReadAll_loop.simps) (simp only: same if_True simp_thms)
  then show ?thesis using ReadAll_loop_correct [OF q full, of "[]"] by (auto simp: ReadAll_def)
qed


text \<open>A run of reads, by the bytes of the file.\<close>

lemma reads_of_file:
  "at s p \<Longrightarrow> list_all (\<lambda>n. n < 2 ^ 63) ns \<Longrightarrow> read_run st ns s = file_run F p ns"
proof (induction ns arbitrary: s p)
  case (Cons n ns)
  show ?case
  proof (cases "p + n \<le> length F")
    case True
    then show ?thesis using read_in [OF Cons.prems(1) True, of "[]"] Cons by auto
  next
    case False
    then show ?thesis using read_past [OF Cons.prems(1), of n "[]"] Cons by auto
  qed
qed simp

lemma stream_step_at:
  assumes at: "at s p" and c: "stream_call_ok c"
  shows "\<exists>a s' p'. stream_step st c s = (a, s') \<and> position_step F c p = (a, p') \<and> at s' p'"
proof (cases c)
  case (StRead n)
  then show ?thesis using read_in [OF at, of n "[]"] read_past [OF at, of n "[]"] c by (cases "p + n \<le> length F") force+
next
  case (StSkip n)
  then show ?thesis using skip_in [OF at, of n] skip_past [OF at, of n] c by (cases "p + n \<le> length F") force+
next
  case StReset
  then show ?thesis using reset [OF at] by force
qed

lemma stream_run_at: "at s p \<Longrightarrow> list_all stream_call_ok cs \<Longrightarrow> stream_run st cs s = position_run F cs p"
proof (induction cs arbitrary: s p)
  case (Cons c cs)
  then obtain a s' p' where "stream_step st c s = (a, s')" "position_step F c p = (a, p')" "at s' p'"
    using stream_step_at [of s p c] by auto
  then show ?case using Cons tell by simp
qed simp

end

section \<open>Properties\<close>

interpretation memory_file: random_access_file "memory_read F" F for F
  by unfold_locales (simp_all add: memory_read_def)

interpretation file_stream: input_stream F "RA_ops (memory_read F)" "ra_at F" for F
  by (rule memory_file.ra_is_stream)

interpretation buffered_file_stream: input_stream F "Buf_ops (RA_ops (memory_read F))" "buf_at F (ra_at F)" for F
  by (rule file_stream.buffered_is_stream)

lemma ra_new: "length F < 2 ^ 63 \<Longrightarrow> ra_at F RandomAccessInputStream_new 0"
  by (simp add: ra_at_def RandomAccessInputStream_new_def)

lemma buffered_new:
  "random_access_file rd F \<Longrightarrow> length F < 2 ^ 63 \<Longrightarrow> 0 < n \<Longrightarrow> n < 2 ^ 63 \<Longrightarrow>
     buf_at F (ra_at F) (BufferedInputStream_new RandomAccessInputStream_new n) 0"
  using input_stream.buf_new [OF random_access_file.ra_is_stream ra_new] .

text \<open>C23. Buffering is transparent: over any stream that meets the contract of a position in a file, for every buffer size,
  every sequence of reads, skips and resets of a \<^verbatim>\<open>BufferedInputStream\<close> gives the same error codes, bytes and positions as
  on the stream itself, namely those of the position in the file. \<^verbatim>\<open>RandomAccessInputStream\<close> on a file is such a stream.\<close>

theorem buffered_reads_transparent:
  assumes "input_stream F st at" "at s p" "0 < n" "n < 2 ^ 63" "list_all stream_call_ok cs"
    and "random_access_file rd F" "length F < 2 ^ 63"
  shows "stream_run (Buf_ops st) cs (BufferedInputStream_new s n) = position_run F cs p \<and> stream_run st cs s = position_run F cs p \<and>
    stream_run (RA_ops rd) cs RandomAccessInputStream_new = position_run F cs 0"
proof (intro conjI)
  show "stream_run (Buf_ops st) cs (BufferedInputStream_new s n) = position_run F cs p"
    using input_stream.stream_run_at [OF input_stream.buffered_is_stream [OF assms(1)] input_stream.buf_new [OF assms(1-4)] assms(5)] .
  show "stream_run st cs s = position_run F cs p" using input_stream.stream_run_at [OF assms(1,2,5)] .
  show "stream_run (RA_ops rd) cs RandomAccessInputStream_new = position_run F cs 0"
    using input_stream.stream_run_at [OF random_access_file.ra_is_stream [OF assms(6)] ra_new [OF assms(7)] assms(5)] .
qed

theorem buffered_reads_transparent_witness:
  "stream_run (Buf_ops (RA_ops (memory_read [1, 2, 3]))) [StRead 2, StReset, StSkip 1, StRead 3] (BufferedInputStream_new RandomAccessInputStream_new 1) =
     [((None, [1, 2]), 2), ((None, []), 0), ((None, []), 1), ((Some OUT_OF_RANGE, [2, 3]), 3)]"
  using buffered_reads_transparent [OF file_stream.input_stream_axioms [of "[1, 2, 3]"] ra_new, of 1 "[StRead 2, StReset, StSkip 1, StRead 3]"]
    memory_file.random_access_file_axioms [of "[1, 2, 3]"] by simp

text \<open>C24. \<^verbatim>\<open>ReadLine\<close> returns on every stream over a finite file, whatever the buffer size. Its result is the bytes before the next
  newline, or to the end of the file if there is none, without the carriage returns among them; the position moves past the
  newline. The status is \<^verbatim>\<open>OUT_OF_RANGE\<close> if no newline is left and the result is empty, also when carriage returns were
  still left, and OK otherwise.\<close>

theorem ReadLine_reads_line:
  assumes "input_stream F st at" "buf_at F at b p"
  shows "\<exists>s b'. ReadLine st b = Some (s, filter (\<lambda>c. c \<noteq> 13) (takeWhile (\<lambda>c. c \<noteq> 10) (drop p F)), b') \<and>
    buf_at F at b' (min (length F) (p + length (takeWhile (\<lambda>c. c \<noteq> 10) (drop p F)) + 1)) \<and>
    code_of s = (if 10 \<notin> set (drop p F) \<and> set (drop p F) \<subseteq> {13} then Some OUT_OF_RANGE else None)"
proof -
  have e: "filter (\<lambda>c. c \<noteq> 13) (drop p F) = [] \<longleftrightarrow> set (drop p F) \<subseteq> {13}" by (auto simp: filter_empty_conv)
  show ?thesis
    using input_stream.ReadLine_loop_correct [OF assms, of OK False "[]"] code_of_OutOfRange
    by (fastforce simp: ReadLine_def ReadLineHelper_def e)
qed

theorem ReadLine_reads_line_witness:
  "(\<exists>s b'. ReadLine (RA_ops (memory_read [65, 10, 66])) (BufferedInputStream_new RandomAccessInputStream_new 1) = Some (s, [65], b')) \<and>
   (\<exists>m b'. ReadLine (RA_ops (memory_read [13])) (BufferedInputStream_new RandomAccessInputStream_new 1) = Some (Error OUT_OF_RANGE m, [], b'))"
proof
  show "\<exists>s b'. ReadLine (RA_ops (memory_read [65, 10, 66])) (BufferedInputStream_new RandomAccessInputStream_new 1) = Some (s, [65], b')"
    using ReadLine_reads_line [OF file_stream.input_stream_axioms [of "[65, 10, 66]"] buffered_new [OF memory_file.random_access_file_axioms [of "[65, 10, 66]"], of 1]]
    by auto
  obtain s b' where "ReadLine (RA_ops (memory_read [13])) (BufferedInputStream_new RandomAccessInputStream_new 1) = Some (s, [], b')" "code_of s = Some OUT_OF_RANGE"
    using ReadLine_reads_line [OF file_stream.input_stream_axioms [of "[13]"] buffered_new [OF memory_file.random_access_file_axioms [of "[13]"], of 1]]
    by auto
  then show "\<exists>m b'. ReadLine (RA_ops (memory_read [13])) (BufferedInputStream_new RandomAccessInputStream_new 1) = Some (Error OUT_OF_RANGE m, [], b')"
    by (cases s) auto
qed

text \<open>\<^verbatim>\<open>ReadAll\<close> returns the file from the position of the underlying stream on: all of it from a fresh
  stream, but without the bytes that were already buffered and not yet read.\<close>

theorem ReadAll_drops_buffered:
  assumes "random_access_file rd F" "buf_at F (ra_at F) b p"
  shows "\<exists>b'. ReadAll (RA_ops rd) b = Some (OK, drop (p + (bi_limit b - bi_pos b)) F, b')"
  using input_stream.ReadAll_correct [OF random_access_file.ra_is_stream [OF assms(1)] assms(2)] .

definition half_read :: "RandomAccessInputStream BufferedInputStream" where
  "half_read = snd (snd (Buf_ReadNBytes (RA_ops (memory_read [1, 2, 3])) 1 [] (BufferedInputStream_new RandomAccessInputStream_new 2)))"

theorem ReadAll_drops_buffered_witness:
  "\<exists>b'. ReadAll (RA_ops (memory_read [1, 2, 3])) half_read = Some (OK, [3], b')"
proof -
  have e: "half_read = \<lparr>bi_input_stream = \<lparr>ra_pos = 2\<rparr>, bi_size = 2, bi_buf = [1, 2], bi_pos = 1, bi_limit = 2, bi_file_status = OK\<rparr>"
    unfolding half_read_def by code_simp
  have "buf_at [1, 2, 3] (ra_at [1, 2, 3]) half_read 1"
    by (simp add: e buf_at_def ra_at_def)
  from ReadAll_drops_buffered [OF memory_file.random_access_file_axioms this] show ?thesis by (simp add: e)
qed

end
