(* ===== verification/Record_IO.thy ===== *)
theory Record_IO
  imports Input_Stream
begin

text \<open>
  \<^verbatim>\<open>core/lib/io/record_writer.cc\<close> and \<^verbatim>\<open>core/lib/io/record_reader.cc\<close>: TFRecord files. A record is a
  64-bit length, its masked checksum, the data and the masked checksum of the data. The destination of the writer and
  the zlib streams are parameters: the writer calls the virtual functions of \<^verbatim>\<open>WritableFile\<close>, a record of
  functions on the state of the destination, and the reader those of \<^verbatim>\<open>InputStreamInterface\<close>. The build
  modelled is the one without \<^verbatim>\<open>IS_SLIM_BUILD\<close>; \<open>None\<close> is \<^verbatim>\<open>LOG(FATAL)\<close>. Offsets that the source
  passes on for its error messages only are left out.
\<close>

section \<open>Options\<close>

text \<open>The macros of \<^verbatim>\<open>zlib.h\<close> are a parameter.\<close>

record zlib_h =
  Z_NO_FLUSH :: "8 word"
  MAX_WBITS :: "8 word"
  Z_DEFAULT_COMPRESSION :: "8 word"
  Z_DEFLATED :: "8 word"
  Z_DEFAULT_STRATEGY :: "8 word"

record ZlibCompressionOptions =
  flush_mode :: "8 word"
  input_buffer_size :: int
  output_buffer_size :: int
  window_bits :: "8 word"
  compression_level :: "8 word"
  compression_method :: "8 word"
  mem_level :: "8 word"
  compression_strategy :: "8 word"

definition ZlibCompressionOptions_new :: "zlib_h \<Rightarrow> ZlibCompressionOptions" where
  "ZlibCompressionOptions_new z =
     \<lparr>flush_mode = Z_NO_FLUSH z, input_buffer_size = 256 * 1024, output_buffer_size = 256 * 1024,
      window_bits = MAX_WBITS z, compression_level = Z_DEFAULT_COMPRESSION z, compression_method = Z_DEFLATED z,
      mem_level = 9, compression_strategy = Z_DEFAULT_STRATEGY z\<rparr>"

definition zlib_DEFAULT :: "zlib_h \<Rightarrow> ZlibCompressionOptions" where
  "zlib_DEFAULT z = ZlibCompressionOptions_new z"

definition zlib_RAW :: "zlib_h \<Rightarrow> ZlibCompressionOptions" where
  "zlib_RAW z = (let options = ZlibCompressionOptions_new z in options\<lparr>window_bits := - window_bits options\<rparr>)"

definition zlib_GZIP :: "zlib_h \<Rightarrow> ZlibCompressionOptions" where
  "zlib_GZIP z = (let options = ZlibCompressionOptions_new z in options\<lparr>window_bits := window_bits options + 16\<rparr>)"

definition kNone :: string where "kNone = ''''"
definition kGzip :: string where "kGzip = ''GZIP''"

datatype RecordCompressionType = NONE | ZLIB_COMPRESSION

record RecordWriterOptions =
  rwo_compression_type :: RecordCompressionType
  rwo_zlib_options :: ZlibCompressionOptions

definition RecordWriterOptions_new :: "zlib_h \<Rightarrow> RecordWriterOptions" where
  "RecordWriterOptions_new z = \<lparr>rwo_compression_type = NONE, rwo_zlib_options = ZlibCompressionOptions_new z\<rparr>"

definition CreateRecordWriterOptions :: "zlib_h \<Rightarrow> string \<Rightarrow> RecordWriterOptions" where
  "CreateRecordWriterOptions z compression_type =
     (let options = RecordWriterOptions_new z in
      if compression_type = ''ZLIB'' then
        options\<lparr>rwo_compression_type := ZLIB_COMPRESSION, rwo_zlib_options := zlib_DEFAULT z\<rparr>
      else if compression_type = kGzip then
        options\<lparr>rwo_compression_type := ZLIB_COMPRESSION, rwo_zlib_options := zlib_GZIP z\<rparr>
      else options)"

record RecordReaderOptions =
  rro_compression_type :: RecordCompressionType
  rro_buffer_size :: int
  rro_zlib_options :: ZlibCompressionOptions

definition RecordReaderOptions_new :: "zlib_h \<Rightarrow> RecordReaderOptions" where
  "RecordReaderOptions_new z =
     \<lparr>rro_compression_type = NONE, rro_buffer_size = 0, rro_zlib_options = ZlibCompressionOptions_new z\<rparr>"

definition CreateRecordReaderOptions :: "zlib_h \<Rightarrow> string \<Rightarrow> RecordReaderOptions" where
  "CreateRecordReaderOptions z compression_type =
     (let options = RecordReaderOptions_new z in
      if compression_type = ''ZLIB'' then
        options\<lparr>rro_compression_type := ZLIB_COMPRESSION, rro_zlib_options := zlib_DEFAULT z\<rparr>
      else if compression_type = kGzip then
        options\<lparr>rro_compression_type := ZLIB_COMPRESSION, rro_zlib_options := zlib_GZIP z\<rparr>
      else options)"

section \<open>The writer\<close>

record 'f writable_file =
  wf_Append :: "'f \<Rightarrow> bytes \<Rightarrow> status \<times> 'f"
  wf_Flush :: "'f \<Rightarrow> status \<times> 'f"
  wf_Sync :: "'f \<Rightarrow> status \<times> 'f"
  wf_Close :: "'f \<Rightarrow> status \<times> 'f"

record 'f RecordWriter =
  rw_dest :: "'f option"
  rw_options :: RecordWriterOptions

definition IsZlibCompressed :: "RecordWriterOptions \<Rightarrow> bool" where
  "IsZlibCompressed options \<longleftrightarrow> rwo_compression_type options = ZLIB_COMPRESSION"

text \<open>The destination of a writer: the file of the caller, or a compressor of type \<^verbatim>\<open>'z\<close> on top of it; and the
  dispatch of the virtual functions.\<close>

datatype ('f, 'z) record_dest = PlainDest 'f | ZlibDest 'z

fun on_dest :: "('f \<Rightarrow> status \<times> 'f) \<Rightarrow> ('z \<Rightarrow> status \<times> 'z) \<Rightarrow> ('f, 'z) record_dest \<Rightarrow> status \<times> ('f, 'z) record_dest" where
  "on_dest pf zf (PlainDest f) = (let (s, f) = pf f in (s, PlainDest f))"
| "on_dest pf zf (ZlibDest z) = (let (s, z) = zf z in (s, ZlibDest z))"

definition dest_ops :: "'f writable_file \<Rightarrow> 'z writable_file \<Rightarrow> ('f, 'z) record_dest writable_file" where
  "dest_ops fo zo = \<lparr>wf_Append = (\<lambda>x d. on_dest (\<lambda>f. wf_Append fo f d) (\<lambda>z. wf_Append zo z d) x),
     wf_Flush = on_dest (wf_Flush fo) (wf_Flush zo), wf_Sync = on_dest (wf_Sync fo) (wf_Sync zo),
     wf_Close = on_dest (wf_Close fo) (wf_Close zo)\<rparr>"

text \<open>The constructor; \<open>zlib_buffer dest options\<close> stands for a new \<^verbatim>\<open>ZlibOutputBuffer\<close> on \<open>dest\<close> after its
  \<^verbatim>\<open>Init\<close>.\<close>

definition RecordWriter_new :: "('f \<Rightarrow> ZlibCompressionOptions \<Rightarrow> status \<times> 'z) \<Rightarrow> 'f \<Rightarrow> RecordWriterOptions \<Rightarrow>
    ('f, 'z) record_dest RecordWriter option" where
  "RecordWriter_new zlib_buffer dest options =
     (let w = \<lparr>rw_dest = Some (PlainDest dest), rw_options = options\<rparr> in
      if IsZlibCompressed options then
        let (s, zlib_output_buffer) = zlib_buffer dest (rwo_zlib_options options)
        in if s \<noteq> OK then None else Some (w\<lparr>rw_dest := Some (ZlibDest zlib_output_buffer)\<rparr>)
      else if rwo_compression_type options = NONE then Some w
      else None)"

definition kHeaderSize :: uint64 where "kHeaderSize = 8 + 4"
definition kFooterSize :: uint64 where "kFooterSize = 4"

definition MaskedCrc :: "bytes \<Rightarrow> uint32" where
  "MaskedCrc data = Mask (crc_Value data)"

definition PopulateHeader :: "bytes \<Rightarrow> bytes" where
  "PopulateHeader data =
     (let n = EncodeFixed64 kLittleEndian (word_of_nat (length data))
      in n @ EncodeFixed32 kLittleEndian (MaskedCrc n))"

definition PopulateFooter :: "bytes \<Rightarrow> bytes" where
  "PopulateFooter data = EncodeFixed32 kLittleEndian (MaskedCrc data)"

definition WriteRecord :: "'f writable_file \<Rightarrow> bytes \<Rightarrow> 'f RecordWriter \<Rightarrow> status \<times> 'f RecordWriter" where
  "WriteRecord fo data w =
     (case rw_dest w of
        None \<Rightarrow> (Error FAILED_PRECONDITION ''Writer not initialized or previously closed'', w)
      | Some dest \<Rightarrow>
          let header = PopulateHeader data; footer = PopulateFooter data;
              (s, dest) = wf_Append fo dest header
          in if s \<noteq> OK then (s, w\<lparr>rw_dest := Some dest\<rparr>)
             else let (s, dest) = wf_Append fo dest data
               in if s \<noteq> OK then (s, w\<lparr>rw_dest := Some dest\<rparr>)
                  else let (s, dest) = wf_Append fo dest footer in (s, w\<lparr>rw_dest := Some dest\<rparr>))"

text \<open>\<^verbatim>\<open>Close\<close> also returns the destination that it closed and released, if any.\<close>

definition RecordWriter_Close :: "'f writable_file \<Rightarrow> 'f RecordWriter \<Rightarrow> status \<times> 'f RecordWriter \<times> 'f option" where
  "RecordWriter_Close fo w =
     (case rw_dest w of None \<Rightarrow> (OK, w, None)
      | Some dest \<Rightarrow>
          if IsZlibCompressed (rw_options w) then
            let (s, dest) = wf_Close fo dest in (s, w\<lparr>rw_dest := None\<rparr>, Some dest)
          else (OK, w, None))"

definition RecordWriter_Flush :: "'f writable_file \<Rightarrow> 'f RecordWriter \<Rightarrow> status \<times> 'f RecordWriter" where
  "RecordWriter_Flush fo w =
     (case rw_dest w of
        None \<Rightarrow> (Error FAILED_PRECONDITION ''Writer not initialized or previously closed'', w)
      | Some dest \<Rightarrow>
          if IsZlibCompressed (rw_options w) then
            let (s, dest) = wf_Flush fo dest in (s, w\<lparr>rw_dest := Some dest\<rparr>)
          else (OK, w))"

section \<open>The reader\<close>

record Stats =
  file_size :: int64
  data_size :: int64
  entries :: int64

record Metadata =
  stats :: Stats

record 's RecordReader =
  rr_options :: RecordReaderOptions
  rr_input_stream :: 's
  last_read_failed :: bool
  cached_metadata :: "Metadata option"

text \<open>The streams a reader may own, and the dispatch of their virtual functions: the file with or without a buffer, and
  a decompressor on top of either.\<close>

datatype file_stream =
    DirectStream RandomAccessInputStream
  | BufferedStream "RandomAccessInputStream BufferedInputStream"

fun fs_ReadNBytes :: "file_reader \<Rightarrow> int \<Rightarrow> bytes \<Rightarrow> file_stream \<Rightarrow> status \<times> bytes \<times> file_stream" where
  "fs_ReadNBytes rd n result (DirectStream r) = (let (s, d, r) = ReadNBytes (RA_ops rd) n result r in (s, d, DirectStream r))"
| "fs_ReadNBytes rd n result (BufferedStream b) =
     (let (s, d, b) = ReadNBytes (Buf_ops (RA_ops rd)) n result b in (s, d, BufferedStream b))"

fun fs_SkipNBytes :: "file_reader \<Rightarrow> int \<Rightarrow> file_stream \<Rightarrow> status \<times> file_stream" where
  "fs_SkipNBytes rd n (DirectStream r) = (let (s, r) = SkipNBytes (RA_ops rd) n r in (s, DirectStream r))"
| "fs_SkipNBytes rd n (BufferedStream b) = (let (s, b) = SkipNBytes (Buf_ops (RA_ops rd)) n b in (s, BufferedStream b))"

fun fs_Tell :: "file_reader \<Rightarrow> file_stream \<Rightarrow> int" where
  "fs_Tell rd (DirectStream r) = Tell (RA_ops rd) r"
| "fs_Tell rd (BufferedStream b) = Tell (Buf_ops (RA_ops rd)) b"

fun fs_Reset :: "file_reader \<Rightarrow> file_stream \<Rightarrow> status \<times> file_stream" where
  "fs_Reset rd (DirectStream r) = (let (s, r) = Reset (RA_ops rd) r in (s, DirectStream r))"
| "fs_Reset rd (BufferedStream b) = (let (s, b) = Reset (Buf_ops (RA_ops rd)) b in (s, BufferedStream b))"

definition fs_ops :: "file_reader \<Rightarrow> file_stream stream_ops" where
  "fs_ops rd = \<lparr>ReadNBytes = fs_ReadNBytes rd, SkipNBytes = fs_SkipNBytes rd, Tell = fs_Tell rd, Reset = fs_Reset rd\<rparr>"

datatype 'z record_stream = PlainStream file_stream | ZlibStream 'z

fun rs_ReadNBytes :: "file_reader \<Rightarrow> 'z stream_ops \<Rightarrow> int \<Rightarrow> bytes \<Rightarrow> 'z record_stream \<Rightarrow> status \<times> bytes \<times> 'z record_stream" where
  "rs_ReadNBytes rd zs n result (PlainStream f) = (let (s, d, f) = ReadNBytes (fs_ops rd) n result f in (s, d, PlainStream f))"
| "rs_ReadNBytes rd zs n result (ZlibStream z) = (let (s, d, z) = ReadNBytes zs n result z in (s, d, ZlibStream z))"

fun rs_SkipNBytes :: "file_reader \<Rightarrow> 'z stream_ops \<Rightarrow> int \<Rightarrow> 'z record_stream \<Rightarrow> status \<times> 'z record_stream" where
  "rs_SkipNBytes rd zs n (PlainStream f) = (let (s, f) = SkipNBytes (fs_ops rd) n f in (s, PlainStream f))"
| "rs_SkipNBytes rd zs n (ZlibStream z) = (let (s, z) = SkipNBytes zs n z in (s, ZlibStream z))"

fun rs_Tell :: "file_reader \<Rightarrow> 'z stream_ops \<Rightarrow> 'z record_stream \<Rightarrow> int" where
  "rs_Tell rd zs (PlainStream f) = Tell (fs_ops rd) f"
| "rs_Tell rd zs (ZlibStream z) = Tell zs z"

fun rs_Reset :: "file_reader \<Rightarrow> 'z stream_ops \<Rightarrow> 'z record_stream \<Rightarrow> status \<times> 'z record_stream" where
  "rs_Reset rd zs (PlainStream f) = (let (s, f) = Reset (fs_ops rd) f in (s, PlainStream f))"
| "rs_Reset rd zs (ZlibStream z) = (let (s, z) = Reset zs z in (s, ZlibStream z))"

definition rs_ops :: "file_reader \<Rightarrow> 'z stream_ops \<Rightarrow> 'z record_stream stream_ops" where
  "rs_ops rd zs = \<lparr>ReadNBytes = rs_ReadNBytes rd zs, SkipNBytes = rs_SkipNBytes rd zs, Tell = rs_Tell rd zs, Reset = rs_Reset rd zs\<rparr>"

text \<open>The constructor; \<open>zlib_stream input options\<close> stands for a new \<^verbatim>\<open>ZlibInputStream\<close> on \<open>input\<close>.\<close>

definition RecordReader_new :: "(file_stream \<Rightarrow> ZlibCompressionOptions \<Rightarrow> 'z) \<Rightarrow> RecordReaderOptions \<Rightarrow>
    'z record_stream RecordReader option" where
  "RecordReader_new zlib_stream options =
     (let input_stream =
            (if rro_buffer_size options > 0
             then BufferedStream (BufferedInputStream_new RandomAccessInputStream_new (nat (rro_buffer_size options)))
             else DirectStream RandomAccessInputStream_new);
          reader = (\<lambda>s. \<lparr>rr_options = options, rr_input_stream = s, last_read_failed = False, cached_metadata = None\<rparr>)
      in if rro_compression_type options = ZLIB_COMPRESSION
         then Some (reader (ZlibStream (zlib_stream input_stream (rro_zlib_options options))))
         else if rro_compression_type options = NONE then Some (reader (PlainStream input_stream))
         else None)"

definition SIZE_MAX :: uint64 where "SIZE_MAX = - 1"

text \<open>\<^verbatim>\<open>ReadChecksummed\<close> on the stream of the reader. The checksum is read inside the result, whose length
  has just been tested.\<close>

definition ReadChecksummed :: "'s stream_ops \<Rightarrow> uint64 \<Rightarrow> bytes \<Rightarrow> 's \<Rightarrow> status \<times> bytes \<times> 's" where
  "ReadChecksummed st n result input =
     (if n \<ge> SIZE_MAX - 4 then (Error DATA_LOSS ''record size too large'', result, input)
      else
        let expected = n + 4;
            (s, result, input) = ReadNBytes st (sint expected) result input
        in if s \<noteq> OK then (s, result, input)
           else if length result \<noteq> unat expected then
             (if result = [] then Error OUT_OF_RANGE ''eof'' else Error DATA_LOSS ''truncated record at '', result, input)
           else
             let masked_crc = the (DecodeFixed32 kLittleEndian (drop (unat n) result))
             in if Unmask masked_crc \<noteq> crc_Value (take (unat n) result)
                then (Error DATA_LOSS ''corrupted record at '', result, input)
                else (OK, take (unat n) result, input))"

partial_function (option) GetMetadata_loop :: "'s stream_ops \<Rightarrow> int64 \<Rightarrow> int64 \<Rightarrow> bytes \<Rightarrow> 's \<Rightarrow>
    (status \<times> int64 \<times> int64 \<times> 's) option" where
  "GetMetadata_loop st sz n record input =
     (let (s, record, input) = ReadChecksummed st 8 record input
      in if s \<noteq> OK then Some (if IsOutOfRange s then OK else s, sz, n, input)
         else
           let length = the (DecodeFixed64 kLittleEndian record);
               (s, input) = SkipNBytes st (sint (length + kFooterSize)) input
           in if s \<noteq> OK then Some (s, sz, n, input)
              else GetMetadata_loop st (sz + length) (n + 1) record input)"

text \<open>\<^verbatim>\<open>GetMetadata\<close> with a pointer \<open>md\<close> (\<open>None\<close> is null) to metadata; the outer \<open>None\<close> is a run that
  never ends.\<close>

definition GetMetadata :: "'s stream_ops \<Rightarrow> Metadata option \<Rightarrow> 's RecordReader \<Rightarrow>
    (status \<times> Metadata option \<times> 's RecordReader) option" where
  "GetMetadata st md r =
     (case md of
        None \<Rightarrow> Some (Error INVALID_ARGUMENT ''Metadata object call to GetMetadata() was null'', None, r)
      | Some old \<Rightarrow>
          (case cached_metadata r of
             Some m \<Rightarrow> Some (OK, Some (old\<lparr>stats := stats m\<rparr>), r)
           | None \<Rightarrow>
               let (s, input) = Reset st (rr_input_stream r) in
               if s \<noteq> OK then Some (s, md, r\<lparr>rr_input_stream := input\<rparr>)
               else
                 (case GetMetadata_loop st 0 0 [] input of None \<Rightarrow> None
                  | Some (s, sz, n, input) \<Rightarrow>
                      if s \<noteq> OK then Some (s, md, r\<lparr>rr_input_stream := input\<rparr>)
                      else
                        let m = \<lparr>stats = \<lparr>file_size = sz + (kHeaderSize + kFooterSize) * n, data_size = sz, entries = n\<rparr>\<rparr>
                        in Some (OK, Some (old\<lparr>stats := stats m\<rparr>), r\<lparr>rr_input_stream := input, cached_metadata := Some m\<rparr>))))"

text \<open>The positioning of the stream at the start of \<^verbatim>\<open>ReadRecord\<close>.\<close>

definition position_stream :: "'s stream_ops \<Rightarrow> uint64 \<Rightarrow> 's RecordReader \<Rightarrow> status \<times> 's RecordReader" where
  "position_stream st offset r =
     (let curr_pos = Tell st (rr_input_stream r); desired_pos = sint offset in
      if curr_pos > desired_pos \<or> curr_pos < 0 \<or> (curr_pos = desired_pos \<and> last_read_failed r) then
        let r = r\<lparr>last_read_failed := False\<rparr>;
            (s, input) = Reset st (rr_input_stream r)
        in if s \<noteq> OK then (s, r\<lparr>rr_input_stream := input\<rparr>)
           else let (s, input) = SkipNBytes st desired_pos input in (s, r\<lparr>rr_input_stream := input\<rparr>)
      else if curr_pos < desired_pos then
        let (s, input) = SkipNBytes st (desired_pos - curr_pos) (rr_input_stream r) in (s, r\<lparr>rr_input_stream := input\<rparr>)
      else (OK, r))"

definition ReadRecord :: "'s stream_ops \<Rightarrow> uint64 \<Rightarrow> bytes \<Rightarrow> 's RecordReader \<Rightarrow> status \<times> uint64 \<times> bytes \<times> 's RecordReader" where
  "ReadRecord st offset record r =
     (let (s, r) = position_stream st offset r in
      if s \<noteq> OK then (s, offset, record, r)
      else
        let (s, record, input) = ReadChecksummed st 8 record (rr_input_stream r); r = r\<lparr>rr_input_stream := input\<rparr> in
        if s \<noteq> OK then (s, offset, record, r\<lparr>last_read_failed := True\<rparr>)
        else
          let length = the (DecodeFixed64 kLittleEndian record);
              (s, record, input) = ReadChecksummed st length record (rr_input_stream r); r = r\<lparr>rr_input_stream := input\<rparr>
          in if s \<noteq> OK then
               (if IsOutOfRange s then Error DATA_LOSS ''truncated record at '' else s, offset, record, r\<lparr>last_read_failed := True\<rparr>)
             else (OK, offset + kHeaderSize + length + kFooterSize, record, r))"

section \<open>The sequential reader\<close>

record 's SequentialRecordReader =
  underlying :: "'s RecordReader"
  sr_offset :: uint64

definition SequentialRecordReader_new :: "(file_stream \<Rightarrow> ZlibCompressionOptions \<Rightarrow> 'z) \<Rightarrow> RecordReaderOptions \<Rightarrow>
    'z record_stream SequentialRecordReader option" where
  "SequentialRecordReader_new zlib_stream options =
     map_option (\<lambda>r. \<lparr>underlying = r, sr_offset = 0\<rparr>) (RecordReader_new zlib_stream options)"

definition Sequential_ReadRecord :: "'s stream_ops \<Rightarrow> bytes \<Rightarrow> 's SequentialRecordReader \<Rightarrow> status \<times> bytes \<times> 's SequentialRecordReader" where
  "Sequential_ReadRecord st record q =
     (let (s, off, record, r) = ReadRecord st (sr_offset q) record (underlying q)
      in (s, record, q\<lparr>underlying := r, sr_offset := off\<rparr>))"

definition TellOffset :: "'s SequentialRecordReader \<Rightarrow> uint64" where
  "TellOffset q = sr_offset q"

definition SeekOffset :: "uint64 \<Rightarrow> 's SequentialRecordReader \<Rightarrow> status \<times> 's SequentialRecordReader" where
  "SeekOffset offset q =
     (if offset < sr_offset q then (Error INVALID_ARGUMENT ''Trying to seek offset: '', q)
      else (OK, q\<lparr>sr_offset := offset\<rparr>))"

section \<open>Records in a file\<close>

text \<open>A checksummed string is followed by its masked checksum; a record is its length and its data, both
  checksummed.\<close>

definition checksummed :: "bytes \<Rightarrow> bytes" where
  "checksummed d = d @ EncodeFixed32 kLittleEndian (MaskedCrc d)"

definition record_bytes :: "bytes \<Rightarrow> bytes" where
  "record_bytes data = checksummed (EncodeFixed64 kLittleEndian (word_of_nat (length data))) @ checksummed data"

lemma PopulateHeader_eq: "PopulateHeader data = checksummed (EncodeFixed64 kLittleEndian (word_of_nat (length data)))"
  by (simp add: PopulateHeader_def checksummed_def Let_def)

lemma record_bytes_eq: "PopulateHeader data @ data @ PopulateFooter data = record_bytes data"
  by (simp add: record_bytes_def PopulateHeader_eq checksummed_def PopulateFooter_def)

lemma length_checksummed [simp]: "length (checksummed d) = length d + 4"
  by (simp add: checksummed_def)

lemma length_record_bytes [simp]: "length (record_bytes d) = length d + 16"
  by (simp add: record_bytes_def)

text \<open>The test of \<^verbatim>\<open>ReadChecksummed\<close> on the \<open>n + 4\<close> bytes it has read.\<close>

lemma checksum_test:
  assumes "length q = n + 4"
  shows "Unmask (the (DecodeFixed32 kLittleEndian (drop n q))) = crc_Value (take n q) \<longleftrightarrow> q = checksummed (take n q)"
proof -
  let ?m = "the (DecodeFixed32 kLittleEndian (drop n q))"
  have "drop n q = EncodeFixed32 kLittleEndian ?m" using EncodeFixed32_DecodeFixed32 [of "drop n q"] assms by simp
  then have "q = checksummed (take n q) \<longleftrightarrow> EncodeFixed32 kLittleEndian ?m = EncodeFixed32 kLittleEndian (MaskedCrc (take n q))"
    unfolding checksummed_def by (metis append_take_drop_id same_append_eq)
  also have "\<dots> \<longleftrightarrow> ?m = MaskedCrc (take n q)"
    by (metis DecodeFixed32_EncodeFixed32 append_Nil2 option.inject)
  also have "\<dots> \<longleftrightarrow> Unmask ?m = crc_Value (take n q)"
    unfolding MaskedCrc_def by (metis Mask_Unmask Unmask_Mask)
  finally show ?thesis by simp
qed


text \<open>Writing a list of records, stopping at the first error, and reading at a list of offsets: for each read the
  record and the next offset, or \<open>None\<close> at the end of the file.\<close>

fun WriteRecords :: "'f writable_file \<Rightarrow> bytes list \<Rightarrow> 'f RecordWriter \<Rightarrow> status \<times> 'f RecordWriter" where
  "WriteRecords fo [] w = (OK, w)"
| "WriteRecords fo (d # ds) w = (let (s, w) = WriteRecord fo d w in if s \<noteq> OK then (s, w) else WriteRecords fo ds w)"

fun read_records :: "'s stream_ops \<Rightarrow> uint64 list \<Rightarrow> 's RecordReader \<Rightarrow> (status + bytes \<times> uint64) list" where
  "read_records st [] r = []"
| "read_records st (off # offs) r =
     (let (s, off', d, r) = ReadRecord st off [] r
      in (if s = OK then Inr (d, off') else Inl s) # read_records st offs r)"

fun read_sequence :: "'s stream_ops \<Rightarrow> nat \<Rightarrow> 's SequentialRecordReader \<Rightarrow> (status + bytes) list" where
  "read_sequence st 0 q = []"
| "read_sequence st (Suc n) q =
     (let (s, d, q) = Sequential_ReadRecord st [] q in (if s = OK then Inr d else Inl s) # read_sequence st n q)"

definition record_offset :: "bytes list \<Rightarrow> nat \<Rightarrow> nat" where
  "record_offset rs i = length (concat (map record_bytes (take i rs)))"

section \<open>Reading from any stream\<close>

lemma prefix_append_iff: "prefix (a @ b) y \<longleftrightarrow> prefix a y \<and> prefix b (drop (length a) y)"
  by (auto simp: prefix_def)

lemma prefix_conv_take: "prefix xs ys \<longleftrightarrow> take (length xs) ys = xs"
  by (metis append_eq_conv_conj append_take_drop_id prefix_def)

lemma checksummed_unique:
  "prefix (checksummed a) y \<Longrightarrow> prefix (checksummed b) y \<Longrightarrow> length a = length b \<Longrightarrow> a = b"
  unfolding prefix_conv_take by (simp add: checksummed_def)

lemma record_unique:
  assumes "prefix (record_bytes a) y" "prefix (record_bytes b) y" "length a < 2 ^ 64" "length b < 2 ^ 64"
  shows "a = b"
proof -
  let ?h = "\<lambda>x. EncodeFixed64 kLittleEndian (word_of_nat (length (x :: bytes)))"
  have "prefix (checksummed (?h a)) y" "prefix (checksummed (?h b)) y"
    using assms by (simp_all add: record_bytes_def prefix_append_iff)
  then have "?h a = ?h b" by (rule checksummed_unique) simp
  then have "word_of_nat (length a) = (word_of_nat (length b) :: uint64)"
    by (metis DecodeFixed64_EncodeFixed64 append_Nil2 option.inject)
  then have "unat (word_of_nat (length a) :: uint64) = unat (word_of_nat (length b) :: uint64)" by simp
  then have l: "length a = length b" using assms(3,4) by (simp add: unsigned_of_nat take_bit_nat_eq_self)
  then have "prefix (checksummed a) (drop 12 y)" "prefix (checksummed b) (drop 12 y)"
    using assms(1,2) by (simp_all add: record_bytes_def prefix_append_iff)
  then show ?thesis using l by (rule checksummed_unique)
qed

lemma sint_nonneg: "unat (w :: uint64) < 2 ^ 63 \<Longrightarrow> sint w = int (unat w)"
proof -
  assume "unat w < 2 ^ 63"
  then have "int (unat w) < int (2 ^ 63)" by (simp only: of_nat_less_iff)
  then have a: "uint w < 2 ^ 63" by (simp only: uint_nat of_nat_power of_nat_numeral)
  have "- (2 ^ 63) \<le> uint w" by (rule order_trans [OF _ uint_ge_0]) simp
  then have "signed_take_bit 63 (uint w) = uint w" using a by (rule signed_take_bit_int_eq_self)
  moreover have "sint w = signed_take_bit 63 (uint w)" using sint_uint [of w] by simp
  ultimately show ?thesis by (simp only: uint_nat)
qed

lemma sint_neg: "2 ^ 63 \<le> unat (w :: uint64) \<Longrightarrow> sint w < 0"
proof -
  assume "2 ^ 63 \<le> unat w"
  moreover have "unat w < 2 ^ 64" using unsigned_less [of w, where ?'a = nat] by simp
  ultimately have "unat w div 2 ^ 63 = 1" by (simp add: div_nat_eqI)
  then have "bit (unat w) 63" by (simp add: bit_iff_odd)
  then have "bit w (LENGTH(64) - Suc 0)" by (simp add: bit_unsigned_iff)
  then show ?thesis using bit_last_iff by blast
qed

lemma expected_size: "n < SIZE_MAX - 4 \<Longrightarrow> unat (n + 4) = unat n + 4"
proof -
  assume "n < SIZE_MAX - 4"
  then have "unat n < 2 ^ 64 - 5" by (simp add: SIZE_MAX_def word_less_nat_alt)
  then show ?thesis by (simp add: unat_word_ariths)
qed

lemma sint_small: "n < SIZE_MAX - 4 \<Longrightarrow> unat n + 4 < 2 ^ 63 \<Longrightarrow> sint (n + 4) = int (unat n + 4)"
  using expected_size [of n] sint_nonneg [of "n + 4"] by simp

locale record_source = input_stream F st at for F and st :: "'s stream_ops" and at +
  assumes small: "length F < 2 ^ 63"
begin

lemma ReadChecksummed_too_large:
  "SIZE_MAX - 4 \<le> n \<Longrightarrow> ReadChecksummed st n old s = (Error DATA_LOSS ''record size too large'', old, s)"
  by (simp add: ReadChecksummed_def)

lemma ReadChecksummed_negative:
  assumes at: "at s p" and n: "n < SIZE_MAX - 4" "2 ^ 63 \<le> unat n + 4"
  shows "\<exists>e d s' p'. ReadChecksummed st n old s = (e, d, s') \<and> at s' p' \<and> e \<noteq> OK"
proof -
  have "sint (n + 4) < 0" using n by (intro sint_neg) (simp only: expected_size)
  from read_negative [OF at this, of old] obtain e d s' p' where
    r: "ReadNBytes st (sint (n + 4)) old s = (e, d, s')" "at s' p'" "e = OK \<longrightarrow> length d < 2 ^ 63" by blast
  have l: "length d \<noteq> unat (n + 4)" if "e = OK" using r(3) that n(2) unfolding expected_size [OF n(1)] by linarith
  then show ?thesis using r n(1) by (cases "e = OK") (auto simp: ReadChecksummed_def Let_def)
qed

lemma ReadChecksummed_past:
  assumes at: "at s p" and n: "n < SIZE_MAX - 4" "unat n + 4 < 2 ^ 63" "length F < p + (unat n + 4)"
  shows "\<exists>m s'. ReadChecksummed st n old s = (Error OUT_OF_RANGE m, drop p F, s') \<and> at s' (length F)"
  using read_past [OF at n(3,2), of old] n(1) sint_small [OF n(1,2)] by (auto simp: ReadChecksummed_def Let_def)

lemma ReadChecksummed_in:
  assumes at: "at s p" and n: "n < SIZE_MAX - 4" "unat n + 4 < 2 ^ 63" "p + (unat n + 4) \<le> length F"
  shows "\<exists>s'. ReadChecksummed st n old s =
      (let q = take (unat n + 4) (drop p F) in
       if q = checksummed (take (unat n) q) then (OK, take (unat n) q, s')
       else (Error DATA_LOSS ''corrupted record at '', q, s')) \<and> at s' (p + (unat n + 4))"
proof -
  define q where "q = take (unat n + 4) (drop p F)"
  have q: "length q = unat n + 4" using n(3) by (simp add: q_def)
  obtain s' where s': "ReadNBytes st (sint (n + 4)) old s = (OK, q, s')" "at s' (p + (unat n + 4))"
    using read_in [OF at n(3), of old] unfolding q_def sint_small [OF n(1,2)] by blast
  have "ReadChecksummed st n old s = (if q = checksummed (take (unat n) q) then (OK, take (unat n) q, s')
        else (Error DATA_LOSS ''corrupted record at '', q, s'))"
    using s'(1) n(1) q unfolding checksum_test [OF q, symmetric] by (simp add: ReadChecksummed_def Let_def expected_size)
  then show ?thesis using s'(2) unfolding Let_def q_def by blast
qed

lemma ReadChecksummed_spec:
  assumes at: "at s p"
  shows "\<exists>e d s' p'. ReadChecksummed st n old s = (e, d, s') \<and> at s' p' \<and>
    (e = OK \<longleftrightarrow> (\<exists>x. length x = unat n \<and> prefix (checksummed x) (drop p F))) \<and>
    (e = OK \<longrightarrow> length d = unat n \<and> prefix (checksummed d) (drop p F) \<and> p' = p + (unat n + 4)) \<and>
    (unat n + 4 < 2 ^ 63 \<longrightarrow> (IsOutOfRange e \<longleftrightarrow> length F < p + (unat n + 4)))"
proof -
  define k where "k = unat n + 4"
  define L :: nat where "L = 2 ^ 63"
  let ?Q = "\<exists>e d s' p'. ReadChecksummed st n old s = (e, d, s') \<and> at s' p' \<and>
        (e = OK \<longleftrightarrow> (\<exists>x. length x = unat n \<and> prefix (checksummed x) (drop p F))) \<and>
        (e = OK \<longrightarrow> length d = unat n \<and> prefix (checksummed d) (drop p F) \<and> p' = p + k) \<and>
        (k < L \<longrightarrow> (IsOutOfRange e \<longleftrightarrow> length F < p + k))"
  have sm: "length F < L" using small by (simp only: L_def)
  have none: "\<not> (\<exists>x. length x = unat n \<and> prefix (checksummed x) (drop p F))" if "length F < p + k"
    using that by (auto simp: k_def dest: prefix_length_le)
  consider "SIZE_MAX - 4 \<le> n" | "n < SIZE_MAX - 4" "L \<le> k" | "n < SIZE_MAX - 4" "k < L" "length F < p + k"
    | "n < SIZE_MAX - 4" "k < L" "p + k \<le> length F" by (metis not_le)
  then have ?Q
  proof cases
    case 1
    then have "2 ^ 64 - 5 \<le> unat n" by (simp add: SIZE_MAX_def word_le_nat_alt)
    then have "L < k" by (simp add: k_def L_def)
    then have "length F < p + k" "\<not> k < L" using sm by linarith+
    then show ?Q
      using ReadChecksummed_too_large [OF 1, of old s] at none by (intro exI conjI) auto
  next
    case 2
    then obtain e d s' p' where m: "ReadChecksummed st n old s = (e, d, s')" "at s' p'" "e \<noteq> OK"
      using ReadChecksummed_negative [OF at, of n old] unfolding k_def L_def by blast
    have "length F < p + k" "\<not> k < L" using 2 sm by linarith+
    then show ?Q using m at none by (intro exI conjI) auto
  next
    case 3
    then obtain m s' where m: "ReadChecksummed st n old s = (Error OUT_OF_RANGE m, drop p F, s')" "at s' (length F)"
      using ReadChecksummed_past [OF at, of n old] unfolding k_def L_def by blast
    then show ?Q using none 3 by (intro exI conjI) auto
  next
    case 4
    define q where "q = take k (drop p F)"
    have q: "length q = k" using 4(3) by (simp add: q_def)
    obtain s' where s': "ReadChecksummed st n old s = (if q = checksummed (take (unat n) q) then (OK, take (unat n) q, s')
        else (Error DATA_LOSS ''corrupted record at '', q, s'))" "at s' (p + k)"
      using ReadChecksummed_in [OF at 4(1), of old] 4(2,3) unfolding k_def L_def q_def Let_def by blast
    have pre: "prefix (checksummed x) (drop p F) \<longleftrightarrow> q = checksummed x" if "length x = unat n" for x
      using that unfolding q_def prefix_conv_take by (auto simp: k_def)
    show ?Q
    proof (cases "q = checksummed (take (unat n) q)")
      case True
      have l: "length (take (unat n) q) = unat n" using q by (simp add: k_def)
      have x: "prefix (checksummed (take (unat n) q)) (drop p F)" using pre [OF l] True by blast
      then have "\<exists>x. length x = unat n \<and> prefix (checksummed x) (drop p F)" using l by blast
      then show ?Q using s' True l x 4 by (intro exI [of _ OK] exI [of _ "take (unat n) q"] exI [of _ s'] exI [of _ "p + k"]) simp
    next
      case False
      have "\<not> (\<exists>x. length x = unat n \<and> prefix (checksummed x) (drop p F))"
      proof
        assume "\<exists>x. length x = unat n \<and> prefix (checksummed x) (drop p F)"
        then obtain x where "length x = unat n" "q = checksummed x" using pre by blast
        then show False using False by (simp add: checksummed_def)
      qed
      then show ?Q using s' False 4 by (intro exI conjI) auto
    qed
  qed
  then show ?thesis unfolding k_def L_def .
qed

lemma prefix_record:
  "length x < 2 ^ 64 \<and> prefix (record_bytes x) (drop p F) \<longleftrightarrow>
     (\<exists>h. length h = 8 \<and> prefix (checksummed h) (drop p F) \<and> length x = unat (the (DecodeFixed64 kLittleEndian h)) \<and>
       prefix (checksummed x) (drop (p + 12) F))"
  (is "?l \<longleftrightarrow> ?r")
proof
  let ?h = "EncodeFixed64 kLittleEndian (word_of_nat (length x))"
  assume ?l
  then have "prefix (checksummed ?h) (drop p F)" "prefix (checksummed x) (drop (p + 12) F)"
    by (simp_all add: record_bytes_def prefix_append_iff add.commute)
  moreover have "the (DecodeFixed64 kLittleEndian ?h) = word_of_nat (length x)"
    using DecodeFixed64_EncodeFixed64 [of kLittleEndian kLittleEndian _ "[]"] by simp
  ultimately show ?r using \<open>?l\<close> by (intro exI [of _ ?h]) (simp add: unsigned_of_nat take_bit_nat_eq_self)
next
  assume ?r
  then obtain h where h: "length h = 8" "prefix (checksummed h) (drop p F)" "length x = unat (the (DecodeFixed64 kLittleEndian h))"
    "prefix (checksummed x) (drop (p + 12) F)" by blast
  then have "EncodeFixed64 kLittleEndian (word_of_nat (length x)) = h" using EncodeFixed64_DecodeFixed64 by simp
  moreover have "length x < 2 ^ 64" using h(3) unsigned_less [of "the (DecodeFixed64 kLittleEndian h)", where ?'a = nat] by simp
  ultimately show ?l using h by (simp add: record_bytes_def prefix_append_iff add.commute)
qed

lemma position_spec:
  assumes at: "at (rr_input_stream r) p" and off: "unat off < 2 ^ 63"
  shows "\<exists>e r' p'. position_stream st off r = (e, r') \<and> at (rr_input_stream r') p' \<and> cached_metadata r' = cached_metadata r \<and>
    (if unat off \<le> length F then e = OK \<and> p' = unat off else IsOutOfRange e)"
proof -
  define d where "d = unat off"
  have d: "sint off = int d" using sint_nonneg [OF off] by (simp only: d_def)
  have dL: "d < 2 ^ 63" using off by (simp only: d_def)
  note pos = position_stream_def [of st off r, unfolded d tell [OF at] Let_def]
  obtain s0 where s0: "Reset st (rr_input_stream r) = (OK, s0)" "at s0 0" using reset [OF at] by blast
  have skip: "\<exists>e s' p'. SkipNBytes st (int n) s = (e, s') \<and> at s' p' \<and> (if q + n \<le> length F then e = OK \<and> p' = q + n else IsOutOfRange e)"
    if "at s q" "n < 2 ^ 63" for s q n
  proof (cases "q + n \<le> length F")
    case True
    then show ?thesis using skip_in [OF that(1) True] by auto
  next
    case False
    then show ?thesis using skip_past [OF that(1) _ that(2)] by fastforce
  qed
  have "\<exists>e r' p'. position_stream st off r = (e, r') \<and> at (rr_input_stream r') p' \<and> cached_metadata r' = cached_metadata r \<and>
    (if d \<le> length F then e = OK \<and> p' = d else IsOutOfRange e)"
  proof (cases "d < p \<or> d = p \<and> last_read_failed r")
    case True
    obtain e s' p' where s': "SkipNBytes st (int d) s0 = (e, s')" "at s' p'"
      "if 0 + d \<le> length F then e = OK \<and> p' = 0 + d else IsOutOfRange e" using skip [OF s0(2) dL] by blast
    have "position_stream st off r = (e, r\<lparr>last_read_failed := False, rr_input_stream := s'\<rparr>)"
      unfolding pos using True s0(1) s'(1) by auto
    then show ?thesis using s'(2,3) by (auto split: if_splits)
  next
    case False
    show ?thesis
    proof (cases "p < d")
      case True
      have e: "int d - int p = int (d - p)" "d - p < 2 ^ 63" "p + (d - p) = d" using True dL by linarith+
      obtain e s' p' where s': "SkipNBytes st (int d - int p) (rr_input_stream r) = (e, s')" "at s' p'"
        "if d \<le> length F then e = OK \<and> p' = d else IsOutOfRange e" using skip [OF at e(2)] unfolding e(1,3) by blast
      have "position_stream st off r = (e, r\<lparr>rr_input_stream := s'\<rparr>)"
        unfolding pos using True s'(1) by auto
      then show ?thesis using s'(2,3) by (auto split: if_splits)
    next
      case eq: False
      then have "p = d" "\<not> last_read_failed r" using False by auto
      then show ?thesis using at at_bound [OF at] unfolding pos by auto
    qed
  qed
  then show ?thesis by (simp only: d_def)
qed

lemma ReadRecord_spec:
  assumes at: "at (rr_input_stream r) p" and off: "unat off < 2 ^ 63"
  shows "\<exists>e off' d r' p'. ReadRecord st off old r = (e, off', d, r') \<and> at (rr_input_stream r') p' \<and>
    cached_metadata r' = cached_metadata r \<and>
    (e = OK \<longleftrightarrow> (\<exists>x. length x < 2 ^ 64 \<and> prefix (record_bytes x) (drop (unat off) F))) \<and>
    (e = OK \<longrightarrow> length d < 2 ^ 64 \<and> prefix (record_bytes d) (drop (unat off) F) \<and> off' = off + word_of_nat (length (record_bytes d))) \<and>
    (e \<noteq> OK \<longrightarrow> off' = off) \<and> (IsOutOfRange e \<longleftrightarrow> length F < unat off + 12)"
    (is "\<exists>e off' d r' p'. _ \<and> _ \<and> _ \<and> (e = OK \<longleftrightarrow> ?rec) \<and> _")
proof -
  define o1 where "o1 = unat off"
  obtain e1 r1 p1 where r1: "position_stream st off r = (e1, r1)" "at (rr_input_stream r1) p1" "cached_metadata r1 = cached_metadata r"
    "if o1 \<le> length F then e1 = OK \<and> p1 = o1 else IsOutOfRange e1" using position_spec [OF at off] unfolding o1_def by blast
  have whole: "o1 + 16 \<le> length F" if "prefix (record_bytes x) (drop o1 F)" for x
    using prefix_length_le [OF that] by simp
  note split_record = prefix_record [of _ o1]
  have eight: "unat (8 :: uint64) = 8" by simp
  show ?thesis
  proof (cases "o1 \<le> length F")
    case False
    then have "e1 \<noteq> OK" "IsOutOfRange e1" using r1(4) by auto
    then have "ReadRecord st off old r = (e1, off, old, r1)" by (simp add: ReadRecord_def r1(1))
    then show ?thesis using r1(2,3) \<open>e1 \<noteq> OK\<close> \<open>IsOutOfRange e1\<close> False whole unfolding o1_def [symmetric] by fastforce
  next
    case True
    then have p1: "e1 = OK" "at (rr_input_stream r1) o1" using r1 by auto
    obtain e2 h s2 p2 where h: "ReadChecksummed st 8 old (rr_input_stream r1) = (e2, h, s2)" "at s2 p2"
      "e2 = OK \<longleftrightarrow> (\<exists>x. length x = 8 \<and> prefix (checksummed x) (drop o1 F))"
      "e2 = OK \<longrightarrow> length h = 8 \<and> prefix (checksummed h) (drop o1 F) \<and> p2 = o1 + 12"
      "IsOutOfRange e2 \<longleftrightarrow> length F < o1 + 12"
      using ReadChecksummed_spec [OF p1(2), of 8 old] eight by simp blast
    define r2 where "r2 = r1\<lparr>rr_input_stream := s2\<rparr>"
    show ?thesis
    proof (cases "e2 = OK")
      case False
      then have "ReadRecord st off old r = (e2, off, h, r2\<lparr>last_read_failed := True\<rparr>)"
        by (simp add: ReadRecord_def r1(1) p1(1) h(1) r2_def)
      moreover have "\<not> ?rec" using split_record h(3) False unfolding o1_def [symmetric] by blast
      ultimately show ?thesis using h(2,5) False r1(3) unfolding o1_def [symmetric] by (simp add: r2_def) blast
    next
      case True
      then have hh: "length h = 8" "prefix (checksummed h) (drop o1 F)" "at s2 (o1 + 12)" "\<not> length F < o1 + 12" using h by auto
      define L where "L = the (DecodeFixed64 kLittleEndian h)"
      obtain e3 d s3 p3 where d: "ReadChecksummed st L h s2 = (e3, d, s3)" "at s3 p3"
        "e3 = OK \<longleftrightarrow> (\<exists>x. length x = unat L \<and> prefix (checksummed x) (drop (o1 + 12) F))"
        "e3 = OK \<longrightarrow> length d = unat L \<and> prefix (checksummed d) (drop (o1 + 12) F) \<and> p3 = o1 + 12 + (unat L + 4)"
        using ReadChecksummed_spec [OF hh(3), of L h] by blast
      define r3 where "r3 = r2\<lparr>rr_input_stream := s3\<rparr>"
      have rec: "length x < 2 ^ 64 \<and> prefix (record_bytes x) (drop o1 F) \<longleftrightarrow>
          length x = unat L \<and> prefix (checksummed x) (drop (o1 + 12) F)" for x
        using split_record [of x] hh(1,2) checksummed_unique [OF hh(2)] unfolding L_def by metis
      show ?thesis
      proof (cases "e3 = OK")
        case False
        then have "ReadRecord st off old r =
            (if IsOutOfRange e3 then Error DATA_LOSS ''truncated record at '' else e3, off, d, r3\<lparr>last_read_failed := True\<rparr>)"
          by (simp add: ReadRecord_def r1(1) p1(1) h(1) True d(1) r2_def r3_def Let_def flip: L_def)
        moreover have "\<not> ?rec" using rec d(3) False unfolding o1_def [symmetric] by blast
        ultimately show ?thesis using d(2) False r1(3) hh(4) unfolding o1_def [symmetric] by (simp add: r2_def r3_def) blast
      next
        case ok: True
        then have dd: "length d = unat L" "prefix (checksummed d) (drop (o1 + 12) F)" using d(4) by auto
        have "ReadRecord st off old r = (OK, off + word_of_nat (length (record_bytes d)), d, r3)"
          using dd(1) by (simp add: ReadRecord_def r1(1) p1(1) h(1) True ok d(1) r2_def r3_def Let_def kHeaderSize_def kFooterSize_def flip: L_def)
        moreover have "length d < 2 ^ 64 \<and> prefix (record_bytes d) (drop o1 F)" using rec dd by blast
        ultimately show ?thesis using d(2) r1(3) hh(4) unfolding o1_def [symmetric] by (simp add: r2_def r3_def) blast
      qed
    qed
  qed
qed

text \<open>\<^verbatim>\<open>GetMetadata\<close> ends on every file, since each round moves the stream forward.\<close>

lemma GetMetadata_loop_ends:
  "at s p \<Longrightarrow> \<exists>e a' b' s' p'. GetMetadata_loop st a b old s = Some (e, a', b', s') \<and> at s' p'"
proof (induction "length F - p" arbitrary: a b old s p rule: less_induct)
  case less
  obtain e h s1 p1 where h: "ReadChecksummed st 8 old s = (e, h, s1)" "at s1 p1" "e = OK \<longrightarrow> p1 = p + (unat (8 :: uint64) + 4)"
    using ReadChecksummed_spec [OF less.prems, of 8 old] by blast
  note loop = GetMetadata_loop.simps [of st a b old s, unfolded h(1) Let_def case_prod_conv]
  define L where "L = the (DecodeFixed64 kLittleEndian h)"
  obtain e2 s2 where s2: "SkipNBytes st (sint (L + kFooterSize)) s1 = (e2, s2)" by fastforce
  show ?case
  proof (cases "e = OK")
    case True
    then have p1: "p1 = p + 12" "p1 \<le> length F" using h(3) at_bound [OF h(2)] by simp_all
    have "\<exists>p2 \<ge> p1. at s2 p2"
    proof (cases "unat (L + kFooterSize) < 2 ^ 63")
      case True
      then show ?thesis
        using skip_in [OF h(2), of "unat (L + kFooterSize)"] skip_past [OF h(2) _ True] s2 p1(2)
        unfolding sint_nonneg [OF True] by (metis le_add1 not_le prod.inject)
    next
      case False
      then have "sint (L + kFooterSize) < 0" by (intro sint_neg) (simp only: not_less)
      then show ?thesis using skip_negative [OF h(2)] s2 h(2) by (metis order_refl prod.inject)
    qed
    then obtain p2 where p2: "p1 \<le> p2" "at s2 p2" by blast
    show ?thesis
    proof (cases "e2 = OK")
      case False
      then show ?thesis unfolding loop using \<open>e = OK\<close> s2 p2(2) by (auto simp: L_def)
    next
      case True
      have "length F - p2 < length F - p" using p1 p2 at_bound [OF p2(2)] by linarith
      from less.hyps [OF this p2(2), of "a + L" "b + 1" h] show ?thesis
        unfolding loop using \<open>e = OK\<close> True s2 by (auto simp: L_def)
    qed
  qed (use loop h(2) in auto)
qed

lemma GetMetadata_loop_records:
  "at s p \<Longrightarrow> drop p F = concat (map record_bytes rs) \<Longrightarrow>
     \<exists>s'. GetMetadata_loop st a b old s =
       Some (OK, a + word_of_nat (sum_list (map length rs)), b + word_of_nat (length rs), s') \<and> at s' (length F)"
proof (induction rs arbitrary: a b old s p)
  case Nil
  then have "length F < p + (unat (8 :: uint64) + 4)" "unat (8 :: uint64) + 4 < 2 ^ 63" by simp_all
  then obtain m s' where "ReadChecksummed st 8 old s = (Error OUT_OF_RANGE m, drop p F, s')" "at s' (length F)"
    using ReadChecksummed_past [OF Nil.prems(1), of 8 old] by (auto simp: SIZE_MAX_def)
  then show ?case by (subst GetMetadata_loop.simps) simp
next
  case (Cons x rs)
  have d: "drop p F = record_bytes x @ concat (map record_bytes rs)" using Cons.prems(2) by simp
  then have len: "length F - p = length x + 16 + length (concat (map record_bytes rs))" by (metis length_append length_drop length_record_bytes)
  then have pl: "p + 16 + length x \<le> length F" by linarith
  then have x: "length x + 4 < 2 ^ 63" using small by linarith
  let ?h = "EncodeFixed64 kLittleEndian (word_of_nat (length x))"
  have "prefix (record_bytes x) (drop p F)" using d by (simp add: prefix_def)
  then have hp: "prefix (checksummed ?h) (drop p F)" by (simp add: record_bytes_def prefix_append_iff)
  obtain e h s1 p1 where h: "ReadChecksummed st 8 old s = (e, h, s1)" "at s1 p1"
    "e = OK \<longleftrightarrow> (\<exists>x. length x = unat (8 :: uint64) \<and> prefix (checksummed x) (drop p F))"
    "e = OK \<longrightarrow> length h = unat (8 :: uint64) \<and> prefix (checksummed h) (drop p F) \<and> p1 = p + (unat (8 :: uint64) + 4)"
    using ReadChecksummed_spec [OF Cons.prems(1), of 8 old] by blast
  have "e = OK" unfolding h(3) using hp by (intro exI [of _ ?h]) simp
  then have hh: "h = ?h" "p1 = p + 12" using h(4) checksummed_unique [OF hp] by auto
  have L: "the (DecodeFixed64 kLittleEndian h) = word_of_nat (length x)"
    using DecodeFixed64_EncodeFixed64 [of kLittleEndian kLittleEndian _ "[]"] hh(1) by simp
  have u: "unat (word_of_nat (length x) + kFooterSize) = length x + 4"
  proof -
    have "word_of_nat (length x) + kFooterSize = (word_of_nat (length x + 4) :: uint64)" by (simp add: kFooterSize_def)
    then show ?thesis using x by (simp add: unsigned_of_nat take_bit_nat_eq_self del: of_nat_add)
  qed
  have "sint (word_of_nat (length x) + kFooterSize) = int (length x + 4)"
    using sint_nonneg [of "word_of_nat (length x) + kFooterSize"] x unfolding u by blast
  moreover obtain s2 where s2: "SkipNBytes st (int (length x + 4)) s1 = (OK, s2)" "at s2 (p + 16 + length x)"
    using skip_in [OF h(2), of "length x + 4"] pl hh(2) by (auto simp: ac_simps)
  moreover have "drop (p + 16 + length x) F = concat (map record_bytes rs)"
  proof -
    have "drop (p + 16 + length x) F = drop (length (record_bytes x)) (drop p F)" by (simp add: ac_simps)
    then show ?thesis unfolding d by simp
  qed
  ultimately show ?case
    using Cons.IH [of s2 "p + 16 + length x" "a + word_of_nat (length x)" "b + 1" h] h(1) \<open>e = OK\<close> L
    by (subst GetMetadata_loop.simps) (auto simp: Let_def ac_simps)
qed

text \<open>A file that consists of the records \<open>rs\<close>.\<close>

lemma ReadRecord_nth:
  assumes at: "at (rr_input_stream r) p" and F: "F = concat (map record_bytes rs)" and i: "i < length rs"
  shows "\<exists>r' p'. ReadRecord st (word_of_nat (record_offset rs i)) old r =
      (OK, word_of_nat (record_offset rs (Suc i)), rs ! i, r') \<and> at (rr_input_stream r') p'"
proof -
  let ?o = "record_offset rs i" and ?x = "rs ! i"
  have split: "F = concat (map record_bytes (take i rs)) @ record_bytes ?x @ concat (map record_bytes (drop (Suc i) rs))"
    unfolding F by (metis Cons_nth_drop_Suc append_take_drop_id concat.simps(2) concat_append i list.simps(9) map_append)
  then have pre: "prefix (record_bytes ?x) (drop ?o F)" by (simp add: record_offset_def)
  have "?o + length (record_bytes ?x) \<le> length F" using arg_cong [OF split, of length] by (simp add: record_offset_def)
  then have len: "?o < 2 ^ 63" "length ?x < 2 ^ 64" using small by simp_all
  have u: "unat (word_of_nat ?o :: uint64) = ?o" using len(1) by (simp add: unsigned_of_nat take_bit_nat_eq_self)
  have suc: "record_offset rs (Suc i) = ?o + length (record_bytes ?x)" using i by (simp add: record_offset_def take_Suc_conv_app_nth)
  obtain e off' d r' p' where e: "ReadRecord st (word_of_nat ?o) old r = (e, off', d, r')" "at (rr_input_stream r') p'"
    "e = OK \<longleftrightarrow> (\<exists>x. length x < 2 ^ 64 \<and> prefix (record_bytes x) (drop ?o F))"
    "e = OK \<longrightarrow> length d < 2 ^ 64 \<and> prefix (record_bytes d) (drop ?o F) \<and> off' = word_of_nat ?o + word_of_nat (length (record_bytes d))"
    using ReadRecord_spec [OF at, of "word_of_nat ?o" old] len(1) unfolding u by blast
  have ok: "e = OK" using e(3) len(2) pre by blast
  then have "d = ?x" using e(4) pre len(2) record_unique [of d "drop ?o F" ?x] by blast
  then show ?thesis using e ok by (intro exI [of _ r'] exI [of _ p']) (simp add: suc)
qed

lemma ReadRecord_end:
  assumes at: "at (rr_input_stream r) p" and off: "unat off = length F"
  shows "\<exists>e d r' p'. ReadRecord st off old r = (e, off, d, r') \<and> IsOutOfRange e \<and> at (rr_input_stream r') p'"
proof -
  have "unat off < 2 ^ 63" "length F < unat off + 12" using small off by simp_all
  with ReadRecord_spec [OF at this(1), of old] obtain e off' d r' p' where
    e: "ReadRecord st off old r = (e, off', d, r')" "at (rr_input_stream r') p'" "e \<noteq> OK \<longrightarrow> off' = off" "IsOutOfRange e" by blast
  then have "e \<noteq> OK" by auto
  then show ?thesis using e by blast
qed

lemma read_records_of_file:
  assumes F: "F = concat (map record_bytes rs)"
  shows "at (rr_input_stream r) p \<Longrightarrow> list_all (\<lambda>i. i \<le> length rs) is \<Longrightarrow>
    list_all2 (\<lambda>i res. if i < length rs then res = Inr (rs ! i, word_of_nat (record_offset rs (Suc i)))
        else \<exists>e. res = Inl e \<and> IsOutOfRange e) is
      (read_records st (map (\<lambda>i. word_of_nat (record_offset rs i)) is) r)"
proof (induction "is" arbitrary: r p)
  case (Cons i "is")
  show ?case
  proof (cases "i < length rs")
    case True
    obtain r' p' where "ReadRecord st (word_of_nat (record_offset rs i)) [] r = (OK, word_of_nat (record_offset rs (Suc i)), rs ! i, r')"
      "at (rr_input_stream r') p'" using ReadRecord_nth [OF Cons.prems(1) F True] by blast
    then show ?thesis using Cons.IH [of r' p'] Cons.prems(2) True by simp
  next
    case False
    then have "record_offset rs i = length F" using F by (simp add: record_offset_def)
    then have "unat (word_of_nat (record_offset rs i) :: uint64) = length F" using small by (simp add: unsigned_of_nat take_bit_nat_eq_self)
    then obtain e d r' p' where "ReadRecord st (word_of_nat (record_offset rs i)) [] r = (e, word_of_nat (record_offset rs i), d, r')"
      "IsOutOfRange e" "at (rr_input_stream r') p'" using ReadRecord_end [OF Cons.prems(1)] by blast
    moreover have "e \<noteq> OK" using calculation(2) by auto
    ultimately show ?thesis using Cons.IH [of r' p'] Cons.prems(2) False by simp
  qed
qed simp

lemma read_sequence_of_file:
  assumes F: "F = concat (map record_bytes rs)"
  shows "at (rr_input_stream (underlying q)) p \<Longrightarrow> sr_offset q = word_of_nat (record_offset rs i) \<Longrightarrow> i + n = length rs \<Longrightarrow>
    \<exists>e. read_sequence st (Suc n) q = map Inr (drop i rs) @ [Inl e] \<and> IsOutOfRange e"
proof (induction n arbitrary: q p i)
  case 0
  then have "unat (sr_offset q) = length F" using F small by (simp add: record_offset_def unsigned_of_nat take_bit_nat_eq_self)
  from ReadRecord_end [OF 0(1) this, of "[]"] show ?case using 0(3) by (auto simp: Sequential_ReadRecord_def Let_def)
next
  case (Suc n)
  then have i: "i < length rs" by simp
  obtain r' p' where r': "ReadRecord st (sr_offset q) [] (underlying q) = (OK, word_of_nat (record_offset rs (Suc i)), rs ! i, r')"
    "at (rr_input_stream r') p'" using ReadRecord_nth [OF Suc.prems(1) F i] Suc.prems(2) by metis
  define q' where "q' = q\<lparr>underlying := r', sr_offset := word_of_nat (record_offset rs (Suc i))\<rparr>"
  have "read_sequence st (Suc (Suc n)) q = Inr (rs ! i) # read_sequence st (Suc n) q'"
    by (simp only: read_sequence.simps Sequential_ReadRecord_def r'(1) q'_def Let_def case_prod_conv if_True simp_thms)
  moreover have "\<exists>e. read_sequence st (Suc n) q' = map Inr (drop (Suc i) rs) @ [Inl e] \<and> IsOutOfRange e"
    by (rule Suc.IH [of _ p']) (use r'(2) Suc.prems(3) in \<open>simp_all add: q'_def\<close>)
  ultimately show ?case using i by (auto simp: Cons_nth_drop_Suc [symmetric])
qed

end

section \<open>The streams of a reader keep the contract\<close>

fun fs_at :: "bytes \<Rightarrow> file_stream \<Rightarrow> nat \<Rightarrow> bool" where
  "fs_at F (DirectStream r) p = ra_at F r p"
| "fs_at F (BufferedStream b) p = buf_at F (ra_at F) b p"

lemma fs_is_stream:
  assumes "random_access_file rd F"
  shows "input_stream F (fs_ops rd) (fs_at F)"
proof -
  note ra = random_access_file.ra_is_stream [OF assms]
  note bu = input_stream.buffered_is_stream [OF ra]
  note rra = input_stream.axioms(1) [OF ra] and rbu = input_stream.axioms(1) [OF bu]
  show ?thesis
  proof
    fix s p n k and r :: bytes
    assume at: "fs_at F s p"
    show "p \<le> length F" "Tell (fs_ops rd) s = int p" "\<exists>s'. Reset (fs_ops rd) s = (OK, s') \<and> fs_at F s' 0"
      using at readable_stream.at_bound [OF rra] readable_stream.at_bound [OF rbu] input_stream.tell [OF ra] input_stream.tell [OF bu]
        input_stream.reset [OF ra] input_stream.reset [OF bu]
      by (cases s; fastforce simp: fs_ops_def)+
    show "\<exists>e d s' p'. ReadNBytes (fs_ops rd) k r s = (e, d, s') \<and> fs_at F s' p' \<and> (e = OK \<longrightarrow> length d < 2 ^ 63)"
      "\<exists>m. SkipNBytes (fs_ops rd) k s = (Error INVALID_ARGUMENT m, s)" if "k < 0"
      using at that input_stream.read_negative [OF ra _ that, of _ _ r] input_stream.read_negative [OF bu _ that, of _ _ r]
        input_stream.skip_negative [OF ra _ that] input_stream.skip_negative [OF bu _ that]
      by (cases s; fastforce simp: fs_ops_def)+
    show "\<exists>s'. ReadNBytes (fs_ops rd) (int n) r s = (OK, take n (drop p F), s') \<and> fs_at F s' (p + n)"
      "\<exists>s'. SkipNBytes (fs_ops rd) (int n) s = (OK, s') \<and> fs_at F s' (p + n)" if "p + n \<le> length F"
      using at that readable_stream.read_in [OF rra _ that, of _ r] readable_stream.read_in [OF rbu _ that, of _ r]
        input_stream.skip_in [OF ra _ that] input_stream.skip_in [OF bu _ that]
      by (cases s; fastforce simp: fs_ops_def)+
    show "\<exists>m s'. ReadNBytes (fs_ops rd) (int n) r s = (Error OUT_OF_RANGE m, drop p F, s') \<and> fs_at F s' (length F)"
      "\<exists>m s'. SkipNBytes (fs_ops rd) (int n) s = (Error OUT_OF_RANGE m, s') \<and> fs_at F s' (length F)"
      if "length F < p + n" "n < 2 ^ 63"
      using at that(1) readable_stream.read_past [OF rra _ that, of _ r] readable_stream.read_past [OF rbu _ that, of _ r]
        input_stream.skip_past [OF ra _ that] input_stream.skip_past [OF bu _ that]
      by (cases s; fastforce simp: fs_ops_def)+
  qed
qed

text \<open>The stream of a record reader, of which either the plain file or the decompressor is in use.\<close>

fun rs_at :: "(file_stream \<Rightarrow> nat \<Rightarrow> bool) \<Rightarrow> ('z \<Rightarrow> nat \<Rightarrow> bool) \<Rightarrow> 'z record_stream \<Rightarrow> nat \<Rightarrow> bool" where
  "rs_at fat zat (PlainStream f) p = fat f p"
| "rs_at fat zat (ZlibStream z) p = zat z p"

lemma rs_is_stream:
  assumes "input_stream F (fs_ops rd) fat" "input_stream F zs zat"
  shows "input_stream F (rs_ops rd zs) (rs_at fat zat)"
proof -
  note a = assms(1) and b = assms(2)
  note ra = input_stream.axioms(1) [OF a] and rb = input_stream.axioms(1) [OF b]
  show ?thesis
  proof
    fix s p n k and r :: bytes
    assume at: "rs_at fat zat s p"
    show "p \<le> length F" "Tell (rs_ops rd zs) s = int p" "\<exists>s'. Reset (rs_ops rd zs) s = (OK, s') \<and> rs_at fat zat s' 0"
      using at readable_stream.at_bound [OF ra] readable_stream.at_bound [OF rb] input_stream.tell [OF a] input_stream.tell [OF b]
        input_stream.reset [OF a] input_stream.reset [OF b]
      by (cases s; fastforce simp: rs_ops_def)+
    show "\<exists>e d s' p'. ReadNBytes (rs_ops rd zs) k r s = (e, d, s') \<and> rs_at fat zat s' p' \<and> (e = OK \<longrightarrow> length d < 2 ^ 63)"
      "\<exists>m. SkipNBytes (rs_ops rd zs) k s = (Error INVALID_ARGUMENT m, s)" if "k < 0"
      using at that input_stream.read_negative [OF a _ that, of _ _ r] input_stream.read_negative [OF b _ that, of _ _ r]
        input_stream.skip_negative [OF a _ that] input_stream.skip_negative [OF b _ that]
      by (cases s; fastforce simp: rs_ops_def)+
    show "\<exists>s'. ReadNBytes (rs_ops rd zs) (int n) r s = (OK, take n (drop p F), s') \<and> rs_at fat zat s' (p + n)"
      "\<exists>s'. SkipNBytes (rs_ops rd zs) (int n) s = (OK, s') \<and> rs_at fat zat s' (p + n)" if "p + n \<le> length F"
      using at that readable_stream.read_in [OF ra _ that, of _ r] readable_stream.read_in [OF rb _ that, of _ r]
        input_stream.skip_in [OF a _ that] input_stream.skip_in [OF b _ that]
      by (cases s; fastforce simp: rs_ops_def)+
    show "\<exists>m s'. ReadNBytes (rs_ops rd zs) (int n) r s = (Error OUT_OF_RANGE m, drop p F, s') \<and> rs_at fat zat s' (length F)"
      "\<exists>m s'. SkipNBytes (rs_ops rd zs) (int n) s = (Error OUT_OF_RANGE m, s') \<and> rs_at fat zat s' (length F)"
      if "length F < p + n" "n < 2 ^ 63"
      using at that(1) readable_stream.read_past [OF ra _ that, of _ r] readable_stream.read_past [OF rb _ that, of _ r]
        input_stream.skip_past [OF a _ that] input_stream.skip_past [OF b _ that]
      by (cases s; fastforce simp: rs_ops_def)+
  qed
qed

text \<open>A stream that is never in use meets every contract.\<close>

abbreviation unused :: "'z \<Rightarrow> nat \<Rightarrow> bool" where "unused \<equiv> \<lambda>_ _. False"

lemma unused_is_stream: "input_stream F st unused"
  by unfold_locales simp_all

abbreviation plain_at :: "bytes \<Rightarrow> 'z record_stream \<Rightarrow> nat \<Rightarrow> bool" where "plain_at F \<equiv> rs_at (fs_at F) unused"

lemma plain_is_stream: "random_access_file rd F \<Longrightarrow> input_stream F (rs_ops rd zs) (plain_at F)"
  by (intro rs_is_stream fs_is_stream unused_is_stream)

lemma zlib_is_used: "input_stream F zs zat \<Longrightarrow> input_stream F (rs_ops rd zs) (rs_at unused zat)"
  by (intro rs_is_stream unused_is_stream)

lemma rs_is_source:
  "random_access_file rd F \<Longrightarrow> length F < 2 ^ 63 \<Longrightarrow> record_source F (rs_ops rd zs) (plain_at F)"
  by (simp add: record_source_def plain_is_stream record_source_axioms_def)

interpretation memory_records: input_stream F "rs_ops (memory_read F) zs" "plain_at F" for F zs
  by (rule plain_is_stream [OF memory_file.random_access_file_axioms])

text \<open>A new reader of an uncompressed file, buffered or not, stands at its start.\<close>

lemma RecordReader_new_at:
  assumes "random_access_file rd F" "length F < 2 ^ 63" "rro_compression_type options = NONE" "rro_buffer_size options < 2 ^ 63"
  shows "\<exists>r. RecordReader_new zlib_stream options = Some r \<and> plain_at F (rr_input_stream r) 0 \<and> cached_metadata r = None"
  using ra_new [OF assms(2)] buffered_new [OF assms(1,2), of "nat (rro_buffer_size options)"] assms(3,4)
  by (auto simp: RecordReader_new_def Let_def nat_less_iff)

section \<open>The writer keeps its destination\<close>

text \<open>An error of the file.\<close>

definition file_error :: "'f writable_file \<Rightarrow> status \<Rightarrow> bool" where
  "file_error fo s \<longleftrightarrow> (\<exists>f d. fst (wf_Append fo f d) = s) \<or> (\<exists>f. fst (wf_Sync fo f) = s)"

text \<open>A file that keeps what is appended to it.\<close>

locale appendable_file =
  fixes fo :: "'f writable_file" and contents :: "'f \<Rightarrow> bytes"
  assumes append: "wf_Append fo f d = (OK, f') \<Longrightarrow> contents f' = contents f @ d"

text \<open>What the writer relies on: \<open>holds f A\<close> says that the bytes \<open>A\<close> were given to the destination, which takes pieces
  of a size that \<open>fits\<close>.\<close>

locale record_sink =
  fixes fo :: "'f writable_file" and holds :: "'f \<Rightarrow> bytes \<Rightarrow> bool" and fits :: "nat \<Rightarrow> bool"
  assumes taken: "holds f A \<Longrightarrow> fits (length d) \<Longrightarrow> wf_Append fo f d = (OK, f') \<Longrightarrow> holds f' (A @ d)"
    and fits_header: "fits 12" and fits_footer: "fits 4"
begin

lemma WriteRecord_appends:
  assumes "WriteRecord fo d w = (OK, w')" "rw_dest w = Some f" "holds f A" "fits (length d)"
  shows "\<exists>f'. w' = w\<lparr>rw_dest := Some f'\<rparr> \<and> holds f' (A @ record_bytes d)"
proof -
  obtain s1 f1 where f1: "wf_Append fo f (PopulateHeader d) = (s1, f1)" by fastforce
  obtain s2 f2 where f2: "wf_Append fo f1 d = (s2, f2)" by fastforce
  obtain s3 f3 where f3: "wf_Append fo f2 (PopulateFooter d) = (s3, f3)" by fastforce
  have s: "s1 = OK" "s2 = OK" "s3 = OK" "w' = w\<lparr>rw_dest := Some f3\<rparr>"
    using assms f1 f2 f3 by (auto simp: WriteRecord_def Let_def split: if_splits)
  have "holds f1 (A @ PopulateHeader d)" using taken [OF assms(3) _ f1 [unfolded s(1)]] fits_header by (simp add: PopulateHeader_eq)
  from taken [OF this assms(4) f2 [unfolded s(2)]] have "holds f2 ((A @ PopulateHeader d) @ d)" .
  from taken [OF this _ f3 [unfolded s(3)]] have "holds f3 (A @ record_bytes d)"
    using fits_footer by (simp add: PopulateFooter_def record_bytes_eq [symmetric])
  then show ?thesis using s(4) by blast
qed

lemma WriteRecords_append:
  "WriteRecords fo ds w = (OK, w') \<Longrightarrow> rw_dest w = Some f \<Longrightarrow> holds f A \<Longrightarrow> list_all (\<lambda>d. fits (length d)) ds \<Longrightarrow>
     \<exists>f'. w' = w\<lparr>rw_dest := Some f'\<rparr> \<and> holds f' (A @ concat (map record_bytes ds))"
proof (induction ds arbitrary: w f A)
  case Nil
  then show ?case by (intro exI [of _ f]) simp
next
  case (Cons d ds)
  obtain s w1 where w1: "WriteRecord fo d w = (s, w1)" by fastforce
  then have s: "s = OK" "WriteRecords fo ds w1 = (OK, w')" using Cons.prems(1) by (auto split: if_splits)
  from WriteRecord_appends [OF w1 [unfolded s(1)] Cons.prems(2,3)] Cons.prems(4) obtain f1 where
    f1: "w1 = w\<lparr>rw_dest := Some f1\<rparr>" "holds f1 (A @ record_bytes d)" by auto
  from Cons.IH [OF s(2) _ f1(2)] show ?case using f1(1) Cons.prems(4) by auto
qed

end

text \<open>A destination that never fails.\<close>

locale reliable_sink = record_sink fo holds fits for fo :: "'f writable_file" and holds fits +
  assumes no_error: "holds f A \<Longrightarrow> fits (length d) \<Longrightarrow> fst (wf_Append fo f d) = OK"
begin

lemma WriteRecord_ok:
  assumes "rw_dest w = Some f" "holds f A" "fits (length d)"
  shows "fst (WriteRecord fo d w) = OK"
proof -
  have step: "\<exists>f'. wf_Append fo f x = (OK, f') \<and> holds f' (A @ x)" if "holds f A" "fits (length x)" for f A x
    using no_error [OF that] taken [OF that] by (metis prod.collapse)
  obtain f1 where f1: "wf_Append fo f (PopulateHeader d) = (OK, f1)" "holds f1 (A @ PopulateHeader d)"
    using step [OF assms(2), of "PopulateHeader d"] fits_header by (auto simp: PopulateHeader_eq)
  obtain f2 where f2: "wf_Append fo f1 d = (OK, f2)" "holds f2 ((A @ PopulateHeader d) @ d)" using step [OF f1(2) assms(3)] by blast
  obtain f3 where "wf_Append fo f2 (PopulateFooter d) = (OK, f3)"
    using step [OF f2(2), of "PopulateFooter d"] fits_footer by (auto simp: PopulateFooter_def)
  then show ?thesis using assms(1) f1(1) f2(1) by (simp add: WriteRecord_def Let_def)
qed

lemma WriteRecords_ok:
  "rw_dest w = Some f \<Longrightarrow> holds f A \<Longrightarrow> list_all (\<lambda>d. fits (length d)) ds \<Longrightarrow> fst (WriteRecords fo ds w) = OK"
proof (induction ds arbitrary: w f A)
  case (Cons d ds)
  obtain w1 where w1: "WriteRecord fo d w = (OK, w1)" using WriteRecord_ok [OF Cons.prems(1,2), of d] Cons.prems(3) by (cases "WriteRecord fo d w") auto
  from WriteRecord_appends [OF w1 Cons.prems(1,2)] Cons.prems(3) obtain f1 where
    "w1 = w\<lparr>rw_dest := Some f1\<rparr>" "holds f1 (A @ record_bytes d)" by auto
  then show ?case using Cons.IH [of w1 f1] Cons.prems(3) w1 by simp
qed simp

end

text \<open>The destination of a writer without compression.\<close>

fun plain_holds :: "('f \<Rightarrow> bytes) \<Rightarrow> ('f, 'z) record_dest \<Rightarrow> bytes \<Rightarrow> bool" where
  "plain_holds contents (PlainDest f) A \<longleftrightarrow> contents f = A"
| "plain_holds contents (ZlibDest z) A \<longleftrightarrow> False"

sublocale appendable_file \<subseteq> plain_sink: record_sink "dest_ops fo zo" "plain_holds contents" "\<lambda>_. True"
proof
  fix f A d f'
  assume "plain_holds contents f A" "wf_Append (dest_ops fo zo) f d = (OK, f')"
  then show "plain_holds contents f' (A @ d)" by (cases f) (auto simp: dest_ops_def append split: prod.splits)
qed simp_all

text \<open>A file in memory.\<close>

definition memory_ops :: "bytes writable_file" where
  "memory_ops = \<lparr>wf_Append = (\<lambda>f d. (OK, f @ d)), wf_Flush = (\<lambda>f. (OK, f)), wf_Sync = (\<lambda>f. (OK, f)), wf_Close = (\<lambda>f. (OK, f))\<rparr>"

interpretation memory_sink: appendable_file memory_ops "\<lambda>f. f"
  by unfold_locales (simp add: memory_ops_def)

context appendable_file
begin

lemma plain_written:
  assumes "WriteRecords (dest_ops fo zo) ds w = (OK, w')" "rw_dest w = Some (PlainDest f)" "rw_dest w' = Some (PlainDest f')"
  shows "contents f' = contents f @ concat (map record_bytes ds)"
  using plain_sink.WriteRecords_append [OF assms(1,2), of "contents f"] assms(3) by (auto simp: list_all_iff)

end

section \<open>Properties\<close>

text \<open>C26. TFRecord round trip: records written without compression to an empty file without an error are read back,
  with and without a read buffer: \<^verbatim>\<open>ReadRecord\<close> at the offsets of the records, in any order and any number of
  times, returns each record and the offset of the next one, and the end of the file at the final offset; the
  sequential reader returns the records in order and then the end of the file.\<close>

theorem record_roundtrip:
  assumes "appendable_file fo contents" "rwo_compression_type wopts = NONE" "contents f = []"
    and "RecordWriter_new zb f wopts = Some w" "WriteRecords (dest_ops fo zo) rs w = (OK, w')" "rw_dest w' = Some (PlainDest f')"
    and "random_access_file rd (contents f')" "length (contents f') < 2 ^ 63"
    and "rro_compression_type ropts = NONE" "rro_buffer_size ropts < 2 ^ 63" "list_all (\<lambda>i. i \<le> length rs) is"
  shows "\<exists>r q e. RecordReader_new zlib_stream ropts = Some r \<and> SequentialRecordReader_new zlib_stream ropts = Some q \<and>
    list_all2 (\<lambda>i res. if i < length rs then res = Inr (rs ! i, word_of_nat (record_offset rs (Suc i)))
        else \<exists>e. res = Inl e \<and> IsOutOfRange e) is
      (read_records (rs_ops rd zs) (map (\<lambda>i. word_of_nat (record_offset rs i)) is) r) \<and>
    read_sequence (rs_ops rd zs) (Suc (length rs)) q = map Inr rs @ [Inl e] \<and> IsOutOfRange e"
proof -
  have "rw_dest w = Some (PlainDest f)" using assms(2,4) by (auto simp: RecordWriter_new_def IsZlibCompressed_def Let_def)
  from appendable_file.plain_written [OF assms(1,5) this] have F: "contents f' = concat (map record_bytes rs)"
    using assms(3,6) by simp
  obtain r where r: "RecordReader_new zlib_stream ropts = Some r" "plain_at (contents f') (rr_input_stream r) 0"
    using RecordReader_new_at [OF assms(7-10)] by blast
  let ?q = "\<lparr>underlying = r, sr_offset = 0\<rparr>"
  note src = rs_is_source [OF assms(7,8)]
  have "\<exists>e. read_sequence (rs_ops rd zs) (Suc (length rs)) ?q = map Inr (drop 0 rs) @ [Inl e] \<and> IsOutOfRange e"
    by (rule record_source.read_sequence_of_file [OF src F]) (use r(2) in \<open>simp_all add: record_offset_def\<close>)
  moreover have "SequentialRecordReader_new zlib_stream ropts = Some ?q" by (simp add: SequentialRecordReader_new_def r(1))
  ultimately show ?thesis using r(1) record_source.read_records_of_file [OF src F r(2) assms(11)] by auto
qed

definition no_zlib :: zlib_h where
  "no_zlib = \<lparr>Z_NO_FLUSH = 0, MAX_WBITS = 15, Z_DEFAULT_COMPRESSION = -1, Z_DEFLATED = 8, Z_DEFAULT_STRATEGY = 0\<rparr>"

definition two_records :: bytes where
  "two_records = concat (map record_bytes [[7], [8, 9]])"

lemma two_records_small: "length two_records < 2 ^ 63"
  by (simp add: two_records_def)

definition no_streams :: "unit stream_ops" where
  "no_streams = \<lparr>ReadNBytes = (\<lambda>_ r s. (OK, r, s)), SkipNBytes = (\<lambda>_ s. (OK, s)), Tell = (\<lambda>_. 0), Reset = (\<lambda>s. (OK, s))\<rparr>"

theorem record_roundtrip_witness:
  "\<exists>q e. SequentialRecordReader_new (\<lambda>_ _. ()) (CreateRecordReaderOptions no_zlib []) = Some q \<and>
     read_sequence (rs_ops (memory_read two_records) no_streams) 3 q = [Inr [7], Inr [8, 9], Inl e] \<and> IsOutOfRange e"
proof -
  let ?w = "CreateRecordWriterOptions no_zlib []" and ?r = "CreateRecordReaderOptions no_zlib []"
  have w: "RecordWriter_new (\<lambda>f _. (OK, f)) [] ?w = Some \<lparr>rw_dest = Some (PlainDest []), rw_options = ?w\<rparr>"
    "rwo_compression_type ?w = NONE" "rro_compression_type ?r = NONE" "rro_buffer_size ?r < 2 ^ 63"
    by (simp_all add: RecordWriter_new_def CreateRecordWriterOptions_def CreateRecordReaderOptions_def kGzip_def IsZlibCompressed_def
        RecordWriterOptions_new_def RecordReaderOptions_new_def Let_def)
  have "WriteRecords (dest_ops memory_ops memory_ops) [[7], [8, 9]] \<lparr>rw_dest = Some (PlainDest []), rw_options = ?w\<rparr> =
      (OK, \<lparr>rw_dest = Some (PlainDest two_records), rw_options = ?w\<rparr>)"
    by (simp add: WriteRecord_def dest_ops_def memory_ops_def two_records_def record_bytes_eq [symmetric])
  from record_roundtrip [OF memory_sink.appendable_file_axioms w(2) refl w(1) this _
      memory_file.random_access_file_axioms two_records_small w(3,4), of "[]" "\<lambda>_ _. ()" no_streams]
  show ?thesis by (auto simp: eval_nat_numeral)
qed

text \<open>C27. \<^verbatim>\<open>ReadRecord\<close> is exact on every file and every stream, wherever the stream stands and whether or not
  the last read failed: it succeeds exactly when a whole record with correct checksums lies at the offset, returns that
  record and the offset behind it, leaves the offset alone otherwise, and answers \<^verbatim>\<open>OUT_OF_RANGE\<close> exactly when
  fewer bytes than a record header are left; a truncated header thus counts as the end of the file.\<close>

theorem ReadRecord_exact:
  assumes "input_stream F st at" "length F < 2 ^ 63" "at (rr_input_stream r) p" "unat off < 2 ^ 63"
  shows "\<exists>e off' d r' p'. ReadRecord st off old r = (e, off', d, r') \<and> at (rr_input_stream r') p' \<and>
    (e = OK \<longleftrightarrow> (\<exists>x. length x < 2 ^ 64 \<and> prefix (record_bytes x) (drop (unat off) F))) \<and>
    (e = OK \<longrightarrow> prefix (record_bytes d) (drop (unat off) F) \<and> off' = off + word_of_nat (length (record_bytes d))) \<and>
    (e \<noteq> OK \<longrightarrow> off' = off) \<and> (IsOutOfRange e \<longleftrightarrow> length F < unat off + 12)"
proof -
  have "record_source F st at" using assms(1,2) by (simp add: record_source_def record_source_axioms_def)
  from record_source.ReadRecord_spec [OF this assms(3,4), of old] show ?thesis by blast
qed

lemma two_records_at: "plain_at two_records (PlainStream (DirectStream RandomAccessInputStream_new)) 0"
  using ra_new [OF two_records_small] by simp

definition two_records_reader :: "unit record_stream RecordReader" where
  "two_records_reader = \<lparr>rr_options = RecordReaderOptions_new no_zlib, rr_input_stream = PlainStream (DirectStream RandomAccessInputStream_new),
     last_read_failed = True, cached_metadata = None\<rparr>"

theorem ReadRecord_exact_witness:
  "\<exists>e off' d r'. ReadRecord (rs_ops (memory_read two_records) no_streams) 35 [] two_records_reader = (e, off', d, r') \<and> IsOutOfRange e"
  using ReadRecord_exact [OF memory_records.input_stream_axioms two_records_small, of two_records_reader 0 35 no_streams "[]"] two_records_at
  by (fastforce simp: two_records_reader_def two_records_def)

text \<open>Damage to a checksummed string: up to four consecutive bytes of the string are changed, or its checksum is.\<close>

definition damaged :: "bytes \<Rightarrow> bytes \<Rightarrow> bool" where
  "damaged d c \<longleftrightarrow>
     (\<exists>a u v b. d = a @ u @ b \<and> length u = length v \<and> length u \<le> 4 \<and> u \<noteq> v \<and>
        c = (a @ v @ b) @ EncodeFixed32 kLittleEndian (MaskedCrc d)) \<or>
     (\<exists>m. length m = 4 \<and> m \<noteq> EncodeFixed32 kLittleEndian (MaskedCrc d) \<and> c = d @ m)"

lemma damaged_length: "damaged d c \<Longrightarrow> length c = length d + 4"
  by (auto simp: damaged_def)

lemma damaged_detected: "damaged d c \<Longrightarrow> c \<noteq> checksummed x"
proof
  assume d: "damaged d c" and c: "c = checksummed x"
  then have lx: "length x = length d" using damaged_length [OF d] by simp
  from d consider a u v b where "d = a @ u @ b" "length u = length v" "length u \<le> 4" "u \<noteq> v"
      "c = (a @ v @ b) @ EncodeFixed32 kLittleEndian (MaskedCrc d)"
    | m where "length m = 4" "m \<noteq> EncodeFixed32 kLittleEndian (MaskedCrc d)" "c = d @ m" by (auto simp: damaged_def)
  then show False
  proof cases
    case 1
    have e: "(a @ v @ b) @ EncodeFixed32 kLittleEndian (MaskedCrc d) = x @ EncodeFixed32 kLittleEndian (MaskedCrc x)"
      using 1(5) c unfolding checksummed_def by (rule trans [OF sym])
    have "length (a @ v @ b) = length x" using 1(1,2) lx by simp
    with e have x: "a @ v @ b = x" "EncodeFixed32 kLittleEndian (MaskedCrc d) = EncodeFixed32 kLittleEndian (MaskedCrc x)"
      using append_eq_append_conv [of "a @ v @ b" x] by blast+
    then have "MaskedCrc d = MaskedCrc x" by (metis DecodeFixed32_EncodeFixed32 append_Nil2 option.inject)
    then have "crc_Value d = crc_Value x" by (metis MaskedCrc_def Mask_Unmask)
    then show False using Extend_differs [OF 1(2-4)] 1(1) x(1) unfolding crc_Value_def by metis
  next
    case 2
    then show False using c lx by (auto simp: checksummed_def append_eq_append_conv)
  qed
qed

text \<open>C28. A record whose length field or data was changed within four consecutive bytes, or one of whose checksums
  was changed, is never returned and never taken for the end of the file: \<^verbatim>\<open>ReadRecord\<close> fails with another error.\<close>

theorem ReadRecord_detects_corruption:
  assumes "input_stream F st at" "length F < 2 ^ 63" "at (rr_input_stream r) p" "unat off = length pre" "length data < 2 ^ 64"
    and F: "F = pre @ ch @ cb @ post"
    and "damaged (EncodeFixed64 kLittleEndian (word_of_nat (length data))) ch \<or>
      ch = checksummed (EncodeFixed64 kLittleEndian (word_of_nat (length data))) \<and> damaged data cb"
  shows "\<exists>e d r'. ReadRecord st off old r = (e, off, d, r') \<and> e \<noteq> OK \<and> \<not> IsOutOfRange e"
proof -
  let ?n = "EncodeFixed64 kLittleEndian (word_of_nat (length data))"
  have src: "record_source F st at" using assms(1,2) by (simp add: record_source_def record_source_axioms_def)
  have ch: "length ch = 12" using assms(7) damaged_length [of ?n ch] by auto
  have "length pre \<le> length F" using F by simp
  then have off: "unat off < 2 ^ 63" "\<not> length F < unat off + 12" using assms(2,4) F ch by simp_all
  have rest: "drop (unat off) F = ch @ cb @ post" using F assms(4) by simp
  have "\<not> (length x < 2 ^ 64 \<and> prefix (record_bytes x) (drop (unat off) F))" for x
  proof
    assume x: "length x < 2 ^ 64 \<and> prefix (record_bytes x) (drop (unat off) F)"
    let ?h = "EncodeFixed64 kLittleEndian (word_of_nat (length x))"
    have "prefix (checksummed ?h) (ch @ cb @ post)" and body: "prefix (checksummed x) (drop 12 (ch @ cb @ post))"
      using x unfolding rest by (simp_all add: record_bytes_def prefix_append_iff)
    then have h: "ch = checksummed ?h" using ch by (simp add: prefix_conv_take)
    with assms(7) damaged_detected have eq: "ch = checksummed ?n" "damaged data cb" by blast+
    have "?h = ?n" using h eq(1) by (simp add: checksummed_def append_eq_append_conv)
    then have "word_of_nat (length x) = (word_of_nat (length data) :: uint64)"
      by (metis DecodeFixed64_EncodeFixed64 append_Nil2 option.inject)
    then have "unat (word_of_nat (length x) :: uint64) = unat (word_of_nat (length data) :: uint64)" by simp
    then have "length x = length data" using x assms(5) by (simp add: unsigned_of_nat take_bit_nat_eq_self)
    then have "cb = checksummed x" using body ch damaged_length [OF eq(2)] by (simp add: prefix_conv_take)
    then show False using damaged_detected [OF eq(2)] by blast
  qed
  then show ?thesis using record_source.ReadRecord_spec [OF src assms(3) off(1), of old] off(2) by blast
qed

definition bad_record :: bytes where
  "bad_record = checksummed (EncodeFixed64 kLittleEndian 1) @ [8] @ EncodeFixed32 kLittleEndian (MaskedCrc [7])"

theorem ReadRecord_detects_corruption_witness:
  "\<exists>e d r'. ReadRecord (rs_ops (memory_read bad_record) no_streams) 0 [] two_records_reader = (e, 0, d, r') \<and> e \<noteq> OK \<and> \<not> IsOutOfRange e"
proof -
  have "length bad_record < 2 ^ 63" by (simp add: bad_record_def)
  moreover have "plain_at bad_record (rr_input_stream two_records_reader) 0" using ra_new [OF calculation] by (simp add: two_records_reader_def)
  moreover have "damaged [7] ([8] @ EncodeFixed32 kLittleEndian (MaskedCrc [7]))"
    unfolding damaged_def by (rule disjI1, rule exI [of _ "[]"], rule exI [of _ "[7]"], rule exI [of _ "[8]"], rule exI [of _ "[]"]) simp
  ultimately show ?thesis
    by (intro ReadRecord_detects_corruption [OF memory_records.input_stream_axioms, where pre = "[]" and data = "[7]" and post = "[]"
          and ch = "checksummed (EncodeFixed64 kLittleEndian 1)" and cb = "[8] @ EncodeFixed32 kLittleEndian (MaskedCrc [7])"])
       (simp_all add: bad_record_def)
qed

text \<open>C29. \<^verbatim>\<open>GetMetadata\<close> returns on every file, and on a file of whole records it reports their number, the
  bytes of their data and the size of the file, and keeps the answer for later calls.\<close>

theorem GetMetadata_counts:
  assumes "input_stream F st at" "length F < 2 ^ 63" "at (rr_input_stream r) p" "cached_metadata r = None"
  shows "(\<exists>res. GetMetadata st md r = Some res) \<and>
    (F = concat (map record_bytes rs) \<longrightarrow>
      (let m = \<lparr>stats = \<lparr>file_size = word_of_nat (length F), data_size = word_of_nat (sum_list (map length rs)),
                 entries = word_of_nat (length rs)\<rparr>\<rparr>
       in \<exists>r' p'. GetMetadata st (Some old) r = Some (OK, Some m, r') \<and> at (rr_input_stream r') p' \<and>
            GetMetadata st (Some old') r' = Some (OK, Some m, r')))"
proof -
  have src: "record_source F st at" using assms(1,2) by (simp add: record_source_def record_source_axioms_def)
  obtain s0 where s0: "Reset st (rr_input_stream r) = (OK, s0)" "at s0 0" using input_stream.reset [OF assms(1,3)] by blast
  obtain e a b s1 p1 where l: "GetMetadata_loop st 0 0 [] s0 = Some (e, a, b, s1)" "at s1 p1"
    using record_source.GetMetadata_loop_ends [OF src s0(2)] by blast
  have "\<exists>res. GetMetadata st md r = Some res"
    by (cases md) (simp_all add: GetMetadata_def assms(4) s0(1) l(1) Let_def)
  moreover have "\<exists>r' p'. GetMetadata st (Some old) r = Some (OK, Some m, r') \<and> at (rr_input_stream r') p' \<and>
            GetMetadata st (Some old') r' = Some (OK, Some m, r')"
    if F: "F = concat (map record_bytes rs)" and m: "m = \<lparr>stats = \<lparr>file_size = word_of_nat (length F), data_size = word_of_nat (sum_list (map length rs)),
                 entries = word_of_nat (length rs)\<rparr>\<rparr>" for m
  proof -
    obtain s2 where s2: "GetMetadata_loop st 0 0 [] s0 = Some (OK, word_of_nat (sum_list (map length rs)), word_of_nat (length rs), s2)"
      "at s2 (length F)" using record_source.GetMetadata_loop_records [OF src s0(2), of rs 0 0 "[]"] F by auto
    have "length F = sum_list (map length rs) + 16 * length rs" unfolding F by (induction rs) simp_all
    then have "word_of_nat (length F) = word_of_nat (sum_list (map length rs)) + (kHeaderSize + kFooterSize) * word_of_nat (length rs)"
      by (simp add: kHeaderSize_def kFooterSize_def)
    then have "GetMetadata st (Some old) r = Some (OK, Some m, r\<lparr>rr_input_stream := s2, cached_metadata := Some m\<rparr>)"
      unfolding m by (simp add: GetMetadata_def assms(4) s0(1) s2(1) Let_def)
    then show ?thesis using s2(2) by (intro exI conjI) (assumption, simp_all add: GetMetadata_def)
  qed
  ultimately show ?thesis unfolding Let_def by blast
qed

theorem GetMetadata_counts_witness:
  "\<exists>m r'. GetMetadata (rs_ops (memory_read two_records) no_streams) (Some \<lparr>stats = \<lparr>file_size = -1, data_size = -1, entries = -1\<rparr>\<rparr>)
      two_records_reader = Some (OK, Some m, r') \<and> stats m = \<lparr>file_size = 35, data_size = 3, entries = 2\<rparr>"
proof -
  have "length two_records = 35" by (simp add: two_records_def)
  then show ?thesis
    using GetMetadata_counts [OF memory_records.input_stream_axioms two_records_small, of two_records_reader 0 no_streams None "[[7], [8, 9]]"]
      two_records_at by (fastforce simp: two_records_reader_def Let_def two_records_def)
qed

end
