(* ===== verification/Byte_Buffer.thy ===== *)
theory Byte_Buffer
  imports TF_Prelude
begin

text \<open>
  Byte arrays with a part in use, as the buffered streams of \<^verbatim>\<open>core/lib/io\<close> keep them: \<^verbatim>\<open>memcpy\<close> into an array, and the
  addition of data behind the unread part of an array, which the zlib and the Snappy output buffer do by the same code.
\<close>

text \<open>\<^verbatim>\<open>memcpy\<close> and \<^verbatim>\<open>memmove\<close> into an array.\<close>

definition write_at :: "bytes \<Rightarrow> nat \<Rightarrow> bytes \<Rightarrow> bytes" where
  "write_at buf pos data = take pos buf @ data @ drop (pos + length data) buf"

lemma length_write_at: "pos + length data \<le> length buf \<Longrightarrow> length (write_at buf pos data) = length buf"
  by (simp add: write_at_def)

lemma read_write_at: "pos + length data \<le> length buf \<Longrightarrow> take (length data) (drop pos (write_at buf pos data)) = data"
  by (simp add: write_at_def)

lemma write_behind:
  "n + a + length d \<le> length b \<Longrightarrow> take (a + length d) (drop n (write_at b (n + a) d)) = take a (drop n b) @ d"
  by (simp add: write_at_def drop_take)

lemma take_write_at: "pos + length data \<le> length buf \<Longrightarrow> take (pos + length data) (write_at buf pos data) = take pos buf @ data"
  by (simp add: write_at_def)

text \<open>The free space of a buffer fits into an \<^verbatim>\<open>int32\<close>, and is the same as a \<^verbatim>\<open>size_t\<close>.\<close>

lemma sint32_diff:
  assumes "a \<le> c" "c < 2 ^ 31"
  shows "sint (word_of_int (int c - int a) :: 32 word) = int c - int a"
proof -
  have "sint (word_of_int k :: 32 word) = signed_take_bit 31 k" for k by (simp add: signed_of_int)
  then have "sint (word_of_int (int c - int a) :: 32 word) = signed_take_bit 31 (int c - int a)" .
  also have "\<dots> = int c - int a" by (rule signed_take_bit_int_eq_self) (use assms in simp_all)
  finally show ?thesis .
qed

lemma size32_diff:
  assumes "a \<le> c" "c < 2 ^ 31"
  shows "sint (word_of_int (int c - int a) :: 32 word) mod 2 ^ 64 = int (c - a)"
  using assms unfolding sint32_diff [OF assms] by (simp add: of_nat_diff)

text \<open>The body of \<^verbatim>\<open>AddToInputBuffer\<close>, on the array, the start and the number of its unread bytes: if the data do not fit behind
  them, they are moved to the front first.\<close>

definition add_to_buffer :: "nat \<Rightarrow> bytes \<Rightarrow> bytes \<times> nat \<times> nat \<Rightarrow> bytes \<times> nat \<times> nat" where
  "add_to_buffer capacity data b =
     (case b of (buf, next_in, avail_in) \<Rightarrow>
        let bytes_to_write = length data;
            free_tail_bytes = capacity - (next_in + avail_in);
            (buf, next_in) =
              (if bytes_to_write > free_tail_bytes then (write_at buf 0 (take avail_in (drop next_in buf)), 0)
               else (buf, next_in))
        in (write_at buf (next_in + avail_in) data, next_in, avail_in + bytes_to_write))"

lemma add_to_buffer_spec:
  assumes "add_to_buffer (length buf) data (buf, n, a) = (buf', n', a')"
    and len: "length (take a (drop n buf)) = a" and room: "a + length data \<le> length buf"
  shows "length buf' = length buf \<and> a' = a + length data \<and> take a' (drop n' buf') = take a (drop n buf) @ data"
proof (cases "length data > length buf - (n + a)")
  case True
  let ?i = "take a (drop n buf)"
  have e: "buf' = write_at (write_at buf 0 ?i) a data" "n' = 0" "a' = a + length data" using assms(1) True by (auto simp: add_to_buffer_def)
  have l: "length (write_at buf 0 ?i) = length buf" using room len by (simp add: length_write_at)
  have "take a (write_at buf 0 ?i) = ?i" using read_write_at [of 0 ?i buf] len room by simp
  then show ?thesis unfolding e using write_behind [of 0 a data "write_at buf 0 ?i"] length_write_at [of a data "write_at buf 0 ?i"] room l by simp
next
  case False
  then have e: "buf' = write_at buf (n + a) data" "n' = n" "a' = a + length data" using assms(1) by (auto simp: add_to_buffer_def)
  show ?thesis
  proof (cases "data = []")
    case True
    then show ?thesis unfolding e by (simp add: write_at_def)
  next
    case ne: False
    then have b: "n + a + length data \<le> length buf" using False by (cases data) auto
    show ?thesis unfolding e using write_behind [OF b] length_write_at [OF b] by simp
  qed
qed

end
