(* ===== verification/Zlib_Input.thy ===== *)
theory Zlib_Input
  imports Record_IO Byte_Buffer
begin

text \<open>
  \<^verbatim>\<open>core/lib/io/zlib_inputstream.cc\<close>: the stream that decompresses another one. The zlib library is a parameter: its
  constants, and its functions on an opaque state \<^verbatim>\<open>'z\<close>. A call of \<^verbatim>\<open>inflate\<close> gets the available input and the
  room for output and returns its code, the number of bytes it consumed, the bytes it produced and the new state. The
  buffers are byte arrays of the capacities given to the constructor, with the positions \<^verbatim>\<open>next_in\<close>,
  \<^verbatim>\<open>next_out\<close> and \<^verbatim>\<open>next_unread_byte_\<close> as offsets.
\<close>

section \<open>The zlib library\<close>

record zlib_codes =
  Z_OK :: int
  Z_STREAM_END :: int
  Z_BUF_ERROR :: int
  Z_FINISH :: "8 word"
  Z_SYNC_FLUSH :: "8 word"
  Z_FULL_FLUSH :: "8 word"

record 'z zlib_inflate =
  zi_codes :: zlib_codes
  inflateInit2 :: "8 word \<Rightarrow> int \<times> 'z"
  inflate :: "'z \<Rightarrow> 8 word \<Rightarrow> bytes \<Rightarrow> nat \<Rightarrow> int \<times> nat \<times> bytes \<times> 'z"

section \<open>The stream\<close>

record ('s, 'z) ZlibInputStream =
  zi_input_stream :: 's
  zi_input_capacity :: nat
  zi_output_capacity :: nat
  zi_next_unread :: nat
  zi_options :: ZlibCompressionOptions
  zi_input :: bytes
  zi_output :: bytes
  zi_next_in :: nat
  zi_avail_in :: nat
  zi_next_out :: nat
  zi_avail_out :: nat
  zi_stream :: 'z
  zi_bytes_read :: int

text \<open>\<open>None\<close> is the failure of the \<^verbatim>\<open>CHECK_EQ\<close> on \<^verbatim>\<open>inflateInit2\<close>. The field \<^verbatim>\<open>avail_out\<close> of zlib has 32
  bits.\<close>

definition InitZlibBuffer :: "'z zlib_inflate \<Rightarrow> ('s, 'z) ZlibInputStream \<Rightarrow> ('s, 'z) ZlibInputStream option" where
  "InitZlibBuffer zl z =
     (let (s, strm) = inflateInit2 zl (window_bits (zi_options z)) in
      if s \<noteq> Z_OK (zi_codes zl) then None
      else Some (z\<lparr>zi_stream := strm, zi_next_in := 0, zi_next_out := 0, zi_next_unread := 0, zi_avail_in := 0,
                   zi_avail_out := zi_output_capacity z mod 2 ^ 32\<rparr>))"

definition ZlibInputStream_new :: "'z zlib_inflate \<Rightarrow> 's \<Rightarrow> nat \<Rightarrow> nat \<Rightarrow> ZlibCompressionOptions \<Rightarrow>
    ('s, 'z) ZlibInputStream option" where
  "ZlibInputStream_new zl input input_buffer_bytes output_buffer_bytes options =
     InitZlibBuffer zl
       \<lparr>zi_input_stream = input, zi_input_capacity = input_buffer_bytes, zi_output_capacity = output_buffer_bytes,
        zi_next_unread = 0, zi_options = options, zi_input = replicate input_buffer_bytes 0,
        zi_output = replicate output_buffer_bytes 0, zi_next_in = 0, zi_avail_in = 0, zi_next_out = 0, zi_avail_out = 0,
        zi_stream = snd (inflateInit2 zl (window_bits options)), zi_bytes_read = 0\<rparr>"

definition Zlib_Reset :: "'z zlib_inflate \<Rightarrow> 's stream_ops \<Rightarrow> ('s, 'z) ZlibInputStream \<Rightarrow> (status \<times> ('s, 'z) ZlibInputStream) option" where
  "Zlib_Reset zl st z =
     (let (s, input) = Reset st (zi_input_stream z); z = z\<lparr>zi_input_stream := input\<rparr> in
      if s \<noteq> OK then Some (s, z)
      else map_option (\<lambda>z. (OK, z\<lparr>zi_bytes_read := 0\<rparr>)) (InitZlibBuffer zl z))"

text \<open>\<^verbatim>\<open>ReadFromStream\<close>; the number of bytes to read is an \<^verbatim>\<open>int\<close> of 32 bits.\<close>

definition ReadFromStream :: "'s stream_ops \<Rightarrow> ('s, 'z) ZlibInputStream \<Rightarrow> status \<times> ('s, 'z) ZlibInputStream" where
  "ReadFromStream st z =
     (let bytes_to_read = word_of_nat (zi_input_capacity z) :: 32 word;
          (bytes_to_read, read_location, input) =
            (if zi_avail_in z > 0 then
               (bytes_to_read - word_of_nat (zi_avail_in z), zi_avail_in z,
                if zi_next_in z > 0 then write_at (zi_input z) 0 (take (zi_avail_in z) (drop (zi_next_in z) (zi_input z)))
                else zi_input z)
             else (bytes_to_read, 0, zi_input z));
          (s, data, stream) = ReadNBytes st (sint bytes_to_read) [] (zi_input_stream z);
          z = z\<lparr>zi_input_stream := stream, zi_input := write_at input read_location data, zi_next_in := 0,
                zi_avail_in := zi_avail_in z + length data\<rparr>
      in if s \<noteq> OK \<and> \<not> IsOutOfRange s then (s, z)
         else if data = [] then (Error OUT_OF_RANGE ''EOF reached'', z)
         else if IsOutOfRange s then (OK, z)
         else (s, z))"

definition ReadBytesFromCache :: "nat \<Rightarrow> bytes \<Rightarrow> ('s, 'z) ZlibInputStream \<Rightarrow> nat \<times> bytes \<times> ('s, 'z) ZlibInputStream" where
  "ReadBytesFromCache bytes_to_read result z =
     (let unread_bytes = zi_next_out z - zi_next_unread z;
          can_read_bytes = min bytes_to_read unread_bytes
      in (can_read_bytes, result @ take can_read_bytes (drop (zi_next_unread z) (zi_output z)),
          z\<lparr>zi_next_unread := zi_next_unread z + can_read_bytes, zi_bytes_read := zi_bytes_read z + int can_read_bytes\<rparr>))"

definition NumUnreadBytes :: "('s, 'z) ZlibInputStream \<Rightarrow> nat" where
  "NumUnreadBytes z = zi_output_capacity z - zi_avail_out z - zi_next_unread z"

definition Inflate :: "'z zlib_inflate \<Rightarrow> ('s, 'z) ZlibInputStream \<Rightarrow> status \<times> ('s, 'z) ZlibInputStream" where
  "Inflate zl z =
     (let (error, k, out, strm) =
            inflate zl (zi_stream z) (flush_mode (zi_options z)) (take (zi_avail_in z) (drop (zi_next_in z) (zi_input z)))
              (zi_avail_out z);
          z = z\<lparr>zi_stream := strm, zi_next_in := zi_next_in z + k, zi_avail_in := zi_avail_in z - k,
                zi_output := write_at (zi_output z) (zi_next_out z) out, zi_next_out := zi_next_out z + length out,
                zi_avail_out := zi_avail_out z - length out\<rparr>
      in (if error \<noteq> Z_OK (zi_codes zl) \<and> error \<noteq> Z_STREAM_END (zi_codes zl)
          then Error DATA_LOSS ''inflate() failed with error '' else OK, z))"

text \<open>The second step of the loop of \<^verbatim>\<open>ReadNBytes\<close> sets up the output.\<close>

definition reset_output :: "('s, 'z) ZlibInputStream \<Rightarrow> ('s, 'z) ZlibInputStream" where
  "reset_output z = z\<lparr>zi_next_out := 0, zi_next_unread := 0, zi_avail_out := zi_output_capacity z mod 2 ^ 32\<rparr>"

text \<open>The loop of \<^verbatim>\<open>ReadNBytes\<close>: \<open>None\<close> is a run that never ends.\<close>

partial_function (option) Zlib_ReadNBytes_loop :: "'z zlib_inflate \<Rightarrow> 's stream_ops \<Rightarrow> int \<Rightarrow> bytes \<Rightarrow> ('s, 'z) ZlibInputStream \<Rightarrow>
    (status \<times> bytes \<times> ('s, 'z) ZlibInputStream) option" where
  "Zlib_ReadNBytes_loop zl st bytes_to_read result z =
     (if bytes_to_read > 0 then
        let (s, z) = (if zi_avail_in z = 0 then ReadFromStream st z else (OK, z))
        in if s \<noteq> OK then Some (s, result, z)
           else
             let (s, z) = Inflate zl (reset_output z)
             in if s \<noteq> OK then Some (s, result, z)
                else
                  let (n, result, z) = ReadBytesFromCache (nat bytes_to_read) result z
                  in Zlib_ReadNBytes_loop zl st (bytes_to_read - int n) result z
      else Some (OK, result, z))"

definition Zlib_ReadNBytes :: "'z zlib_inflate \<Rightarrow> 's stream_ops \<Rightarrow> int \<Rightarrow> ('s, 'z) ZlibInputStream \<Rightarrow>
    (status \<times> bytes \<times> ('s, 'z) ZlibInputStream) option" where
  "Zlib_ReadNBytes zl st bytes_to_read z =
     (let (n, result, z) = ReadBytesFromCache (nat (bytes_to_read mod 2 ^ 64)) [] z
      in Zlib_ReadNBytes_loop zl st (bytes_to_read - int n) result z)"

text \<open>The virtual functions. \<^verbatim>\<open>SkipNBytes\<close> is the default one.\<close>

definition Zlib_read :: "'z zlib_inflate \<Rightarrow> 's stream_ops \<Rightarrow> int \<Rightarrow> bytes \<Rightarrow> ('s, 'z) ZlibInputStream \<Rightarrow>
    status \<times> bytes \<times> ('s, 'z) ZlibInputStream" where
  "Zlib_read zl st n result z = the (Zlib_ReadNBytes zl st n z)"

definition Zlib_ops :: "'z zlib_inflate \<Rightarrow> 's stream_ops \<Rightarrow> ('s, 'z) ZlibInputStream stream_ops" where
  "Zlib_ops zl st = \<lparr>ReadNBytes = Zlib_read zl st, SkipNBytes = default_SkipNBytes (Zlib_read zl st),
     Tell = zi_bytes_read, Reset = (\<lambda>z. the (Zlib_Reset zl st z))\<rparr>"

text \<open>A sequence of reads: for each its error code, if any, and its bytes.\<close>

fun zlib_run :: "'z zlib_inflate \<Rightarrow> 's stream_ops \<Rightarrow> nat list \<Rightarrow> ('s, 'z) ZlibInputStream \<Rightarrow> (error_code option \<times> bytes) list option" where
  "zlib_run zl st [] z = Some []"
| "zlib_run zl st (n # ns) z =
     (case Zlib_ReadNBytes zl st (int n) z of None \<Rightarrow> None
      | Some (s, d, z) \<Rightarrow> map_option ((#) (code_of s, d)) (zlib_run zl st ns z))"

section \<open>The contract of zlib\<close>

text \<open>\<open>C\<close> is a complete compressed stream for \<open>F\<close>. \<open>zst z c q\<close>: the state has consumed \<open>c\<close> bytes of \<open>C\<close> and
  produced \<open>q\<close> bytes of \<open>F\<close>. As long as there is input and room, a call consumes or produces something; the check value
  at the end of the stream makes that all of \<open>F\<close> is produced before the last byte of \<open>C\<close> is consumed.\<close>

locale inflater =
  fixes zl :: "'z zlib_inflate" and C F :: bytes and zst :: "'z \<Rightarrow> nat \<Rightarrow> nat \<Rightarrow> bool" and opts :: ZlibCompressionOptions
  assumes init: "\<exists>z. inflateInit2 zl (window_bits opts) = (Z_OK (zi_codes zl), z) \<and> zst z 0 0"
    and zst_bound: "zst z c q \<Longrightarrow> c \<le> length C \<and> q \<le> length F"
    and zst_end: "zst z (length C) q \<Longrightarrow> q = length F"
    and inflate_step: "zst z c q \<Longrightarrow> i \<noteq> [] \<Longrightarrow> prefix i (drop c C) \<Longrightarrow> 0 < n \<Longrightarrow>
      \<exists>e k out z'. inflate zl z (flush_mode opts) i n = (e, k, out, z') \<and> (e = Z_OK (zi_codes zl) \<or> e = Z_STREAM_END (zi_codes zl)) \<and>
        k \<le> length i \<and> length out \<le> n \<and> prefix out (drop q F) \<and> zst z' (c + k) (q + length out) \<and> 0 < k + length out"

section \<open>Reading\<close>

text \<open>The state at position \<open>p\<close> of the decompressed contents, with \<open>c\<close> bytes of the compressed file consumed.\<close>

definition zlib_inv :: "bytes \<Rightarrow> bytes \<Rightarrow> ('z \<Rightarrow> nat \<Rightarrow> nat \<Rightarrow> bool) \<Rightarrow> ZlibCompressionOptions \<Rightarrow> ('s \<Rightarrow> nat \<Rightarrow> bool) \<Rightarrow>
    ('s, 'z) ZlibInputStream \<Rightarrow> nat \<Rightarrow> nat \<Rightarrow> bool" where
  "zlib_inv C F zst opts cat z c p \<longleftrightarrow>
     zi_options z = opts \<and> 0 < zi_input_capacity z \<and> zi_input_capacity z < 2 ^ 31 \<and>
     0 < zi_output_capacity z \<and> zi_output_capacity z < 2 ^ 31 \<and>
     length (zi_input z) = zi_input_capacity z \<and> length (zi_output z) = zi_output_capacity z \<and>
     zi_next_in z + zi_avail_in z \<le> zi_input_capacity z \<and>
     zi_next_unread z \<le> zi_next_out z \<and> zi_next_out z + zi_avail_out z = zi_output_capacity z \<and>
     zi_bytes_read z = int p \<and> cat (zi_input_stream z) (c + zi_avail_in z) \<and>
     take (zi_avail_in z) (drop (zi_next_in z) (zi_input z)) = take (zi_avail_in z) (drop c C) \<and>
     zst (zi_stream z) c (p + (zi_next_out z - zi_next_unread z)) \<and>
     take (zi_next_out z - zi_next_unread z) (drop (zi_next_unread z) (zi_output z)) = take (zi_next_out z - zi_next_unread z) (drop p F)"

definition zlib_at :: "bytes \<Rightarrow> bytes \<Rightarrow> ('z \<Rightarrow> nat \<Rightarrow> nat \<Rightarrow> bool) \<Rightarrow> ZlibCompressionOptions \<Rightarrow> ('s \<Rightarrow> nat \<Rightarrow> bool) \<Rightarrow>
    ('s, 'z) ZlibInputStream \<Rightarrow> nat \<Rightarrow> bool" where
  "zlib_at C F zst opts cat z p \<longleftrightarrow> (\<exists>c. zlib_inv C F zst opts cat z c p)"

locale zlib_source = inflater zl C F zst opts + input_stream C st cat
  for zl :: "'z zlib_inflate" and C F zst opts and st :: "'s stream_ops" and cat +
  assumes small: "length F < 2 ^ 63"
begin

abbreviation inv :: "('s, 'z) ZlibInputStream \<Rightarrow> nat \<Rightarrow> nat \<Rightarrow> bool" where "inv \<equiv> zlib_inv C F zst opts cat"

lemma cache_read:
  assumes z: "inv z c p" and k: "k = min n (zi_next_out z - zi_next_unread z)"
  shows "\<exists>z'. ReadBytesFromCache n result z = (k, result @ take k (drop p F), z') \<and> inv z' c (p + k) \<and> zi_avail_in z' = zi_avail_in z \<and>
    zi_next_out z' - zi_next_unread z' = (zi_next_out z - zi_next_unread z) - k"
proof -
  let ?u = "zi_next_out z - zi_next_unread z"
  let ?z = "z\<lparr>zi_next_unread := zi_next_unread z + k, zi_bytes_read := zi_bytes_read z + int k\<rparr>"
  have ku: "k \<le> ?u" using k by simp
  have buf: "take ?u (drop (zi_next_unread z) (zi_output z)) = take ?u (drop p F)" using z by (simp add: zlib_inv_def)
  have piece: "take k (drop (zi_next_unread z) (zi_output z)) = take k (drop p F)"
    using arg_cong [OF buf, of "take k"] ku by (simp add: min_absorb1)
  have rest: "take (?u - k) (drop (zi_next_unread z + k) (zi_output z)) = take (?u - k) (drop (p + k) F)"
    using arg_cong [OF buf, of "drop k"] by (simp add: drop_take add.commute)
  have "ReadBytesFromCache n result z = (k, result @ take k (drop p F), ?z)"
    unfolding ReadBytesFromCache_def Let_def k [symmetric] piece ..
  moreover have "inv ?z c (p + k)"
  proof -
    have "zi_next_unread z \<le> zi_next_out z" using z by (simp add: zlib_inv_def)
    then have "zi_next_unread z + k \<le> zi_next_out z" "p + k + (zi_next_out z - (zi_next_unread z + k)) = p + ?u" using ku by linarith+
    then show ?thesis using z rest by (simp add: zlib_inv_def)
  qed
  ultimately show ?thesis by auto
qed

text \<open>The unread bytes are counted correctly, and there are none when the loop asserts it.\<close>

lemma NumUnreadBytes_eq: "inv z c p \<Longrightarrow> NumUnreadBytes z = zi_next_out z - zi_next_unread z"
  by (auto simp: zlib_inv_def NumUnreadBytes_def)

lemma ReadFromStream_empty:
  assumes z: "inv z c p" and a: "zi_avail_in z = 0"
  shows "\<exists>s z'. ReadFromStream st z = (s, z') \<and> inv z' c p \<and> zi_next_out z' - zi_next_unread z' = zi_next_out z - zi_next_unread z \<and>
    (if c = length C then IsOutOfRange s else s = OK \<and> 0 < zi_avail_in z')"
proof -
  let ?n = "zi_input_capacity z"
  have n: "0 < ?n" "?n < 2 ^ 31" "length (zi_input z) = ?n" "cat (zi_input_stream z) c" using z a by (simp_all add: zlib_inv_def)
  have sn: "sint (word_of_nat ?n :: 32 word) = int ?n" using n(2) by (simp add: signed_of_nat signed_take_bit_int_eq_self)
  have cl: "c \<le> length C" using at_bound [OF n(4)] .
  obtain s stream where s: "ReadNBytes st (int ?n) [] (zi_input_stream z) = (s, take ?n (drop c C), stream)"
      "cat stream (c + length (take ?n (drop c C)))" "s = OK \<or> IsOutOfRange s"
  proof (cases "c + ?n \<le> length C")
    case True
    then show ?thesis using read_in [OF n(4) True, of "[]"] that by auto
  next
    case False
    then show ?thesis using read_past [OF n(4), of ?n "[]"] n(2) cl that by fastforce
  qed
  define data where "data = take ?n (drop c C)"
  have d: "length data \<le> ?n" "data = [] \<longleftrightarrow> c = length C" using n(1) cl by (auto simp: data_def)
  let ?z = "z\<lparr>zi_input_stream := stream, zi_input := write_at (zi_input z) 0 data, zi_next_in := 0, zi_avail_in := length data\<rparr>"
  have "ReadFromStream st z = (if data = [] then Error OUT_OF_RANGE ''EOF reached'' else OK, ?z)"
    using s(1,3) a unfolding ReadFromStream_def by (auto simp: Let_def sn data_def)
  moreover have "inv ?z c p"
  proof -
    have "take (length data) (write_at (zi_input z) 0 data) = data" using read_write_at [of 0 data "zi_input z"] d(1) n(3) by simp
    moreover have "data = take (length data) (drop c C)" by (metis data_def prefix_conv_take take_is_prefix)
    moreover have "length (write_at (zi_input z) 0 data) = ?n" using length_write_at [of 0 data "zi_input z"] d(1) n(3) by simp
    ultimately show ?thesis using z s(2) d(1) by (simp add: zlib_inv_def data_def [symmetric] del: Nat.add_diff_assoc)
  qed
  ultimately show ?thesis using d(2) by auto
qed

lemma Inflate_step:
  assumes z: "inv z c p" and u: "zi_next_out z = zi_next_unread z" and a: "0 < zi_avail_in z"
  shows "\<exists>z' k. Inflate zl (reset_output z) = (OK, z') \<and>
    inv z' (c + k) p \<and> 0 < k + (zi_next_out z' - zi_next_unread z')"
proof -
  let ?i = "take (zi_avail_in z) (drop c C)" and ?n = "zi_output_capacity z"
  have f: "0 < ?n" "?n < 2 ^ 31" "length (zi_output z) = ?n" "zst (zi_stream z) c p" "zi_options z = opts"
    "take (zi_avail_in z) (drop (zi_next_in z) (zi_input z)) = ?i" "cat (zi_input_stream z) (c + zi_avail_in z)"
    using z u by (simp_all add: zlib_inv_def)
  have m: "?n mod 2 ^ 32 = ?n" using f(2) by simp
  have len: "length ?i = zi_avail_in z" using at_bound [OF f(7)] by simp
  then have "?i \<noteq> []" using a by auto
  from inflate_step [OF f(4) this take_is_prefix f(1)] obtain e k out strm where
    o: "inflate zl (zi_stream z) (flush_mode opts) ?i ?n = (e, k, out, strm)" "e = Z_OK (zi_codes zl) \<or> e = Z_STREAM_END (zi_codes zl)"
      "k \<le> zi_avail_in z" "length out \<le> ?n" "prefix out (drop p F)" "zst strm (c + k) (p + length out)" "0 < k + length out"
    unfolding len by blast
  let ?z = "z\<lparr>zi_stream := strm, zi_next_in := zi_next_in z + k, zi_avail_in := zi_avail_in z - k, zi_output := write_at (zi_output z) 0 out,
      zi_next_out := length out, zi_next_unread := 0, zi_avail_out := ?n - length out\<rparr>"
  have "Inflate zl (reset_output z) = (OK, ?z)"
    using o(1,2) f(5,6) unfolding reset_output_def m by (auto simp: Inflate_def Let_def)
  moreover have "inv ?z (c + k) p"
  proof -
    have "take (length out) (write_at (zi_output z) 0 out) = out" using read_write_at [of 0 out "zi_output z"] o(4) f(3) by simp
    moreover have "out = take (length out) (drop p F)" using o(5) by (metis prefix_conv_take)
    moreover have "length (write_at (zi_output z) 0 out) = ?n" using length_write_at [of 0 out "zi_output z"] o(4) f(3) by simp
    moreover have "take (zi_avail_in z - k) (drop (zi_next_in z + k) (zi_input z)) = take (zi_avail_in z - k) (drop (c + k) C)"
      using arg_cong [OF f(6), of "drop k"] by (simp add: drop_take add.commute)
    ultimately show ?thesis using z o(3,4,6) f by (simp add: zlib_inv_def)
  qed
  ultimately show ?thesis using o(7) by (intro exI [of _ ?z] exI [of _ k]) simp
qed

lemma invD:
  assumes "inv z c p"
  shows "zst (zi_stream z) c (p + (zi_next_out z - zi_next_unread z))" "c \<le> length C"
    "p + (zi_next_out z - zi_next_unread z) \<le> length F" "zi_next_unread z \<le> zi_next_out z"
proof -
  show q: "zst (zi_stream z) c (p + (zi_next_out z - zi_next_unread z))" "zi_next_unread z \<le> zi_next_out z"
    using assms unfolding zlib_inv_def by blast+
  show "c \<le> length C" "p + (zi_next_out z - zi_next_unread z) \<le> length F" using zst_bound [OF q(1)] by blast+
qed

text \<open>One round of the loop, with \<open>n\<close> bytes still to read and an empty cache.\<close>

lemma read_round:
  assumes z: "inv z c p" and u: "zi_next_out z = zi_next_unread z" and n: "0 < n"
  shows "(\<exists>s z'. Zlib_ReadNBytes_loop zl st (int n) result z = Some (s, result, z') \<and> IsOutOfRange s \<and> p = length F \<and> inv z' c p) \<or>
    (\<exists>m k z'. Zlib_ReadNBytes_loop zl st (int n) result z =
        Zlib_ReadNBytes_loop zl st (int (n - m)) (result @ take m (drop p F)) z' \<and>
      inv z' (c + k) (p + m) \<and> m \<le> n \<and> (n = m \<or> zi_next_out z' = zi_next_unread z' \<and> 0 < k + m))"
proof -
  note loop = Zlib_ReadNBytes_loop.simps [of zl st "int n" result z]
  obtain s1 z1 where z1: "(if zi_avail_in z = 0 then ReadFromStream st z else (OK, z)) = (s1, z1)" by fastforce
  have r1: "inv z1 c p \<and> zi_next_out z1 - zi_next_unread z1 = 0 \<and>
    (if zi_avail_in z = 0 \<and> c = length C then IsOutOfRange s1 else s1 = OK \<and> 0 < zi_avail_in z1)"
  proof (cases "zi_avail_in z = 0")
    case True
    with z1 have e: "ReadFromStream st z = (s1, z1)" by simp
    show ?thesis using ReadFromStream_empty [OF z True] u True unfolding e by simp
  next
    case False
    then have e: "s1 = OK" "z1 = z" using z1 by simp_all
    show ?thesis unfolding e using z u False by simp
  qed
  have u1: "zi_next_out z1 = zi_next_unread z1" using r1 invD(4) [of z1 c p] by linarith
  show ?thesis
  proof (cases "zi_avail_in z = 0 \<and> c = length C")
    case True
    then have e: "IsOutOfRange s1" using r1 by (simp only: if_True simp_thms)
    then have "s1 \<noteq> OK" by auto
    note e = e this
    have "p = length F" using zst_end [of "zi_stream z" p] invD(1) [OF z] True u by simp
    moreover have "Zlib_ReadNBytes_loop zl st (int n) result z = Some (s1, result, z1)" unfolding loop z1 using n e(2) by (simp only: case_prod_conv Let_def if_True simp_thms of_nat_0_less_iff)
    ultimately show ?thesis using r1 e by blast
  next
    case False
    then have s1: "s1 = OK" "0 < zi_avail_in z1" "inv z1 c p" using r1 by (simp_all only: if_False simp_thms)
    from Inflate_step [OF s1(3) u1 s1(2)] obtain z2 k where
      z2: "Inflate zl (reset_output z1) = (OK, z2)"
        "inv z2 (c + k) p" "0 < k + (zi_next_out z2 - zi_next_unread z2)" by (elim exE conjE) (erule (2) that)
    define m where "m = min n (zi_next_out z2 - zi_next_unread z2)"
    obtain z3 where z3: "ReadBytesFromCache n result z2 = (m, result @ take m (drop p F), z3)" "inv z3 (c + k) (p + m)"
      "zi_next_out z3 - zi_next_unread z3 = (zi_next_out z2 - zi_next_unread z2) - m" using cache_read [OF z2(2) m_def] by blast
    have "Zlib_ReadNBytes_loop zl st (int n) result z =
        Zlib_ReadNBytes_loop zl st (int (n - m)) (result @ take m (drop p F)) z3"
    proof -
      have "nat (int n) = n" "int n - int m = int (n - m)" by (simp_all add: m_def of_nat_diff)
      then show ?thesis unfolding loop z1 case_prod_conv Let_def s1(1) using n z2(1) z3(1)
        by (simp only: case_prod_conv if_True if_False simp_thms of_nat_0_less_iff)
    qed
    moreover have "n = m \<or> zi_next_out z3 = zi_next_unread z3 \<and> 0 < k + m"
      using z3(3) z2(3) invD(4) [OF z3(2)] unfolding m_def by linarith
    moreover have "m \<le> n" by (simp add: m_def)
    ultimately show ?thesis using z3(2) 
      by - (rule disjI2, rule exI [of _ m], rule exI [of _ k], rule exI [of _ z3], intro conjI)
  qed
qed

text \<open>The loop ends, because every round consumes input or produces output.\<close>

lemma read_loop:
  "inv z c p \<Longrightarrow> zi_next_out z = zi_next_unread z \<or> n = 0 \<Longrightarrow>
     \<exists>s z'. Zlib_ReadNBytes_loop zl st (int n) result z = Some (s, result @ take n (drop p F), z') \<and>
       (if p + n \<le> length F then s = OK \<and> zlib_at C F zst opts cat z' (p + n)
        else IsOutOfRange s \<and> zlib_at C F zst opts cat z' (length F))"
proof (induction "(length C - c) + (length F - p)" arbitrary: z c p n result rule: less_induct)
  case less
  have pF: "p \<le> length F" using invD(3) [OF less.prems(1)] by simp
  have at: "zlib_at C F zst opts cat z p" using less.prems(1) unfolding zlib_at_def by blast
  show ?case
  proof (cases "n = 0")
    case True
    then show ?thesis using at pF Zlib_ReadNBytes_loop.simps [of zl st 0 result z] by simp
  next
    case False
    then consider s z' where "Zlib_ReadNBytes_loop zl st (int n) result z = Some (s, result, z')" "IsOutOfRange s" "p = length F" "inv z' c p"
      | m k z' where "Zlib_ReadNBytes_loop zl st (int n) result z =
            Zlib_ReadNBytes_loop zl st (int (n - m)) (result @ take m (drop p F)) z'"
          "inv z' (c + k) (p + m)" "m \<le> n" "n = m \<or> zi_next_out z' = zi_next_unread z' \<and> 0 < k + m"
      using read_round [OF less.prems(1), of n result] less.prems(2) by blast
    then show ?thesis
    proof cases
      case 1
      then show ?thesis using False by (auto simp: zlib_at_def)
    next
      case 2
      have t: "take n (drop p F) = take m (drop p F) @ take (n - m) (drop (p + m) F)"
        using take_add [of m "n - m" "drop p F"] 2(3) by (simp add: add.commute)
      have b: "c + k \<le> length C" "p + m \<le> length F" using invD(2,3) [OF 2(2)] by simp_all
      show ?thesis
      proof (cases "n = m")
        case True
        then have "Zlib_ReadNBytes_loop zl st (int n) result z = Some (OK, result @ take n (drop p F), z')"
          using 2(1) Zlib_ReadNBytes_loop.simps [of zl st 0 _ z'] by simp
        then show ?thesis using True b(2) 2(2) by (auto simp: zlib_at_def)
      next
        case neq: False
        then have k: "zi_next_out z' = zi_next_unread z'" "0 < k + m" using 2(4) by auto
        have "(length C - (c + k)) + (length F - (p + m)) < (length C - c) + (length F - p)" using k(2) b by linarith
        moreover have "p + m + (n - m) = p + n" using 2(3) by simp
        ultimately show ?thesis
          using less.hyps [OF _ 2(2), of "n - m" "result @ take m (drop p F)"] k(1) unfolding 2(1) t
          by (simp only: append_assoc simp_thms)
      qed
    qed
  qed
qed

lemma Zlib_ReadNBytes_correct:
  assumes "zlib_at C F zst opts cat z p" "n < 2 ^ 63"
  shows "\<exists>s z'. Zlib_ReadNBytes zl st (int n) z = Some (s, take n (drop p F), z') \<and>
    (if p + n \<le> length F then s = OK \<and> zlib_at C F zst opts cat z' (p + n)
     else IsOutOfRange s \<and> zlib_at C F zst opts cat z' (length F))"
proof -
  obtain c where z: "inv z c p" using assms(1) unfolding zlib_at_def by blast
  define m where "m = min n (zi_next_out z - zi_next_unread z)"
  obtain z1 where z1: "ReadBytesFromCache n [] z = (m, [] @ take m (drop p F), z1)" "inv z1 c (p + m)"
    "zi_next_out z1 - zi_next_unread z1 = (zi_next_out z - zi_next_unread z) - m" using cache_read [OF z m_def] by blast
  have n: "nat (int n mod 2 ^ 64) = n" using assms(2) by simp
  have "Zlib_ReadNBytes zl st (int n) z = Zlib_ReadNBytes_loop zl st (int (n - m)) (take m (drop p F)) z1"
    unfolding Zlib_ReadNBytes_def n z1(1) by (simp add: m_def of_nat_diff)
  moreover have "zi_next_out z1 = zi_next_unread z1 \<or> n - m = 0" using z1(3) invD(4) [OF z1(2)] unfolding m_def by linarith
  moreover have "take n (drop p F) = take m (drop p F) @ take (n - m) (drop (p + m) F)"
    using take_add [of m "n - m" "drop p F"] by (simp add: m_def add.commute)
  moreover have "p + m + (n - m) = p + n" by (simp add: m_def)
  ultimately show ?thesis using read_loop [OF z1(2), of "n - m" "take m (drop p F)"] by (simp only: simp_thms)
qed

abbreviation zat :: "('s, 'z) ZlibInputStream \<Rightarrow> nat \<Rightarrow> bool" where "zat \<equiv> zlib_at C F zst opts cat"

lemma zlib_readable: "readable_stream F (Zlib_ops zl st) zat"
proof
  fix z p n and r :: bytes
  assume at: "zat z p"
  then obtain c where "inv z c p" unfolding zlib_at_def by blast
  then show pF: "p \<le> length F" using invD(3) by fastforce
  have rd: "\<exists>s z'. ReadNBytes (Zlib_ops zl st) (int n) r z = (s, take n (drop p F), z') \<and>
    (if p + n \<le> length F then s = OK \<and> zat z' (p + n) else IsOutOfRange s \<and> zat z' (length F))" if n63: "n < 2 ^ 63" for n
  proof -
    obtain s z' where s: "Zlib_ReadNBytes zl st (int n) z = Some (s, take n (drop p F), z')"
      "if p + n \<le> length F then s = OK \<and> zat z' (p + n) else IsOutOfRange s \<and> zat z' (length F)"
      using Zlib_ReadNBytes_correct [OF at n63] by (elim exE conjE) (erule (1) that)
    have "ReadNBytes (Zlib_ops zl st) (int n) r z = (s, take n (drop p F), z')" by (simp add: Zlib_ops_def Zlib_read_def s(1))
    then show ?thesis using s(2) by (rule exI [of _ s, OF exI [of _ z', OF conjI]])
  qed
  show "\<exists>z'. ReadNBytes (Zlib_ops zl st) (int n) r z = (OK, take n (drop p F), z') \<and> zat z' (p + n)" if "p + n \<le> length F"
  proof -
    have "n < 2 ^ 63" using that small by linarith
    from rd [OF this] that show ?thesis by (metis (full_types))
  qed
  show "\<exists>m z'. ReadNBytes (Zlib_ops zl st) (int n) r z = (Error OUT_OF_RANGE m, drop p F, z') \<and> zat z' (length F)"
    if past: "length F < p + n" "n < 2 ^ 63"
  proof -
    have t: "take n (drop p F) = drop p F" using past(1) by simp
    obtain s z' where s: "ReadNBytes (Zlib_ops zl st) (int n) r z = (s, drop p F, z')" "IsOutOfRange s" "zat z' (length F)"
      using rd [OF past(2)] past(1) unfolding t by (metis not_le)
    then show ?thesis by (cases s rule: IsOutOfRange.cases) auto
  qed
qed

lemma zlib_skip:
  assumes "zat z p" "0 \<le> n" "n < 2 ^ 63"
  shows "if int p + n \<le> int (length F) then \<exists>z'. SkipNBytes (Zlib_ops zl st) n z = (OK, z') \<and> zat z' (p + nat n)
    else \<exists>m z'. SkipNBytes (Zlib_ops zl st) n z = (Error OUT_OF_RANGE m, z') \<and> zat z' (length F)"
proof -
  have ops: "ReadNBytes (Zlib_ops zl st) = Zlib_read zl st" "SkipNBytes (Zlib_ops zl st) = default_SkipNBytes (Zlib_read zl st)"
    by (simp_all add: Zlib_ops_def)
  have "default_SkipNBytes (Zlib_read zl st) n z = SkipNBytes_loop (Zlib_read zl st) n [] z"
    unfolding default_SkipNBytes_def using assms(2) by (simp only: not_less [symmetric] if_False)
  then show ?thesis using readable_stream.default_skip_loop [OF zlib_readable assms, of "[]"] unfolding ops by (simp only:)
qed

lemma InitZlibBuffer_at:
  assumes "zi_options z = opts" "0 < zi_input_capacity z" "zi_input_capacity z < 2 ^ 31" "0 < zi_output_capacity z" "zi_output_capacity z < 2 ^ 31"
    "length (zi_input z) = zi_input_capacity z" "length (zi_output z) = zi_output_capacity z" "cat (zi_input_stream z) 0"
  shows "\<exists>z'. InitZlibBuffer zl z = Some z' \<and> inv (z'\<lparr>zi_bytes_read := 0\<rparr>) 0 0 \<and> zi_bytes_read z' = zi_bytes_read z"
proof -
  obtain strm where strm: "inflateInit2 zl (window_bits opts) = (Z_OK (zi_codes zl), strm)" "zst strm 0 0" using init by blast
  let ?z = "z\<lparr>zi_stream := strm, zi_next_in := 0, zi_next_out := 0, zi_next_unread := 0, zi_avail_in := 0,
      zi_avail_out := zi_output_capacity z mod 2 ^ 32\<rparr>"
  have "InitZlibBuffer zl z = Some ?z" by (simp add: InitZlibBuffer_def assms(1) strm(1))
  moreover have "inv (?z\<lparr>zi_bytes_read := 0\<rparr>) 0 0" using assms strm(2) by (simp add: zlib_inv_def)
  ultimately show ?thesis by (intro exI [of _ ?z] conjI) simp_all
qed

lemma ZlibInputStream_new_at:
  assumes "cat s 0" "0 < i" "i < 2 ^ 31" "0 < j" "j < 2 ^ 31"
  shows "\<exists>z. ZlibInputStream_new zl s i j opts = Some z \<and> zat z 0"
proof -
  let ?z = "\<lparr>zi_input_stream = s, zi_input_capacity = i, zi_output_capacity = j, zi_next_unread = 0, zi_options = opts,
      zi_input = replicate i 0, zi_output = replicate j 0, zi_next_in = 0, zi_avail_in = 0, zi_next_out = 0, zi_avail_out = 0,
      zi_stream = snd (inflateInit2 zl (window_bits opts)), zi_bytes_read = 0\<rparr>"
  obtain z where z: "InitZlibBuffer zl ?z = Some z" "inv (z\<lparr>zi_bytes_read := 0\<rparr>) 0 0" "zi_bytes_read z = 0"
    using InitZlibBuffer_at [of ?z] assms by auto
  moreover have "z\<lparr>zi_bytes_read := 0\<rparr> = z" using z(3) by simp
  ultimately show ?thesis unfolding ZlibInputStream_new_def zlib_at_def by auto
qed

lemma zlib_is_stream: "input_stream F (Zlib_ops zl st) zat"
proof (intro input_stream.intro zlib_readable input_stream_axioms.intro)
  fix z p n k and r :: bytes
  assume at: "zat z p"
  then obtain c where z: "inv z c p" unfolding zlib_at_def by blast
  have pF: "p \<le> length F" using readable_stream.at_bound [OF zlib_readable at] .
  show "Tell (Zlib_ops zl st) z = int p" using z by (simp add: Zlib_ops_def zlib_inv_def)
  show "\<exists>z'. SkipNBytes (Zlib_ops zl st) (int n) z = (OK, z') \<and> zat z' (p + n)" if "p + n \<le> length F"
  proof -
    have "n < 2 ^ 63" using that small by linarith
    then show ?thesis using zlib_skip [OF at, of "int n"] that by simp
  qed
  show "\<exists>m z'. SkipNBytes (Zlib_ops zl st) (int n) z = (Error OUT_OF_RANGE m, z') \<and> zat z' (length F)"
    if "length F < p + n" "n < 2 ^ 63" using zlib_skip [OF at, of "int n"] that by simp
  show "\<exists>m. SkipNBytes (Zlib_ops zl st) k z = (Error INVALID_ARGUMENT m, z)" if "k < 0"
    using that by (simp add: Zlib_ops_def default_SkipNBytes_def)
  show "\<exists>e d z' p'. ReadNBytes (Zlib_ops zl st) k r z = (e, d, z') \<and> zat z' p' \<and> (e = OK \<longrightarrow> length d < 2 ^ 63)" if "k < 0"
  proof -
    define m where "m = min (nat (k mod 2 ^ 64)) (zi_next_out z - zi_next_unread z)"
    obtain z1 where z1: "ReadBytesFromCache (nat (k mod 2 ^ 64)) [] z = (m, [] @ take m (drop p F), z1)" "inv z1 c (p + m)"
      using cache_read [OF z m_def] by blast
    have neg: "\<not> 0 < k - int m" using that by simp
    have "Zlib_ReadNBytes zl st k z = Some (OK, take m (drop p F), z1)"
      unfolding Zlib_ReadNBytes_def z1(1) Let_def case_prod_conv
      by (subst Zlib_ReadNBytes_loop.simps) (simp only: if_not_P [OF neg] append_Nil)
    moreover have "length (take m (drop p F)) < 2 ^ 63" using small by simp
    moreover have "zat z1 (p + m)" using z1(2) unfolding zlib_at_def by blast
    ultimately show ?thesis by (auto simp: Zlib_ops_def Zlib_read_def)
  qed
  show "\<exists>z'. Reset (Zlib_ops zl st) z = (OK, z') \<and> zat z' 0"
  proof -
    have "cat (zi_input_stream z) (c + zi_avail_in z)" using z by (simp add: zlib_inv_def)
    from reset [OF this] obtain s' where s': "Reset st (zi_input_stream z) = (OK, s')" "cat s' 0" by blast
    obtain z' where "InitZlibBuffer zl (z\<lparr>zi_input_stream := s'\<rparr>) = Some z'" "inv (z'\<lparr>zi_bytes_read := 0\<rparr>) 0 0"
      using InitZlibBuffer_at [of "z\<lparr>zi_input_stream := s'\<rparr>"] z s'(2) by (auto simp: zlib_inv_def)
    then show ?thesis by (auto simp: Zlib_ops_def Zlib_Reset_def s'(1) zlib_at_def)
  qed
qed

lemma zlib_run_of_file:
  "zat z p \<Longrightarrow> list_all (\<lambda>n. n < 2 ^ 63) ns \<Longrightarrow> zlib_run zl st ns z = Some (file_run F p ns)"
proof (induction ns arbitrary: z p)
  case (Cons n ns)
  then have n: "n < 2 ^ 63" by simp
  obtain s z' where s: "Zlib_ReadNBytes zl st (int n) z = Some (s, take n (drop p F), z')"
    "if p + n \<le> length F then s = OK \<and> zat z' (p + n) else IsOutOfRange s \<and> zat z' (length F)"
    using Zlib_ReadNBytes_correct [OF Cons.prems(1) n] by (elim exE conjE) (erule (1) that)
  show ?case
  proof (cases "p + n \<le> length F")
    case True
    then show ?thesis using s Cons.IH [of z' "p + n"] Cons.prems(2) by simp
  next
    case False
    then show ?thesis using s Cons.IH [of z' "length F"] Cons.prems(2) by (simp add: code_of_OutOfRange)
  qed
qed simp

end

sublocale zlib_source \<subseteq> decompressed: input_stream F "Zlib_ops zl st" "zlib_at C F zst opts cat"
  by (rule zlib_is_stream)

section \<open>Where the contract of zlib is not enough\<close>

text \<open>When the compressed stream has ended and input is left over, \<^verbatim>\<open>inflate\<close> goes on answering
  \<^verbatim>\<open>Z_STREAM_END\<close> without progress; the loop goes on as well.\<close>

definition past_stream_end :: "'z zlib_inflate \<Rightarrow> ('s, 'z) ZlibInputStream \<Rightarrow> bool" where
  "past_stream_end zl z \<longleftrightarrow> 0 < zi_avail_in z \<and>
     (\<forall>i n. inflate zl (zi_stream z) (flush_mode (zi_options z)) i n = (Z_STREAM_END (zi_codes zl), 0, [], zi_stream z))"

lemma past_stream_end_round:
  assumes "past_stream_end zl z" "Inflate zl (reset_output z) = (s, z')" "ReadBytesFromCache n result z' = (m, result', z'')"
  shows "s = OK \<and> m = 0 \<and> past_stream_end zl z''"
  using assms by (auto simp: past_stream_end_def Inflate_def reset_output_def ReadBytesFromCache_def Let_def)

lemma loop_never_ends:
  "Zlib_ReadNBytes_loop zl st n result z = Some y \<Longrightarrow> \<not> (0 < n \<and> past_stream_end zl z)"
proof (erule Zlib_ReadNBytes_loop.raw_induct [of "\<lambda>zl st n result z y. \<not> (0 < n \<and> past_stream_end zl z)", rotated])
  fix loop zl st n result z y
  assume 1: "\<And>zl st n result z y. loop zl st n result z = Some y \<Longrightarrow> \<not> (0 < n \<and> past_stream_end zl z)"
    "(if 0 < n
      then let (s, z) = if zi_avail_in z = 0 then ReadFromStream st z else (OK, z)
           in if s \<noteq> OK then Some (s, result, z)
              else let (s, z) = Inflate zl (reset_output z)
                   in if s \<noteq> OK then Some (s, result, z)
                      else let (m, result, z) = ReadBytesFromCache (nat n) result z in loop zl st (n - int m) result z
      else Some (OK, result, z)) = Some y"
  show "\<not> (0 < n \<and> past_stream_end zl z)"
  proof (rule notI, elim conjE)
    assume n: "0 < n" and z: "past_stream_end zl z"
    then have a: "zi_avail_in z \<noteq> 0" by (simp add: past_stream_end_def)
    obtain s z' where i: "Inflate zl (reset_output z) = (s, z')" by fastforce
    obtain m result' z'' where c: "ReadBytesFromCache (nat n) result z' = (m, result', z'')" by (cases "ReadBytesFromCache (nat n) result z'")
    from past_stream_end_round [OF z i c] have r: "s = OK" "m = 0" "past_stream_end zl z''" by simp_all
    have "loop zl st (n - int m) result' z'' = Some y"
      using 1(2) n a i c r(1) by (simp only: if_False if_True Let_def case_prod_conv simp_thms)
    from 1(1) [OF this] show False using n r(2,3) by simp
  qed
qed

text \<open>The manual of zlib also says that \<^verbatim>\<open>inflate\<close> must be called again after it has filled its room, because more output
  may be pending. At the end of the input the loop reports the end of the stream instead, whatever the state of zlib.\<close>

lemma pending_output_unreachable:
  assumes "zi_avail_in z = 0" "0 < n" "s = OK \<or> IsOutOfRange s"
    and "ReadNBytes st (sint (word_of_nat (zi_input_capacity z) :: 32 word)) [] (zi_input_stream z) = (s, [], stream)"
  shows "\<exists>z'. Zlib_ReadNBytes_loop zl st n result z = Some (Error OUT_OF_RANGE ''EOF reached'', result, z')"
  using assms by (subst Zlib_ReadNBytes_loop.simps) (auto simp: ReadFromStream_def Let_def)

section \<open>Properties\<close>

text \<open>A codec that copies, to run the stream with.\<close>

definition zlib_h_codes :: zlib_codes where
  "zlib_h_codes = \<lparr>Z_OK = 0, Z_STREAM_END = 1, Z_BUF_ERROR = -5, Z_FINISH = 4, Z_SYNC_FLUSH = 2, Z_FULL_FLUSH = 3\<rparr>"

definition copy_inflate :: "unit zlib_inflate" where
  "copy_inflate = \<lparr>zi_codes = zlib_h_codes, inflateInit2 = (\<lambda>_. (0, ())),
     inflate = (\<lambda>z _ i n. (0, min (length i) n, take n i, z))\<rparr>"

definition copied :: "bytes \<Rightarrow> unit \<Rightarrow> nat \<Rightarrow> nat \<Rightarrow> bool" where
  "copied F z c q \<longleftrightarrow> c = q \<and> q \<le> length F"

interpretation copy_codec: inflater copy_inflate F F "copied F" opts for F opts
proof
  fix z :: unit and c q n :: nat and i :: bytes
  assume "copied F z c q" "i \<noteq> []" "prefix i (drop c F)" "0 < n"
  moreover from this have "prefix (take n i) (drop q F)" using take_is_prefix prefix_order.trans by (metis copied_def)
  moreover from calculation(3) have "length i \<le> length F - c" using prefix_length_le by fastforce
  ultimately show "\<exists>e k out z'. inflate copy_inflate z (flush_mode opts) i n = (e, k, out, z') \<and>
      (e = Z_OK (zi_codes copy_inflate) \<or> e = Z_STREAM_END (zi_codes copy_inflate)) \<and>
      k \<le> length i \<and> length out \<le> n \<and> prefix out (drop q F) \<and> copied F z' (c + k) (q + length out) \<and> 0 < k + length out"
    by (simp add: copy_inflate_def zlib_h_codes_def copied_def min_def) linarith
qed (simp_all add: copy_inflate_def zlib_h_codes_def copied_def)

lemma copy_source:
  "length F < 2 ^ 63 \<Longrightarrow> zlib_source copy_inflate F F (copied F) opts (RA_ops (memory_read F)) (ra_at F)"
  by (intro zlib_source.intro zlib_source_axioms.intro copy_codec.inflater_axioms file_stream.input_stream_axioms)

text \<open>C32. A new \<^verbatim>\<open>ZlibInputStream\<close> on any stream of a file in the zlib or gzip format presents the decompressed contents (the
  contract \<open>inflater\<close> rests on the check value at the end of these formats, so it says nothing of raw streams): every
  sequence of reads returns, and it returns the consecutive pieces of the contents and signals their end exactly when a
  read goes beyond it, for all sizes of the two buffers and however the decompressor divides its work.\<close>

theorem zlib_reads_decompressed:
  assumes "inflater zl C F zst opts" "input_stream C st cat" "length F < 2 ^ 63" "cat s 0"
    and "0 < i" "i < 2 ^ 31" "0 < j" "j < 2 ^ 31" "list_all (\<lambda>n. n < 2 ^ 63) ns"
  shows "\<exists>z. ZlibInputStream_new zl s i j opts = Some z \<and> zlib_run zl st ns z = Some (file_run F 0 ns)"
proof -
  have src: "zlib_source zl C F zst opts st cat" using assms(1-3) by (intro zlib_source.intro zlib_source_axioms.intro)
  obtain z where "ZlibInputStream_new zl s i j opts = Some z" "zlib_at C F zst opts cat z 0"
    using zlib_source.ZlibInputStream_new_at [OF src assms(4-8)] by blast
  then show ?thesis using zlib_source.zlib_run_of_file [OF src _ assms(9)] by blast
qed

theorem zlib_reads_decompressed_witness:
  "\<exists>z. ZlibInputStream_new copy_inflate RandomAccessInputStream_new 2 1 (zlib_DEFAULT no_zlib) = Some z \<and>
     zlib_run copy_inflate (RA_ops (memory_read [1, 2, 3])) [2, 2] z = Some [(None, [1, 2]), (Some OUT_OF_RANGE, [3])]"
  using zlib_reads_decompressed [OF copy_codec.inflater_axioms file_stream.input_stream_axioms [of "[1, 2, 3]"] _ ra_new [of "[1, 2, 3]"],
      of 2 1 "[2, 2]" "zlib_DEFAULT no_zlib"] by simp

text \<open>C33. A read that wants more bytes than the compressed stream holds never returns when input follows the end of
  the compressed stream in the buffer, as with a file of several compressed members: \<^verbatim>\<open>inflate\<close> answers
  \<^verbatim>\<open>Z_STREAM_END\<close> for ever, which the loop takes for success.\<close>

theorem ReadNBytes_hangs_after_end:
  assumes "past_stream_end zl z" "zi_next_out z = zi_next_unread z" "0 < n"
  shows "Zlib_ReadNBytes zl st n z = None"
proof -
  obtain m r z' where c: "ReadBytesFromCache (nat (n mod 2 ^ 64)) [] z = (m, r, z')" by (cases "ReadBytesFromCache (nat (n mod 2 ^ 64)) [] z")
  then have "m = 0" "past_stream_end zl z'" using assms(1,2) by (auto simp: ReadBytesFromCache_def past_stream_end_def Let_def)
  then show ?thesis using loop_never_ends [of zl st n r z'] assms(3) c by (cases "Zlib_ReadNBytes_loop zl st n r z'") (auto simp: Zlib_ReadNBytes_def)
qed

definition ended_inflate :: "unit zlib_inflate" where
  "ended_inflate = copy_inflate\<lparr>inflate := (\<lambda>z _ i n. (1, 0, [], z))\<rparr>"

theorem ReadNBytes_hangs_after_end_witness:
  "Zlib_ReadNBytes ended_inflate (RA_ops (memory_read [])) 1
     (the (ZlibInputStream_new ended_inflate RandomAccessInputStream_new 1 1 (zlib_DEFAULT no_zlib)) \<lparr>zi_avail_in := 1\<rparr>) = None"
  by (rule ReadNBytes_hangs_after_end)
    (simp_all add: past_stream_end_def ended_inflate_def copy_inflate_def zlib_h_codes_def ZlibInputStream_new_def InitZlibBuffer_def)

end
