(* ===== verification/Zlib_Output.thy ===== *)
theory Zlib_Output
  imports Zlib_Input
begin

text \<open>
  \<^verbatim>\<open>core/lib/io/zlib_outputbuffer.cc\<close>: the file that compresses what is appended to it into another file. As in
  \<open>Zlib_Input\<close>, the zlib library is a parameter, and the two buffers are byte arrays with positions as offsets. The
  pointer \<^verbatim>\<open>next_in\<close> points into the input buffer or, while a large piece is compressed directly, into the data of
  the caller (\<open>zo_source\<close>). The results of operations are options: \<open>None\<close> is a failed \<^verbatim>\<open>CHECK\<close>, the use of a null
  \<^verbatim>\<open>z_stream_\<close>, a write through a pointer into the data of the caller, or a loop that never ends.
\<close>

section \<open>The buffer\<close>

record 'z zlib_deflate =
  zd_codes :: zlib_codes
  deflateInit2 :: "8 word \<Rightarrow> 8 word \<Rightarrow> 8 word \<Rightarrow> 8 word \<Rightarrow> 8 word \<Rightarrow> int \<times> 'z"
  deflate :: "'z \<Rightarrow> 8 word \<Rightarrow> bytes \<Rightarrow> nat \<Rightarrow> int \<times> nat \<times> bytes \<times> 'z"

record ('f, 'z) ZlibOutputBuffer =
  zo_file :: 'f
  zo_input_capacity :: nat
  zo_output_capacity :: nat
  zo_input :: bytes
  zo_output :: bytes
  zo_options :: ZlibCompressionOptions
  zo_stream :: "'z option"
  zo_source :: "bytes option"
  zo_next_in :: nat
  zo_avail_in :: nat
  zo_next_out :: nat
  zo_avail_out :: nat

text \<open>The stream is uninitialised (\<open>junk\<close>) before \<^verbatim>\<open>Init\<close>. The sizes are of type \<^verbatim>\<open>int32\<close>.\<close>

definition ZlibOutputBuffer_new :: "'z \<Rightarrow> 'f \<Rightarrow> nat \<Rightarrow> nat \<Rightarrow> ZlibCompressionOptions \<Rightarrow> ('f, 'z) ZlibOutputBuffer" where
  "ZlibOutputBuffer_new junk file input_buffer_bytes output_buffer_bytes options =
     \<lparr>zo_file = file, zo_input_capacity = input_buffer_bytes, zo_output_capacity = output_buffer_bytes,
      zo_input = replicate input_buffer_bytes 0, zo_output = replicate output_buffer_bytes 0, zo_options = options,
      zo_stream = Some junk, zo_source = None, zo_next_in = 0, zo_avail_in = 0, zo_next_out = 0, zo_avail_out = 0\<rparr>"

definition ZO_Init :: "'z zlib_deflate \<Rightarrow> ('f, 'z) ZlibOutputBuffer \<Rightarrow> status \<times> ('f, 'z) ZlibOutputBuffer" where
  "ZO_Init zl z =
     (if zo_output_capacity z \<le> 1 then (Error INVALID_ARGUMENT ''output_buffer_bytes should be greater than 1'', z)
      else
        let o' = zo_options z;
            (s, strm) = deflateInit2 zl (compression_level o') (compression_method o') (window_bits o') (mem_level o')
                          (compression_strategy o')
        in if s \<noteq> Z_OK (zd_codes zl) then (Error INVALID_ARGUMENT ''deflateInit failed with status'', z\<lparr>zo_stream := None\<rparr>)
           else (OK, z\<lparr>zo_stream := Some strm, zo_source := None, zo_next_in := 0, zo_next_out := 0, zo_avail_in := 0,
                       zo_avail_out := zo_output_capacity z\<rparr>))"

text \<open>The result is an \<^verbatim>\<open>int32\<close>; callers compare it as a \<^verbatim>\<open>size_t\<close>.\<close>

definition AvailableInputSpace :: "('f, 'z) ZlibOutputBuffer \<Rightarrow> int" where
  "AvailableInputSpace z = sint (word_of_int (int (zo_input_capacity z) - int (zo_avail_in z)) :: 32 word)"

definition fits_input :: "bytes \<Rightarrow> ('f, 'z) ZlibOutputBuffer \<Rightarrow> bool" where
  "fits_input data z \<longleftrightarrow> int (length data) \<le> AvailableInputSpace z mod 2 ^ 64"

definition AddToInputBuffer :: "bytes \<Rightarrow> ('f, 'z) ZlibOutputBuffer \<Rightarrow> ('f, 'z) ZlibOutputBuffer option" where
  "AddToInputBuffer data z =
     (if \<not> fits_input data z \<or> zo_source z \<noteq> None then None
      else
        let (input, next_in, avail_in) = add_to_buffer (zo_input_capacity z) data (zo_input z, zo_next_in z, zo_avail_in z)
        in Some (z\<lparr>zo_input := input, zo_next_in := next_in, zo_avail_in := avail_in\<rparr>))"

definition FlushOutputBufferToFile :: "'f writable_file \<Rightarrow> ('f, 'z) ZlibOutputBuffer \<Rightarrow> status \<times> ('f, 'z) ZlibOutputBuffer" where
  "FlushOutputBufferToFile fo z =
     (let bytes_to_write = zo_output_capacity z - zo_avail_out z in
      if bytes_to_write > 0 then
        let (s, file) = wf_Append fo (zo_file z) (take bytes_to_write (zo_output z)); z = z\<lparr>zo_file := file\<rparr>
        in (s, if s = OK then z\<lparr>zo_next_out := 0, zo_avail_out := zo_output_capacity z\<rparr> else z)
      else (OK, z))"

definition pending_input :: "('f, 'z) ZlibOutputBuffer \<Rightarrow> bytes" where
  "pending_input z = take (zo_avail_in z) (drop (zo_next_in z) (case zo_source z of None \<Rightarrow> zo_input z | Some data \<Rightarrow> data))"

definition Deflate :: "'z zlib_deflate \<Rightarrow> 8 word \<Rightarrow> ('f, 'z) ZlibOutputBuffer \<Rightarrow> (status \<times> ('f, 'z) ZlibOutputBuffer) option" where
  "Deflate zl flush z =
     (case zo_stream z of None \<Rightarrow> None
      | Some strm \<Rightarrow>
          let (error, k, out, strm) = deflate zl strm flush (pending_input z) (zo_avail_out z);
              z = z\<lparr>zo_stream := Some strm, zo_next_in := zo_next_in z + k, zo_avail_in := zo_avail_in z - k,
                    zo_output := write_at (zo_output z) (zo_next_out z) out, zo_next_out := zo_next_out z + length out,
                    zo_avail_out := zo_avail_out z - length out\<rparr>
          in Some (if error = Z_OK (zd_codes zl) \<or> error = Z_BUF_ERROR (zd_codes zl) \<or>
                      error = Z_STREAM_END (zd_codes zl) \<and> flush = Z_FINISH (zd_codes zl)
                   then OK else Error DATA_LOSS ''deflate() failed with error '', z))"

definition IsSyncOrFullFlush :: "zlib_codes \<Rightarrow> 8 word \<Rightarrow> bool" where
  "IsSyncOrFullFlush zc flush \<longleftrightarrow> flush = Z_SYNC_FLUSH zc \<or> flush = Z_FULL_FLUSH zc"

text \<open>The loops of \<^verbatim>\<open>DeflateBuffered\<close> and \<^verbatim>\<open>Append\<close>; they differ in the condition \<open>full\<close> on
  \<^verbatim>\<open>avail_out\<close> under which the output goes to the file first.\<close>

partial_function (option) deflate_loop :: "'z zlib_deflate \<Rightarrow> 'f writable_file \<Rightarrow> (nat \<Rightarrow> bool) \<Rightarrow> 8 word \<Rightarrow>
    ('f, 'z) ZlibOutputBuffer \<Rightarrow> (status \<times> ('f, 'z) ZlibOutputBuffer) option" where
  "deflate_loop zl fo full flush z =
     (let (s, z) = (if full (zo_avail_out z) then FlushOutputBufferToFile fo z else (OK, z))
      in if s \<noteq> OK then Some (s, z)
         else
           (case Deflate zl flush z of None \<Rightarrow> None
            | Some (s, z) \<Rightarrow>
                if s \<noteq> OK then Some (s, z)
                else if zo_avail_out z = 0 then deflate_loop zl fo full flush z
                else Some (OK, z)))"

definition DeflateBuffered :: "'z zlib_deflate \<Rightarrow> 'f writable_file \<Rightarrow> bool \<Rightarrow> ('f, 'z) ZlibOutputBuffer \<Rightarrow>
    (status \<times> ('f, 'z) ZlibOutputBuffer) option" where
  "DeflateBuffered zl fo is_last z =
     (let flush = (if is_last then Z_FINISH (zd_codes zl) else flush_mode (zo_options z));
          full = (\<lambda>n. n = 0 \<or> IsSyncOrFullFlush (zd_codes zl) flush \<and> n < 6)
      in map_option (\<lambda>(s, z). (s, if s = OK then z\<lparr>zo_source := None, zo_next_in := 0\<rparr> else z))
           (deflate_loop zl fo full flush z))"

text \<open>The end of \<^verbatim>\<open>Append\<close>, for data that do not fit into the input buffer; \<^verbatim>\<open>avail_in\<close> has 32 bits.\<close>

definition Append_directly :: "'z zlib_deflate \<Rightarrow> 'f writable_file \<Rightarrow> bytes \<Rightarrow> ('f, 'z) ZlibOutputBuffer \<Rightarrow>
    (status \<times> ('f, 'z) ZlibOutputBuffer) option" where
  "Append_directly zl fo data z =
     map_option (\<lambda>(s, z). (s, if s = OK then z\<lparr>zo_source := None, zo_next_in := 0\<rparr> else z))
       (deflate_loop zl fo (\<lambda>n. n = 0) (flush_mode (zo_options z))
         (z\<lparr>zo_source := Some data, zo_next_in := 0, zo_avail_in := length data mod 2 ^ 32\<rparr>))"

definition ZO_Append :: "'z zlib_deflate \<Rightarrow> 'f writable_file \<Rightarrow> bytes \<Rightarrow> ('f, 'z) ZlibOutputBuffer \<Rightarrow>
    (status \<times> ('f, 'z) ZlibOutputBuffer) option" where
  "ZO_Append zl fo data z =
     (if zo_stream z = None then None
      else if fits_input data z then map_option (\<lambda>z. (OK, z)) (AddToInputBuffer data z)
      else
        (case DeflateBuffered zl fo False z of None \<Rightarrow> None
         | Some (s, z) \<Rightarrow>
             if s \<noteq> OK then Some (s, z)
             else if fits_input data z then map_option (\<lambda>z. (OK, z)) (AddToInputBuffer data z)
             else Append_directly zl fo data z))"

definition ZO_Flush :: "'z zlib_deflate \<Rightarrow> 'f writable_file \<Rightarrow> ('f, 'z) ZlibOutputBuffer \<Rightarrow>
    (status \<times> ('f, 'z) ZlibOutputBuffer) option" where
  "ZO_Flush zl fo z =
     (case DeflateBuffered zl fo False z of None \<Rightarrow> None
      | Some (s, z) \<Rightarrow> if s \<noteq> OK then Some (s, z) else Some (FlushOutputBufferToFile fo z))"

definition ZO_Sync :: "'z zlib_deflate \<Rightarrow> 'f writable_file \<Rightarrow> ('f, 'z) ZlibOutputBuffer \<Rightarrow>
    (status \<times> ('f, 'z) ZlibOutputBuffer) option" where
  "ZO_Sync zl fo z =
     (case ZO_Flush zl fo z of None \<Rightarrow> None
      | Some (s, z) \<Rightarrow>
          if s \<noteq> OK then Some (s, z)
          else let (s, file) = wf_Sync fo (zo_file z) in Some (s, z\<lparr>zo_file := file\<rparr>))"

definition ZO_Close :: "'z zlib_deflate \<Rightarrow> 'f writable_file \<Rightarrow> ('f, 'z) ZlibOutputBuffer \<Rightarrow>
    (status \<times> ('f, 'z) ZlibOutputBuffer) option" where
  "ZO_Close zl fo z =
     (if zo_stream z = None then Some (OK, z)
      else
        (case DeflateBuffered zl fo True z of None \<Rightarrow> None
         | Some (s, z) \<Rightarrow>
             if s \<noteq> OK then Some (s, z)
             else let (s, z) = FlushOutputBufferToFile fo z
               in if s \<noteq> OK then Some (s, z) else Some (OK, z\<lparr>zo_stream := None\<rparr>)))"

text \<open>A use of the buffer: operations up to the first error, then \<^verbatim>\<open>Close\<close>.\<close>

datatype zo_op = AppendOp bytes | FlushOp | SyncOp

fun zo_step :: "'z zlib_deflate \<Rightarrow> 'f writable_file \<Rightarrow> zo_op \<Rightarrow> ('f, 'z) ZlibOutputBuffer \<Rightarrow> (status \<times> ('f, 'z) ZlibOutputBuffer) option" where
  "zo_step zl fo (AppendOp d) z = ZO_Append zl fo d z"
| "zo_step zl fo FlushOp z = ZO_Flush zl fo z"
| "zo_step zl fo SyncOp z = ZO_Sync zl fo z"

fun zo_run :: "'z zlib_deflate \<Rightarrow> 'f writable_file \<Rightarrow> zo_op list \<Rightarrow> ('f, 'z) ZlibOutputBuffer \<Rightarrow>
    (status \<times> ('f, 'z) ZlibOutputBuffer) option" where
  "zo_run zl fo [] z = ZO_Close zl fo z"
| "zo_run zl fo (x # xs) z =
     (case zo_step zl fo x z of None \<Rightarrow> None | Some (s, z) \<Rightarrow> if s \<noteq> OK then Some (s, z) else zo_run zl fo xs z)"

fun op_data :: "zo_op \<Rightarrow> bytes" where
  "op_data (AppendOp d) = d"
| "op_data _ = []"

section \<open>The contract of zlib\<close>

text \<open>A stream is open until the first call with \<^verbatim>\<open>Z_FINISH\<close>. \<open>dst z D E\<close>: the state \<open>z\<close> is open, has consumed the
  data \<open>D\<close> and produced \<open>E\<close>. \<open>fin z D E i\<close>: the stream is being finished and still has to consume \<open>i\<close>; only calls with
  \<^verbatim>\<open>Z_FINISH\<close> and with exactly the input \<open>i\<close> are promised to work, and nothing is promised after the stream is
  complete. A call stops when the input is used up or the room for output is; with \<^verbatim>\<open>Z_FINISH\<close>, the stream is complete
  when room is left. If the end of the stream just fills the room, the next call leaves room without producing
  output. The output of a call and its repetitions is finite: \<open>pend\<close> bounds the number of calls that fill their room. As the manual of
  zlib says, this needs more than six bytes of room for a flush, since otherwise flush markers may be repeated. The
  lengths \<^verbatim>\<open>avail_in\<close> and \<^verbatim>\<open>avail_out\<close> have 32 bits.\<close>

locale deflater =
  fixes zl :: "'z zlib_deflate" and dst :: "'z \<Rightarrow> bytes \<Rightarrow> bytes \<Rightarrow> bool" and fin :: "'z \<Rightarrow> bytes \<Rightarrow> bytes \<Rightarrow> bytes \<Rightarrow> bool"
    and complete :: "bytes \<Rightarrow> bytes \<Rightarrow> bool" and pend :: "'z \<Rightarrow> 8 word \<Rightarrow> bytes \<Rightarrow> nat" and opts :: ZlibCompressionOptions
  assumes codes: "\<not> IsSyncOrFullFlush (zd_codes zl) (Z_FINISH (zd_codes zl))" "flush_mode opts \<noteq> Z_FINISH (zd_codes zl)"
    and deflate_init: "\<exists>z. deflateInit2 zl (compression_level opts) (compression_method opts) (window_bits opts) (mem_level opts)
        (compression_strategy opts) = (Z_OK (zd_codes zl), z) \<and> dst z [] []"
    and deflate_open: "dst z D E \<Longrightarrow> 0 < n \<Longrightarrow> n < 2 ^ 32 \<Longrightarrow> length i < 2 ^ 32 \<Longrightarrow>
      \<exists>e k out z'. deflate zl z (flush_mode opts) i n = (e, k, out, z') \<and>
        (e = Z_OK (zd_codes zl) \<or> e = Z_BUF_ERROR (zd_codes zl)) \<and>
        k \<le> length i \<and> length out \<le> n \<and> dst z' (D @ take k i) (E @ out) \<and> (length out < n \<longrightarrow> k = length i) \<and>
        (length out = n \<longrightarrow> 1 < n \<longrightarrow> (IsSyncOrFullFlush (zd_codes zl) (flush_mode opts) \<longrightarrow> 6 < n) \<longrightarrow>
          pend z' (flush_mode opts) (drop k i) < pend z (flush_mode opts) i)"
    and deflate_finish: "dst z D E \<or> fin z D E i \<Longrightarrow> 0 < n \<Longrightarrow> n < 2 ^ 32 \<Longrightarrow> length i < 2 ^ 32 \<Longrightarrow>
      \<exists>e k out z'. deflate zl z (Z_FINISH (zd_codes zl)) i n = (e, k, out, z') \<and>
        (e = Z_OK (zd_codes zl) \<or> e = Z_BUF_ERROR (zd_codes zl) \<or> e = Z_STREAM_END (zd_codes zl)) \<and>
        k \<le> length i \<and> length out \<le> n \<and>
        (length out < n \<longrightarrow> k = length i \<and> complete (D @ i) (E @ out)) \<and>
        (length out = n \<longrightarrow> fin z' (D @ take k i) (E @ out) (drop k i) \<and>
          pend z' (Z_FINISH (zd_codes zl)) (drop k i) < pend z (Z_FINISH (zd_codes zl)) i)"
begin

text \<open>The states in which a loop of calls with the mode \<open>f\<close> may be, and the two laws as one.\<close>

definition phase :: "8 word \<Rightarrow> 'z \<Rightarrow> bytes \<Rightarrow> bytes \<Rightarrow> bytes \<Rightarrow> bool" where
  "phase f z D E i \<longleftrightarrow> dst z D E \<or> f = Z_FINISH (zd_codes zl) \<and> fin z D E i"

lemma deflate_phase:
  assumes z: "phase f z D E i" and f: "f = flush_mode opts \<or> f = Z_FINISH (zd_codes zl)"
    and n: "0 < n" "n < 2 ^ 32" and i: "length i < 2 ^ 32"
  shows "\<exists>e k out z'. deflate zl z f i n = (e, k, out, z') \<and>
    (e = Z_OK (zd_codes zl) \<or> e = Z_BUF_ERROR (zd_codes zl) \<or> e = Z_STREAM_END (zd_codes zl) \<and> f = Z_FINISH (zd_codes zl)) \<and>
    k \<le> length i \<and> length out \<le> n \<and>
    (length out < n \<longrightarrow> k = length i \<and> (if f = Z_FINISH (zd_codes zl) then complete (D @ i) (E @ out) else dst z' (D @ i) (E @ out))) \<and>
    (length out = n \<longrightarrow> phase f z' (D @ take k i) (E @ out) (drop k i) \<and>
      (1 < n \<longrightarrow> (IsSyncOrFullFlush (zd_codes zl) f \<longrightarrow> 6 < n) \<longrightarrow> pend z' f (drop k i) < pend z f i))"
proof (cases "f = Z_FINISH (zd_codes zl)")
  case True
  then have "dst z D E \<or> fin z D E i" using z by (auto simp: phase_def)
  from deflate_finish [OF this n i] show ?thesis unfolding phase_def True by simp blast
next
  case False
  then have o: "dst z D E" "f = flush_mode opts" using z f by (auto simp: phase_def)
  from deflate_open [OF o(1) n i] codes(2) show ?thesis unfolding phase_def o(2) by simp (metis take_all_iff order_refl)
qed

end

section \<open>What is in the file and in the buffers\<close>

text \<open>\<open>E\<close> was produced by zlib; the file, which first held \<open>B\<close>, and the output buffer hold it. The state of the stream
  is described by \<open>P\<close>.\<close>

definition zo_core :: "zlib_codes \<Rightarrow> ZlibCompressionOptions \<Rightarrow> ('f \<Rightarrow> bytes) \<Rightarrow> ('z \<Rightarrow> bool) \<Rightarrow> bytes \<Rightarrow>
    ('f, 'z) ZlibOutputBuffer \<Rightarrow> bytes \<Rightarrow> bool" where
  "zo_core zc opts contents P B z E \<longleftrightarrow>
     zo_options z = opts \<and> 1 < zo_output_capacity z \<and> (IsSyncOrFullFlush zc (flush_mode opts) \<longrightarrow> 6 < zo_output_capacity z) \<and>
     zo_input_capacity z < 2 ^ 31 \<and> zo_output_capacity z < 2 ^ 31 \<and> zo_avail_in z < 2 ^ 32 \<and>
     length (zo_input z) = zo_input_capacity z \<and> length (zo_output z) = zo_output_capacity z \<and>
     length (pending_input z) = zo_avail_in z \<and> zo_next_out z + zo_avail_out z = zo_output_capacity z \<and>
     B @ E = contents (zo_file z) @ take (zo_next_out z) (zo_output z) \<and> (\<exists>strm. zo_stream z = Some strm \<and> P strm)"

text \<open>Between the operations the stream is open, \<open>D\<close> was consumed, and the pending input is in the input buffer.\<close>

definition zo_inv :: "('z \<Rightarrow> bytes \<Rightarrow> bytes \<Rightarrow> bool) \<Rightarrow> zlib_codes \<Rightarrow> ZlibCompressionOptions \<Rightarrow> ('f \<Rightarrow> bytes) \<Rightarrow> bytes \<Rightarrow>
    ('f, 'z) ZlibOutputBuffer \<Rightarrow> bytes \<Rightarrow> bool" where
  "zo_inv dst zc opts contents B z A \<longleftrightarrow>
     zo_source z = None \<and> (\<exists>D E. A = D @ pending_input z \<and> zo_core zc opts contents (\<lambda>strm. dst strm D E) B z E)"

locale zlib_sink = deflater zl dst fin complete pend opts + appendable_file fo contents
  for zl :: "'z zlib_deflate" and dst fin complete pend opts and fo :: "'f writable_file" and contents +
  assumes sync: "wf_Sync fo f = (OK, f') \<Longrightarrow> contents f' = contents f"
begin

abbreviation core :: "('z \<Rightarrow> bool) \<Rightarrow> bytes \<Rightarrow> ('f, 'z) ZlibOutputBuffer \<Rightarrow> bytes \<Rightarrow> bool" where
  "core \<equiv> zo_core (zd_codes zl) opts contents"

abbreviation zinv :: "bytes \<Rightarrow> ('f, 'z) ZlibOutputBuffer \<Rightarrow> bytes \<Rightarrow> bool" where
  "zinv \<equiv> zo_inv dst (zd_codes zl) opts contents"

lemma FlushOutputBufferToFile_spec:
  assumes z: "core P B z E"
  shows "\<exists>s z'. FlushOutputBufferToFile fo z = (s, z') \<and>
    (if s = OK then core P B z' E \<and> zo_next_out z' = 0 \<and> zo_avail_out z' = zo_output_capacity z' \<and> zo_stream z' = zo_stream z \<and>
       zo_source z' = zo_source z \<and> pending_input z' = pending_input z
     else file_error fo s)"
proof (cases "zo_output_capacity z - zo_avail_out z > 0")
  case False
  then show ?thesis using z by (auto simp: FlushOutputBufferToFile_def zo_core_def)
next
  case True
  have n: "zo_output_capacity z - zo_avail_out z = zo_next_out z" using z by (auto simp: zo_core_def)
  obtain s f where f: "wf_Append fo (zo_file z) (take (zo_next_out z) (zo_output z)) = (s, f)" by fastforce
  let ?z = "z\<lparr>zo_file := f, zo_next_out := 0, zo_avail_out := zo_output_capacity z\<rparr>"
  show ?thesis
  proof (cases "s = OK")
    case ok: True
    have e: "FlushOutputBufferToFile fo z = (OK, ?z)" using True f ok by (simp add: FlushOutputBufferToFile_def n)
    have p: "pending_input ?z = pending_input z" by (simp add: pending_input_def split: option.split)
    have "contents f = contents (zo_file z) @ take (zo_next_out z) (zo_output z)" using append f ok by blast
    then have "core P B ?z E" using z by (simp add: zo_core_def p)
    then show ?thesis using p e by (intro exI [of _ OK] exI [of _ ?z]) simp
  next
    case False
    then have "FlushOutputBufferToFile fo z = (s, z\<lparr>zo_file := f\<rparr>)" using True f by (simp add: FlushOutputBufferToFile_def n)
    moreover have "file_error fo s" using f unfolding file_error_def by (metis fst_conv)
    ultimately show ?thesis using False by simp
  qed
qed

text \<open>What a call of the compressor does to the buffers.\<close>

lemma Deflate_layout:
  assumes z: "core P B z E" and strm: "zo_stream z = Some strm" and i: "i = pending_input z"
    and r: "deflate zl strm f i (zo_avail_out z) = (e, k, out, strm')"
      "e = Z_OK (zd_codes zl) \<or> e = Z_BUF_ERROR (zd_codes zl) \<or> e = Z_STREAM_END (zd_codes zl) \<and> f = Z_FINISH (zd_codes zl)"
      "k \<le> length i" "length out \<le> zo_avail_out z"
  shows "\<exists>z'. Deflate zl f z = Some (OK, z') \<and> core ((=) strm') B z' (E @ out) \<and> pending_input z' = drop k i \<and>
    zo_stream z' = Some strm' \<and> zo_avail_out z' = zo_avail_out z - length out"
proof -
  have il: "length i = zo_avail_in z" using z i by (simp add: zo_core_def)
  define z' where "z' = z\<lparr>zo_stream := Some strm', zo_next_in := zo_next_in z + k, zo_avail_in := zo_avail_in z - k,
    zo_output := write_at (zo_output z) (zo_next_out z) out, zo_next_out := zo_next_out z + length out,
    zo_avail_out := zo_avail_out z - length out\<rparr>"
  have e: "Deflate zl f z = Some (OK, z')"
    using r(1,2) strm unfolding Deflate_def i [symmetric] z'_def by (simp only: option.case Let_def case_prod_conv if_True)
  have p: "pending_input z' = drop k i" unfolding i pending_input_def z'_def by (simp add: drop_take add.commute split: option.split)
  have cap: "zo_next_out z + zo_avail_out z = zo_output_capacity z" "length (zo_output z) = zo_output_capacity z" using z by (simp_all add: zo_core_def)
  have w: "take (zo_next_out z + length out) (write_at (zo_output z) (zo_next_out z) out) = take (zo_next_out z) (zo_output z) @ out"
    using cap r(4) by (simp add: write_at_def)
  have "length (write_at (zo_output z) (zo_next_out z) out) = zo_output_capacity z" using length_write_at cap r(4) by simp
  then have "core ((=) strm') B z' (E @ out)"
    using z r(3) p il cap(1) r(4) less_imp_diff_less [of "zo_avail_in z" "2 ^ 32" k] by (simp add: zo_core_def w z'_def flip: append_assoc)
  then show ?thesis using e p by (intro exI [of _ z'] conjI) (simp_all add: z'_def)
qed

text \<open>After a loop on the data \<open>A\<close>. Once the stream is finished nothing is known of its state.\<close>

definition loop_post :: "bytes \<Rightarrow> bytes \<Rightarrow> 8 word \<Rightarrow> status \<Rightarrow> ('f, 'z) ZlibOutputBuffer \<Rightarrow> bool" where
  "loop_post B A f s z' \<longleftrightarrow>
     (if s \<noteq> OK then file_error fo s
      else pending_input z' = [] \<and> (\<exists>E.
        if f = Z_FINISH (zd_codes zl) then core (\<lambda>_. True) B z' E \<and> complete A E else core (\<lambda>strm. dst strm A E) B z' E))"

lemma core_mono: "core P B z E \<Longrightarrow> (\<And>strm. P strm \<Longrightarrow> Q strm) \<Longrightarrow> core Q B z E"
  unfolding zo_core_def by (elim conjE exE) (intro conjI, assumption+, blast)

lemma loop_round:
  assumes z: "core P B z E" "zo_stream z = Some strm" "phase f strm D E (pending_input z)"
    and f: "f = flush_mode opts \<or> f = Z_FINISH (zd_codes zl)" and n: "0 < zo_avail_out z"
  shows "\<exists>z'. Deflate zl f z = Some (OK, z') \<and>
    (if zo_avail_out z' = 0 then
       \<exists>D' E' strm'. core ((=) strm') B z' E' \<and> D' @ pending_input z' = D @ pending_input z \<and> zo_stream z' = Some strm' \<and>
         phase f strm' D' E' (pending_input z') \<and>
         (1 < zo_avail_out z \<longrightarrow> (IsSyncOrFullFlush (zd_codes zl) f \<longrightarrow> 6 < zo_avail_out z) \<longrightarrow>
           pend strm' f (pending_input z') < pend strm f (pending_input z))
     else loop_post B (D @ pending_input z) f OK z')"
proof -
  let ?i = "pending_input z"
  have b: "zo_avail_out z < 2 ^ 32" "length ?i < 2 ^ 32" using z(1) by (auto simp: zo_core_def)
  obtain e k out strm' where r: "deflate zl strm f ?i (zo_avail_out z) = (e, k, out, strm')"
    "e = Z_OK (zd_codes zl) \<or> e = Z_BUF_ERROR (zd_codes zl) \<or> e = Z_STREAM_END (zd_codes zl) \<and> f = Z_FINISH (zd_codes zl)"
    "k \<le> length ?i" "length out \<le> zo_avail_out z"
    "length out < zo_avail_out z \<longrightarrow> k = length ?i \<and>
      (if f = Z_FINISH (zd_codes zl) then complete (D @ ?i) (E @ out) else dst strm' (D @ ?i) (E @ out))"
    "length out = zo_avail_out z \<longrightarrow> phase f strm' (D @ take k ?i) (E @ out) (drop k ?i) \<and>
      (1 < zo_avail_out z \<longrightarrow> (IsSyncOrFullFlush (zd_codes zl) f \<longrightarrow> 6 < zo_avail_out z) \<longrightarrow> pend strm' f (drop k ?i) < pend strm f ?i)"
    using deflate_phase [OF z(3) f n b] by (elim exE conjE) (erule (5) that)
  obtain z' where z': "Deflate zl f z = Some (OK, z')" "core ((=) strm') B z' (E @ out)" "pending_input z' = drop k ?i"
    "zo_stream z' = Some strm'" "zo_avail_out z' = zo_avail_out z - length out"
    using Deflate_layout [OF z(1,2) refl r(1-4)] by (elim exE conjE) (erule (4) that)
  show ?thesis
  proof (cases "zo_avail_out z' = 0")
    case True
    then have full: "length out = zo_avail_out z" using z'(5) r(4) by simp
    have "(D @ take k ?i) @ pending_input z' = D @ ?i" by (simp add: z'(3))
    note facts = this mp [OF r(6) full, folded z'(3)]
    show ?thesis
      by (rule exI [of _ z'], rule conjI [OF z'(1)], unfold if_P [OF True], rule exI [of _ "D @ take k ?i"], rule exI [of _ "E @ out"],
          rule exI [of _ strm'], intro conjI) (rule z'(2,4) facts(1) conjunct1 [OF facts(2)] conjunct2 [OF facts(2)])+
  next
    case False
    then have k: "k = length ?i" "if f = Z_FINISH (zd_codes zl) then complete (D @ ?i) (E @ out) else dst strm' (D @ ?i) (E @ out)"
      using z'(5) r(5) by simp_all
    have c: "core Q B z' (E @ out)" if "Q strm'" for Q using core_mono [OF z'(2)] that by blast
    have "loop_post B (D @ ?i) f OK z'" unfolding loop_post_def z'(3) k(1)
      using k(2) c [of "\<lambda>_. True"] c [of "\<lambda>s. dst s (D @ ?i) (E @ out)"] by (cases "f = Z_FINISH (zd_codes zl)") auto
    then show ?thesis using False z'(1) by simp
  qed
qed

lemma loop_from_full:
  "core P B z E \<Longrightarrow> zo_stream z = Some strm \<Longrightarrow> phase f strm D E (pending_input z) \<Longrightarrow>
     f = flush_mode opts \<or> f = Z_FINISH (zd_codes zl) \<Longrightarrow> full 0 \<Longrightarrow>
     zo_avail_out z = 0 \<Longrightarrow> \<exists>s z'. deflate_loop zl fo full f z = Some (s, z') \<and> loop_post B (D @ pending_input z) f s z'"
proof (induction "pend strm f (pending_input z)" arbitrary: P z D E strm rule: less_induct)
  case less
  obtain s1 z1 where z1: "FlushOutputBufferToFile fo z = (s1, z1)" "if s1 = OK then core P B z1 E \<and> zo_next_out z1 = 0 \<and>
      zo_avail_out z1 = zo_output_capacity z1 \<and> zo_stream z1 = zo_stream z \<and> zo_source z1 = zo_source z \<and> pending_input z1 = pending_input z
    else file_error fo s1" using FlushOutputBufferToFile_spec [OF less.prems(1)] by (elim exE conjE) (erule (1) that)
  note loop = deflate_loop.simps [of zl fo full f z, unfolded less.prems(6) if_P [OF less.prems(5)] z1(1) Let_def case_prod_conv]
  show ?case
  proof (cases "s1 = OK")
    case False
    then show ?thesis using loop z1(2) by (auto simp: loop_post_def)
  next
    case True
    then have c1: "core P B z1 E" "zo_avail_out z1 = zo_output_capacity z1" "zo_stream z1 = Some strm" "pending_input z1 = pending_input z"
      using z1(2) less.prems(2) by simp_all
    then have n: "0 < zo_avail_out z1" "1 < zo_avail_out z1" "IsSyncOrFullFlush (zd_codes zl) f \<longrightarrow> 6 < zo_avail_out z1"
      using codes less.prems(4) by (auto simp: zo_core_def)
    obtain z2 where z2: "Deflate zl f z1 = Some (OK, z2)" "if zo_avail_out z2 = 0 then
       \<exists>D' E' strm'. core ((=) strm') B z2 E' \<and> D' @ pending_input z2 = D @ pending_input z1 \<and> zo_stream z2 = Some strm' \<and>
         phase f strm' D' E' (pending_input z2) \<and>
         (1 < zo_avail_out z1 \<longrightarrow> (IsSyncOrFullFlush (zd_codes zl) f \<longrightarrow> 6 < zo_avail_out z1) \<longrightarrow>
           pend strm' f (pending_input z2) < pend strm f (pending_input z1))
     else loop_post B (D @ pending_input z1) f OK z2"
      using loop_round [OF c1(1,3) less.prems(3) [folded c1(4)] less.prems(4) n(1)] by (elim exE conjE) (erule (1) that)
    show ?thesis
    proof (cases "zo_avail_out z2 = 0")
      case empty: True
      then obtain D' E' strm' where r: "core ((=) strm') B z2 E'" "D' @ pending_input z2 = D @ pending_input z" "zo_stream z2 = Some strm'"
        "phase f strm' D' E' (pending_input z2)" "pend strm' f (pending_input z2) < pend strm f (pending_input z)"
        using z2(2) n(2,3) c1(4) by auto
      show ?thesis using less.hyps [OF r(5,1,3,4) less.prems(4,5) empty] loop z2(1) True empty unfolding r(2) by simp
    next
      case False
      then show ?thesis using loop z2 True c1(4) by simp
    qed
  qed
qed

lemma loop_spec:
  assumes z: "core (\<lambda>strm. dst strm D E) B z E" and f: "f = flush_mode opts \<or> f = Z_FINISH (zd_codes zl)" and full: "full 0"
  shows "\<exists>s z'. deflate_loop zl fo full f z = Some (s, z') \<and> loop_post B (D @ pending_input z) f s z'"
proof -
  obtain strm where strm: "zo_stream z = Some strm" "dst strm D E" using z by (auto simp: zo_core_def)
  have ph: "phase f strm D E i" for i using strm(2) by (simp add: phase_def)
  obtain s1 z1 where z1: "(if full (zo_avail_out z) then FlushOutputBufferToFile fo z else (OK, z)) = (s1, z1)" by fastforce
  note loop = deflate_loop.simps [of zl fo full f z, unfolded z1 Let_def case_prod_conv]
  have r1: "if s1 = OK then core (\<lambda>strm. dst strm D E) B z1 E \<and> 0 < zo_avail_out z1 \<and> zo_stream z1 = Some strm \<and> pending_input z1 = pending_input z
    else file_error fo s1"
  proof (cases "full (zo_avail_out z)")
    case True
    have "0 < zo_output_capacity z1" if "core (\<lambda>strm. dst strm D E) B z1 E" using that by (simp add: zo_core_def)
    then show ?thesis using FlushOutputBufferToFile_spec [OF z] z1 True strm(1) by auto
  next
    case False
    then have "0 < zo_avail_out z" using full by (cases "zo_avail_out z") auto
    then show ?thesis using False z z1 strm(1) by auto
  qed
  show ?thesis
  proof (cases "s1 = OK")
    case False
    then show ?thesis using loop r1 by (auto simp: loop_post_def)
  next
    case True
    then have c1: "core (\<lambda>strm. dst strm D E) B z1 E" "0 < zo_avail_out z1" "zo_stream z1 = Some strm" "pending_input z1 = pending_input z"
      using r1 by simp_all
    obtain z2 where z2: "Deflate zl f z1 = Some (OK, z2)" "if zo_avail_out z2 = 0 then
       \<exists>D' E' strm'. core ((=) strm') B z2 E' \<and> D' @ pending_input z2 = D @ pending_input z1 \<and> zo_stream z2 = Some strm' \<and>
         phase f strm' D' E' (pending_input z2) \<and>
         (1 < zo_avail_out z1 \<longrightarrow> (IsSyncOrFullFlush (zd_codes zl) f \<longrightarrow> 6 < zo_avail_out z1) \<longrightarrow>
           pend strm' f (pending_input z2) < pend strm f (pending_input z1))
     else loop_post B (D @ pending_input z1) f OK z2" using loop_round [OF c1(1,3) ph f c1(2)] by (elim exE conjE) (erule (1) that)
    show ?thesis
    proof (cases "zo_avail_out z2 = 0")
      case empty: True
      then obtain D' E' strm' where r: "core ((=) strm') B z2 E'" "D' @ pending_input z2 = D @ pending_input z" "zo_stream z2 = Some strm'"
        "phase f strm' D' E' (pending_input z2)" using z2(2) c1(4) by auto
      show ?thesis using loop_from_full [where full = full, OF r(1,3,4) f full empty] loop z2(1) True empty unfolding r(2) by simp
    next
      case False
      then show ?thesis using loop z2 True c1(4) by simp
    qed
  qed
qed

text \<open>The operations. What they leave in the buffer, or the error of the file.\<close>

definition op_post :: "bytes \<Rightarrow> bytes \<Rightarrow> status \<Rightarrow> ('f, 'z) ZlibOutputBuffer \<Rightarrow> bool" where
  "op_post B A s z' \<longleftrightarrow> (if s = OK then zinv B z' A else file_error fo s)"

lemma restore_input:
  assumes "core P B z E" "pending_input z = []"
  shows "core P B (z\<lparr>zo_source := None, zo_next_in := 0\<rparr>) E" "zo_avail_in z = 0"
    "pending_input (z\<lparr>zo_source := None, zo_next_in := 0\<rparr>) = []"
proof -
  show a: "zo_avail_in z = 0" using assms by (simp add: zo_core_def)
  then show p: "pending_input (z\<lparr>zo_source := None, zo_next_in := 0\<rparr>) = []" by (simp add: pending_input_def)
  show "core P B (z\<lparr>zo_source := None, zo_next_in := 0\<rparr>) E" using assms(1) a p by (simp add: zo_core_def)
qed

text \<open>A loop that ends well, followed by the reset of \<^verbatim>\<open>next_in\<close>: the stream is open, or complete.\<close>

lemma restore_open:
  assumes "loop_post B A f OK z" "f \<noteq> Z_FINISH (zd_codes zl)"
  shows "zinv B (z\<lparr>zo_source := None, zo_next_in := 0\<rparr>) A" "zo_avail_in z = 0"
proof -
  obtain E where E: "core (\<lambda>strm. dst strm A E) B z E" "pending_input z = []" using assms by (auto simp: loop_post_def)
  note r = restore_input [OF E]
  show "zo_avail_in z = 0" by (rule r(2))
  show "zinv B (z\<lparr>zo_source := None, zo_next_in := 0\<rparr>) A" unfolding zo_inv_def r(3) using r(1) by (intro conjI exI) simp_all
qed

lemma DeflateBuffered_loop:
  assumes "zinv B z A" "f = (if l then Z_FINISH (zd_codes zl) else flush_mode opts)"
  shows "\<exists>s z'. DeflateBuffered zl fo l z = Some (s, if s = OK then z'\<lparr>zo_source := None, zo_next_in := 0\<rparr> else z') \<and> loop_post B A f s z'"
proof -
  obtain D E where z: "A = D @ pending_input z" "core (\<lambda>strm. dst strm D E) B z E" using assms(1) by (auto simp: zo_inv_def)
  have o': "zo_options z = opts" using z(2) by (simp add: zo_core_def)
  define full where "full = (\<lambda>n :: nat. n = 0 \<or> IsSyncOrFullFlush (zd_codes zl) f \<and> n < 6)"
  have "f = flush_mode opts \<or> f = Z_FINISH (zd_codes zl)" "full 0" by (simp_all add: assms(2) full_def)
  from loop_spec [where full = full, OF z(2) this] obtain s z1 where z1: "deflate_loop zl fo full f z = Some (s, z1)" "loop_post B A f s z1"
    unfolding z(1) by blast
  have "DeflateBuffered zl fo l z = Some (s, if s = OK then z1\<lparr>zo_source := None, zo_next_in := 0\<rparr> else z1)"
    unfolding DeflateBuffered_def Let_def o' assms(2) [symmetric] full_def [symmetric] z1(1) by simp
  with z1(2) show ?thesis by (intro exI conjI)
qed

lemma DeflateBuffered_spec:
  assumes "zinv B z A"
  shows "\<exists>s z'. DeflateBuffered zl fo False z = Some (s, z') \<and> op_post B A s z' \<and> (s = OK \<longrightarrow> zo_avail_in z' = 0)"
proof -
  obtain s z1 where z1: "DeflateBuffered zl fo False z = Some (s, if s = OK then z1\<lparr>zo_source := None, zo_next_in := 0\<rparr> else z1)"
    "loop_post B A (flush_mode opts) s z1" using DeflateBuffered_loop [OF assms refl, of False] unfolding if_False by (elim exE conjE) (erule (1) that)
  show ?thesis
  proof (cases "s = OK")
    case True
    then show ?thesis using z1 restore_open [OF _ codes(2), of B A z1] by (simp add: op_post_def)
  next
    case False
    then show ?thesis using z1 by (simp add: op_post_def loop_post_def)
  qed
qed

lemma DeflateBuffered_last:
  assumes "zinv B z A"
  shows "\<exists>s z'. DeflateBuffered zl fo True z = Some (s, z') \<and>
    (if s = OK then \<exists>E. core (\<lambda>_. True) B z' E \<and> complete A E else file_error fo s)"
proof -
  obtain s z1 where z1: "DeflateBuffered zl fo True z = Some (s, if s = OK then z1\<lparr>zo_source := None, zo_next_in := 0\<rparr> else z1)"
    "loop_post B A (Z_FINISH (zd_codes zl)) s z1" using DeflateBuffered_loop [OF assms refl, of True] unfolding if_True by (elim exE conjE) (erule (1) that)
  show ?thesis
  proof (cases "s = OK")
    case True
    then obtain E where "core (\<lambda>_. True) B z1 E" "pending_input z1 = []" "complete A E" using z1(2) by (auto simp: loop_post_def)
    with restore_input(1) [OF this(1,2)] show ?thesis using z1(1) True by auto
  next
    case False
    then show ?thesis using z1 by (simp add: loop_post_def)
  qed
qed

lemma fits_input_iff:
  assumes "zinv B z A"
  shows "fits_input data z \<longleftrightarrow> zo_avail_in z + length data \<le> zo_input_capacity z"
proof -
  have c: "zo_input_capacity z < 2 ^ 31" "zo_avail_in z \<le> zo_input_capacity z" using assms by (auto simp: zo_inv_def zo_core_def pending_input_def)
  show ?thesis unfolding fits_input_def AvailableInputSpace_def size32_diff [OF c(2,1)] using c(2) by auto
qed

lemma AddToInputBuffer_spec:
  assumes z: "zinv B z A" and fit: "fits_input data z"
  shows "\<exists>z'. AddToInputBuffer data z = Some z' \<and> zinv B z' (A @ data)"
proof -
  obtain D E where D: "A = D @ pending_input z" "core (\<lambda>strm. dst strm D E) B z E" and src: "zo_source z = None" using z by (auto simp: zo_inv_def)
  have p: "pending_input z = take (zo_avail_in z) (drop (zo_next_in z) (zo_input z))" using src by (simp add: pending_input_def)
  have len: "length (zo_input z) = zo_input_capacity z" "length (pending_input z) = zo_avail_in z" using D(2) by (simp_all add: zo_core_def)
  have room: "zo_avail_in z + length data \<le> length (zo_input z)" using fit unfolding fits_input_iff [OF z] len .
  obtain b n a where b: "add_to_buffer (length (zo_input z)) data (zo_input z, zo_next_in z, zo_avail_in z) = (b, n, a)"
    by (cases "add_to_buffer (length (zo_input z)) data (zo_input z, zo_next_in z, zo_avail_in z)")
  let ?z = "z\<lparr>zo_input := b, zo_next_in := n, zo_avail_in := a\<rparr>"
  from add_to_buffer_spec [OF b len(2) [unfolded p] room]
  have s: "length b = zo_input_capacity z" "a = zo_avail_in z + length data" "take a (drop n b) = pending_input z @ data" unfolding p len(1) by auto
  have e: "AddToInputBuffer data z = Some ?z" using fit src b unfolding len(1) by (simp add: AddToInputBuffer_def)
  have i: "pending_input ?z = pending_input z @ data" using src s(3) by (simp add: pending_input_def [of ?z])
  have "zo_avail_in z + length data < 2 ^ 32" using room len(1) D(2) by (simp add: zo_core_def)
  then have "core (\<lambda>strm. dst strm D E) B ?z E" using i D(2) len(2) s(1,2) by (simp add: zo_core_def)
  moreover have "zo_source ?z = None" using src by simp
  ultimately show ?thesis using e i D(1) unfolding zo_inv_def by auto
qed

lemma Append_directly_spec:
  assumes z: "zinv B z A" "zo_avail_in z = 0" and small: "length data < 2 ^ 32"
  shows "\<exists>s z'. Append_directly zl fo data z = Some (s, z') \<and> op_post B (A @ data) s z'"
proof -
  let ?z = "z\<lparr>zo_source := Some data, zo_next_in := 0, zo_avail_in := length data mod 2 ^ 32\<rparr>"
  obtain E where c: "core (\<lambda>strm. dst strm A E) B z E" using z by (auto simp: zo_inv_def pending_input_def)
  have o': "zo_options z = opts" using c by (simp add: zo_core_def)
  have p: "pending_input ?z = data" using small by (simp add: pending_input_def)
  then have "core (\<lambda>strm. dst strm A E) B ?z E" using c small by (simp add: zo_core_def)
  from loop_spec [where full = "\<lambda>n. n = 0", OF this disjI1 [OF refl]] obtain s z1 where
    z1: "deflate_loop zl fo (\<lambda>n. n = 0) (flush_mode opts) ?z = Some (s, z1)" "loop_post B (A @ data) (flush_mode opts) s z1"
    unfolding p by blast
  have e: "Append_directly zl fo data z = Some (s, if s = OK then z1\<lparr>zo_source := None, zo_next_in := 0\<rparr> else z1)"
    unfolding Append_directly_def o' z1(1) by simp
  show ?thesis
  proof (cases "s = OK")
    case True
    then show ?thesis using e z1(2) restore_open(1) [OF _ codes(2), of B "A @ data" z1] by (simp add: op_post_def)
  next
    case False
    then show ?thesis using e z1(2) by (simp add: op_post_def loop_post_def)
  qed
qed

lemma zinv_stream: "zinv B z A \<Longrightarrow> zo_stream z = None \<longleftrightarrow> False"
  by (auto simp: zo_inv_def zo_core_def)

lemma ZO_Append_spec:
  assumes z: "zinv B z A" and small: "length data < 2 ^ 32"
  shows "\<exists>s z'. ZO_Append zl fo data z = Some (s, z') \<and> op_post B (A @ data) s z'"
proof (cases "fits_input data z")
  case True
  then show ?thesis using AddToInputBuffer_spec [OF z True] by (auto simp: ZO_Append_def op_post_def zinv_stream [OF z])
next
  case False
  obtain s z1 where z1: "DeflateBuffered zl fo False z = Some (s, z1)" "op_post B A s z1" "s = OK \<longrightarrow> zo_avail_in z1 = 0"
    using DeflateBuffered_spec [OF z] by (elim exE conjE) (erule (2) that)
  have e: "ZO_Append zl fo data z = (if s \<noteq> OK then Some (s, z1)
      else if fits_input data z1 then map_option (\<lambda>z. (OK, z)) (AddToInputBuffer data z1) else Append_directly zl fo data z1)"
    using False by (simp add: ZO_Append_def z1(1) zinv_stream [OF z])
  show ?thesis
  proof (cases "s = OK")
    case True
    then have i: "zinv B z1 A" "zo_avail_in z1 = 0" using z1(2,3) by (simp_all add: op_post_def)
    show ?thesis using AddToInputBuffer_spec [OF i(1)] Append_directly_spec [OF i small] True unfolding e
      by (cases "fits_input data z1") (auto simp: op_post_def)
  next
    case False
    then show ?thesis using e z1(2) by (simp add: op_post_def)
  qed
qed

lemma FlushOutput_keeps:
  assumes "zinv B z A"
  shows "\<exists>s z'. FlushOutputBufferToFile fo z = (s, z') \<and> op_post B A s z'"
proof -
  obtain D E where D: "A = D @ pending_input z" "core (\<lambda>strm. dst strm D E) B z E" "zo_source z = None" using assms by (auto simp: zo_inv_def)
  obtain s z' where z': "FlushOutputBufferToFile fo z = (s, z')" "if s = OK then core (\<lambda>strm. dst strm D E) B z' E \<and> zo_next_out z' = 0 \<and>
      zo_avail_out z' = zo_output_capacity z' \<and> zo_stream z' = zo_stream z \<and> zo_source z' = zo_source z \<and> pending_input z' = pending_input z
    else file_error fo s" using FlushOutputBufferToFile_spec [OF D(2)] by (elim exE conjE) (erule (1) that)
  then show ?thesis using D by (auto simp: op_post_def zo_inv_def)
qed

lemma ZO_Flush_spec:
  assumes z: "zinv B z A"
  shows "\<exists>s z'. ZO_Flush zl fo z = Some (s, z') \<and> op_post B A s z'"
proof -
  obtain s z1 where z1: "DeflateBuffered zl fo False z = Some (s, z1)" "op_post B A s z1"
    using DeflateBuffered_spec [OF z] by (elim exE conjE) (erule (1) that)
  then show ?thesis using FlushOutput_keeps [of B z1 A] by (cases "s = OK") (auto simp: ZO_Flush_def op_post_def)
qed

lemma ZO_Sync_spec:
  assumes z: "zinv B z A"
  shows "\<exists>s z'. ZO_Sync zl fo z = Some (s, z') \<and> op_post B A s z'"
proof -
  obtain s z1 where z1: "ZO_Flush zl fo z = Some (s, z1)" "op_post B A s z1" using ZO_Flush_spec [OF z] by (elim exE conjE) (erule (1) that)
  obtain s2 f where f: "wf_Sync fo (zo_file z1) = (s2, f)" by fastforce
  show ?thesis
  proof (cases "s = OK")
    case True
    have e: "ZO_Sync zl fo z = Some (s2, z1\<lparr>zo_file := f\<rparr>)" using z1(1) f True by (simp add: ZO_Sync_def)
    have p: "pending_input (z1\<lparr>zo_file := f\<rparr>) = pending_input z1" by (simp add: pending_input_def split: option.split)
    have "zinv B (z1\<lparr>zo_file := f\<rparr>) A" if "s2 = OK"
    proof -
      have "contents f = contents (zo_file z1)" using sync f that by blast
      then show ?thesis using z1(2) True by (simp add: op_post_def zo_inv_def zo_core_def p)
    qed
    moreover have "file_error fo s2" using f unfolding file_error_def by (metis fst_conv)
    ultimately show ?thesis using e by (simp add: op_post_def)
  next
    case False
    then show ?thesis using z1 by (simp add: ZO_Sync_def op_post_def)
  qed
qed

lemma ZO_Close_spec:
  assumes z: "zinv B z A"
  shows "\<exists>s z'. ZO_Close zl fo z = Some (s, z') \<and>
    (if s = OK then \<exists>E. contents (zo_file z') = B @ E \<and> complete A E else file_error fo s)"
proof -
  obtain s z1 where z1: "DeflateBuffered zl fo True z = Some (s, z1)"
    "if s = OK then \<exists>E. core (\<lambda>_. True) B z1 E \<and> complete A E else file_error fo s"
    using DeflateBuffered_last [OF z] by (elim exE conjE) (erule (1) that)
  show ?thesis
  proof (cases "s = OK")
    case True
    then obtain E where E: "core (\<lambda>_. True) B z1 E" "complete A E" using z1(2) by auto
    obtain s2 z2 where z2: "FlushOutputBufferToFile fo z1 = (s2, z2)" "if s2 = OK then core (\<lambda>_. True) B z2 E \<and> zo_next_out z2 = 0 \<and>
        zo_avail_out z2 = zo_output_capacity z2 \<and> zo_stream z2 = zo_stream z1 \<and> zo_source z2 = zo_source z1 \<and> pending_input z2 = pending_input z1
      else file_error fo s2" using FlushOutputBufferToFile_spec [OF E(1)] by (elim exE conjE) (erule (1) that)
    have "ZO_Close zl fo z = Some (s2, if s2 = OK then z2\<lparr>zo_stream := None\<rparr> else z2)"
      using z1(1) True z2(1) by (simp add: ZO_Close_def zinv_stream [OF z])
    moreover have "contents (zo_file z2) = B @ E" if "s2 = OK" using z2(2) that by (simp add: zo_core_def)
    ultimately show ?thesis using z2(2) E(2) by (cases "s2 = OK") auto
  next
    case False
    then show ?thesis using z1 by (simp add: ZO_Close_def zinv_stream [OF z])
  qed
qed

lemma ZO_Init_spec:
  assumes "1 < j" "IsSyncOrFullFlush (zd_codes zl) (flush_mode opts) \<longrightarrow> 6 < j" "i < 2 ^ 31" "j < 2 ^ 31"
  shows "\<exists>z. ZO_Init zl (ZlibOutputBuffer_new junk f i j opts) = (OK, z) \<and> zinv (contents f) z []"
proof -
  obtain strm where strm: "deflateInit2 zl (compression_level opts) (compression_method opts) (window_bits opts) (mem_level opts)
        (compression_strategy opts) = (Z_OK (zd_codes zl), strm)" "dst strm [] []" using deflate_init by blast
  then show ?thesis using assms by (auto simp: ZO_Init_def ZlibOutputBuffer_new_def Let_def zo_inv_def zo_core_def pending_input_def)
qed

lemma zo_step_spec:
  assumes "zinv B z A" "length (op_data x) < 2 ^ 32"
  shows "\<exists>s z'. zo_step zl fo x z = Some (s, z') \<and> op_post B (A @ op_data x) s z'"
  using assms ZO_Append_spec [OF assms(1)] ZO_Flush_spec [OF assms(1)] ZO_Sync_spec [OF assms(1)] by (cases x) simp_all

lemma zo_run_spec:
  "zinv B z A \<Longrightarrow> list_all (\<lambda>x. length (op_data x) < 2 ^ 32) xs \<Longrightarrow>
     \<exists>s z'. zo_run zl fo xs z = Some (s, z') \<and>
       (if s = OK then \<exists>E. contents (zo_file z') = B @ E \<and> complete (A @ concat (map op_data xs)) E else file_error fo s)"
proof (induction xs arbitrary: z A)
  case Nil
  then show ?case using ZO_Close_spec [OF Nil.prems(1)] by (simp only: zo_run.simps list.map concat.simps append_Nil2)
next
  case (Cons x xs)
  then have x: "length (op_data x) < 2 ^ 32" "list_all (\<lambda>x. length (op_data x) < 2 ^ 32) xs" by simp_all
  obtain s z1 where z1: "zo_step zl fo x z = Some (s, z1)" "op_post B (A @ op_data x) s z1"
    using zo_step_spec [OF Cons.prems(1) x(1)] by (elim exE conjE) (erule (1) that)
  show ?case
  proof (cases "s = OK")
    case True
    then have i: "zinv B z1 (A @ op_data x)" using z1(2) by (simp add: op_post_def)
    have "zo_run zl fo (x # xs) z = zo_run zl fo xs z1" using z1(1) True by simp
    then show ?thesis using Cons.IH [OF i x(2)] by (simp only: list.map concat.simps append_assoc)
  next
    case False
    then show ?thesis using z1 by (simp add: op_post_def)
  qed
qed

end

section \<open>Properties\<close>

text \<open>A compressor that copies; it is told to finish with a number of bytes left and then refuses any other input and
  any other mode. The file is in memory.\<close>

definition copy_deflate :: "nat option zlib_deflate" where
  "copy_deflate = \<lparr>zd_codes = zlib_h_codes, deflateInit2 = (\<lambda>_ _ _ _ _. (Z_OK zlib_h_codes, None)),
     deflate = (\<lambda>z f i n.
       if z \<noteq> None \<and> (f \<noteq> Z_FINISH zlib_h_codes \<or> z \<noteq> Some (length i)) then (-2, 0, [], z)
       else if f \<noteq> Z_FINISH zlib_h_codes then (Z_OK zlib_h_codes, min (length i) n, take n i, z)
       else (if length i \<le> n then Z_STREAM_END zlib_h_codes else Z_OK zlib_h_codes, min (length i) n, take n i, Some (length i - n)))\<rparr>"

definition copy_pend :: "nat option \<Rightarrow> 8 word \<Rightarrow> bytes \<Rightarrow> nat" where
  "copy_pend _ _ = length"

lemma copy_deflater:
  assumes "flush_mode opts \<noteq> Z_FINISH zlib_h_codes"
  shows "deflater copy_deflate (\<lambda>z D E. z = None \<and> D = E) (\<lambda>z D E i. z = Some (length i) \<and> D = E) (=) copy_pend opts"
proof
  fix z :: "nat option" and D E i :: bytes and n :: nat
  assume n: "0 < n"
  show "\<exists>e k out z'. deflate copy_deflate z (flush_mode opts) i n = (e, k, out, z') \<and>
        (e = Z_OK (zd_codes copy_deflate) \<or> e = Z_BUF_ERROR (zd_codes copy_deflate)) \<and>
        k \<le> length i \<and> length out \<le> n \<and> (z' = None \<and> D @ take k i = E @ out) \<and> (length out < n \<longrightarrow> k = length i) \<and>
        (length out = n \<longrightarrow> 1 < n \<longrightarrow> (IsSyncOrFullFlush (zd_codes copy_deflate) (flush_mode opts) \<longrightarrow> 6 < n) \<longrightarrow>
          copy_pend z' (flush_mode opts) (drop k i) < copy_pend z (flush_mode opts) i)" if "z = None \<and> D = E"
    using that n assms by (auto simp: copy_deflate_def copy_pend_def min_def)
  show "\<exists>e k out z'. deflate copy_deflate z (Z_FINISH (zd_codes copy_deflate)) i n = (e, k, out, z') \<and>
        (e = Z_OK (zd_codes copy_deflate) \<or> e = Z_BUF_ERROR (zd_codes copy_deflate) \<or> e = Z_STREAM_END (zd_codes copy_deflate)) \<and>
        k \<le> length i \<and> length out \<le> n \<and> (length out < n \<longrightarrow> k = length i \<and> D @ i = E @ out) \<and>
        (length out = n \<longrightarrow> (z' = Some (length (drop k i)) \<and> D @ take k i = E @ out) \<and>
          copy_pend z' (Z_FINISH (zd_codes copy_deflate)) (drop k i) < copy_pend z (Z_FINISH (zd_codes copy_deflate)) i)"
    if "(z = None \<and> D = E) \<or> (z = Some (length i) \<and> D = E)"
    using that n by (auto simp: copy_deflate_def copy_pend_def min_def)
qed (use assms in \<open>simp_all add: copy_deflate_def zlib_h_codes_def IsSyncOrFullFlush_def\<close>)

interpretation copy_sink: zlib_sink copy_deflate "\<lambda>z D E. z = None \<and> D = E" "\<lambda>z D E i. z = Some (length i) \<and> D = E" "(=)" copy_pend
    "zlib_DEFAULT no_zlib" memory_ops "\<lambda>f. f"
proof (intro zlib_sink.intro copy_deflater zlib_sink_axioms.intro)
  show "flush_mode (zlib_DEFAULT no_zlib) \<noteq> Z_FINISH zlib_h_codes"
    by (simp add: zlib_h_codes_def zlib_DEFAULT_def ZlibCompressionOptions_new_def no_zlib_def)
qed (unfold_locales, auto simp: memory_ops_def)

text \<open>C34. Over any compressor that keeps the contract \<open>deflater\<close> (an open stream takes input in the flush mode of the
  options; after the first \<^verbatim>\<open>Z_FINISH\<close> it takes only \<^verbatim>\<open>Z_FINISH\<close> and the rest of that input), every use of a
  \<^verbatim>\<open>ZlibOutputBuffer\<close> ends: whatever the sizes of the buffers, of the pieces appended and of the output of the
  compressor, each operation returns, reports no errors but those of the file below, and after a successful
  \<^verbatim>\<open>Close\<close> exactly a complete compressed stream of all that was appended has been added to the file. With a sync or full flush
  mode, the output buffer has to be larger than the six bytes the manual of zlib asks for; the mode of the options is not
  \<^verbatim>\<open>Z_FINISH\<close>.\<close>

theorem zlib_output_complete:
  assumes "zlib_sink zl dst fin complete pend opts fo contents" "1 < j"
    and "IsSyncOrFullFlush (zd_codes zl) (flush_mode opts) \<longrightarrow> 6 < j" "i < 2 ^ 31" "j < 2 ^ 31"
    and "list_all (\<lambda>x. length (op_data x) < 2 ^ 32) xs"
  shows "\<exists>z s z'. ZO_Init zl (ZlibOutputBuffer_new junk f i j opts) = (OK, z) \<and> zo_run zl fo xs z = Some (s, z') \<and>
    (if s = OK then \<exists>E. contents (zo_file z') = contents f @ E \<and> complete (concat (map op_data xs)) E else file_error fo s)"
proof -
  obtain z where "ZO_Init zl (ZlibOutputBuffer_new junk f i j opts) = (OK, z)" "zo_inv dst (zd_codes zl) opts contents (contents f) z []"
    using zlib_sink.ZO_Init_spec [OF assms(1-5), of junk f] by (elim exE conjE) (erule (1) that)
  then show ?thesis using zlib_sink.zo_run_spec [OF assms(1) _ assms(6), of "contents f" z "[]"]
    by (intro exI [of _ z]) (simp only: append_Nil simp_thms ex_simps)
qed

theorem zlib_output_complete_witness:
  "\<exists>z z'. ZO_Init copy_deflate (ZlibOutputBuffer_new None [9] 2 2 (zlib_DEFAULT no_zlib)) = (OK, z) \<and>
     zo_run copy_deflate memory_ops [AppendOp [1], AppendOp [2, 3], FlushOp, AppendOp [4, 5, 6, 7, 8]] z = Some (OK, z') \<and>
     zo_file z' = [9, 1, 2, 3, 4, 5, 6, 7, 8]"
proof -
  let ?xs = "[AppendOp [1], AppendOp [2, 3], FlushOp, AppendOp [4, 5, 6, 7, 8]]" and ?o = "zlib_DEFAULT no_zlib"
  have xs: "\<not> IsSyncOrFullFlush (zd_codes copy_deflate) (flush_mode ?o)" "list_all (\<lambda>x. length (op_data x) < 2 ^ 32) ?xs"
    "concat (map op_data ?xs) = [1, 2, 3, 4, 5, 6, 7, 8]"
    by (simp_all add: IsSyncOrFullFlush_def copy_deflate_def zlib_h_codes_def zlib_DEFAULT_def ZlibCompressionOptions_new_def no_zlib_def)
  have "1 < (2 :: nat)" "2 < (2 :: nat) ^ 31" "IsSyncOrFullFlush (zd_codes copy_deflate) (flush_mode ?o) \<longrightarrow> 6 < (2 :: nat)" using xs(1) by simp_all
  from zlib_output_complete [OF copy_sink.zlib_sink_axioms this(1,3,2,2) xs(2), of None "[9]", unfolded xs(3)]
  obtain z s z' where z: "ZO_Init copy_deflate (ZlibOutputBuffer_new None [9] 2 2 ?o) = (OK, z)"
    "zo_run copy_deflate memory_ops ?xs z = Some (s, z')"
    "if s = OK then \<exists>E. zo_file z' = [9] @ E \<and> [1, 2, 3, 4, 5, 6, 7, 8] = E else file_error memory_ops s"
    by (elim exE conjE) (erule (2) that)
  have "s = OK" using z(3) by (auto simp: file_error_def memory_ops_def split: if_splits)
  with z show ?thesis by (auto simp del: zo_run.simps)
qed

end
