(* ===== verification/Compressed_Records.thy ===== *)
theory Compressed_Records
  imports Zlib_Output
begin

text \<open>
  Record files with compression: the writer of \<open>Record_IO\<close> on a \<^verbatim>\<open>ZlibOutputBuffer\<close>, and its reader on a
  \<^verbatim>\<open>ZlibInputStream\<close>, as the constructors of \<^verbatim>\<open>core/lib/io/record_writer.cc\<close> and
  \<^verbatim>\<open>core/lib/io/record_reader.cc\<close> put them together.
\<close>

section \<open>The compressed streams of the reader and the writer\<close>

text \<open>The sizes of the options are converted to \<^verbatim>\<open>int32\<close> for the writer and to \<^verbatim>\<open>size_t\<close> for the reader.\<close>

definition zlib_buffer :: "'z zlib_deflate \<Rightarrow> 'z \<Rightarrow> 'f \<Rightarrow> ZlibCompressionOptions \<Rightarrow> status \<times> ('f, 'z) ZlibOutputBuffer" where
  "zlib_buffer zd junk dest options =
     ZO_Init zd (ZlibOutputBuffer_new junk dest (nat (signed_take_bit 31 (input_buffer_size options)))
       (nat (signed_take_bit 31 (output_buffer_size options))) options)"

definition zlib_dest_ops :: "'z zlib_deflate \<Rightarrow> 'f writable_file \<Rightarrow> ('f, 'z) ZlibOutputBuffer writable_file" where
  "zlib_dest_ops zd fo = \<lparr>wf_Append = (\<lambda>z d. the (ZO_Append zd fo d z)), wf_Flush = (\<lambda>z. the (ZO_Flush zd fo z)),
     wf_Sync = (\<lambda>z. the (ZO_Sync zd fo z)), wf_Close = (\<lambda>z. the (ZO_Close zd fo z))\<rparr>"

definition zlib_input :: "'z zlib_inflate \<Rightarrow> 's \<Rightarrow> ZlibCompressionOptions \<Rightarrow> ('s, 'z) ZlibInputStream" where
  "zlib_input zi input options =
     the (ZlibInputStream_new zi input (nat (input_buffer_size options mod 2 ^ 64)) (nat (output_buffer_size options mod 2 ^ 64)) options)"

section \<open>Writing\<close>

fun zlib_holds :: "('z \<Rightarrow> bytes \<Rightarrow> bytes \<Rightarrow> bool) \<Rightarrow> zlib_codes \<Rightarrow> ZlibCompressionOptions \<Rightarrow> ('f \<Rightarrow> bytes) \<Rightarrow>
    ('f, ('f, 'z) ZlibOutputBuffer) record_dest \<Rightarrow> bytes \<Rightarrow> bool" where
  "zlib_holds dst zc opts contents (PlainDest f) A \<longleftrightarrow> False"
| "zlib_holds dst zc opts contents (ZlibDest z) A \<longleftrightarrow> zo_inv dst zc opts contents [] z A"

context zlib_sink
begin

abbreviation writer_ops :: "('f, ('f, 'z) ZlibOutputBuffer) record_dest writable_file" where
  "writer_ops \<equiv> dest_ops fo (zlib_dest_ops zl fo)"

abbreviation zholds :: "('f, ('f, 'z) ZlibOutputBuffer) record_dest \<Rightarrow> bytes \<Rightarrow> bool" where
  "zholds \<equiv> zlib_holds dst (zd_codes zl) opts contents"

lemma writer_Append:
  assumes "zholds x A" "length d < 2 ^ 32"
  shows "\<exists>s x'. wf_Append writer_ops x d = (s, x') \<and> (if s = OK then zholds x' (A @ d) else file_error fo s)"
proof -
  obtain z where z: "x = ZlibDest z" "zinv [] z A" using assms(1) by (cases x) auto
  obtain s z' where "ZO_Append zl fo d z = Some (s, z')" "op_post [] (A @ d) s z'"
    using ZO_Append_spec [OF z(2) assms(2)] by (elim exE conjE) (erule (1) that)
  then have "wf_Append writer_ops x d = (s, ZlibDest z')" "if s = OK then zholds (ZlibDest z') (A @ d) else file_error fo s"
    by (simp_all add: z(1) dest_ops_def zlib_dest_ops_def op_post_def)
  then show ?thesis by (intro exI conjI)
qed

lemma compressed_sink: "record_sink writer_ops zholds (\<lambda>n. n < 2 ^ 32)"
proof
  fix x A d x'
  assume "zholds x A" "length d < 2 ^ 32" "wf_Append writer_ops x d = (OK, x')"
  then show "zholds x' (A @ d)" using writer_Append [of x A d] by auto
qed simp_all

lemma reliable_compressed_sink:
  assumes "\<And>f d. fst (wf_Append fo f d) = OK" "\<And>f. fst (wf_Sync fo f) = OK"
  shows "reliable_sink writer_ops zholds (\<lambda>n. n < 2 ^ 32)"
proof (intro reliable_sink.intro compressed_sink reliable_sink_axioms.intro)
  fix x A d
  assume "zholds x A" "length (d :: bytes) < 2 ^ 32"
  from writer_Append [OF this] assms show "fst (wf_Append writer_ops x d) = OK" by (auto simp: file_error_def split: if_splits)
qed

text \<open>A whole file of records.\<close>

lemma compressed_records_written:
  assumes reliable: "\<And>f d. fst (wf_Append fo f d) = OK" "\<And>f. fst (wf_Sync fo f) = OK"
    and o: "rwo_compression_type wopts = ZLIB_COMPRESSION" "rwo_zlib_options wopts = opts"
    and sizes: "0 \<le> input_buffer_size opts" "input_buffer_size opts < 2 ^ 31" "1 < output_buffer_size opts" "output_buffer_size opts < 2 ^ 31"
      "IsSyncOrFullFlush (zd_codes zl) (flush_mode opts) \<longrightarrow> 6 < output_buffer_size opts"
    and f: "contents f = []" and rs: "list_all (\<lambda>d. length d < 2 ^ 32) rs"
  shows "\<exists>w w' z. RecordWriter_new (zlib_buffer zl junk) f wopts = Some w \<and> WriteRecords writer_ops rs w = (OK, w') \<and>
    RecordWriter_Close writer_ops w' = (OK, w'\<lparr>rw_dest := None\<rparr>, Some (ZlibDest z)) \<and>
    complete (concat (map record_bytes rs)) (contents (zo_file z))"
proof -
  let ?i = "nat (signed_take_bit 31 (input_buffer_size opts))" and ?j = "nat (signed_take_bit 31 (output_buffer_size opts))"
  have ij: "?i = nat (input_buffer_size opts)" "?j = nat (output_buffer_size opts)" using sizes by (simp_all add: signed_take_bit_int_eq_self)
  have "1 < ?j" "IsSyncOrFullFlush (zd_codes zl) (flush_mode opts) \<longrightarrow> 6 < ?j" "?i < 2 ^ 31" "?j < 2 ^ 31" unfolding ij using sizes by auto
  from ZO_Init_spec [OF this, of junk f] f obtain z where z: "zlib_buffer zl junk f opts = (OK, z)" "zinv [] z []"
    unfolding zlib_buffer_def by auto
  let ?w = "\<lparr>rw_dest = Some (ZlibDest z), rw_options = wopts\<rparr>"
  have w: "RecordWriter_new (zlib_buffer zl junk) f wopts = Some ?w" "rw_dest ?w = Some (ZlibDest z)" "zholds (ZlibDest z) []"
    using o z by (simp_all add: RecordWriter_new_def IsZlibCompressed_def)
  obtain w' where w': "WriteRecords writer_ops rs ?w = (OK, w')"
    using reliable_sink.WriteRecords_ok [OF reliable_compressed_sink [OF reliable] w(2,3) rs] by (cases "WriteRecords writer_ops rs ?w") auto
  obtain x where x: "w' = ?w\<lparr>rw_dest := Some x\<rparr>" "zholds x ([] @ concat (map record_bytes rs))"
    using record_sink.WriteRecords_append [OF compressed_sink w' w(2,3) rs] by (elim exE conjE) (erule (1) that)
  then obtain z1 where z1: "x = ZlibDest z1" "zinv [] z1 (concat (map record_bytes rs))" by (cases x) auto
  obtain s z2 where z2: "ZO_Close zl fo z1 = Some (s, z2)"
    "if s = OK then \<exists>E. contents (zo_file z2) = [] @ E \<and> complete (concat (map record_bytes rs)) E else file_error fo s"
    using ZO_Close_spec [OF z1(2)] by (elim exE conjE) (erule (1) that)
  have "s = OK" using z2(2) reliable by (auto simp: file_error_def split: if_splits)
  then have "RecordWriter_Close writer_ops w' = (OK, w'\<lparr>rw_dest := None\<rparr>, Some (ZlibDest z2))" "complete (concat (map record_bytes rs)) (contents (zo_file z2))"
    using z2 o(1) by (simp_all add: RecordWriter_Close_def x(1) z1(1) IsZlibCompressed_def dest_ops_def zlib_dest_ops_def)
  with w(1) w' show ?thesis by blast
qed

end

section \<open>Reading\<close>

lemma compressed_reader:
  assumes inf: "inflater zi C F zst opts" and rd: "random_access_file rd C" and small: "length C < 2 ^ 63" "length F < 2 ^ 63"
    and o: "rro_compression_type ropts = ZLIB_COMPRESSION" "rro_zlib_options ropts = opts" "rro_buffer_size ropts < 2 ^ 63"
    and sizes: "0 < input_buffer_size opts" "input_buffer_size opts < 2 ^ 31" "0 < output_buffer_size opts" "output_buffer_size opts < 2 ^ 31"
  shows "\<exists>r. RecordReader_new (zlib_input zi) ropts = Some r \<and>
      rs_at unused (zlib_at C F zst opts (fs_at C)) (rr_input_stream r) 0" "record_source F (rs_ops rd (Zlib_ops zi (fs_ops rd))) (rs_at unused (zlib_at C F zst opts (fs_at C)))"
proof -
  have src: "zlib_source zi C F zst opts (fs_ops rd) (fs_at C)"
    using inf fs_is_stream [OF rd] small(2) by (intro zlib_source.intro zlib_source_axioms.intro)
  then show "record_source F (rs_ops rd (Zlib_ops zi (fs_ops rd))) (rs_at unused (zlib_at C F zst opts (fs_at C)))"
    using small(2) by (intro record_source.intro record_source_axioms.intro zlib_is_used zlib_source.zlib_is_stream)
  let ?f = "if rro_buffer_size ropts > 0
    then BufferedStream (BufferedInputStream_new RandomAccessInputStream_new (nat (rro_buffer_size ropts))) else DirectStream RandomAccessInputStream_new"
  have at: "fs_at C ?f 0" using ra_new [OF small(1)] buffered_new [OF rd small(1), of "nat (rro_buffer_size ropts)"] o(3) by (auto simp: nat_less_iff)
  have m: "nat (input_buffer_size opts mod 2 ^ 64) = nat (input_buffer_size opts)" "nat (output_buffer_size opts mod 2 ^ 64) = nat (output_buffer_size opts)"
    using sizes by simp_all
  have "\<exists>z. ZlibInputStream_new zi ?f (nat (input_buffer_size opts)) (nat (output_buffer_size opts)) opts = Some z \<and> zlib_at C F zst opts (fs_at C) z 0"
    by (rule zlib_source.ZlibInputStream_new_at [OF src at]) (use sizes in \<open>simp_all add: nat_less_iff\<close>)
  then have "zlib_at C F zst opts (fs_at C) (zlib_input zi ?f opts) 0" unfolding zlib_input_def m by auto
  then show "\<exists>r. RecordReader_new (zlib_input zi) ropts = Some r \<and> rs_at unused (zlib_at C F zst opts (fs_at C)) (rr_input_stream r) 0"
    using o(1,2) by (simp add: RecordReader_new_def)
qed

section \<open>Properties\<close>

text \<open>C35. Compressed TFRecord round trip. On a reliable file the writer with compression writes any records of less
  than 4 GiB, whatever the sizes of its buffers, and closes, leaving a complete compressed stream of them in the file, for any compressor that keeps the contract \<open>deflater\<close>; if
  such a complete stream is one that the decompressor reads as the contract \<open>inflater\<close> says, which zlib and gzip streams
  are and raw ones are not, a reader with compression on the file, buffered or not, returns the records at their offsets in any order,
  and in sequence followed by the end of the file.\<close>

theorem compressed_record_roundtrip:
  assumes sink: "zlib_sink zd dst fin complete pend opts fo contents"
    and reliable: "\<And>f d. fst (wf_Append fo f d) = OK" "\<And>f. fst (wf_Sync fo f) = OK"
    and agree: "\<And>D E. complete D E \<Longrightarrow> inflater zi E D (zst D E) ropts'"
    and wopts: "rwo_compression_type wopts = ZLIB_COMPRESSION" "rwo_zlib_options wopts = opts"
    and wsizes: "0 \<le> input_buffer_size opts" "input_buffer_size opts < 2 ^ 31" "1 < output_buffer_size opts" "output_buffer_size opts < 2 ^ 31"
      "IsSyncOrFullFlush (zd_codes zd) (flush_mode opts) \<longrightarrow> 6 < output_buffer_size opts"
    and ropts: "rro_compression_type ropts = ZLIB_COMPRESSION" "rro_zlib_options ropts = ropts'" "rro_buffer_size ropts < 2 ^ 63"
    and rsizes: "0 < input_buffer_size ropts'" "input_buffer_size ropts' < 2 ^ 31" "0 < output_buffer_size ropts'" "output_buffer_size ropts' < 2 ^ 31"
    and f: "contents f = []" and rs: "list_all (\<lambda>d. length d < 2 ^ 32) rs" "length (concat (map record_bytes rs)) < 2 ^ 63"
    and ks: "list_all (\<lambda>i. i \<le> length rs) ks"
  shows "\<exists>w w' z. RecordWriter_new (zlib_buffer zd junk) f wopts = Some w \<and>
    WriteRecords (dest_ops fo (zlib_dest_ops zd fo)) rs w = (OK, w') \<and>
    RecordWriter_Close (dest_ops fo (zlib_dest_ops zd fo)) w' = (OK, w'\<lparr>rw_dest := None\<rparr>, Some (ZlibDest z)) \<and>
    complete (concat (map record_bytes rs)) (contents (zo_file z)) \<and>
    (\<forall>rd. random_access_file rd (contents (zo_file z)) \<and> length (contents (zo_file z)) < 2 ^ 63 \<longrightarrow>
      (\<exists>r q e. RecordReader_new (zlib_input zi) ropts = Some r \<and> SequentialRecordReader_new (zlib_input zi) ropts = Some q \<and>
        list_all2 (\<lambda>i res. if i < length rs then res = Inr (rs ! i, word_of_nat (record_offset rs (Suc i)))
            else \<exists>e. res = Inl e \<and> IsOutOfRange e) ks
          (read_records (rs_ops rd (Zlib_ops zi (fs_ops rd))) (map (\<lambda>i. word_of_nat (record_offset rs i)) ks) r) \<and>
        read_sequence (rs_ops rd (Zlib_ops zi (fs_ops rd))) (Suc (length rs)) q = map Inr rs @ [Inl e] \<and> IsOutOfRange e))"
proof -
  let ?F = "concat (map record_bytes rs)"
  obtain w w' z where w: "RecordWriter_new (zlib_buffer zd junk) f wopts = Some w"
    "WriteRecords (dest_ops fo (zlib_dest_ops zd fo)) rs w = (OK, w')"
    "RecordWriter_Close (dest_ops fo (zlib_dest_ops zd fo)) w' = (OK, w'\<lparr>rw_dest := None\<rparr>, Some (ZlibDest z))"
    and c: "complete ?F (contents (zo_file z))"
    using zlib_sink.compressed_records_written [OF sink reliable wopts wsizes f rs(1), of junk] by blast
  have "\<exists>r q e. RecordReader_new (zlib_input zi) ropts = Some r \<and> SequentialRecordReader_new (zlib_input zi) ropts = Some q \<and>
        list_all2 (\<lambda>i res. if i < length rs then res = Inr (rs ! i, word_of_nat (record_offset rs (Suc i)))
            else \<exists>e. res = Inl e \<and> IsOutOfRange e) ks
          (read_records (rs_ops rd (Zlib_ops zi (fs_ops rd))) (map (\<lambda>i. word_of_nat (record_offset rs i)) ks) r) \<and>
        read_sequence (rs_ops rd (Zlib_ops zi (fs_ops rd))) (Suc (length rs)) q = map Inr rs @ [Inl e] \<and> IsOutOfRange e"
    if "random_access_file rd (contents (zo_file z))" "length (contents (zo_file z)) < 2 ^ 63" for rd
  proof -
    let ?C = "contents (zo_file z)"
    let ?at = "rs_at unused (zlib_at ?C ?F (zst ?F ?C) ropts' (fs_at ?C))"
    note reader = compressed_reader [OF agree [OF c] that rs(2) ropts rsizes]
    note src = reader(2)
    obtain r where r: "RecordReader_new (zlib_input zi) ropts = Some r" "?at (rr_input_stream r) 0" using reader(1) by blast
    let ?q = "\<lparr>underlying = r, sr_offset = 0\<rparr>"
    have "\<exists>e. read_sequence (rs_ops rd (Zlib_ops zi (fs_ops rd))) (Suc (length rs)) ?q = map Inr (drop 0 rs) @ [Inl e] \<and> IsOutOfRange e"
      by (rule record_source.read_sequence_of_file [OF src refl]) (use r(2) in \<open>simp_all add: record_offset_def\<close>)
    moreover have "SequentialRecordReader_new (zlib_input zi) ropts = Some ?q" by (simp add: SequentialRecordReader_new_def r(1))
    ultimately show ?thesis using r(1) record_source.read_records_of_file [OF src refl r(2) ks] by auto
  qed
  with w c show ?thesis by blast
qed

theorem compressed_record_roundtrip_witness:
  "\<exists>w w' z q e. RecordWriter_new (zlib_buffer copy_deflate None) [] (CreateRecordWriterOptions no_zlib ''ZLIB'') = Some w \<and>
     WriteRecords (dest_ops memory_ops (zlib_dest_ops copy_deflate memory_ops)) [[7], [8, 9]] w = (OK, w') \<and>
     RecordWriter_Close (dest_ops memory_ops (zlib_dest_ops copy_deflate memory_ops)) w' = (OK, w'\<lparr>rw_dest := None\<rparr>, Some (ZlibDest z)) \<and>
     zo_file z = two_records \<and>
     SequentialRecordReader_new (zlib_input copy_inflate) (CreateRecordReaderOptions no_zlib ''ZLIB'') = Some q \<and>
     read_sequence (rs_ops (memory_read two_records) (Zlib_ops copy_inflate (fs_ops (memory_read two_records)))) 3 q =
       [Inr [7], Inr [8, 9], Inl e] \<and> IsOutOfRange e"
proof -
  let ?w = "CreateRecordWriterOptions no_zlib ''ZLIB''" and ?r = "CreateRecordReaderOptions no_zlib ''ZLIB''" and ?o = "zlib_DEFAULT no_zlib"
  have w: "rwo_compression_type ?w = ZLIB_COMPRESSION" "rwo_zlib_options ?w = ?o"
    "rro_compression_type ?r = ZLIB_COMPRESSION" "rro_zlib_options ?r = ?o" "rro_buffer_size ?r < 2 ^ 63"
    by (simp_all add: CreateRecordWriterOptions_def CreateRecordReaderOptions_def Let_def RecordReaderOptions_new_def)
  have sizes: "input_buffer_size ?o = 262144" "output_buffer_size ?o = 262144" by (simp_all add: zlib_DEFAULT_def ZlibCompressionOptions_new_def)
  have rs: "list_all (\<lambda>d. length d < 2 ^ 32) [[7], [8, 9 :: 8 word]]" "length (concat (map record_bytes [[7], [8, 9]])) < 2 ^ 63" by simp_all
  have agree: "inflater copy_inflate E D (copied D) ?o" if "D = E" for D E using copy_codec.inflater_axioms that by simp
  have mem: "fst (wf_Append memory_ops f d) = OK" "fst (wf_Sync memory_ops f) = OK" for f d by (simp_all add: memory_ops_def)
  have bounds: "0 \<le> (262144 :: int)" "(262144 :: int) < 2 ^ 31" "1 < (262144 :: int)" "0 < (262144 :: int)"
    "IsSyncOrFullFlush (zd_codes copy_deflate) (flush_mode ?o) \<longrightarrow> 6 < (262144 :: int)" by simp_all
  have none: "list_all (\<lambda>i. i \<le> length [[7], [8, 9 :: 8 word]]) []" by simp
  from compressed_record_roundtrip [where zst = "\<lambda>D E. copied D" and junk = None and f = "[]", OF copy_sink.zlib_sink_axioms mem agree w(1,2)
      _ _ _ _ _ w(3-5) _ _ _ _ refl rs none, unfolded sizes, OF _ bounds(1,2,3,2,5,4,2,4,2)]
  obtain w w' z where z: "RecordWriter_new (zlib_buffer copy_deflate None) [] ?w = Some w"
     "WriteRecords (dest_ops memory_ops (zlib_dest_ops copy_deflate memory_ops)) [[7], [8, 9]] w = (OK, w')"
     "RecordWriter_Close (dest_ops memory_ops (zlib_dest_ops copy_deflate memory_ops)) w' = (OK, w'\<lparr>rw_dest := None\<rparr>, Some (ZlibDest z))"
     "concat (map record_bytes [[7], [8, 9]]) = zo_file z"
     "\<forall>rd. random_access_file rd (zo_file z) \<and> length (zo_file z) < 2 ^ 63 \<longrightarrow>
      (\<exists>r q e. RecordReader_new (zlib_input copy_inflate) ?r = Some r \<and> SequentialRecordReader_new (zlib_input copy_inflate) ?r = Some q \<and>
        list_all2 (\<lambda>i res. if i < length [[7], [8, 9 :: 8 word]] then res = Inr ([[7], [8, 9]] ! i, word_of_nat (record_offset [[7], [8, 9]] (Suc i)))
            else \<exists>e. res = Inl e \<and> IsOutOfRange e) []
          (read_records (rs_ops rd (Zlib_ops copy_inflate (fs_ops rd))) (map (\<lambda>i. word_of_nat (record_offset [[7], [8, 9]] i)) []) r) \<and>
        read_sequence (rs_ops rd (Zlib_ops copy_inflate (fs_ops rd))) (Suc (length [[7], [8, 9 :: 8 word]])) q = map Inr [[7], [8, 9]] @ [Inl e] \<and> IsOutOfRange e)"
    by - (drule meta_mp, assumption, elim exE conjE, erule (4) that)
  have F: "zo_file z = two_records" using z(4) unfolding two_records_def by (simp only:)
  have "random_access_file (memory_read two_records) (zo_file z) \<and> length (zo_file z) < 2 ^ 63"
    unfolding F using memory_file.random_access_file_axioms two_records_small by (rule conjI)
  from mp [OF spec [OF z(5)] this] obtain q e where q: "SequentialRecordReader_new (zlib_input copy_inflate) ?r = Some q"
    "read_sequence (rs_ops (memory_read two_records) (Zlib_ops copy_inflate (fs_ops (memory_read two_records))))
       (Suc (length [[7], [8, 9 :: 8 word]])) q = map Inr [[7], [8, 9]] @ [Inl e]" "IsOutOfRange e"
    by (elim exE conjE) (erule (2) that)
  have "Suc (length [[7], [8, 9 :: 8 word]]) = 3" "map Inr [[7], [8, 9]] @ [Inl e] = [Inr [7], Inr [8, 9], Inl e]" by simp_all
  note q = q(1) q(2) [unfolded this] q(3)
  show ?thesis by (intro exI conjI) (rule z(1) z(2) z(3) F q)+
qed

end
