(* ===== verification/Snappy_Output.thy ===== *)
theory Snappy_Output
  imports Record_IO Byte_Buffer
begin

text \<open>
  \<^verbatim>\<open>core/lib/io/snappy/snappy_outputbuffer.cc\<close>: a stream of blocks compressed with Snappy, each after its length in
  four bytes, is added to a file. Snappy (as in \<open>Table_Format\<close>) and the file are parameters. The buffers are byte arrays with positions as offsets; the pointer \<^verbatim>\<open>next_in_\<close> of the writer points into the data of the caller
  while a large piece is compressed directly (\<open>so_source\<close>). \<open>None\<close> is a write through a pointer
  into the data of the caller, or a loop that never ends.
\<close>

section \<open>The output buffer\<close>

record 'f SnappyOutputBuffer =
  so_file :: 'f
  so_input :: bytes
  so_input_capacity :: nat
  so_source :: "bytes option"
  so_next_in :: nat
  so_avail_in :: nat
  so_output :: bytes
  so_output_capacity :: nat
  so_next_out :: nat
  so_avail_out :: nat

definition SnappyOutputBuffer_new :: "'f \<Rightarrow> nat \<Rightarrow> nat \<Rightarrow> 'f SnappyOutputBuffer" where
  "SnappyOutputBuffer_new file input_buffer_bytes output_buffer_bytes =
     \<lparr>so_file = file, so_input = replicate input_buffer_bytes 0, so_input_capacity = input_buffer_bytes, so_source = None,
      so_next_in = 0, so_avail_in = 0, so_output = replicate output_buffer_bytes 0, so_output_capacity = output_buffer_bytes,
      so_next_out = 0, so_avail_out = output_buffer_bytes\<rparr>"

text \<open>The result is an \<^verbatim>\<open>int32\<close>; callers compare it as a \<^verbatim>\<open>size_t\<close>.\<close>

definition SO_AvailableInputSpace :: "'f SnappyOutputBuffer \<Rightarrow> int" where
  "SO_AvailableInputSpace z = sint (word_of_int (int (so_input_capacity z) - int (so_avail_in z)) :: 32 word)"

definition SO_fits :: "bytes \<Rightarrow> 'f SnappyOutputBuffer \<Rightarrow> bool" where
  "SO_fits data z \<longleftrightarrow> int (length data) \<le> SO_AvailableInputSpace z mod 2 ^ 64"

definition SO_AddToInputBuffer :: "bytes \<Rightarrow> 'f SnappyOutputBuffer \<Rightarrow> 'f SnappyOutputBuffer option" where
  "SO_AddToInputBuffer data z =
     (if so_source z \<noteq> None then None
      else
        let (input, next_in, avail_in) = add_to_buffer (so_input_capacity z) data (so_input z, so_next_in z, so_avail_in z)
        in Some (z\<lparr>so_input := input, so_next_in := next_in, so_avail_in := avail_in\<rparr>))"

definition SO_FlushOutputBufferToFile :: "'f writable_file \<Rightarrow> 'f SnappyOutputBuffer \<Rightarrow> status \<times> 'f SnappyOutputBuffer" where
  "SO_FlushOutputBufferToFile fo z =
     (let bytes_to_write = so_output_capacity z - so_avail_out z in
      if bytes_to_write > 0 then
        let (s, file) = wf_Append fo (so_file z) (take bytes_to_write (so_output z)); z = z\<lparr>so_file := file\<rparr>
        in (s, if s = OK then z\<lparr>so_next_out := 0, so_avail_out := so_output_capacity z\<rparr> else z)
      else (OK, z))"

partial_function (option) AddToOutputBuffer :: "'f writable_file \<Rightarrow> bytes \<Rightarrow> 'f SnappyOutputBuffer \<Rightarrow>
    (status \<times> 'f SnappyOutputBuffer) option" where
  "AddToOutputBuffer fo data z =
     (if length data > 0 then
        let bytes_to_copy = min (length data) (so_avail_out z);
            z = z\<lparr>so_output := write_at (so_output z) (so_next_out z) (take bytes_to_copy data),
                  so_next_out := so_next_out z + bytes_to_copy, so_avail_out := so_avail_out z - bytes_to_copy\<rparr>;
            (s, z) = (if so_avail_out z = 0 then SO_FlushOutputBufferToFile fo z else (OK, z))
        in if s \<noteq> OK then Some (s, z) else AddToOutputBuffer fo (drop bytes_to_copy data) z
      else Some (OK, z))"

lemma AddToOutputBuffer_Nil [simp]: "AddToOutputBuffer fo [] z = Some (OK, z)"
  by (simp add: AddToOutputBuffer.simps)

lemmas AddToOutputBuffer_Cons = AddToOutputBuffer.simps [of _ "x # xs" for x xs]

definition so_pending :: "'f SnappyOutputBuffer \<Rightarrow> bytes" where
  "so_pending z = take (so_avail_in z) (drop (so_next_in z) (case so_source z of None \<Rightarrow> so_input z | Some data \<Rightarrow> data))"

text \<open>The length of a block, the most significant byte first.\<close>

definition compressed_length_array :: "nat \<Rightarrow> bytes" where
  "compressed_length_array n = map (\<lambda>i. word_of_nat (n div 2 ^ (8 * (3 - i)))) [0, 1, 2, 3]"

definition SO_Deflate :: "snappy \<Rightarrow> 'f writable_file \<Rightarrow> 'f SnappyOutputBuffer \<Rightarrow> (status \<times> 'f SnappyOutputBuffer) option" where
  "SO_Deflate sn fo z =
     (if so_avail_in z = 0 then Some (OK, z)
      else
        (case Snappy_Compress sn (so_pending z) of
           None \<Rightarrow> Some (Error DATA_LOSS ''Snappy_Compress failed'', z)
         | Some out \<Rightarrow>
             (case AddToOutputBuffer fo (compressed_length_array (length out)) z of None \<Rightarrow> None
              | Some (s, z) \<Rightarrow>
                  if s \<noteq> OK then Some (s, z)
                  else
                    (case AddToOutputBuffer fo out z of None \<Rightarrow> None
                     | Some (s, z) \<Rightarrow>
                         if s \<noteq> OK then Some (s, z)
                         else Some (OK, z\<lparr>so_next_in := so_next_in z + so_avail_in z, so_avail_in := 0\<rparr>)))))"

definition SO_DeflateBuffered :: "snappy \<Rightarrow> 'f writable_file \<Rightarrow> 'f SnappyOutputBuffer \<Rightarrow> (status \<times> 'f SnappyOutputBuffer) option" where
  "SO_DeflateBuffered sn fo z =
     map_option (\<lambda>(s, z). (s, if s = OK then z\<lparr>so_source := None, so_next_in := 0\<rparr> else z)) (SO_Deflate sn fo z)"

definition SO_Write :: "snappy \<Rightarrow> 'f writable_file \<Rightarrow> bytes \<Rightarrow> 'f SnappyOutputBuffer \<Rightarrow> (status \<times> 'f SnappyOutputBuffer) option" where
  "SO_Write sn fo data z =
     (if SO_fits data z then map_option (\<lambda>z. (OK, z)) (SO_AddToInputBuffer data z)
      else
        (case SO_DeflateBuffered sn fo z of None \<Rightarrow> None
         | Some (s, z) \<Rightarrow>
             if s \<noteq> OK then Some (s, z)
             else if SO_fits data z then map_option (\<lambda>z. (OK, z)) (SO_AddToInputBuffer data z)
             else
               map_option (\<lambda>(s, z). (s, if s = OK then z\<lparr>so_source := None, so_next_in := 0\<rparr> else z))
                 (SO_Deflate sn fo (z\<lparr>so_source := Some data, so_next_in := 0, so_avail_in := length data\<rparr>))))"

definition SO_Flush :: "snappy \<Rightarrow> 'f writable_file \<Rightarrow> 'f SnappyOutputBuffer \<Rightarrow> (status \<times> 'f SnappyOutputBuffer) option" where
  "SO_Flush sn fo z =
     (case SO_DeflateBuffered sn fo z of None \<Rightarrow> None
      | Some (s, z) \<Rightarrow> if s \<noteq> OK then Some (s, z) else Some (SO_FlushOutputBufferToFile fo z))"

section \<open>Runs\<close>

text \<open>A use of the buffer: operations up to the first error, and \<^verbatim>\<open>Flush\<close> at the end.\<close>

datatype so_op = WriteOp bytes | SnappyFlushOp

fun so_step :: "snappy \<Rightarrow> 'f writable_file \<Rightarrow> so_op \<Rightarrow> 'f SnappyOutputBuffer \<Rightarrow> (status \<times> 'f SnappyOutputBuffer) option" where
  "so_step sn fo (WriteOp d) z = SO_Write sn fo d z"
| "so_step sn fo SnappyFlushOp z = SO_Flush sn fo z"

fun so_run :: "snappy \<Rightarrow> 'f writable_file \<Rightarrow> so_op list \<Rightarrow> 'f SnappyOutputBuffer \<Rightarrow> (status \<times> 'f SnappyOutputBuffer) option" where
  "so_run sn fo [] z = SO_Flush sn fo z"
| "so_run sn fo (x # xs) z =
     (case so_step sn fo x z of None \<Rightarrow> None | Some (s, z) \<Rightarrow> if s \<noteq> OK then Some (s, z) else so_run sn fo xs z)"

fun so_data :: "so_op \<Rightarrow> bytes" where
  "so_data (WriteOp d) = d"
| "so_data SnappyFlushOp = []"

section \<open>What is in the file and in the buffers\<close>

definition snappy_frame :: "bytes \<Rightarrow> bytes" where
  "snappy_frame c = compressed_length_array (length c) @ c"

text \<open>\<open>E\<close> is a sequence of framed blocks for the data \<open>D\<close>, each for at most \<open>K\<close> bytes.\<close>

definition snappy_block :: "snappy \<Rightarrow> nat \<Rightarrow> bytes \<Rightarrow> bytes \<Rightarrow> bool" where
  "snappy_block sn K raw c \<longleftrightarrow> Snappy_Compress sn raw = Some c \<and> length raw \<le> K"

definition snappy_blocks :: "snappy \<Rightarrow> nat \<Rightarrow> bytes \<Rightarrow> bytes \<Rightarrow> bool" where
  "snappy_blocks sn K D E \<longleftrightarrow>
     (\<exists>raws cs. D = concat raws \<and> E = concat (map snappy_frame cs) \<and> list_all2 (snappy_block sn K) raws cs)"

lemma snappy_blocks_Nil [simp]: "snappy_blocks sn K [] []"
  unfolding snappy_blocks_def by (rule exI [of _ "[]"], rule exI [of _ "[]"]) simp

lemma snappy_blocks_snoc:
  assumes "snappy_blocks sn K D E" "snappy_block sn K raw c"
  shows "snappy_blocks sn K (D @ raw) (E @ snappy_frame c)"
proof -
  obtain raws cs where "D = concat raws" "E = concat (map snappy_frame cs)" "list_all2 (snappy_block sn K) raws cs"
    using assms(1) unfolding snappy_blocks_def by (elim exE conjE) (erule (2) that)
  then show ?thesis unfolding snappy_blocks_def using assms(2)
    by (intro exI [of _ "raws @ [raw]"] exI [of _ "cs @ [c]"]) (simp add: list_all2_appendI)
qed

text \<open>The file, which first held \<open>B\<close>, and the output buffer hold \<open>E\<close>.\<close>

definition so_core :: "('f \<Rightarrow> bytes) \<Rightarrow> bytes \<Rightarrow> 'f SnappyOutputBuffer \<Rightarrow> bytes \<Rightarrow> bool" where
  "so_core contents B z E \<longleftrightarrow>
     so_input_capacity z < 2 ^ 31 \<and> length (so_input z) = so_input_capacity z \<and> length (so_output z) = so_output_capacity z \<and>
     length (so_pending z) = so_avail_in z \<and> 0 < so_avail_out z \<and> so_next_out z + so_avail_out z = so_output_capacity z \<and>
     B @ E = contents (so_file z) @ take (so_next_out z) (so_output z)"

definition so_inv :: "snappy \<Rightarrow> nat \<Rightarrow> ('f \<Rightarrow> bytes) \<Rightarrow> bytes \<Rightarrow> 'f SnappyOutputBuffer \<Rightarrow> bytes \<Rightarrow> bool" where
  "so_inv sn K contents B z A \<longleftrightarrow>
     so_source z = None \<and> so_input_capacity z \<le> K \<and>
     (\<exists>D E. A = D @ so_pending z \<and> so_core contents B z E \<and> snappy_blocks sn K D E)"

text \<open>The errors: those of the file, and a failure of the compressor.\<close>

definition so_error :: "snappy \<Rightarrow> 'f writable_file \<Rightarrow> status \<Rightarrow> bool" where
  "so_error sn fo s \<longleftrightarrow> file_error fo s \<or> s = Error DATA_LOSS ''Snappy_Compress failed'' \<and> (\<exists>raw. Snappy_Compress sn raw = None)"

text \<open>The same state but for the file and the output buffer.\<close>

definition with_output :: "'f SnappyOutputBuffer \<Rightarrow> 'f SnappyOutputBuffer \<Rightarrow> bool" where
  "with_output z z' \<longleftrightarrow> (\<exists>f out n a. z' = z\<lparr>so_file := f, so_output := out, so_next_out := n, so_avail_out := a\<rparr>)"

lemma with_outputI: "z' = z\<lparr>so_file := f, so_output := out, so_next_out := n, so_avail_out := a\<rparr> \<Longrightarrow> with_output z z'"
  unfolding with_output_def by (intro exI)

lemma with_output_refl [simp]: "with_output z z"
  by (rule with_outputI [where f = "so_file z" and out = "so_output z" and n = "so_next_out z" and a = "so_avail_out z"]) simp

lemma with_output_trans: "with_output z z' \<Longrightarrow> with_output z' z'' \<Longrightarrow> with_output z z''"
  unfolding with_output_def by (elim exE) (rule exI, rule exI, rule exI, rule exI, simp)

lemma with_output_keeps:
  assumes "with_output z z'"
  shows "so_input_capacity z' = so_input_capacity z" "so_source z' = so_source z" "so_pending z' = so_pending z"
    "so_avail_in z' = so_avail_in z" "so_input z' = so_input z" "so_output_capacity z' = so_output_capacity z"
  using assms by (auto simp: with_output_def so_pending_def split: option.split)

locale snappy_sink = snappy_codec sn + appendable_file fo contents
  for sn and fo :: "'f writable_file" and contents
begin

abbreviation core :: "bytes \<Rightarrow> 'f SnappyOutputBuffer \<Rightarrow> bytes \<Rightarrow> bool" where "core \<equiv> so_core contents"

lemma Flush_file:
  assumes len: "length (so_output z) = so_output_capacity z" and p: "so_next_out z + so_avail_out z = so_output_capacity z"
    and cap: "0 < so_output_capacity z" and E: "X = contents (so_file z) @ take (so_next_out z) (so_output z)"
  shows "\<exists>s z'. SO_FlushOutputBufferToFile fo z = (s, z') \<and> with_output z z' \<and>
    (if s = OK then contents (so_file z') = X \<and> so_next_out z' = 0 \<and> so_avail_out z' = so_output_capacity z' \<and> so_output z' = so_output z
     else file_error fo s)"
proof (cases "so_avail_out z < so_output_capacity z")
  case False
  then have n: "so_next_out z = 0" "so_avail_out z = so_output_capacity z" using p by simp_all
  then have "SO_FlushOutputBufferToFile fo z = (OK, z)" by (simp add: SO_FlushOutputBufferToFile_def)
  moreover have "with_output z z" by simp
  ultimately show ?thesis using n E by simp
next
  case True
  have n: "so_output_capacity z - so_avail_out z = so_next_out z" "0 < so_next_out z" using p True by simp_all
  obtain s f where f: "wf_Append fo (so_file z) (take (so_next_out z) (so_output z)) = (s, f)" by fastforce
  show ?thesis
  proof (cases "s = OK")
    case ok: True
    let ?z = "z\<lparr>so_file := f, so_next_out := 0, so_avail_out := so_output_capacity z\<rparr>"
    have "SO_FlushOutputBufferToFile fo z = (OK, ?z)" using True f ok by (simp add: SO_FlushOutputBufferToFile_def n Let_def)
    moreover have "contents f = X" using append f ok E by blast
    moreover have "with_output z ?z" by (rule with_outputI [where out = "so_output z"]) simp
    ultimately show ?thesis by simp
  next
    case False
    have "SO_FlushOutputBufferToFile fo z = (s, z\<lparr>so_file := f\<rparr>)" using False True f by (simp add: SO_FlushOutputBufferToFile_def n Let_def)
    moreover have "file_error fo s" using f unfolding file_error_def by (metis fst_conv)
    moreover have "with_output z (z\<lparr>so_file := f\<rparr>)" by (rule with_outputI [where out = "so_output z" and n = "so_next_out z" and a = "so_avail_out z"]) simp
    ultimately show ?thesis using False by simp
  qed
qed

text \<open>One round of \<^verbatim>\<open>AddToOutputBuffer\<close> makes progress, and it returns, however small the buffer.\<close>

lemma AddToOutputBuffer_round:
  assumes z: "core B z E" and ne: "data \<noteq> []"
  shows "\<exists>k s z2. 0 < k \<and> with_output z z2 \<and> (if s = OK then core B z2 (E @ take k data) else file_error fo s) \<and>
    AddToOutputBuffer fo data z = (if s \<noteq> OK then Some (s, z2) else AddToOutputBuffer fo (drop k data) z2)"
proof -
  define k where "k = min (length data) (so_avail_out z)"
  define z1 where "z1 = z\<lparr>so_output := write_at (so_output z) (so_next_out z) (take k data),
     so_next_out := so_next_out z + k, so_avail_out := so_avail_out z - k\<rparr>"
  have c: "length (so_output z) = so_output_capacity z" "0 < so_avail_out z" "so_next_out z + so_avail_out z = so_output_capacity z"
    "B @ E = contents (so_file z) @ take (so_next_out z) (so_output z)" using z by (simp_all add: so_core_def)
  have k: "0 < k" "k \<le> length data" "k \<le> so_avail_out z" "length (take k data) = k" using ne c(2) by (simp_all add: k_def)
  have fit: "so_next_out z + length (take k data) \<le> length (so_output z)" using k c by simp
  have w1: "with_output z z1" by (rule with_outputI [where f = "so_file z"]) (simp add: z1_def)
  have o1: "length (so_output z1) = so_output_capacity z1" "so_next_out z1 + so_avail_out z1 = so_output_capacity z1"
    "(B @ E) @ take k data = contents (so_file z1) @ take (so_next_out z1) (so_output z1)"
    using length_write_at [OF fit] take_write_at [OF fit] c k unfolding z1_def by simp_all
  obtain s z2 where z2: "(if so_avail_out z1 = 0 then SO_FlushOutputBufferToFile fo z1 else (OK, z1)) = (s, z2)" by fastforce
  have "with_output z z2 \<and> (if s = OK then core B z2 (E @ take k data) else file_error fo s)"
  proof (cases "so_avail_out z1 = 0")
    case True
    have cap: "0 < so_output_capacity z1" using c(2,3) by (simp add: z1_def)
    from Flush_file [OF o1(1,2) cap o1(3)] True z2 have f: "with_output z1 z2"
      "if s = OK then contents (so_file z2) = (B @ E) @ take k data \<and> so_next_out z2 = 0 \<and> so_avail_out z2 = so_output_capacity z2 \<and>
         so_output z2 = so_output z1 else file_error fo s" by simp_all
    note w2 = with_output_trans [OF w1 f(1)]
    show ?thesis using w2 f(2) o1(1) cap z with_output_keeps [OF w2] with_output_keeps [OF f(1)]
      by (cases "s = OK") (simp_all add: so_core_def)
  next
    case nz: False
    then have "s = OK" "z2 = z1" using z2 by simp_all
    then show ?thesis using w1 o1 nz z with_output_keeps [OF w1] by (simp add: so_core_def)
  qed
  moreover have "AddToOutputBuffer fo data z = (if s \<noteq> OK then Some (s, z2) else AddToOutputBuffer fo (drop k data) z2)"
    unfolding AddToOutputBuffer.simps [of fo data z] k_def [symmetric] Let_def z1_def [symmetric] z2 case_prod_conv using ne by simp
  ultimately show ?thesis using k(1) by (intro exI [of _ k] exI [of _ s] exI [of _ z2]) simp
qed

lemma AddToOutputBuffer_spec:
  "core B z E \<Longrightarrow> \<exists>s z'. AddToOutputBuffer fo data z = Some (s, z') \<and> with_output z z' \<and>
     (if s = OK then core B z' (E @ data) else file_error fo s)"
proof (induction "length data" arbitrary: data z E rule: less_induct)
  case less
  show ?case
  proof (cases "data = []")
    case True
    then show ?thesis using less.prems AddToOutputBuffer.simps [of fo data z] by simp
  next
    case False
    obtain k s z2 where k: "0 < k" "with_output z z2" "if s = OK then core B z2 (E @ take k data) else file_error fo s"
      "AddToOutputBuffer fo data z = (if s \<noteq> OK then Some (s, z2) else AddToOutputBuffer fo (drop k data) z2)"
      using AddToOutputBuffer_round [OF less.prems False] by (elim exE conjE) (erule (3) that)
    show ?thesis
    proof (cases "s = OK")
      case True
      then have c2: "core B z2 (E @ take k data)" using k(3) by simp
      have "length (drop k data) < length data" using k(1) False by simp
      from less.hyps [OF this c2] obtain s' z' where "AddToOutputBuffer fo (drop k data) z2 = Some (s', z')" "with_output z2 z'"
        "if s' = OK then core B z' ((E @ take k data) @ drop k data) else file_error fo s'" by (elim exE conjE) (erule (2) that)
      then show ?thesis using k(4) True with_output_trans [OF k(2)] by (simp only: append_assoc append_take_drop_id) simp
    next
      case False
      then show ?thesis using k by simp
    qed
  qed
qed

text \<open>After an operation on the data \<open>A\<close>.\<close>

definition op_post :: "bytes \<Rightarrow> nat \<Rightarrow> bytes \<Rightarrow> status \<Rightarrow> 'f SnappyOutputBuffer \<Rightarrow> bool" where
  "op_post B K A s z' \<longleftrightarrow> (if s = OK then so_inv sn K contents B z' A else so_error sn fo s)"

lemma Deflate_spec:
  assumes z: "core B z E" and b: "snappy_blocks sn K D E" "length (so_pending z) \<le> K"
  shows "\<exists>s z'. SO_Deflate sn fo z = Some (s, z') \<and>
    (if s = OK then \<exists>E'. core B z' E' \<and> snappy_blocks sn K (D @ so_pending z) E' \<and> so_avail_in z' = 0 \<and>
        so_input_capacity z' = so_input_capacity z else so_error sn fo s)"
proof (cases "so_avail_in z = 0")
  case True
  then show ?thesis using z b by (auto simp: SO_Deflate_def so_pending_def)
next
  case ne: False
  show ?thesis
  proof (cases "Snappy_Compress sn (so_pending z)")
    case None
    then show ?thesis using ne by (auto simp: SO_Deflate_def so_error_def)
  next
    case (Some out)
    obtain s1 z1 where z1: "AddToOutputBuffer fo (compressed_length_array (length out)) z = Some (s1, z1)" "with_output z z1"
      "if s1 = OK then core B z1 (E @ compressed_length_array (length out)) else file_error fo s1"
      using AddToOutputBuffer_spec [OF z, of "compressed_length_array (length out)"] by (elim exE conjE) (erule (2) that)
    show ?thesis
    proof (cases "s1 = OK")
      case False
      then show ?thesis using z1 ne Some by (simp add: SO_Deflate_def so_error_def)
    next
      case True
      then have c1: "core B z1 (E @ compressed_length_array (length out))" using z1(3) by simp
      obtain s2 z2 where z2: "AddToOutputBuffer fo out z1 = Some (s2, z2)" "with_output z1 z2"
        "if s2 = OK then core B z2 ((E @ compressed_length_array (length out)) @ out) else file_error fo s2"
        using AddToOutputBuffer_spec [OF c1, of out] by (elim exE conjE) (erule (2) that)
      let ?z = "z2\<lparr>so_next_in := so_next_in z2 + so_avail_in z2, so_avail_in := 0\<rparr>"
      have e: "SO_Deflate sn fo z = Some (s2, if s2 = OK then ?z else z2)" using z1(1) z2(1) ne Some True by (simp add: SO_Deflate_def)
      have f: "snappy_blocks sn K (D @ so_pending z) (E @ snappy_frame out)"
        using snappy_blocks_snoc [OF b(1)] b(2) Some by (simp add: snappy_block_def)
      have "core B ?z (E @ snappy_frame out)" if "s2 = OK" using z2(3) that by (simp add: so_core_def snappy_frame_def so_pending_def)
      then show ?thesis using e f z2(3) with_output_keeps(1) [OF with_output_trans [OF z1(2) z2(2)]]
        by (cases "s2 = OK") (auto simp: so_error_def)
    qed
  qed
qed

lemma restore_input:
  assumes "core B z' E'" "so_avail_in z' = 0" "snappy_blocks sn K A E'" "so_input_capacity z' \<le> K"
  shows "so_inv sn K contents B (z'\<lparr>so_source := None, so_next_in := 0\<rparr>) A"
  unfolding so_inv_def using assms by (intro conjI exI [of _ A] exI [of _ E']) (simp_all add: so_core_def so_pending_def)

lemma DeflateBuffered_spec:
  assumes z: "so_inv sn K contents B z A"
  shows "\<exists>s z'. SO_DeflateBuffered sn fo z = Some (s, z') \<and> op_post B K A s z' \<and> (s = OK \<longrightarrow> so_avail_in z' = 0)"
proof -
  obtain D E where D: "A = D @ so_pending z" "core B z E" "snappy_blocks sn K D E" "so_input_capacity z \<le> K"
    using z unfolding so_inv_def by (elim exE conjE) (erule (3) that)
  have "length (so_pending z) \<le> K"
  proof -
    have "so_source z = None" using z by (simp add: so_inv_def)
    then have "length (so_pending z) \<le> length (so_input z)" by (simp add: so_pending_def)
    then show ?thesis using D(2,4) by (simp add: so_core_def)
  qed
  from Deflate_spec [OF D(2,3) this] obtain s z' where z': "SO_Deflate sn fo z = Some (s, z')"
    "if s = OK then \<exists>E'. core B z' E' \<and> snappy_blocks sn K (D @ so_pending z) E' \<and> so_avail_in z' = 0 \<and>
        so_input_capacity z' = so_input_capacity z else so_error sn fo s" by (elim exE conjE) (erule (1) that)
  then show ?thesis using restore_input [of B z' _ K A] D(1,4) by (cases "s = OK") (auto simp: SO_DeflateBuffered_def op_post_def)
qed

lemma fits_iff:
  assumes "so_inv sn K contents B z A"
  shows "SO_fits data z \<longleftrightarrow> so_avail_in z + length data \<le> so_input_capacity z"
proof -
  have c: "so_input_capacity z < 2 ^ 31" "so_avail_in z \<le> so_input_capacity z" using assms by (auto simp: so_inv_def so_core_def so_pending_def)
  show ?thesis unfolding SO_fits_def SO_AvailableInputSpace_def size32_diff [OF c(2,1)] using c(2) by auto
qed

lemma SO_AddToInputBuffer_spec:
  assumes z: "so_inv sn K contents B z A" and fit: "SO_fits data z"
  shows "\<exists>z'. SO_AddToInputBuffer data z = Some z' \<and> so_inv sn K contents B z' (A @ data)"
proof -
  obtain D E where D: "A = D @ so_pending z" "core B z E" "snappy_blocks sn K D E" "so_input_capacity z \<le> K" and src: "so_source z = None"
    using z unfolding so_inv_def by (elim exE conjE) (erule (4) that)
  have p: "so_pending z = take (so_avail_in z) (drop (so_next_in z) (so_input z))" using src by (simp add: so_pending_def)
  have len: "length (so_input z) = so_input_capacity z" "length (so_pending z) = so_avail_in z" using D(2) by (simp_all add: so_core_def)
  have room: "so_avail_in z + length data \<le> length (so_input z)" using fit unfolding fits_iff [OF z] len .
  obtain b n a where b: "add_to_buffer (length (so_input z)) data (so_input z, so_next_in z, so_avail_in z) = (b, n, a)"
    by (cases "add_to_buffer (length (so_input z)) data (so_input z, so_next_in z, so_avail_in z)")
  let ?z = "z\<lparr>so_input := b, so_next_in := n, so_avail_in := a\<rparr>"
  from add_to_buffer_spec [OF b len(2) [unfolded p] room]
  have s: "length b = so_input_capacity z" "a = so_avail_in z + length data" "take a (drop n b) = so_pending z @ data" unfolding p len(1) by auto
  have e: "SO_AddToInputBuffer data z = Some ?z" using src b unfolding len(1) by (simp add: SO_AddToInputBuffer_def)
  have i: "so_pending ?z = so_pending z @ data" using src s(3) by (simp add: so_pending_def [of ?z])
  then have "core B ?z E" using D(2) len(2) s(1,2) by (simp add: so_core_def)
  then show ?thesis using e i D src unfolding so_inv_def by auto
qed

lemma Write_directly_spec:
  assumes z: "so_inv sn K contents B z A" "so_avail_in z = 0" and small: "length data \<le> K"
  shows "\<exists>s z'. map_option (\<lambda>(s, z). (s, if s = OK then z\<lparr>so_source := None, so_next_in := 0\<rparr> else z))
      (SO_Deflate sn fo (z\<lparr>so_source := Some data, so_next_in := 0, so_avail_in := length data\<rparr>)) = Some (s, z') \<and> op_post B K (A @ data) s z'"
proof -
  let ?z = "z\<lparr>so_source := Some data, so_next_in := 0, so_avail_in := length data\<rparr>"
  obtain E where c: "core B z E" "snappy_blocks sn K A E" "so_input_capacity z \<le> K" using z by (auto simp: so_inv_def so_pending_def)
  have p: "so_pending ?z = data" by (simp add: so_pending_def)
  then have "core B ?z E" "length (so_pending ?z) \<le> K" using c small by (simp_all add: so_core_def)
  from Deflate_spec [OF this(1) c(2) this(2)] obtain s z' where z': "SO_Deflate sn fo ?z = Some (s, z')"
    "if s = OK then \<exists>E'. core B z' E' \<and> snappy_blocks sn K (A @ data) E' \<and> so_avail_in z' = 0 \<and>
        so_input_capacity z' = so_input_capacity ?z else so_error sn fo s" unfolding p by (elim exE conjE) (erule (1) that)
  then show ?thesis using restore_input [of B z' _ K "A @ data"] c(3) by (cases "s = OK") (auto simp: op_post_def)
qed

lemma SO_Write_spec:
  assumes z: "so_inv sn K contents B z A" and small: "length data \<le> K"
  shows "\<exists>s z'. SO_Write sn fo data z = Some (s, z') \<and> op_post B K (A @ data) s z'"
proof (cases "SO_fits data z")
  case True
  then show ?thesis using SO_AddToInputBuffer_spec [OF z True] by (auto simp: SO_Write_def op_post_def)
next
  case False
  obtain s z1 where z1: "SO_DeflateBuffered sn fo z = Some (s, z1)" "op_post B K A s z1" "s = OK \<longrightarrow> so_avail_in z1 = 0"
    using DeflateBuffered_spec [OF z] by (elim exE conjE) (erule (1) that, simp)
  note e = SO_Write_def [of sn fo data z, unfolded z1(1) option.case prod.case if_not_P [OF False]]
  show ?thesis
  proof (cases "s = OK")
    case True
    then have i: "so_inv sn K contents B z1 A" "so_avail_in z1 = 0" using z1(2,3) by (simp_all add: op_post_def)
    show ?thesis
    proof (cases "SO_fits data z1")
      case fit: True
      then show ?thesis using SO_AddToInputBuffer_spec [OF i(1) fit] True e by (auto simp: op_post_def)
    next
      case nofit: False
      then show ?thesis using Write_directly_spec [OF i small] True unfolding e by (simp only: simp_thms if_False)
    qed
  next
    case False
    then show ?thesis using e z1(2) by (simp add: op_post_def)
  qed
qed

lemma SO_Flush_spec:
  assumes z: "so_inv sn K contents B z A"
  shows "\<exists>s z'. SO_Flush sn fo z = Some (s, z') \<and> op_post B K A s z' \<and>
    (s = OK \<longrightarrow> (\<exists>E. contents (so_file z') = B @ E \<and> snappy_blocks sn K A E))"
proof -
  obtain s z1 where z1: "SO_DeflateBuffered sn fo z = Some (s, z1)" "op_post B K A s z1" "s = OK \<longrightarrow> so_avail_in z1 = 0"
    using DeflateBuffered_spec [OF z] by (elim exE conjE) (erule (1) that, simp)
  show ?thesis
  proof (cases "s = OK")
    case False
    then show ?thesis using z1 by (simp add: SO_Flush_def op_post_def)
  next
    case True
    then have i: "so_inv sn K contents B z1 A" "so_avail_in z1 = 0" using z1(2,3) by (simp_all add: op_post_def)
    then obtain E where c: "core B z1 E" "snappy_blocks sn K A E" "so_input_capacity z1 \<le> K" "so_source z1 = None" "so_pending z1 = []"
      by (auto simp: so_inv_def so_pending_def)
    have o1: "length (so_output z1) = so_output_capacity z1" "so_next_out z1 + so_avail_out z1 = so_output_capacity z1" "0 < so_output_capacity z1"
      "B @ E = contents (so_file z1) @ take (so_next_out z1) (so_output z1)" using c(1) by (auto simp: so_core_def)
    obtain s2 z2 where z2: "SO_FlushOutputBufferToFile fo z1 = (s2, z2)" "with_output z1 z2"
      "if s2 = OK then contents (so_file z2) = B @ E \<and> so_next_out z2 = 0 \<and> so_avail_out z2 = so_output_capacity z2 \<and> so_output z2 = so_output z1
       else file_error fo s2" using Flush_file [OF o1] by (elim exE conjE) (erule (2) that)
    have e: "SO_Flush sn fo z = Some (s2, z2)" using z1(1) True z2(1) by (simp add: SO_Flush_def)
    show ?thesis
    proof (cases "s2 = OK")
      case True
      then have "core B z2 E" using z2(3) c(1) o1 with_output_keeps [OF z2(2)] by (simp add: so_core_def)
      then have "so_inv sn K contents B z2 A" unfolding so_inv_def using c with_output_keeps [OF z2(2)] by auto
      then show ?thesis using e True z2(3) c(2) by (auto simp: op_post_def)
    next
      case False
      then show ?thesis using e z2(3) by (simp add: op_post_def so_error_def)
    qed
  qed
qed

lemma so_step_spec:
  "so_inv sn K contents B z A \<Longrightarrow> length (so_data x) \<le> K \<Longrightarrow> \<exists>s z'. so_step sn fo x z = Some (s, z') \<and> op_post B K (A @ so_data x) s z'"
  using SO_Write_spec SO_Flush_spec by (cases x) (simp, fastforce)

lemma so_run_spec:
  "so_inv sn K contents B z A \<Longrightarrow> list_all (\<lambda>x. length (so_data x) \<le> K) xs \<Longrightarrow>
     \<exists>s z'. so_run sn fo xs z = Some (s, z') \<and>
       (if s = OK then \<exists>E. contents (so_file z') = B @ E \<and> snappy_blocks sn K (A @ concat (map so_data xs)) E else so_error sn fo s)"
proof (induction xs arbitrary: z A)
  case Nil
  obtain s z' where z': "SO_Flush sn fo z = Some (s, z')" "op_post B K A s z'" "s = OK \<longrightarrow> (\<exists>E. contents (so_file z') = B @ E \<and> snappy_blocks sn K A E)"
    using SO_Flush_spec [OF Nil.prems(1)] by (elim exE conjE) (erule (2) that)
  then show ?case by (cases "s = OK") (simp_all add: op_post_def)
next
  case (Cons x xs)
  then have x: "length (so_data x) \<le> K" "list_all (\<lambda>x. length (so_data x) \<le> K) xs" by simp_all
  obtain s z1 where z1: "so_step sn fo x z = Some (s, z1)" "op_post B K (A @ so_data x) s z1"
    using so_step_spec [OF Cons.prems(1) x(1)] by (elim exE conjE) (erule (1) that)
  show ?case
  proof (cases "s = OK")
    case True
    then have i: "so_inv sn K contents B z1 (A @ so_data x)" using z1(2) by (simp add: op_post_def)
    have "so_run sn fo (x # xs) z = so_run sn fo xs z1" using z1(1) True by simp
    then show ?thesis using Cons.IH [OF i x(2)] by (simp only: list.map concat.simps append_assoc)
  next
    case False
    then show ?thesis using z1 by (simp add: op_post_def)
  qed
qed

lemma SnappyOutputBuffer_new_inv:
  "i < 2 ^ 31 \<Longrightarrow> i \<le> K \<Longrightarrow> 0 < j \<Longrightarrow> so_inv sn K contents (contents f) (SnappyOutputBuffer_new f i j) []"
  by (simp add: so_inv_def so_core_def SnappyOutputBuffer_new_def so_pending_def)

end

end
