(* ===== verification/Snappy_Input.thy ===== *)
theory Snappy_Input
  imports Snappy_Output
begin

text \<open>
  \<^verbatim>\<open>core/lib/io/snappy/snappy_inputbuffer.cc\<close>: the stream that reads what \<open>Snappy_Output\<close> writes. The buffers are byte
  arrays with positions as offsets; the reader of the file is a parameter. \<open>None\<close> is a write behind the end of the
  output array (the size is checked by \<^verbatim>\<open>DCHECK_GE\<close> only) or a loop that never ends.
\<close>

section \<open>The input buffer\<close>

record SnappyInputBuffer =
  si_file_pos :: nat
  si_input_capacity :: nat
  si_output_capacity :: nat
  si_input :: bytes
  si_output :: bytes
  si_next_in :: nat
  si_next_out :: nat
  si_avail_in :: nat
  si_avail_out :: nat

definition SnappyInputBuffer_new :: "nat \<Rightarrow> nat \<Rightarrow> SnappyInputBuffer" where
  "SnappyInputBuffer_new input_buffer_bytes output_buffer_bytes =
     \<lparr>si_file_pos = 0, si_input_capacity = input_buffer_bytes, si_output_capacity = output_buffer_bytes,
      si_input = replicate input_buffer_bytes 0, si_output = replicate output_buffer_bytes 0,
      si_next_in = 0, si_next_out = 0, si_avail_in = 0, si_avail_out = 0\<rparr>"

definition SI_Tell :: "SnappyInputBuffer \<Rightarrow> int" where "SI_Tell z = -1"

definition SI_Reset :: "SnappyInputBuffer \<Rightarrow> status \<times> SnappyInputBuffer" where
  "SI_Reset z = (OK, z\<lparr>si_file_pos := 0, si_avail_in := 0, si_avail_out := 0, si_next_in := 0\<rparr>)"

definition SI_ReadBytesFromCache :: "nat \<Rightarrow> bytes \<Rightarrow> SnappyInputBuffer \<Rightarrow> nat \<times> bytes \<times> SnappyInputBuffer" where
  "SI_ReadBytesFromCache bytes_to_read result z =
     (let can_read_bytes = min bytes_to_read (si_avail_out z)
      in (can_read_bytes, result @ take can_read_bytes (drop (si_next_out z) (si_output z)),
          z\<lparr>si_next_out := si_next_out z + can_read_bytes, si_avail_out := si_avail_out z - can_read_bytes\<rparr>))"

text \<open>The number of bytes to read is an \<^verbatim>\<open>int\<close>, which \<^verbatim>\<open>Read\<close> takes as a \<^verbatim>\<open>size_t\<close>.\<close>

definition SI_ReadFromFile :: "file_reader \<Rightarrow> SnappyInputBuffer \<Rightarrow> status \<times> SnappyInputBuffer" where
  "SI_ReadFromFile rd z =
     (let bytes_to_read = sint (word_of_int (int (si_input_capacity z) - int (si_avail_in z)) :: 32 word);
          input = (if si_avail_in z > 0 \<and> si_next_in z > 0
                   then write_at (si_input z) 0 (take (si_avail_in z) (drop (si_next_in z) (si_input z))) else si_input z);
          (s, data) = rd (word_of_nat (si_file_pos z)) (nat (bytes_to_read mod 2 ^ 64));
          z = z\<lparr>si_input := write_at input (si_avail_in z) data, si_next_in := 0,
                si_avail_in := si_avail_in z + length data, si_file_pos := si_file_pos z + length data\<rparr>
      in if s \<noteq> OK \<and> \<not> IsOutOfRange s then (s, z)
         else if data = [] then (Error OUT_OF_RANGE ''EOF reached'', z)
         else if IsOutOfRange s then (OK, z)
         else (s, z))"

lemma ReadFromFile_progress: "SI_ReadFromFile rd z = (OK, z') \<Longrightarrow> 0 < si_avail_in z'"
  by (auto simp: SI_ReadFromFile_def Let_def split: prod.splits if_splits)

function ReadCompressedBlockLength_loop :: "file_reader \<Rightarrow> nat \<Rightarrow> uint32 \<Rightarrow> SnappyInputBuffer \<Rightarrow> status \<times> uint32 \<times> SnappyInputBuffer" where
  "ReadCompressedBlockLength_loop rd bytes_to_read len z =
     (if bytes_to_read > 0 then
        let (s, z) = (if si_avail_in z = 0 then SI_ReadFromFile rd z else (OK, z))
        in if s \<noteq> OK then (s, len, z)
           else
             let readable = min bytes_to_read (si_avail_in z);
                 len = foldl (\<lambda>l c. push_bit 8 l OR ucast c) len (take readable (drop (si_next_in z) (si_input z)))
             in ReadCompressedBlockLength_loop rd (bytes_to_read - readable) len
                  (z\<lparr>si_next_in := si_next_in z + readable, si_avail_in := si_avail_in z - readable\<rparr>)
      else (OK, len, z))"
  by pat_completeness auto
termination
  by (relation "measure (\<lambda>(_, n, _). n)") (auto dest: ReadFromFile_progress [OF sym] split: if_splits)

definition ReadCompressedBlockLength :: "file_reader \<Rightarrow> SnappyInputBuffer \<Rightarrow> status \<times> uint32 \<times> SnappyInputBuffer" where
  "ReadCompressedBlockLength rd z = ReadCompressedBlockLength_loop rd 4 0 z"

definition SI_Inflate :: "snappy \<Rightarrow> file_reader \<Rightarrow> SnappyInputBuffer \<Rightarrow> (status \<times> SnappyInputBuffer) option" where
  "SI_Inflate sn rd z =
     (let (s, compressed_block_length, z) = ReadCompressedBlockLength rd z; n = unat compressed_block_length in
      if s \<noteq> OK then Some (s, z)
      else
        let (s, z) =
          (if si_avail_in z < n then
             let (s, z) = SI_ReadFromFile rd z
             in if s \<noteq> OK then (s, z)
                else if si_avail_in z < n then
                  (if n > si_input_capacity z then Error RESOURCE_EXHAUSTED ''Input buffer too small. ''
                   else Error DATA_LOSS ''Failed to read bytes from file. Possible data corruption.'', z)
                else (OK, z)
           else (OK, z))
        in if s \<noteq> OK then Some (s, z)
           else
             let block = take n (drop (si_next_in z) (si_input z)) in
             (case Snappy_GetUncompressedLength sn block of
                None \<Rightarrow> Some (Error DATA_LOSS ''Parsing error in Snappy_GetUncompressedLength'', z)
              | Some uncompressed_length \<Rightarrow>
                  if uncompressed_length > si_output_capacity z then None
                  else
                    let z = z\<lparr>si_next_out := 0\<rparr> in
                    (case Snappy_Uncompress sn block uncompressed_length of
                       None \<Rightarrow> Some (Error DATA_LOSS ''Snappy_Uncompress failed'', z)
                     | Some raw \<Rightarrow>
                         Some (OK, z\<lparr>si_output := write_at (si_output z) 0 raw, si_next_in := si_next_in z + n,
                                     si_avail_in := si_avail_in z - n, si_avail_out := si_avail_out z + uncompressed_length\<rparr>))))"

partial_function (option) SI_ReadNBytes_loop :: "snappy \<Rightarrow> file_reader \<Rightarrow> int \<Rightarrow> bytes \<Rightarrow> SnappyInputBuffer \<Rightarrow>
    (status \<times> bytes \<times> SnappyInputBuffer) option" where
  "SI_ReadNBytes_loop sn rd bytes_to_read result z =
     (if bytes_to_read > 0 then
        (case SI_Inflate sn rd z of None \<Rightarrow> None
         | Some (s, z) \<Rightarrow>
             if s \<noteq> OK then Some (s, result, z)
             else
               let (n, result, z) = SI_ReadBytesFromCache (nat bytes_to_read) result z
               in SI_ReadNBytes_loop sn rd (bytes_to_read - int n) result z)
      else Some (OK, result, z))"

definition SI_ReadNBytes :: "snappy \<Rightarrow> file_reader \<Rightarrow> int \<Rightarrow> SnappyInputBuffer \<Rightarrow> (status \<times> bytes \<times> SnappyInputBuffer) option" where
  "SI_ReadNBytes sn rd bytes_to_read z =
     (let (n, result, z) = SI_ReadBytesFromCache (nat (bytes_to_read mod 2 ^ 64)) [] z
      in SI_ReadNBytes_loop sn rd (bytes_to_read - int n) result z)"

definition SI_ops :: "snappy \<Rightarrow> file_reader \<Rightarrow> SnappyInputBuffer stream_ops" where
  "SI_ops sn rd = \<lparr>ReadNBytes = (\<lambda>n _ z. the (SI_ReadNBytes sn rd n z)),
     SkipNBytes = default_SkipNBytes (\<lambda>n _ z. the (SI_ReadNBytes sn rd n z)), Tell = SI_Tell, Reset = SI_Reset\<rparr>"

declare ReadCompressedBlockLength_loop.simps [simp del]

text \<open>A sequence of reads: for each its error code, if any, and its bytes.\<close>

fun si_run :: "snappy \<Rightarrow> file_reader \<Rightarrow> nat list \<Rightarrow> SnappyInputBuffer \<Rightarrow> (error_code option \<times> bytes) list option" where
  "si_run sn rd [] z = Some []"
| "si_run sn rd (n # ns) z =
     (case SI_ReadNBytes sn rd (int n) z of None \<Rightarrow> None
      | Some (s, d, z) \<Rightarrow> map_option ((#) (code_of s, d)) (si_run sn rd ns z))"

section \<open>The length of a block\<close>

lemma length_compressed_length_array [simp]: "length (compressed_length_array n) = 4"
  by (simp add: compressed_length_array_def)

lemma length_roundtrip:
  assumes "n < 2 ^ 32"
  shows "foldl (\<lambda>l c. push_bit 8 l OR ucast c) (0 :: uint32) (compressed_length_array n) = word_of_nat n"
proof (rule bit_word_eqI)
  fix i assume "i < LENGTH(32)"
  then show "bit (foldl (\<lambda>l c. push_bit 8 l OR ucast c) (0 :: uint32) (compressed_length_array n)) i \<longleftrightarrow> bit (word_of_nat n :: uint32) i"
    by (cases "i < 8"; cases "i < 16"; cases "i < 24") (auto simp: compressed_length_array_def bit_simps simp flip: drop_bit_eq_div)
qed

section \<open>The unread part of the file\<close>

text \<open>The input buffer is a window on the file at position \<open>c\<close>.\<close>

definition si_window :: "bytes \<Rightarrow> SnappyInputBuffer \<Rightarrow> nat \<Rightarrow> bool" where
  "si_window C z c \<longleftrightarrow>
     0 < si_input_capacity z \<and> si_input_capacity z < 2 ^ 31 \<and> length (si_input z) = si_input_capacity z \<and>
     si_next_in z + si_avail_in z \<le> si_input_capacity z \<and> si_file_pos z = c + si_avail_in z \<and> c + si_avail_in z \<le> length C \<and>
     length C < 2 ^ 63 \<and> take (si_avail_in z) (drop (si_next_in z) (si_input z)) = take (si_avail_in z) (drop c C)"

text \<open>The same state but for the input.\<close>

definition with_input :: "SnappyInputBuffer \<Rightarrow> SnappyInputBuffer \<Rightarrow> bool" where
  "with_input z z' \<longleftrightarrow> (\<exists>i n a p. z' = z\<lparr>si_input := i, si_next_in := n, si_avail_in := a, si_file_pos := p\<rparr>)"

lemma with_inputI: "z' = z\<lparr>si_input := i, si_next_in := n, si_avail_in := a, si_file_pos := p\<rparr> \<Longrightarrow> with_input z z'"
  unfolding with_input_def by (intro exI)

lemma with_input_refl [simp]: "with_input z z"
  by (rule with_inputI [where i = "si_input z" and n = "si_next_in z" and a = "si_avail_in z" and p = "si_file_pos z"]) simp

lemma with_input_trans: "with_input z z' \<Longrightarrow> with_input z' z'' \<Longrightarrow> with_input z z''"
  unfolding with_input_def by (elim exE) (rule exI, rule exI, rule exI, rule exI, simp)

lemma with_input_keeps:
  assumes "with_input z z'"
  shows "si_input_capacity z' = si_input_capacity z" "si_output_capacity z' = si_output_capacity z" "si_output z' = si_output z"
    "si_next_out z' = si_next_out z" "si_avail_out z' = si_avail_out z"
  using assms by (auto simp: with_input_def)

lemma consume_window:
  assumes "si_window C z c" "k \<le> si_avail_in z"
  shows "si_window C (z\<lparr>si_next_in := si_next_in z + k, si_avail_in := si_avail_in z - k\<rparr>) (c + k)"
proof -
  have "drop k (take (si_avail_in z) (drop (si_next_in z) (si_input z))) = drop k (take (si_avail_in z) (drop c C))"
    using assms(1) by (simp add: si_window_def)
  then have "take (si_avail_in z - k) (drop (si_next_in z + k) (si_input z)) = take (si_avail_in z - k) (drop (c + k) C)"
    by (simp add: drop_take add.commute)
  then show ?thesis using assms unfolding si_window_def by simp
qed

lemma read_window:
  assumes "si_window C z c" "k \<le> si_avail_in z"
  shows "take k (drop (si_next_in z) (si_input z)) = take k (drop c C)"
proof -
  have "take k (take (si_avail_in z) (drop (si_next_in z) (si_input z))) = take k (take (si_avail_in z) (drop c C))"
    using assms(1) by (simp add: si_window_def)
  then show ?thesis using assms(2) by (simp add: min_absorb1)
qed

lemma BlockLength_buffered:
  assumes "si_window C z c" "4 \<le> si_avail_in z"
  shows "ReadCompressedBlockLength rd z = (OK, foldl (\<lambda>l c. push_bit 8 l OR ucast c) 0 (take 4 (drop c C)),
    z\<lparr>si_next_in := si_next_in z + 4, si_avail_in := si_avail_in z - 4\<rparr>)"
  unfolding ReadCompressedBlockLength_def ReadCompressedBlockLength_loop.simps [of rd 4 0 z]
  using assms(2) read_window [OF assms] ReadCompressedBlockLength_loop.simps [of rd 0] by (simp add: min_absorb1)

context random_access_file
begin

lemma read_at:
  assumes "p \<le> length F" "length F < 2 ^ 63" "0 < n"
  shows "\<exists>s. rd (word_of_nat p) n = (s, take n (drop p F)) \<and> (s = OK \<or> IsOutOfRange s)"
proof -
  have p: "unat (word_of_nat p :: uint64) = p" using assms(1,2) by (simp add: unsigned_of_nat take_bit_nat_eq_self)
  show ?thesis
  proof (cases "p + n \<le> length F")
    case True
    then show ?thesis using file_in [of "word_of_nat p" n] unfolding p by simp
  next
    case False
    then show ?thesis using file_past [OF assms(3), of "word_of_nat p"] unfolding p by auto
  qed
qed

lemma ReadFromFile_window:
  assumes z: "si_window F z c" and room: "si_avail_in z < si_input_capacity z"
  shows "\<exists>s z'. SI_ReadFromFile rd z = (s, z') \<and> si_window F z' c \<and> with_input z z' \<and>
    si_avail_in z' = min (si_input_capacity z) (length F - c) \<and> (if si_file_pos z = length F then IsOutOfRange s else s = OK)"
proof -
  define a where "a = si_avail_in z"
  define k where "k = si_input_capacity z - a"
  define data where "data = take k (drop (c + a) F)"
  define input where "input = (if a > 0 \<and> si_next_in z > 0 then write_at (si_input z) 0 (take a (drop (si_next_in z) (si_input z))) else si_input z)"
  have w: "si_input_capacity z < 2 ^ 31" "length (si_input z) = si_input_capacity z" "si_next_in z + a \<le> si_input_capacity z"
    "si_file_pos z = c + a" "c + a \<le> length F" "length F < 2 ^ 63" "take a (drop (si_next_in z) (si_input z)) = take a (drop c F)"
    using z by (simp_all add: si_window_def a_def)
  have k: "0 < k" "a + k = si_input_capacity z" using room by (simp_all add: k_def a_def)
  obtain s where s: "rd (word_of_nat (c + a)) k = (s, data)" "s = OK \<or> IsOutOfRange s" using read_at [OF w(5,6) k(1)] unfolding data_def by blast
  have n: "nat (sint (word_of_int (int (si_input_capacity z) - int a) :: 32 word) mod 2 ^ 64) = k"
    using size32_diff [of a "si_input_capacity z"] room w(1) unfolding k_def a_def by (simp only: nat_int less_imp_le)
  let ?z = "z\<lparr>si_input := write_at input a data, si_next_in := 0, si_avail_in := a + length data, si_file_pos := c + a + length data\<rparr>"
  have e: "SI_ReadFromFile rd z = (if data = [] then Error OUT_OF_RANGE ''EOF reached'' else OK, ?z)"
    using s(2) unfolding SI_ReadFromFile_def Let_def a_def [symmetric] input_def [symmetric] n w(4) s(1) case_prod_conv by auto
  have la: "length (take a (drop c F)) = a" using w(5) by simp
  have i: "length input = si_input_capacity z" "take a input = take a (drop c F)"
    using w(2,3,7) k(2) length_write_at [of 0 "take a (drop c F)" "si_input z", unfolded la]
      read_write_at [of 0 "take a (drop c F)" "si_input z", unfolded la] by (auto simp: input_def)
  have l: "a + length data \<le> length input" using k(2) i(1) by (simp add: data_def)
  have "take a (drop c F) @ data = take (a + length data) (drop c F)" unfolding data_def
    by (simp add: take_add add.commute min_def)
  then have "si_window F ?z c" using z length_write_at [OF l] take_write_at [OF l] i l k(2) w(5) unfolding si_window_def by (auto simp: data_def)
  moreover have "with_input z ?z" by (rule with_inputI) (rule refl)
  moreover have "data = [] \<longleftrightarrow> c + a = length F" using k(1) w(5) by (auto simp: data_def)
  moreover have "a + length data = min (si_input_capacity z) (length F - c)" using k(2) w(5) by (simp add: data_def)
  ultimately show ?thesis using e w(4) by (intro exI [of _ ?z] exI conjI) auto
qed

lemma BlockLength_loop_window:
  "si_window F z c \<Longrightarrow> c + n \<le> length F \<Longrightarrow>
     \<exists>z'. ReadCompressedBlockLength_loop rd n l z = (OK, foldl (\<lambda>l c. push_bit 8 l OR ucast c) l (take n (drop c F)), z') \<and>
       si_window F z' (c + n) \<and> with_input z z'"
proof (induction n arbitrary: z c l rule: less_induct)
  case (less n)
  show ?case
  proof (cases "n = 0")
    case True
    then show ?thesis using less.prems ReadCompressedBlockLength_loop.simps [of rd 0 l z] by simp
  next
    case False
    obtain s z1 where z1: "(if si_avail_in z = 0 then SI_ReadFromFile rd z else (OK, z)) = (s, z1)" by fastforce
    have s1: "s = OK \<and> si_window F z1 c \<and> with_input z z1 \<and> 0 < si_avail_in z1"
    proof (cases "si_avail_in z = 0")
      case True
      then have "si_avail_in z < si_input_capacity z" "si_file_pos z \<noteq> length F" "0 < si_input_capacity z"
        using less.prems False by (auto simp: si_window_def)
      then show ?thesis using ReadFromFile_window [OF less.prems(1)] z1 True False less.prems(2) by auto
    qed (use z1 less.prems(1) in auto)
    define k where "k = min n (si_avail_in z1)"
    let ?z = "z1\<lparr>si_next_in := si_next_in z1 + k, si_avail_in := si_avail_in z1 - k\<rparr>"
    have k: "0 < k" "k \<le> n" "k \<le> si_avail_in z1" using False s1 by (auto simp: k_def)
    have w: "si_window F ?z (c + k)" using consume_window [of F z1 c k] s1 k by blast
    have wi: "with_input z ?z"
      by (rule with_input_trans [of _ z1], use s1 in blast, rule with_inputI [where i = "si_input z1" and p = "si_file_pos z1"], simp)
    have r: "take k (drop (si_next_in z1) (si_input z1)) = take k (drop c F)" using read_window s1 k(3) by blast
    have e: "ReadCompressedBlockLength_loop rd n l z =
        ReadCompressedBlockLength_loop rd (n - k) (foldl (\<lambda>l c. push_bit 8 l OR ucast c) l (take k (drop c F))) ?z"
      unfolding ReadCompressedBlockLength_loop.simps [of rd n l z] z1 case_prod_conv Let_def k_def [symmetric] r using False s1 by simp
    have t: "take n (drop c F) = take k (drop c F) @ take (n - k) (drop (c + k) F)"
      using take_add [of k "n - k" "drop c F"] k(2) by (simp add: add.commute)
    have "n - k < n" "c + k + (n - k) \<le> length F" "c + k + (n - k) = c + n" using k less.prems(2) by simp_all
    from less.IH [OF this(1) w this(2)] this(3) with_input_trans [OF wi] show ?thesis unfolding e t foldl_append by metis
  qed
qed

lemma BlockLength_end:
  assumes z: "si_window F z (length F)"
  shows "\<exists>s z'. ReadCompressedBlockLength rd z = (s, 0, z') \<and> IsOutOfRange s \<and> si_window F z' (length F) \<and> with_input z z'"
proof -
  have a: "si_avail_in z = 0" "0 < si_input_capacity z" "si_file_pos z = length F" using z by (auto simp: si_window_def)
  obtain s z' where z': "SI_ReadFromFile rd z = (s, z')" "si_window F z' (length F)" "with_input z z'" "IsOutOfRange s"
    using ReadFromFile_window [OF z] a by auto
  moreover have "s \<noteq> OK" using z'(4) by auto
  ultimately show ?thesis unfolding ReadCompressedBlockLength_def ReadCompressedBlockLength_loop.simps [of rd 4 0 z] using a(1) by simp
qed

end

section \<open>Reading\<close>

text \<open>The state at position \<open>p\<close> of the decompressed contents \<open>F\<close>; the blocks \<open>cs\<close> of the file \<open>C\<close>, for the data \<open>raws\<close>, are
  still to be read. Each fits into the buffers.\<close>

definition si_block :: "snappy \<Rightarrow> SnappyInputBuffer \<Rightarrow> bytes \<Rightarrow> bytes \<Rightarrow> bool" where
  "si_block sn z raw c \<longleftrightarrow> snappy_block sn (si_output_capacity z) raw c \<and> length raw < 2 ^ 32 \<and> length c \<le> si_input_capacity z"

definition si_inv :: "snappy \<Rightarrow> bytes \<Rightarrow> bytes \<Rightarrow> SnappyInputBuffer \<Rightarrow> bytes list \<Rightarrow> bytes list \<Rightarrow> nat \<Rightarrow> bool" where
  "si_inv sn C F z raws cs p \<longleftrightarrow>
     length (si_output z) = si_output_capacity z \<and> list_all2 (si_block sn z) raws cs \<and>
     (\<exists>c. si_window C z c \<and> drop c C = concat (map snappy_frame cs)) \<and> p + si_avail_out z \<le> length F \<and>
     take (si_avail_out z) (drop (si_next_out z) (si_output z)) = take (si_avail_out z) (drop p F) \<and>
     drop (p + si_avail_out z) F = concat raws"

definition si_at :: "snappy \<Rightarrow> bytes \<Rightarrow> bytes \<Rightarrow> SnappyInputBuffer \<Rightarrow> nat \<Rightarrow> bool" where
  "si_at sn C F z p \<longleftrightarrow> (\<exists>raws cs. si_inv sn C F z raws cs p)"

lemma si_atI: "si_inv sn C F z raws cs p \<Longrightarrow> si_at sn C F z p"
  unfolding si_at_def by blast

locale snappy_source = snappy_codec sn + random_access_file rd C for sn rd and C :: bytes
begin

lemma Inflate_block:
  assumes z: "si_window C z c" and C: "drop c C = snappy_frame blk @ rest" and b: "si_block sn z raw blk"
    and o: "length (si_output z) = si_output_capacity z" "si_avail_out z = 0"
  shows "\<exists>z'. SI_Inflate sn rd z = Some (OK, z') \<and> si_window C z' (c + 4 + length blk) \<and> si_avail_out z' = length raw \<and>
    si_input_capacity z' = si_input_capacity z \<and> si_output_capacity z' = si_output_capacity z \<and>
    length (si_output z') = si_output_capacity z \<and> take (length raw) (drop (si_next_out z') (si_output z')) = raw"
proof -
  let ?n = "length blk"
  have cap: "?n \<le> si_input_capacity z" "si_input_capacity z < 2 ^ 31" using b z by (simp_all add: si_block_def si_window_def)
  have len: "c + 4 + ?n \<le> length C" using arg_cong [OF C, of length] z by (auto simp: snappy_frame_def si_window_def)
  have d: "take 4 (drop c C) = compressed_length_array ?n" using C by (simp add: snappy_frame_def)
  have d2: "take ?n (drop (c + 4) C) = blk" using arg_cong [OF C, of "\<lambda>l. take ?n (drop 4 l)"] by (simp add: snappy_frame_def add.commute [of c])
  obtain z1 where z1: "ReadCompressedBlockLength rd z = (OK, word_of_nat ?n, z1)" "si_window C z1 (c + 4)" "with_input z z1"
    using BlockLength_loop_window [OF z, of 4 0] len length_roundtrip [of ?n] cap unfolding ReadCompressedBlockLength_def d by auto
  have n: "unat (word_of_nat ?n :: uint32) = ?n" using cap by (simp add: unsigned_of_nat take_bit_nat_eq_self)
  obtain s z2 where z2: "(if si_avail_in z1 < ?n then SI_ReadFromFile rd z1 else (OK, z1)) = (s, z2)" by fastforce
  have s2: "s = OK \<and> si_window C z2 (c + 4) \<and> with_input z z2 \<and> ?n \<le> si_avail_in z2"
  proof (cases "si_avail_in z1 < ?n")
    case True
    then have "si_avail_in z1 < si_input_capacity z1" "si_file_pos z1 \<noteq> length C"
      using cap z1(2) len with_input_keeps(1) [OF z1(3)] by (auto simp: si_window_def)
    then show ?thesis using ReadFromFile_window [OF z1(2)] z2 True cap(1) len with_input_trans [OF z1(3)] with_input_keeps(1) [OF z1(3)]
      by auto
  qed (use z2 z1 in auto)
  have r: "take ?n (drop (si_next_in z2) (si_input z2)) = blk" using read_window s2 d2 by metis
  have u: "Snappy_GetUncompressedLength sn blk = Some (length raw)" "Snappy_Uncompress sn blk (length raw) = Some raw"
    "length raw \<le> si_output_capacity z" using b uncompress [of raw blk] by (simp_all add: si_block_def snappy_block_def)
  note k = with_input_keeps [OF conjunct1 [OF conjunct2 [OF conjunct2 [OF s2]]]]
  let ?z = "z2\<lparr>si_next_out := 0, si_output := write_at (si_output z2) 0 raw, si_next_in := si_next_in z2 + ?n,
      si_avail_in := si_avail_in z2 - ?n, si_avail_out := length raw\<rparr>"
  have "SI_Inflate sn rd z = Some (OK, ?z)"
    using z2 s2 u k(2,5) o(2) unfolding SI_Inflate_def z1(1) Let_def case_prod_conv n by (auto simp: r split: if_splits)
  moreover have "si_window C ?z (c + 4 + ?n)" using consume_window [of C z2 "c + 4" ?n] s2 by (simp add: si_window_def)
  moreover have "length (write_at (si_output z2) 0 raw) = si_output_capacity z" "take (length raw) (write_at (si_output z2) 0 raw) = raw"
    using length_write_at [of 0 raw "si_output z2"] read_write_at [of 0 raw "si_output z2"] u(3) o(1) k(3) by simp_all
  ultimately show ?thesis using k by (intro exI [of _ ?z]) simp
qed

lemma Inflate_end:
  assumes z: "si_window C z (length C)"
  shows "\<exists>s z'. SI_Inflate sn rd z = Some (s, z') \<and> IsOutOfRange s \<and> si_window C z' (length C) \<and> with_input z z'"
proof -
  obtain s z' where "ReadCompressedBlockLength rd z = (s, 0, z')" "IsOutOfRange s" "si_window C z' (length C)" "with_input z z'"
    using BlockLength_end [OF z] by blast
  moreover from this have "s \<noteq> OK" by auto
  ultimately show ?thesis by (simp add: SI_Inflate_def)
qed

lemma cache_read:
  assumes z: "si_inv sn C F z raws cs p" and k: "k = min n (si_avail_out z)"
  shows "\<exists>z'. SI_ReadBytesFromCache n result z = (k, result @ take k (drop p F), z') \<and> si_inv sn C F z' raws cs (p + k) \<and>
    si_avail_out z' = si_avail_out z - k"
proof -
  let ?z = "z\<lparr>si_next_out := si_next_out z + k, si_avail_out := si_avail_out z - k\<rparr>"
  have ku: "k \<le> si_avail_out z" using k by simp
  have buf: "take (si_avail_out z) (drop (si_next_out z) (si_output z)) = take (si_avail_out z) (drop p F)" using z by (simp add: si_inv_def)
  have piece: "take k (drop (si_next_out z) (si_output z)) = take k (drop p F)"
    using arg_cong [OF buf, of "take k"] ku by (simp add: min_absorb1)
  have rest: "take (si_avail_out z - k) (drop (si_next_out z + k) (si_output z)) = take (si_avail_out z - k) (drop (p + k) F)"
    using arg_cong [OF buf, of "drop k"] by (simp add: drop_take add.commute)
  have "SI_ReadBytesFromCache n result z = (k, result @ take k (drop p F), ?z)"
    unfolding SI_ReadBytesFromCache_def Let_def k [symmetric] piece ..
  moreover have "si_inv sn C F ?z raws cs (p + k)"
  proof -
    have "si_block sn ?z = si_block sn z" "si_window C ?z = si_window C z" by (simp_all add: si_block_def si_window_def fun_eq_iff)
    moreover have "p + k + (si_avail_out z - k) = p + si_avail_out z" using ku by simp
    ultimately show ?thesis using z rest unfolding si_inv_def by simp
  qed
  ultimately show ?thesis by (intro exI [of _ ?z]) simp
qed

text \<open>Where the cache is empty and blocks are left, the next one comes into the cache.\<close>

lemma Inflate_next:
  assumes z: "si_inv sn C F z (raw # raws) (blk # cs) p" "si_avail_out z = 0"
  shows "\<exists>z'. SI_Inflate sn rd z = Some (OK, z') \<and> si_inv sn C F z' raws cs p"
proof -
  obtain c where c: "si_window C z c" "drop c C = snappy_frame blk @ concat (map snappy_frame cs)" and b: "si_block sn z raw blk"
    and o: "length (si_output z) = si_output_capacity z" and F: "drop p F = raw @ concat raws" "p \<le> length F"
    and l: "list_all2 (si_block sn z) raws cs" using z by (auto simp: si_inv_def)
  from Inflate_block [OF c b o z(2)] obtain z' where z': "SI_Inflate sn rd z = Some (OK, z')" "si_window C z' (c + 4 + length blk)"
    "si_avail_out z' = length raw" "si_input_capacity z' = si_input_capacity z" "si_output_capacity z' = si_output_capacity z"
    "length (si_output z') = si_output_capacity z" "take (length raw) (drop (si_next_out z') (si_output z')) = raw"
    by (elim exE conjE) (erule (6) that)
  have "si_block sn z' = si_block sn z" using z'(4,5) by (simp add: si_block_def fun_eq_iff)
  moreover have "drop (c + 4 + length blk) C = concat (map snappy_frame cs)"
    using arg_cong [OF c(2), of "drop (4 + length blk)"] by (simp add: snappy_frame_def add_ac)
  moreover have "p + length raw \<le> length F" using arg_cong [OF F(1), of length] F(2) by simp
  moreover have "drop (p + length raw) F = concat raws" using arg_cong [OF F(1), of "drop (length raw)"] by (simp add: add.commute)
  ultimately have "si_inv sn C F z' raws cs p" unfolding si_inv_def using z' F(1) l by auto
  then show ?thesis using z'(1) by simp
qed

text \<open>At the end of the file.\<close>

lemma loop_end:
  assumes z: "si_inv sn C F z [] [] (length F)" "si_avail_out z = 0" and n: "0 < n"
  shows "\<exists>s z'. SI_ReadNBytes_loop sn rd n result z = Some (s, result, z') \<and> IsOutOfRange s \<and> si_at sn C F z' (length F)"
proof -
  obtain c where c: "si_window C z c" "drop c C = []" using z(1) by (auto simp: si_inv_def)
  then have "c = length C" by (auto simp: si_window_def)
  with c(1) have "si_window C z (length C)" by simp
  from Inflate_end [OF this] obtain s z' where
    z': "SI_Inflate sn rd z = Some (s, z')" "IsOutOfRange s" "si_window C z' (length C)" "with_input z z'" by (elim exE conjE) (erule (3) that)
  have s: "s \<noteq> OK" using z'(2) by auto
  have "\<exists>c. si_window C z' c \<and> drop c C = concat (map snappy_frame [])" using z'(3) by (intro exI [of _ "length C"]) simp
  then have "si_inv sn C F z' [] [] (length F)" using z with_input_keeps [OF z'(4)] by (simp add: si_inv_def)
  note at = si_atI [OF this]
  have "SI_ReadNBytes_loop sn rd n result z = Some (s, result, z')"
    unfolding SI_ReadNBytes_loop.simps [of sn rd n result z] using z'(1) s n by simp
  then show ?thesis using at z'(2) by simp
qed

lemma loop_done:
  assumes "si_inv sn C F z raws cs p"
  shows "SI_ReadNBytes_loop sn rd 0 result z = Some (OK, result, z) \<and> si_at sn C F z p \<and> p \<le> length F"
proof -
  have "p \<le> length F" using assms by (simp add: si_inv_def)
  then show ?thesis using si_atI [OF assms] SI_ReadNBytes_loop.simps [of sn rd 0 result z] by simp
qed

lemma read_loop:
  "si_inv sn C F z raws cs p \<Longrightarrow> si_avail_out z = 0 \<or> n = 0 \<Longrightarrow>
     \<exists>s z'. SI_ReadNBytes_loop sn rd (int n) result z = Some (s, result @ take n (drop p F), z') \<and>
       (if p + n \<le> length F then s = OK \<and> si_at sn C F z' (p + n) else IsOutOfRange s \<and> si_at sn C F z' (length F))"
proof (induction cs arbitrary: z raws p n result)
  case Nil
  have raws: "raws = []" "p + si_avail_out z = length F" using Nil.prems(1) by (auto simp: si_inv_def)
  show ?case
  proof (cases "n = 0")
    case True
    then show ?thesis using loop_done [OF Nil.prems(1), of result] by simp
  next
    case False
    then have a: "si_avail_out z = 0" "p = length F" using Nil.prems(2) raws(2) by simp_all
    show ?thesis using loop_end [OF Nil.prems(1) [unfolded raws(1) a(2)] a(1), of "int n" result] False unfolding a(2) by simp
  qed
next
  case (Cons blk cs)
  note loop = SI_ReadNBytes_loop.simps [of sn rd "int n" result z]
  show ?case
  proof (cases "n = 0")
    case True
    then show ?thesis using loop_done [OF Cons.prems(1), of result] by simp
  next
    case False
    then have a: "si_avail_out z = 0" using Cons.prems(2) by simp
    have "list_all2 (si_block sn z) raws (blk # cs)" using Cons.prems(1) by (simp add: si_inv_def)
    then obtain raw raws' where raws: "raws = raw # raws'" unfolding list_all2_Cons2 by (elim exE conjE) (erule that)
    obtain z1 where z1: "SI_Inflate sn rd z = Some (OK, z1)" "si_inv sn C F z1 raws' cs p"
      using Inflate_next [OF Cons.prems(1) [unfolded raws] a] by (elim exE conjE) (erule (1) that)
    define m where "m = min n (si_avail_out z1)"
    obtain z2 where z2: "SI_ReadBytesFromCache n result z1 = (m, result @ take m (drop p F), z2)" "si_inv sn C F z2 raws' cs (p + m)"
      "si_avail_out z2 = si_avail_out z1 - m" using cache_read [OF z1(2) m_def, of result] by (elim exE conjE) (erule (2) that)
    have m: "m \<le> n" "si_avail_out z2 = 0 \<or> n - m = 0" using z2(3) by (auto simp: m_def)
    have d: "int n - int m = int (n - m)" using m(1) by simp
    have e: "SI_ReadNBytes_loop sn rd (int n) result z = SI_ReadNBytes_loop sn rd (int (n - m)) (result @ take m (drop p F)) z2"
    proof -
      have "0 < int n" using False by simp
      then show ?thesis unfolding loop z1(1) option.case case_prod_conv nat_int z2(1) Let_def d
        by (simp only: if_True simp_thms if_False)
    qed
    have t: "take n (drop p F) = take m (drop p F) @ take (n - m) (drop (p + m) F)"
      using take_add [of m "n - m" "drop p F"] m(1) by (simp add: add.commute)
    have q: "p + m + (n - m) = p + n" using m(1) by simp
    show ?thesis unfolding e t by (rule Cons.IH [OF z2(2) m(2), of "result @ take m (drop p F)", unfolded q append_assoc])
  qed
qed

lemma SI_ReadNBytes_correct:
  assumes "si_at sn C F z p" "n < 2 ^ 63"
  shows "\<exists>s z'. SI_ReadNBytes sn rd (int n) z = Some (s, take n (drop p F), z') \<and>
    (if p + n \<le> length F then s = OK \<and> si_at sn C F z' (p + n) else IsOutOfRange s \<and> si_at sn C F z' (length F))"
proof -
  obtain raws cs where z: "si_inv sn C F z raws cs p" using assms(1) unfolding si_at_def by blast
  define m where "m = min n (si_avail_out z)"
  obtain z1 where z1: "SI_ReadBytesFromCache n [] z = (m, [] @ take m (drop p F), z1)" "si_inv sn C F z1 raws cs (p + m)"
    "si_avail_out z1 = si_avail_out z - m" using cache_read [OF z m_def] by blast
  have n: "nat (int n mod 2 ^ 64) = n" using assms(2) by simp
  have "SI_ReadNBytes sn rd (int n) z = SI_ReadNBytes_loop sn rd (int (n - m)) (take m (drop p F)) z1"
    unfolding SI_ReadNBytes_def n z1(1) by (simp add: m_def of_nat_diff)
  moreover have "si_avail_out z1 = 0 \<or> n - m = 0" using z1(3) unfolding m_def by linarith
  moreover have "take n (drop p F) = take m (drop p F) @ take (n - m) (drop (p + m) F)"
    using take_add [of m "n - m" "drop p F"] by (simp add: m_def add.commute)
  moreover have "p + m + (n - m) = p + n" by (simp add: m_def)
  ultimately show ?thesis using read_loop [OF z1(2), of "n - m" "take m (drop p F)"] by (simp only: simp_thms)
qed

lemma si_run_of_file:
  "si_at sn C F z p \<Longrightarrow> list_all (\<lambda>n. n < 2 ^ 63) ns \<Longrightarrow> si_run sn rd ns z = Some (file_run F p ns)"
proof (induction ns arbitrary: z p)
  case (Cons n ns)
  then have n: "n < 2 ^ 63" by simp
  obtain s z' where s: "SI_ReadNBytes sn rd (int n) z = Some (s, take n (drop p F), z')"
    "if p + n \<le> length F then s = OK \<and> si_at sn C F z' (p + n) else IsOutOfRange s \<and> si_at sn C F z' (length F)"
    using SI_ReadNBytes_correct [OF Cons.prems(1) n] by (elim exE conjE) (erule (1) that)
  show ?case
  proof (cases "p + n \<le> length F")
    case True
    then show ?thesis using s Cons.IH [of z' "p + n"] Cons.prems(2) by simp
  next
    case False
    then show ?thesis using s Cons.IH [of z' "length F"] Cons.prems(2) by (simp add: code_of_OutOfRange)
  qed
qed simp

text \<open>\<^verbatim>\<open>Reset\<close> goes back to the start; a new buffer is there as well.\<close>

lemma Reset_at:
  assumes "0 < si_input_capacity z" "si_input_capacity z < 2 ^ 31" "length (si_input z) = si_input_capacity z"
    "length (si_output z) = si_output_capacity z" "length C < 2 ^ 63"
    and "C = concat (map snappy_frame cs)" "F = concat raws" "list_all2 (si_block sn z) raws cs"
  shows "\<exists>z'. SI_Reset z = (OK, z') \<and> si_at sn C F z' 0"
proof -
  let ?z = "z\<lparr>si_file_pos := 0, si_avail_in := 0, si_avail_out := 0, si_next_in := 0\<rparr>"
  have "si_window C ?z 0" using assms(1-3,5) by (simp add: si_window_def)
  moreover have "si_block sn ?z = si_block sn z" by (simp add: si_block_def fun_eq_iff)
  ultimately have "si_inv sn C F ?z raws cs 0" unfolding si_inv_def using assms(4,6-8) by (intro conjI exI [of _ 0]) simp_all
  then show ?thesis by (simp add: SI_Reset_def si_atI)
qed

lemma SI_new_at:
  assumes "snappy_blocks sn K F C" "0 < i" "i < 2 ^ 31" "K \<le> j" "length C < 2 ^ 63" "K < 2 ^ 32"
    and size: "\<And>raw c. Snappy_Compress sn raw = Some c \<Longrightarrow> length raw \<le> K \<Longrightarrow> length c \<le> i"
  shows "si_at sn C F (SnappyInputBuffer_new i j) 0"
proof -
  let ?z = "SnappyInputBuffer_new i j"
  obtain raws cs where c: "F = concat raws" "C = concat (map snappy_frame cs)" "list_all2 (snappy_block sn K) raws cs"
    using assms(1) unfolding snappy_blocks_def by (elim exE conjE) (erule (2) that)
  have cap: "si_input_capacity ?z = i" "si_output_capacity ?z = j" "length (si_input ?z) = i" "length (si_output ?z) = j"
    by (simp_all add: SnappyInputBuffer_new_def)
  have "si_block sn ?z raw c" if "snappy_block sn K raw c" for raw c
    using that size [of raw c] assms(4,6) unfolding si_block_def snappy_block_def cap by simp
  then have "list_all2 (si_block sn ?z) raws cs" using c(3) by (rule list_all2_mono [rotated])
  from Reset_at [of ?z, unfolded cap, OF assms(2,3) refl refl assms(5) c(2,1) this]
  show ?thesis by (simp add: SI_Reset_def SnappyInputBuffer_new_def)
qed

text \<open>The buffer is a stream that can be read; it cannot tell its position.\<close>

lemma si_readable:
  assumes small: "length F < 2 ^ 63"
  shows "readable_stream F (SI_ops sn rd) (si_at sn C F)"
proof
  fix z p n and r :: bytes
  assume at: "si_at sn C F z p"
  then show "p \<le> length F" by (auto simp: si_at_def si_inv_def)
  show "\<exists>z'. ReadNBytes (SI_ops sn rd) (int n) r z = (OK, take n (drop p F), z') \<and> si_at sn C F z' (p + n)" if "p + n \<le> length F"
  proof -
    have "n < 2 ^ 63" using that small by linarith
    from SI_ReadNBytes_correct [OF at this] that show ?thesis by (auto simp: SI_ops_def)
  qed
  show "\<exists>m z'. ReadNBytes (SI_ops sn rd) (int n) r z = (Error OUT_OF_RANGE m, drop p F, z') \<and> si_at sn C F z' (length F)"
    if past: "length F < p + n" "n < 2 ^ 63"
  proof -
    obtain s z' where s: "SI_ReadNBytes sn rd (int n) z = Some (s, drop p F, z')" "IsOutOfRange s" "si_at sn C F z' (length F)"
      using SI_ReadNBytes_correct [OF at past(2)] past(1) by auto
    then show ?thesis by (cases s rule: IsOutOfRange.cases) (auto simp: SI_ops_def)
  qed
qed

end

section \<open>Properties\<close>

text \<open>The size of the output of Snappy is bounded, as \<^verbatim>\<open>snappy::MaxCompressedLength\<close> says.\<close>

locale bounded_snappy = snappy_codec sn for sn +
  assumes compressed_size: "Snappy_Compress sn raw = Some c \<Longrightarrow> length c \<le> 32 + length raw + length raw div 6"
begin

lemma block_fits:
  assumes "Snappy_Compress sn raw = Some c" "length raw \<le> K" "32 + K + K div 6 \<le> i"
  shows "length c \<le> i"
  using compressed_size [OF assms(1)] div_le_mono [OF assms(2), of 6] assms(2,3) by linarith

end

text \<open>A Snappy that copies.\<close>

definition copy_snappy :: snappy where
  "copy_snappy = \<lparr>Snappy_Compress = Some, Snappy_GetUncompressedLength = (\<lambda>c. Some (length c)),
     Snappy_Uncompress = (\<lambda>c n. if n = length c then Some c else None)\<rparr>"

interpretation copy_blocks: bounded_snappy copy_snappy
  by unfold_locales (simp_all add: copy_snappy_def)

interpretation copy_blocks_sink: snappy_sink copy_snappy memory_ops "\<lambda>f. f"
  by unfold_locales

text \<open>C39. What is written through a \<^verbatim>\<open>SnappyOutputBuffer\<close> to a new file is read back through a \<^verbatim>\<open>SnappyInputBuffer\<close>: every
  sequence of writes and flushes returns and fails only if the file or the compressor does; after the last flush, every
  sequence of reads returns the consecutive pieces of the data written and signals their end exactly when a read goes
  beyond it. The sizes of the buffers of the writer are arbitrary; those of the reader have to be large enough for a block,
  which is the input buffer of the writer or a single larger piece of data.\<close>

theorem snappy_roundtrip:
  assumes "snappy_sink sn fo contents" "bounded_snappy sn" "contents f = []"
    and "i < 2 ^ 31" "0 < j" "i \<le> K" "list_all (\<lambda>x. length (so_data x) \<le> K) xs"
    and "32 + K + K div 6 \<le> i'" "i' < 2 ^ 31" "K \<le> j'" "list_all (\<lambda>n. n < 2 ^ 63) ns"
  shows "\<exists>s z. so_run sn fo xs (SnappyOutputBuffer_new f i j) = Some (s, z) \<and>
    (if s = OK then length (contents (so_file z)) < 2 ^ 63 \<longrightarrow> random_access_file rd (contents (so_file z)) \<longrightarrow>
       si_run sn rd ns (SnappyInputBuffer_new i' j') = Some (file_run (concat (map so_data xs)) 0 ns)
     else so_error sn fo s)"
proof -
  obtain s z where z: "so_run sn fo xs (SnappyOutputBuffer_new f i j) = Some (s, z)"
    "if s = OK then \<exists>E. contents (so_file z) = contents f @ E \<and> snappy_blocks sn K ([] @ concat (map so_data xs)) E else so_error sn fo s"
    using snappy_sink.so_run_spec [OF assms(1) snappy_sink.SnappyOutputBuffer_new_inv [OF assms(1,4,6,5), of f] assms(7)]
    by (elim exE conjE) (erule (1) that)
  have "si_run sn rd ns (SnappyInputBuffer_new i' j') = Some (file_run (concat (map so_data xs)) 0 ns)"
    if "s = OK" "length (contents (so_file z)) < 2 ^ 63" "random_access_file rd (contents (so_file z))"
  proof -
    have b: "snappy_blocks sn K (concat (map so_data xs)) (contents (so_file z))" using z(2) that(1) assms(3) by auto
    have src: "snappy_source sn rd (contents (so_file z))" using that(3) assms(1) by (simp add: snappy_source_def snappy_sink_def)
    have K: "K < 2 ^ 32" using assms(8,9) by simp
    have "0 < i'" using assms(8) by simp
    from snappy_source.SI_new_at [OF src b this assms(9,10) that(2) K bounded_snappy.block_fits [OF assms(2) _ _ assms(8)]]
    show ?thesis by (rule snappy_source.si_run_of_file [OF src _ assms(11)])
  qed
  then show ?thesis using z by (intro exI [of _ s] exI [of _ z]) auto
qed

theorem snappy_roundtrip_witness:
  "\<exists>z. so_run copy_snappy memory_ops [WriteOp [1, 2], WriteOp [3], SnappyFlushOp, WriteOp [4, 5, 6]] (SnappyOutputBuffer_new [] 2 5) = Some (OK, z) \<and>
     so_file z = [0, 0, 0, 2, 1, 2, 0, 0, 0, 1, 3, 0, 0, 0, 3, 4, 5, 6] \<and>
     si_run copy_snappy (memory_read (so_file z)) [4, 4] (SnappyInputBuffer_new 36 4) = Some [(None, [1, 2, 3, 4]), (Some OUT_OF_RANGE, [5, 6])]"
proof -
  let ?xs = "[WriteOp [1, 2], WriteOp [3], SnappyFlushOp, WriteOp [4, 5, 6]]"
  let ?run = "so_run copy_snappy memory_ops ?xs (SnappyOutputBuffer_new [] 2 5)"
  have "map_option (\<lambda>(s, z). (s, so_file z)) ?run = Some (OK, [0, 0, 0, 2, 1, 2, 0, 0, 0, 1, 3, 0, 0, 0, 3, 4, 5, 6])"
    by (simp add: SO_Write_def SO_Flush_def SO_fits_def SO_AvailableInputSpace_def SO_AddToInputBuffer_def add_to_buffer_def
      SnappyOutputBuffer_new_def write_at_def SO_DeflateBuffered_def SO_Deflate_def so_pending_def copy_snappy_def compressed_length_array_def
      SO_FlushOutputBufferToFile_def memory_ops_def AddToOutputBuffer_Cons)
  then obtain z where z: "?run = Some (OK, z)" "so_file z = [0, 0, 0, 2, 1, 2, 0, 0, 0, 1, 3, 0, 0, 0, 3, 4, 5, 6]" by (auto simp del: so_run.simps)
  have "si_run copy_snappy (memory_read (so_file z)) [4, 4] (SnappyInputBuffer_new 36 4) = Some (file_run [1, 2, 3, 4, 5, 6] 0 [4, 4])"
    using snappy_roundtrip [OF copy_blocks_sink.snappy_sink_axioms copy_blocks.bounded_snappy_axioms, of "[]" 2 5 4 ?xs 36 4 "[4, 4]" "memory_read (so_file z)"]
      memory_file.random_access_file_axioms [of "so_file z"] z by (simp del: so_run.simps si_run.simps file_run.simps)
  also have "file_run [1, 2, 3, 4, 5, 6] 0 [4, 4] = [(None, [1, 2, 3, 4]), (Some OUT_OF_RANGE, [5, 6 :: byte])]" by simp
  finally show ?thesis using z by (intro exI [of _ z] conjI)
qed

text \<open>C40. A file that was cut inside a block is taken for a complete one: once the buffer holds the rest of the file, the
  incomplete block is reported as \<^verbatim>\<open>OUT_OF_RANGE\<close>, the code of the end of the file, although the code has an error for
  this case, \<^verbatim>\<open>DATA_LOSS\<close> with "Possible data corruption". It is only reached if the last read found some more bytes.\<close>

theorem truncated_block_is_end:
  assumes "random_access_file rd C" "si_window C z c" "si_file_pos z = length C"
    and "drop c C = compressed_length_array n @ part" "length part < n" "n < 2 ^ 32"
  shows "\<exists>m z'. SI_Inflate sn rd z = Some (Error OUT_OF_RANGE m, z')"
proof -
  have len: "c + 4 + length part = length C" using arg_cong [OF assms(4), of length] assms(2) by (auto simp: si_window_def)
  have a: "si_avail_in z = 4 + length part" using assms(2,3) len by (simp add: si_window_def)
  have d: "take 4 (drop c C) = compressed_length_array n" unfolding assms(4) by simp
  let ?z = "z\<lparr>si_next_in := si_next_in z + 4, si_avail_in := si_avail_in z - 4\<rparr>"
  have n: "unat (word_of_nat n :: uint32) = n" using assms(6) by (simp add: unsigned_of_nat take_bit_nat_eq_self)
  have e: "ReadCompressedBlockLength rd z = (OK, word_of_nat n, ?z)"
    using BlockLength_buffered [OF assms(2), of rd, unfolded d length_roundtrip [OF assms(6)]] a by simp
  have w: "si_window C ?z (c + 4)" using consume_window [OF assms(2), of 4] a by simp
  have room: "si_avail_in ?z < si_input_capacity ?z" using assms(2) a by (auto simp: si_window_def)
  obtain s z' where s: "SI_ReadFromFile rd ?z = (s, z')" "IsOutOfRange s"
    using random_access_file.ReadFromFile_window [OF assms(1) w room] assms(3) by auto
  then obtain m where m: "s = Error OUT_OF_RANGE m" by (cases s rule: IsOutOfRange.cases) auto
  have "si_avail_in ?z < n" using a assms(5) by simp
  then show ?thesis unfolding SI_Inflate_def e Let_def case_prod_conv n s(1) m by simp
qed

theorem truncated_block_is_end_witness:
  "\<exists>m z'. SI_Inflate copy_snappy (memory_read [0, 0, 0, 2, 7])
     (SnappyInputBuffer_new 8 8\<lparr>si_input := [0, 0, 0, 2, 7, 0, 0, 0], si_avail_in := 5, si_file_pos := 5\<rparr>) = Some (Error OUT_OF_RANGE m, z')"
  by (rule truncated_block_is_end [OF memory_file.random_access_file_axioms [of "[0, 0, 0, 2, 7]"], of _ 0 2 "[7]"])
    (simp_all add: si_window_def SnappyInputBuffer_new_def compressed_length_array_def)

end
