(* ===== verification/Input_Buffer.thy ===== *)
theory Input_Buffer
  imports Input_Stream Byte_Buffer
begin

text \<open>
  \<^verbatim>\<open>core/lib/io/inputbuffer.cc\<close> and \<^verbatim>\<open>inputbuffer.h\<close>: the buffer on top of a random access file that reads bytes, lines
  and varints, skips and seeks. The buffer is a byte array with \<^verbatim>\<open>pos_\<close> and \<^verbatim>\<open>limit_\<close> as offsets; the file is a
  parameter. The bytes that the overload of \<^verbatim>\<open>ReadNBytes\<close> for a \<^verbatim>\<open>char*\<close> copies are part of its result, and
  \<^verbatim>\<open>*bytes_read\<close> is their number.
\<close>

section \<open>The buffer\<close>

record InputBuffer =
  ib_file_pos :: int
  ib_size :: nat
  ib_buf :: bytes
  ib_pos :: nat
  ib_limit :: nat

definition InputBuffer_new :: "nat \<Rightarrow> InputBuffer" where
  "InputBuffer_new buffer_bytes =
     \<lparr>ib_file_pos = 0, ib_size = buffer_bytes, ib_buf = replicate buffer_bytes 0, ib_pos = 0, ib_limit = 0\<rparr>"

definition IB_FillBuffer :: "file_reader \<Rightarrow> InputBuffer \<Rightarrow> status \<times> InputBuffer" where
  "IB_FillBuffer rd b =
     (let (s, data) = rd (word_of_int (ib_file_pos b)) (ib_size b)
      in (s, b\<lparr>ib_buf := write_at (ib_buf b) 0 data, ib_pos := 0, ib_limit := length data,
               ib_file_pos := ib_file_pos b + int (length data)\<rparr>))"


abbreviation ib_rest :: "InputBuffer \<Rightarrow> bytes" where
  "ib_rest b \<equiv> take (ib_limit b - ib_pos b) (drop (ib_pos b) (ib_buf b))"

text \<open>The loops of \<^verbatim>\<open>ReadNBytes\<close> and \<^verbatim>\<open>SkipNBytes\<close>. Each round takes at least one byte: the guard on
  \<open>bytes_to_copy\<close> makes the functions total on states with \<^verbatim>\<open>limit_ < pos_\<close>, which never occur.\<close>

definition next_piece :: "file_reader \<Rightarrow> status \<Rightarrow> InputBuffer \<Rightarrow> status \<times> InputBuffer" where
  "next_piece rd s b = (if ib_pos b = ib_limit b then IB_FillBuffer rd b else (s, b))"

function IB_ReadNBytes_loop :: "file_reader \<Rightarrow> nat \<Rightarrow> bytes \<Rightarrow> nat \<Rightarrow> status \<Rightarrow> InputBuffer \<Rightarrow> status \<times> bytes \<times> InputBuffer" where
  "IB_ReadNBytes_loop rd bytes_to_read result bytes_read s b =
     (if bytes_read < bytes_to_read then
        let (s, b) = next_piece rd s b
        in if ib_limit b = 0 then (s, result, b)
           else
             let bytes_to_copy = min (ib_limit b - ib_pos b) (bytes_to_read - bytes_read)
             in if bytes_to_copy = 0 then (s, result, b)
                else IB_ReadNBytes_loop rd bytes_to_read (result @ take bytes_to_copy (drop (ib_pos b) (ib_buf b)))
                       (bytes_read + bytes_to_copy) s (b\<lparr>ib_pos := ib_pos b + bytes_to_copy\<rparr>)
      else (s, result, b))"
  by pat_completeness auto
termination
  by (relation "measure (\<lambda>(_, n, _, m, _). n - m)") auto

definition IB_ReadNBytes_ptr :: "file_reader \<Rightarrow> int \<Rightarrow> InputBuffer \<Rightarrow> status \<times> bytes \<times> InputBuffer" where
  "IB_ReadNBytes_ptr rd bytes_to_read b =
     (if bytes_to_read < 0 then (Error INVALID_ARGUMENT ''Can't read a negative number of bytes: '', [], b)
      else
        let (s, result, b) = IB_ReadNBytes_loop rd (nat bytes_to_read) [] 0 OK b
        in (if IsOutOfRange s \<and> length result = nat bytes_to_read then OK else s, result, b))"


function IB_SkipNBytes_loop :: "file_reader \<Rightarrow> int \<Rightarrow> int \<Rightarrow> status \<Rightarrow> InputBuffer \<Rightarrow> status \<times> int \<times> InputBuffer" where
  "IB_SkipNBytes_loop rd bytes_to_skip bytes_skipped s b =
     (if bytes_skipped < bytes_to_skip then
        let (s, b) = next_piece rd s b
        in if ib_limit b = 0 then (s, bytes_skipped, b)
           else
             let bytes_to_advance = min (int (ib_limit b - ib_pos b)) (bytes_to_skip - bytes_skipped)
             in if bytes_to_advance = 0 then (s, bytes_skipped, b)
                else IB_SkipNBytes_loop rd bytes_to_skip (bytes_skipped + bytes_to_advance) s
                       (b\<lparr>ib_pos := ib_pos b + nat bytes_to_advance\<rparr>)
      else (s, bytes_skipped, b))"
  by pat_completeness auto
termination
  by (relation "measure (\<lambda>(_, n, m, _). nat (n - m))") auto






text \<open>Varints: the template \<^verbatim>\<open>ReadVarintFallback\<close>, with the number of bytes that may follow.\<close>

fun ReadVarintFallback :: "file_reader \<Rightarrow> nat \<Rightarrow> nat \<Rightarrow> 'a::len word \<Rightarrow> InputBuffer \<Rightarrow> status \<times> 'a word \<times> InputBuffer" where
  "ReadVarintFallback rd 0 shift result b = (Error DATA_LOSS ''Stored data longer than bytes.'', result, b)"
| "ReadVarintFallback rd (Suc k) shift result b =
     (let (s, d, b) = IB_ReadNBytes_ptr rd 1 b
      in if s \<noteq> OK then (s, result, b)
         else
           let scratch = hd d; result = result OR push_bit shift (ucast scratch AND 127)
           in if scratch AND 128 = 0 then (OK, result, b) else ReadVarintFallback rd k (shift + 7) result b)"

fun IsDataLoss :: "status \<Rightarrow> bool" where
  "IsDataLoss (Error DATA_LOSS _) = True"
| "IsDataLoss _ = False"

definition ReadVarint32Fallback :: "file_reader \<Rightarrow> InputBuffer \<Rightarrow> status \<times> uint32 \<times> InputBuffer" where
  "ReadVarint32Fallback rd b =
     (let (s, v, b) = ReadVarintFallback rd 5 0 0 b
      in (if IsDataLoss s then Error DATA_LOSS ''Stored data is too large to be a varint32.'' else s, v, b))"


definition ReadVarint32 :: "file_reader \<Rightarrow> uint32 \<Rightarrow> InputBuffer \<Rightarrow> status \<times> uint32 \<times> InputBuffer" where
  "ReadVarint32 rd result b =
     (if ib_pos b + 5 \<le> ib_limit b then
        (case GetVarint32Ptr (ib_rest b) of
           None \<Rightarrow> (Error OUT_OF_RANGE ''Parsed past limit.'', result, b)
         | Some (v, offset) \<Rightarrow> (OK, v, b\<lparr>ib_pos := ib_limit b - length offset\<rparr>))
      else ReadVarint32Fallback rd b)"


declare IB_ReadNBytes_loop.simps [simp del] IB_SkipNBytes_loop.simps [simp del]

section \<open>Calls and what they answer\<close>










section \<open>The buffer at a position\<close>

definition ib_at :: "bytes \<Rightarrow> InputBuffer \<Rightarrow> nat \<Rightarrow> bool" where
  "ib_at F b p \<longleftrightarrow>
     0 < ib_size b \<and> length (ib_buf b) = ib_size b \<and> ib_pos b \<le> ib_limit b \<and> ib_limit b \<le> ib_size b \<and> ib_pos b \<le> p \<and>
     ib_file_pos b = int (p + (ib_limit b - ib_pos b)) \<and> p < 2 ^ 63 \<and> length F < 2 ^ 63 \<and>
     take (ib_limit b) (ib_buf b) = take (ib_limit b) (drop (p - ib_pos b) F) \<and> (ib_limit b = 0 \<or> p - ib_pos b + ib_limit b \<le> length F)"



text \<open>The unread bytes are those of the file, and reading some of them moves the position.\<close>

lemma ib_rest:
  assumes "ib_at F b p"
  shows "ib_rest b = take (ib_limit b - ib_pos b) (drop p F)"
proof -
  have "drop (ib_pos b) (take (ib_limit b) (ib_buf b)) = drop (ib_pos b) (take (ib_limit b) (drop (p - ib_pos b) F))" "ib_pos b \<le> p"
    using assms by (simp_all add: ib_at_def)
  then show ?thesis by (simp add: drop_take)
qed








section \<open>Varints\<close>








section \<open>Properties\<close>



text \<open>A varint that is too long is reported with another code on each path: as \<^verbatim>\<open>DATA_LOSS\<close> if fewer bytes than the longest
  varint are buffered, and as \<^verbatim>\<open>OUT_OF_RANGE\<close>, the code of the end of the file, otherwise.\<close>

lemma long_varint_codes:
  "code_of (fst (ReadVarint32 (memory_read (replicate 6 255)) 0 (InputBuffer_new 6))) = Some DATA_LOSS \<and>
   code_of (fst (ReadVarint32 (memory_read (replicate 6 255)) 0 (snd (IB_FillBuffer (memory_read (replicate 6 255)) (InputBuffer_new 6))))) =
     Some OUT_OF_RANGE"
  by code_simp

end
