(* ===== verification/Scanner.thy ===== *)
theory Scanner
  imports TF_Prelude
begin

text \<open>
  \<^verbatim>\<open>core/lib/strings/scanner.h\<close> and \<^verbatim>\<open>scanner.cc\<close>: the string scanner. A scanner keeps the string it was made from
  and the offsets of its pointers into it; its calls are functions on that state, and a failed call sets the flag that
  \<^verbatim>\<open>GetResult\<close> looks at. A \<^verbatim>\<open>StringPiece\<close> that points into another string is a pair of its offset and its characters.
\<close>

section \<open>Character classes\<close>

datatype CharClass =
    ALL_CLASS | DIGIT | LETTER | LETTER_DIGIT | LETTER_DIGIT_DASH_UNDERSCORE | LETTER_DIGIT_DASH_DOT_SLASH
  | LETTER_DIGIT_DASH_DOT_SLASH_UNDERSCORE | LETTER_DIGIT_DOT | LETTER_DIGIT_DOT_PLUS_MINUS
  | LETTER_DIGIT_DOT_UNDERSCORE | LETTER_DIGIT_UNDERSCORE | LOWERLETTER | LOWERLETTER_DIGIT
  | LOWERLETTER_DIGIT_UNDERSCORE | NON_ZERO_DIGIT | SPACE | UPPERLETTER

definition char_between :: "char \<Rightarrow> char \<Rightarrow> char \<Rightarrow> bool" where
  "char_between a b ch \<longleftrightarrow> (of_char a :: nat) \<le> of_char ch \<and> (of_char ch :: nat) \<le> of_char b"

definition IsLetter :: "char \<Rightarrow> bool" where
  "IsLetter ch \<longleftrightarrow> char_between CHR ''a'' CHR ''z'' ch \<or> char_between CHR ''A'' CHR ''Z'' ch"

definition IsLowerLetter :: "char \<Rightarrow> bool" where
  "IsLowerLetter ch \<longleftrightarrow> char_between CHR ''a'' CHR ''z'' ch"

definition IsDigit :: "char \<Rightarrow> bool" where
  "IsDigit ch \<longleftrightarrow> char_between CHR ''0'' CHR ''9'' ch"

definition IsSpace :: "char \<Rightarrow> bool" where
  "IsSpace ch \<longleftrightarrow> ch = CHR '' '' \<or> ch = CHR 0x09 \<or> ch = CHR 0x0A \<or> ch = CHR 0x0B \<or> ch = CHR 0x0C \<or> ch = CHR 0x0D"

fun Matches :: "CharClass \<Rightarrow> char \<Rightarrow> bool" where
  "Matches ALL_CLASS ch \<longleftrightarrow> True"
| "Matches DIGIT ch \<longleftrightarrow> IsDigit ch"
| "Matches LETTER ch \<longleftrightarrow> IsLetter ch"
| "Matches LETTER_DIGIT ch \<longleftrightarrow> IsLetter ch \<or> IsDigit ch"
| "Matches LETTER_DIGIT_DASH_UNDERSCORE ch \<longleftrightarrow> IsLetter ch \<or> IsDigit ch \<or> ch = CHR ''-'' \<or> ch = CHR ''_''"
| "Matches LETTER_DIGIT_DASH_DOT_SLASH ch \<longleftrightarrow>
     IsLetter ch \<or> IsDigit ch \<or> ch = CHR ''-'' \<or> ch = CHR ''.'' \<or> ch = CHR ''/''"
| "Matches LETTER_DIGIT_DASH_DOT_SLASH_UNDERSCORE ch \<longleftrightarrow>
     IsLetter ch \<or> IsDigit ch \<or> ch = CHR ''-'' \<or> ch = CHR ''.'' \<or> ch = CHR ''/'' \<or> ch = CHR ''_''"
| "Matches LETTER_DIGIT_DOT ch \<longleftrightarrow> IsLetter ch \<or> IsDigit ch \<or> ch = CHR ''.''"
| "Matches LETTER_DIGIT_DOT_PLUS_MINUS ch \<longleftrightarrow>
     IsLetter ch \<or> IsDigit ch \<or> ch = CHR ''+'' \<or> ch = CHR ''-'' \<or> ch = CHR ''.''"
| "Matches LETTER_DIGIT_DOT_UNDERSCORE ch \<longleftrightarrow> IsLetter ch \<or> IsDigit ch \<or> ch = CHR ''.'' \<or> ch = CHR ''_''"
| "Matches LETTER_DIGIT_UNDERSCORE ch \<longleftrightarrow> IsLetter ch \<or> IsDigit ch \<or> ch = CHR ''_''"
| "Matches LOWERLETTER ch \<longleftrightarrow> char_between CHR ''a'' CHR ''z'' ch"
| "Matches LOWERLETTER_DIGIT ch \<longleftrightarrow> IsLowerLetter ch \<or> IsDigit ch"
| "Matches LOWERLETTER_DIGIT_UNDERSCORE ch \<longleftrightarrow> IsLowerLetter ch \<or> IsDigit ch \<or> ch = CHR ''_''"
| "Matches NON_ZERO_DIGIT ch \<longleftrightarrow> IsDigit ch \<and> ch \<noteq> CHR ''0''"
| "Matches SPACE ch \<longleftrightarrow> IsSpace ch"
| "Matches UPPERLETTER ch \<longleftrightarrow> char_between CHR ''A'' CHR ''Z'' ch"

section \<open>The scanner\<close>

record Scanner =
  sc_source :: string
  sc_pos :: nat
  sc_capture_start :: nat
  sc_capture_end :: "nat option"
  sc_error :: bool

abbreviation sc_cur :: "Scanner \<Rightarrow> string" where "sc_cur s \<equiv> drop (sc_pos s) (sc_source s)"

definition remove_prefix :: "nat \<Rightarrow> Scanner \<Rightarrow> Scanner" where
  "remove_prefix n s = s\<lparr>sc_pos := sc_pos s + n\<rparr>"

definition sc_Error :: "Scanner \<Rightarrow> Scanner" where
  "sc_Error s = s\<lparr>sc_error := True\<rparr>"

definition RestartCapture :: "Scanner \<Rightarrow> Scanner" where
  "RestartCapture s = s\<lparr>sc_capture_start := sc_pos s, sc_capture_end := None\<rparr>"

definition StopCapture :: "Scanner \<Rightarrow> Scanner" where
  "StopCapture s = s\<lparr>sc_capture_end := Some (sc_pos s)\<rparr>"

definition Scanner_new :: "string \<Rightarrow> Scanner" where
  "Scanner_new source =
     RestartCapture \<lparr>sc_source = source, sc_pos = 0, sc_capture_start = 0, sc_capture_end = None, sc_error = False\<rparr>"

definition One :: "CharClass \<Rightarrow> Scanner \<Rightarrow> Scanner" where
  "One clz s = (if sc_cur s = [] \<or> \<not> Matches clz (hd (sc_cur s)) then sc_Error s else remove_prefix 1 s)"

definition ConsumePrefix :: "string \<Rightarrow> Scanner \<Rightarrow> bool \<times> Scanner" where
  "ConsumePrefix expected s = (if prefix expected (sc_cur s) then (True, remove_prefix (length expected) s) else (False, s))"

definition ZeroOrOneLiteral :: "string \<Rightarrow> Scanner \<Rightarrow> Scanner" where
  "ZeroOrOneLiteral l s = snd (ConsumePrefix l s)"

definition OneLiteral :: "string \<Rightarrow> Scanner \<Rightarrow> Scanner" where
  "OneLiteral l s = (let (ok, s) = ConsumePrefix l s in if \<not> ok then s\<lparr>sc_error := True\<rparr> else s)"

function Any :: "CharClass \<Rightarrow> Scanner \<Rightarrow> Scanner" where
  "Any clz s = (if sc_cur s \<noteq> [] \<and> Matches clz (hd (sc_cur s)) then Any clz (remove_prefix 1 s) else s)"
  by pat_completeness auto
termination
  by (relation "measure (\<lambda>(_, s). length (sc_cur s))") (auto simp: remove_prefix_def)

definition Many :: "CharClass \<Rightarrow> Scanner \<Rightarrow> Scanner" where
  "Many clz s = Any clz (One clz s)"

definition Eos :: "Scanner \<Rightarrow> Scanner" where
  "Eos s = (if sc_cur s \<noteq> [] then s\<lparr>sc_error := True\<rparr> else s)"

definition AnySpace :: "Scanner \<Rightarrow> Scanner" where
  "AnySpace s = Any SPACE s"

function ScanUntilImpl :: "char \<Rightarrow> bool \<Rightarrow> Scanner \<Rightarrow> Scanner" where
  "ScanUntilImpl end_ch escaped s =
     (if sc_cur s = [] then sc_Error s
      else
        let ch = hd (sc_cur s) in
        if ch = end_ch then s
        else
          let s' = remove_prefix 1 s in
          if escaped \<and> ch = CHR 0x5C then
            if sc_cur s' = [] then sc_Error s' else ScanUntilImpl end_ch escaped (remove_prefix 1 s')
          else ScanUntilImpl end_ch escaped s')"
  by pat_completeness auto
termination
  by (relation "measure (\<lambda>(_, _, s). length (sc_cur s))") (auto simp: remove_prefix_def)

definition ScanUntil :: "char \<Rightarrow> Scanner \<Rightarrow> Scanner" where
  "ScanUntil end_ch s = ScanUntilImpl end_ch False s"

definition ScanEscapedUntil :: "char \<Rightarrow> Scanner \<Rightarrow> Scanner" where
  "ScanEscapedUntil end_ch s = ScanUntilImpl end_ch True s"

definition Peek :: "char \<Rightarrow> Scanner \<Rightarrow> char" where
  "Peek default_value s = (if sc_cur s = [] then default_value else hd (sc_cur s))"

definition sc_empty :: "Scanner \<Rightarrow> bool" where
  "sc_empty s \<longleftrightarrow> sc_cur s = []"

text \<open>The result, if there is one: the remaining piece and the captured piece.\<close>

type_synonym piece = "nat \<times> string"

definition GetResult :: "Scanner \<Rightarrow> (piece \<times> piece) option" where
  "GetResult s =
     (if sc_error s then None
      else
        let e = (case sc_capture_end s of None \<Rightarrow> sc_pos s | Some e \<Rightarrow> e)
        in Some ((sc_pos s, sc_cur s),
                 (sc_capture_start s, take (e - sc_capture_start s) (drop (sc_capture_start s) (sc_source s)))))"

declare Any.simps [simp del] ScanUntilImpl.simps [simp del]

section \<open>What the calls consume\<close>

lemma Any_consumes:
  "Any clz s = s\<lparr>sc_pos := sc_pos s + length (takeWhile (Matches clz) (sc_cur s))\<rparr>"
proof (induction clz s rule: Any.induct)
  case (1 clz s)
  show ?case
  proof (cases "sc_cur s")
    case Nil
    then show ?thesis by (subst Any.simps) simp
  next
    case (Cons c cs)
    have d: "drop (Suc (sc_pos s)) (sc_source s) = cs" using Cons by (metis drop_Suc list.sel(3) tl_drop)
    show ?thesis
    proof (cases "Matches clz c")
      case True
      then show ?thesis using 1 Cons d by (subst Any.simps) (simp add: remove_prefix_def)
    next
      case False
      then show ?thesis using Cons by (subst Any.simps) simp
    qed
  qed
qed

lemma ScanUntil_consumes:
  "ScanUntil e s = (let n = length (takeWhile (\<lambda>c. c \<noteq> e) (sc_cur s)) in
     s\<lparr>sc_pos := sc_pos s + n, sc_error := (if e \<in> set (sc_cur s) then sc_error s else True)\<rparr>)"
proof -
  have "ScanUntilImpl e esc s = (let n = length (takeWhile (\<lambda>c. c \<noteq> e) (sc_cur s)) in
     s\<lparr>sc_pos := sc_pos s + n, sc_error := (if e \<in> set (sc_cur s) then sc_error s else True)\<rparr>)" if "\<not> esc" for esc
    using that
  proof (induction e esc s rule: ScanUntilImpl.induct)
    case (1 e esc s)
    show ?case
    proof (cases "sc_cur s")
      case Nil
      then show ?thesis by (subst ScanUntilImpl.simps) (simp add: sc_Error_def)
    next
      case (Cons c cs)
      have d: "drop (Suc (sc_pos s)) (sc_source s) = cs" using Cons by (metis drop_Suc list.sel(3) tl_drop)
      show ?thesis
      proof (cases "c = e")
        case True
        then show ?thesis using Cons by (subst ScanUntilImpl.simps) (simp add: Let_def)
      next
        case False
        then have "ScanUntilImpl e esc s = ScanUntilImpl e esc (remove_prefix 1 s)" using Cons 1(3) by (subst ScanUntilImpl.simps) (simp add: Let_def)
        then show ?thesis using 1(2) [OF _ refl _ refl] 1(3) Cons d False by (simp add: remove_prefix_def Let_def)
      qed
    qed
  qed
  from this [of False] show ?thesis by (simp only: ScanUntil_def simp_thms)
qed

section \<open>Chains of calls\<close>

datatype scan_call = CallOne CharClass | CallZeroOrOneLiteral string | CallOneLiteral string | CallAny CharClass | CallMany CharClass
  | CallRestartCapture | CallStopCapture | CallEos | CallAnySpace | CallScanUntil char | CallScanEscapedUntil char

fun scan_step :: "scan_call \<Rightarrow> Scanner \<Rightarrow> Scanner" where
  "scan_step (CallOne clz) s = One clz s"
| "scan_step (CallZeroOrOneLiteral l) s = ZeroOrOneLiteral l s"
| "scan_step (CallOneLiteral l) s = OneLiteral l s"
| "scan_step (CallAny clz) s = Any clz s"
| "scan_step (CallMany clz) s = Many clz s"
| "scan_step CallRestartCapture s = RestartCapture s"
| "scan_step CallStopCapture s = StopCapture s"
| "scan_step CallEos s = Eos s"
| "scan_step CallAnySpace s = AnySpace s"
| "scan_step (CallScanUntil c) s = ScanUntil c s"
| "scan_step (CallScanEscapedUntil c) s = ScanEscapedUntil c s"

text \<open>The pointers of a scanner stay inside its source, in order.\<close>

definition sc_wf :: "string \<Rightarrow> Scanner \<Rightarrow> bool" where
  "sc_wf source s \<longleftrightarrow> sc_source s = source \<and> sc_pos s \<le> length source \<and> sc_capture_start s \<le> sc_pos s \<and>
     (case sc_capture_end s of None \<Rightarrow> True | Some e \<Rightarrow> sc_capture_start s \<le> e \<and> e \<le> sc_pos s)"

lemma wf_error: "sc_wf source s \<Longrightarrow> sc_wf source (s\<lparr>sc_error := e\<rparr>)"
  by (simp add: sc_wf_def split: option.splits)

lemma wf_remove_prefix: "sc_wf source s \<Longrightarrow> n \<le> length (sc_cur s) \<Longrightarrow> sc_wf source (remove_prefix n s)"
  by (auto simp: sc_wf_def remove_prefix_def split: option.splits)

lemma wf_Any: "sc_wf source s \<Longrightarrow> sc_wf source (Any clz s)"
  using wf_remove_prefix [of source s, OF _ length_takeWhile_le] unfolding Any_consumes remove_prefix_def .

lemma wf_One: "sc_wf source s \<Longrightarrow> sc_wf source (One clz s)"
  using wf_remove_prefix [of source s 1] by (cases "sc_cur s") (auto simp: One_def sc_Error_def wf_error)

lemma wf_ConsumePrefix: "sc_wf source s \<Longrightarrow> sc_wf source (snd (ConsumePrefix l s))"
  using wf_remove_prefix [of source s "length l"] by (auto simp: ConsumePrefix_def dest: prefix_length_le)

lemma wf_ScanUntilImpl: "sc_wf source s \<Longrightarrow> sc_wf source (ScanUntilImpl c esc s)"
proof (induction c esc s rule: ScanUntilImpl.induct)
  case (1 c esc s)
  have wf1: "sc_cur s \<noteq> [] \<Longrightarrow> sc_wf source (remove_prefix 1 s)"
    by (rule wf_remove_prefix [OF 1(3)]) (metis One_nat_def Suc_leI length_greater_0_conv)
  have wf2: "sc_cur s \<noteq> [] \<Longrightarrow> sc_cur (remove_prefix 1 s) \<noteq> [] \<Longrightarrow> sc_wf source (remove_prefix 1 (remove_prefix 1 s))"
    by (rule wf_remove_prefix [OF wf1]) (assumption, metis One_nat_def Suc_leI length_greater_0_conv)
  show ?case
    using 1 wf1 wf2 by (subst ScanUntilImpl.simps) (simp add: Let_def sc_Error_def wf_error)
qed

lemma wf_step: "sc_wf source s \<Longrightarrow> sc_wf source (scan_step c s)"
proof (cases c)
  case (CallOneLiteral l)
  then show "sc_wf source s \<Longrightarrow> ?thesis" using wf_ConsumePrefix [of source s l] by (auto simp: OneLiteral_def wf_error split: prod.split)
qed (auto simp: ZeroOrOneLiteral_def Many_def AnySpace_def ScanUntil_def ScanEscapedUntil_def Eos_def wf_error
    intro: wf_Any wf_One wf_ConsumePrefix wf_ScanUntilImpl, auto simp: RestartCapture_def StopCapture_def sc_wf_def)

lemma wf_steps: "sc_wf source s \<Longrightarrow> sc_wf source (fold scan_step cs s)"
  by (induction cs arbitrary: s) (simp_all add: wf_step)

section \<open>The pieces of a chain\<close>

text \<open>Independently of the scanner, a call takes the piece \<open>x\<close> of a rest \<open>x @ y\<close>; the text before an unescaped end
  character consists of single characters and escape sequences.\<close>

definition escaped_text :: "char \<Rightarrow> string \<Rightarrow> bool" where
  "escaped_text c x \<longleftrightarrow> (\<exists>us. x = concat us \<and>
     (\<forall>u \<in> set us. (\<exists>d. u = [d] \<and> d \<noteq> c \<and> d \<noteq> CHR 0x5C) \<or> c \<noteq> CHR 0x5C \<and> (\<exists>d. u = [CHR 0x5C, d])))"

fun takes :: "scan_call \<Rightarrow> string \<Rightarrow> string \<Rightarrow> bool" where
  "takes (CallOne clz) x y \<longleftrightarrow> (\<exists>ch. x = [ch] \<and> Matches clz ch)"
| "takes (CallZeroOrOneLiteral l) x y \<longleftrightarrow> x = l \<or> x = [] \<and> \<not> prefix l y"
| "takes (CallOneLiteral l) x y \<longleftrightarrow> x = l"
| "takes (CallAny clz) x y \<longleftrightarrow> list_all (Matches clz) x \<and> (y = [] \<or> \<not> Matches clz (hd y))"
| "takes (CallMany clz) x y \<longleftrightarrow> x \<noteq> [] \<and> list_all (Matches clz) x \<and> (y = [] \<or> \<not> Matches clz (hd y))"
| "takes CallRestartCapture x y \<longleftrightarrow> x = []"
| "takes CallStopCapture x y \<longleftrightarrow> x = []"
| "takes CallEos x y \<longleftrightarrow> x = [] \<and> y = []"
| "takes CallAnySpace x y \<longleftrightarrow> list_all IsSpace x \<and> (y = [] \<or> \<not> IsSpace (hd y))"
| "takes (CallScanUntil c) x y \<longleftrightarrow> c \<notin> set x \<and> y \<noteq> [] \<and> hd y = c"
| "takes (CallScanEscapedUntil c) x y \<longleftrightarrow> escaped_text c x \<and> y \<noteq> [] \<and> hd y = c"

text \<open>A chain takes one piece per call and leaves the rest. The capture starts behind the last \<^verbatim>\<open>RestartCapture\<close> and ends
  at the last \<^verbatim>\<open>StopCapture\<close> after it, if there is one.\<close>

fun takes_all :: "scan_call list \<Rightarrow> string list \<Rightarrow> string \<Rightarrow> bool" where
  "takes_all [] [] rest \<longleftrightarrow> True"
| "takes_all (c # cs) (x # xs) rest \<longleftrightarrow> takes c x (concat xs @ rest) \<and> takes_all cs xs rest"
| "takes_all _ _ rest \<longleftrightarrow> False"

definition until_last :: "('a \<Rightarrow> bool) \<Rightarrow> 'a list \<Rightarrow> 'a list" where
  "until_last P zs = rev (dropWhile (\<lambda>z. \<not> P z) (rev zs))"

definition since_last :: "('a \<Rightarrow> bool) \<Rightarrow> 'a list \<Rightarrow> 'a list" where
  "since_last P zs = rev (takeWhile (\<lambda>z. \<not> P z) (rev zs))"

definition capture_start_of :: "(scan_call \<times> string) list \<Rightarrow> nat" where
  "capture_start_of zs = length (concat (map snd (until_last (\<lambda>(c, _). c = CallRestartCapture) zs)))"

definition capture_of :: "(scan_call \<times> string) list \<Rightarrow> string" where
  "capture_of zs =
     (let zs = since_last (\<lambda>(c, _). c = CallRestartCapture) zs
      in concat (map snd (if CallStopCapture \<in> fst ` set zs then until_last (\<lambda>(c, _). c = CallStopCapture) zs else zs)))"

text \<open>What a call that takes a piece does to the scanner.\<close>

definition cap_step :: "scan_call \<Rightarrow> Scanner \<Rightarrow> Scanner" where
  "cap_step c s = (if c = CallRestartCapture then RestartCapture s else if c = CallStopCapture then StopCapture s else s)"

definition take_step :: "scan_call \<times> string \<Rightarrow> Scanner \<Rightarrow> Scanner" where
  "take_step z s = cap_step (fst z) (s\<lparr>sc_pos := sc_pos s + length (snd z)\<rparr>)"

lemma takeWhile_taken: "list_all P x \<Longrightarrow> y = [] \<or> \<not> P (hd y) \<Longrightarrow> takeWhile P (x @ y) = x"
  by (induction x) (cases y; auto)+

lemma takeWhile_takes: "\<exists>x y. xs = x @ y \<and> list_all P x \<and> (y = [] \<or> \<not> P (hd y))"
  using takeWhile_dropWhile_id [of P xs] hd_dropWhile [of P xs] by (metis list_all_iff set_takeWhileD)

lemma cur_remove_prefix: "sc_cur (remove_prefix n s) = drop n (sc_cur s)"
  by (simp add: remove_prefix_def add.commute)

lemma ScanUntilImpl_steps:
  "sc_cur s = [] \<Longrightarrow> ScanUntilImpl c esc s = sc_Error s"
  "sc_cur s = c # ds \<Longrightarrow> ScanUntilImpl c esc s = s"
  "sc_cur s = d # ds \<Longrightarrow> d \<noteq> c \<Longrightarrow> \<not> (esc \<and> d = CHR 0x5C) \<Longrightarrow> ScanUntilImpl c esc s = ScanUntilImpl c esc (remove_prefix 1 s)"
  "sc_cur s = [CHR 0x5C] \<Longrightarrow> c \<noteq> CHR 0x5C \<Longrightarrow> ScanUntilImpl c True s = sc_Error (remove_prefix 1 s)"
  "sc_cur s = CHR 0x5C # d # ds \<Longrightarrow> c \<noteq> CHR 0x5C \<Longrightarrow> ScanUntilImpl c True s = ScanUntilImpl c True (remove_prefix 1 (remove_prefix 1 s))"
  subgoal by (subst ScanUntilImpl.simps) simp
  subgoal by (subst ScanUntilImpl.simps) (simp add: Let_def)
  subgoal by (subst ScanUntilImpl.simps, simp only: Let_def list.sel if_False if_not_P refl simp_thms list.distinct)
  subgoal by (subst ScanUntilImpl.simps, simp only: Let_def cur_remove_prefix list.sel drop0 One_nat_def drop_Suc_Cons simp_thms list.distinct if_True if_False eq_commute)
  subgoal by (subst ScanUntilImpl.simps, simp only: Let_def cur_remove_prefix list.sel drop0 One_nat_def drop_Suc_Cons simp_thms list.distinct if_True if_False eq_commute)
  done

definition escape_unit :: "char \<Rightarrow> string \<Rightarrow> bool" where
  "escape_unit c u \<longleftrightarrow> (\<exists>d. u = [d] \<and> d \<noteq> c \<and> d \<noteq> CHR 0x5C) \<or> c \<noteq> CHR 0x5C \<and> (\<exists>d. u = [CHR 0x5C, d])"

lemma escaped_text_iff: "escaped_text c x \<longleftrightarrow> (\<exists>us. x = concat us \<and> list_all (escape_unit c) us)"
  by (simp add: escaped_text_def escape_unit_def list_all_iff)

lemma escaped_text_append: "escape_unit c u \<Longrightarrow> escaped_text c x \<Longrightarrow> escaped_text c (u @ x)"
  unfolding escaped_text_iff by (elim exE, rule_tac x = "u # us" in exI) simp

lemma escaped_text_Nil: "escaped_text c []"
  unfolding escaped_text_iff by (rule exI [of _ "[]"]) simp

lemma escaped_ends:
  assumes "\<not> sc_error (ScanUntilImpl c True s)"
  shows "\<exists>x y. sc_cur s = x @ y \<and> escaped_text c x \<and> y \<noteq> [] \<and> hd y = c"
  using assms
proof (induction "length (sc_cur s)" arbitrary: s rule: less_induct)
  case less
  consider "sc_cur s = []" | ds where "sc_cur s = c # ds" | "sc_cur s = [CHR 0x5C]" "c \<noteq> CHR 0x5C"
    | d ds where "sc_cur s = CHR 0x5C # d # ds" "c \<noteq> CHR 0x5C" | d ds where "sc_cur s = d # ds" "d \<noteq> c" "d \<noteq> CHR 0x5C"
    by (metis neq_Nil_conv)
  then show ?case
  proof cases
    case 1
    then show ?thesis using less.prems by (simp only: ScanUntilImpl_steps(1)) (simp add: sc_Error_def)
  next
    case (2 ds)
    then show ?thesis using escaped_text_Nil by (metis append_Nil list.distinct(1) list.sel(1))
  next
    case 3
    then show ?thesis using less.prems ScanUntilImpl_steps(4) [OF 3] by (simp add: sc_Error_def)
  next
    case (4 d ds)
    let ?s = "remove_prefix 1 (remove_prefix 1 s)"
    have e: "sc_cur ?s = ds" using 4(1) by (simp only: cur_remove_prefix) simp
    have "\<not> sc_error (ScanUntilImpl c True ?s)" using less.prems ScanUntilImpl_steps(5) [OF 4] by metis
    then obtain x y where "ds = x @ y" "escaped_text c x" "y \<noteq> []" "hd y = c"
      using less.hyps [of ?s] unfolding e 4(1) by auto
    moreover from this have "escaped_text c ([CHR 0x5C, d] @ x)" using 4(2) by (intro escaped_text_append) (simp_all add: escape_unit_def)
    ultimately show ?thesis using 4(1) by (metis append_Cons append_Nil)
  next
    case (5 d ds)
    let ?s = "remove_prefix 1 s"
    have e: "sc_cur ?s = ds" using 5(1) by (simp only: cur_remove_prefix) simp
    have "\<not> sc_error (ScanUntilImpl c True ?s)" using less.prems ScanUntilImpl_steps(3) [OF 5(1,2)] 5(3) by metis
    then obtain x y where "ds = x @ y" "escaped_text c x" "y \<noteq> []" "hd y = c"
      using less.hyps [of ?s] unfolding e 5(1) by auto
    moreover from this have "escaped_text c ([d] @ x)" using 5(2,3) by (intro escaped_text_append) (simp_all add: escape_unit_def)
    ultimately show ?thesis using 5(1) by (metis append_Cons append_Nil)
  qed
qed

lemma escaped_taken:
  assumes "list_all (escape_unit c) us" "sc_cur s = concat us @ c # y"
  shows "ScanUntilImpl c True s = s\<lparr>sc_pos := sc_pos s + length (concat us)\<rparr>"
  using assms
proof (induction us arbitrary: s)
  case Nil
  then show ?case using ScanUntilImpl_steps(2) by simp
next
  case (Cons u us)
  have adv: "sc_cur (remove_prefix (length u) s) = concat us @ c # y" using Cons.prems(2) by (simp only: cur_remove_prefix) simp
  have "escape_unit c u" using Cons.prems(1) by simp
  then consider d where "u = [d]" "d \<noteq> c" "d \<noteq> CHR 0x5C" | d where "u = [CHR 0x5C, d]" "c \<noteq> CHR 0x5C" by (auto simp: escape_unit_def)
  then have "ScanUntilImpl c True s = ScanUntilImpl c True (remove_prefix (length u) s)"
  proof cases
    case (1 d)
    then show ?thesis using ScanUntilImpl_steps(3) [of s d "concat us @ c # y" c True] Cons.prems(2) by simp
  next
    case (2 d)
    then show ?thesis using ScanUntilImpl_steps(5) [of s d "concat us @ c # y" c] Cons.prems(2) by (simp add: remove_prefix_def)
  qed
  then show ?case using Cons.IH [OF _ adv] Cons.prems(1) by (simp add: remove_prefix_def add.assoc)
qed

section \<open>Calls and pieces\<close>

lemma takes_step:
  assumes "takes c x y" "sc_cur s = x @ y"
  shows "scan_step c s = take_step (c, x) s"
  using assms
proof (cases c)
  case (CallAny clz)
  then show ?thesis using assms takeWhile_taken [of "Matches clz" x y] by (simp add: Any_consumes take_step_def cap_step_def)
next
  case CallAnySpace
  then show ?thesis using assms takeWhile_taken [of "Matches SPACE" x y] by (simp add: list_all_iff AnySpace_def Any_consumes take_step_def cap_step_def)
next
  case (CallMany clz)
  then obtain d x' where x: "x = d # x'" "Matches clz d" "list_all (Matches clz) x'" "y = [] \<or> \<not> Matches clz (hd y)"
    using assms(1) by (cases x) auto
  have "drop (Suc (sc_pos s)) (sc_source s) = x' @ y" using assms(2) x(1) by (metis append_Cons drop_Suc list.sel(3) tl_drop)
  then show ?thesis using assms x CallMany takeWhile_taken [of "Matches clz" x' y]
    by (simp add: Many_def One_def Any_consumes remove_prefix_def take_step_def cap_step_def del: drop_eq_Nil drop_eq_Nil2)
next
  case (CallScanUntil e)
  then have "takeWhile (\<lambda>d. d \<noteq> e) (x @ y) = x" using assms(1) by (intro takeWhile_taken) (auto simp: list_all_iff)
  moreover have "e \<in> set (x @ y)" using assms(1) CallScanUntil by (cases y) auto
  ultimately show ?thesis using assms(2) CallScanUntil by (simp add: ScanUntil_consumes Let_def take_step_def cap_step_def)
next
  case (CallScanEscapedUntil e)
  then obtain us y' where "x = concat us" "list_all (escape_unit e) us" "y = e # y'" using assms(1) by (cases y) (auto simp: escaped_text_iff)
  then show ?thesis using escaped_taken [of e us s y'] assms(2) CallScanEscapedUntil by (simp add: ScanEscapedUntil_def take_step_def cap_step_def)
next
  case (CallZeroOrOneLiteral l)
  then show ?thesis using assms by (auto simp: ZeroOrOneLiteral_def ConsumePrefix_def remove_prefix_def take_step_def cap_step_def)
qed (auto simp: One_def OneLiteral_def ConsumePrefix_def remove_prefix_def RestartCapture_def StopCapture_def Eos_def take_step_def
    cap_step_def simp del: drop_eq_Nil drop_eq_Nil2)

lemma step_takes:
  assumes "\<not> sc_error (scan_step c s)"
  shows "\<exists>x y. takes c x y \<and> sc_cur s = x @ y"
proof (cases c)
  case (CallOne clz)
  then show ?thesis using assms by (cases "sc_cur s") (auto simp: One_def sc_Error_def split: if_splits)
next
  case (CallZeroOrOneLiteral l)
  then show ?thesis by (cases "prefix l (sc_cur s)") (simp_all, metis prefixE, metis append_Nil)
next
  case (CallOneLiteral l)
  then show ?thesis using assms by (auto simp: OneLiteral_def ConsumePrefix_def elim: prefixE split: if_splits)
next
  case (CallAny clz)
  then show ?thesis using takeWhile_takes [of "sc_cur s" "Matches clz"] by auto
next
  case CallAnySpace
  then show ?thesis using takeWhile_takes [of "sc_cur s" IsSpace] by auto
next
  case (CallMany clz)
  then obtain d ds where d: "sc_cur s = d # ds" "Matches clz d" using assms
    by (cases "sc_cur s") (auto simp: Many_def One_def sc_Error_def Any_consumes split: if_splits)
  obtain x y where "ds = x @ y" "list_all (Matches clz) x" "y = [] \<or> \<not> Matches clz (hd y)" using takeWhile_takes by metis
  then show ?thesis using d CallMany by (intro exI [of _ "d # x"] exI [of _ y]) auto
next
  case CallEos
  then show ?thesis using assms by (auto simp: Eos_def split: if_splits)
next
  case (CallScanUntil e)
  then have "e \<in> set (sc_cur s)" using assms by (auto simp: ScanUntil_consumes Let_def split: if_splits)
  then obtain x y where "sc_cur s = x @ e # y" "e \<notin> set x" by (metis split_list_first)
  then show ?thesis using CallScanUntil by (intro exI [of _ x] exI [of _ "e # y"]) simp
next
  case (CallScanEscapedUntil e)
  then show ?thesis using escaped_ends [of e s] assms by (auto simp: ScanEscapedUntil_def)
qed auto

lemma error_stays: "sc_error s \<Longrightarrow> sc_error (scan_step c s)"
proof (cases c)
  case (CallScanEscapedUntil e)
  have "sc_error s \<Longrightarrow> sc_error (ScanUntilImpl e esc s)" for esc
    by (induction e esc s rule: ScanUntilImpl.induct) (subst ScanUntilImpl.simps, simp add: Let_def sc_Error_def remove_prefix_def)
  then show "sc_error s \<Longrightarrow> ?thesis" using CallScanEscapedUntil by (simp add: ScanEscapedUntil_def)
qed (auto simp: One_def OneLiteral_def ZeroOrOneLiteral_def ConsumePrefix_def remove_prefix_def RestartCapture_def StopCapture_def Eos_def
    sc_Error_def Any_consumes Many_def AnySpace_def ScanUntil_consumes Let_def)

lemma take_step_simps [simp]:
  "sc_source (take_step z s) = sc_source s" "sc_pos (take_step z s) = sc_pos s + length (snd z)" "sc_error (take_step z s) = sc_error s"
  by (simp_all add: take_step_def cap_step_def RestartCapture_def StopCapture_def)

lemma takes_all_steps:
  "takes_all cs xs rest \<Longrightarrow> sc_cur s = concat xs @ rest \<Longrightarrow> fold scan_step cs s = fold take_step (zip cs xs) s"
proof (induction cs xs rest arbitrary: s rule: takes_all.induct)
  case (2 c cs x xs rest)
  have "sc_cur (take_step (c, x) s) = concat xs @ rest" using 2(3) by (simp add: add.commute [of _ "length x"] flip: drop_drop)
  then show ?case using 2 takes_step [of c x "concat xs @ rest" s] by simp
qed auto

lemma steps_take_all:
  "\<not> sc_error (fold scan_step cs s) \<Longrightarrow> \<exists>xs rest. takes_all cs xs rest \<and> sc_cur s = concat xs @ rest"
proof (induction cs arbitrary: s)
  case Nil
  then show ?case by (intro exI [of _ "[]"] exI [of _ "sc_cur s"]) simp
next
  case (Cons c cs)
  have "sc_error t \<Longrightarrow> sc_error (fold scan_step cs t)" for t by (induction cs arbitrary: t) (simp_all add: error_stays)
  then have "\<not> sc_error (scan_step c s)" using Cons.prems by auto
  then obtain x y where x: "takes c x y" "sc_cur s = x @ y" using step_takes by blast
  then have y: "scan_step c s = take_step (c, x) s" "sc_cur (take_step (c, x) s) = y"
    using takes_step [OF x] by (simp_all add: add.commute [of _ "length x"] flip: drop_drop)
  then obtain xs rest where "takes_all cs xs rest" "y = concat xs @ rest" using Cons.IH [of "take_step (c, x) s"] Cons.prems by auto
  then show ?case using x by (intro exI [of _ "x # xs"] exI [of _ rest]) simp
qed

lemma last_snoc_parts:
  "until_last P (zs @ [z]) = (if P z then zs @ [z] else until_last P zs)"
  "since_last P (zs @ [z]) = (if P z then [] else since_last P zs @ [z])"
  "until_last P zs @ since_last P zs = zs"
proof -
  show "until_last P (zs @ [z]) = (if P z then zs @ [z] else until_last P zs)" by (simp add: until_last_def)
  show "since_last P (zs @ [z]) = (if P z then [] else since_last P zs @ [z])" by (simp add: since_last_def)
  show "until_last P zs @ since_last P zs = zs" by (simp add: until_last_def since_last_def flip: rev_append)
qed

abbreviation is_restart :: "scan_call \<times> string \<Rightarrow> bool" where "is_restart \<equiv> \<lambda>(c, _). c = CallRestartCapture"
abbreviation is_stop :: "scan_call \<times> string \<Rightarrow> bool" where "is_stop \<equiv> \<lambda>(c, _). c = CallStopCapture"

lemma take_steps_capture:
  "let s = fold take_step zs (Scanner_new source); r = since_last is_restart zs in
     sc_pos s = length (concat (map snd zs)) \<and> sc_capture_start s = capture_start_of zs \<and>
     sc_capture_end s =
       (if CallStopCapture \<in> fst ` set r then Some (capture_start_of zs + length (concat (map snd (until_last is_stop r)))) else None)"
proof (induction zs rule: rev_induct)
  case Nil
  show ?case by (simp add: since_last_def until_last_def capture_start_of_def Scanner_new_def RestartCapture_def)
next
  case (snoc z zs)
  have "length (concat (map snd zs)) = capture_start_of zs + length (concat (map snd (since_last is_restart zs)))"
    unfolding capture_start_of_def using last_snoc_parts(3) [of is_restart zs] by (metis concat_append length_append map_append)
  then show ?case using snoc
    by (cases z) (auto simp: Let_def take_step_def cap_step_def RestartCapture_def StopCapture_def last_snoc_parts(1,2) capture_start_of_def)
qed

lemma takes_all_length: "takes_all cs xs rest \<Longrightarrow> length cs = length xs"
  by (induction cs xs rest rule: takes_all.induct) auto

lemma GetResult_taken:
  assumes "takes_all cs xs rest" "source = concat xs @ rest"
  shows "GetResult (fold scan_step cs (Scanner_new source)) =
    Some ((length (concat xs), rest), (capture_start_of (zip cs xs), capture_of (zip cs xs)))"
proof -
  let ?zs = "zip cs xs"
  let ?s = "fold take_step ?zs (Scanner_new source)" and ?r = "since_last is_restart ?zs"
  have steps: "fold scan_step cs (Scanner_new source) = ?s"
    by (rule takes_all_steps [OF assms(1)]) (simp add: assms(2) Scanner_new_def RestartCapture_def)
  have zs: "map snd ?zs = xs" using takes_all_length [OF assms(1)] by simp
  have inv: "sc_source (fold take_step zs t) = sc_source t" "sc_error (fold take_step zs t) = sc_error t" for zs t
    by (induction zs arbitrary: t) simp_all
  have src: "sc_source ?s = source" "\<not> sc_error ?s" by (simp_all add: inv Scanner_new_def RestartCapture_def)
  note cap = take_steps_capture [of ?zs source, unfolded Let_def zs]
  have "drop (capture_start_of ?zs) source = concat (map snd ?r) @ rest"
  proof -
    have "concat xs = concat (map snd (until_last is_restart ?zs)) @ concat (map snd ?r)"
      using last_snoc_parts(3) [of is_restart ?zs] zs by (metis concat_append map_append)
    then show ?thesis by (simp add: assms(2) capture_start_of_def)
  qed
  moreover have "concat (map snd ?r) = concat (map snd (until_last is_stop ?r)) @ concat (map snd (since_last is_stop ?r))"
    using last_snoc_parts(3) [of is_stop ?r] by (metis concat_append map_append)
  moreover have "length (concat xs) - capture_start_of ?zs = length (concat (map snd ?r))"
    using last_snoc_parts(3) [of is_restart ?zs] zs unfolding capture_start_of_def
    by (metis concat_append diff_add_inverse length_append map_append)
  ultimately show ?thesis
    using cap src unfolding steps by (auto simp: GetResult_def capture_of_def Let_def assms(2))
qed

section \<open>Properties\<close>

text \<open>C38. What a chain of calls on a new \<^verbatim>\<open>Scanner\<close> means: \<^verbatim>\<open>GetResult\<close> succeeds exactly if the source splits into one
  piece for each call, as the call describes it, and a rest; it returns this rest and the pieces between the last
  \<^verbatim>\<open>RestartCapture\<close> and the last \<^verbatim>\<open>StopCapture\<close> after it, with their positions in the source. Whatever failed on the
  way, the pointers stay in order inside the source.\<close>

theorem scanner_matches:
  "let s = fold scan_step cs (Scanner_new source) in
     sc_wf source s \<and>
     (case GetResult s of None \<Rightarrow> \<not> (\<exists>xs rest. takes_all cs xs rest \<and> source = concat xs @ rest)
      | Some ((p, remaining), (q, capture)) \<Rightarrow>
          \<exists>xs. takes_all cs xs remaining \<and> source = concat xs @ remaining \<and> p = length (concat xs) \<and>
            q = capture_start_of (zip cs xs) \<and> capture = capture_of (zip cs xs))"
proof -
  let ?s = "fold scan_step cs (Scanner_new source)"
  have wf: "sc_wf source ?s" by (rule wf_steps) (simp add: sc_wf_def Scanner_new_def RestartCapture_def)
  show ?thesis
  proof (cases "sc_error ?s")
    case True
    then have "GetResult ?s = None" by (simp add: GetResult_def)
    moreover from this have "\<not> (\<exists>xs rest. takes_all cs xs rest \<and> source = concat xs @ rest)" using GetResult_taken by fastforce
    ultimately show ?thesis using wf by (simp add: Let_def)
  next
    case False
    then obtain xs rest where "takes_all cs xs rest" "source = concat xs @ rest"
      using steps_take_all [OF False] by (auto simp: Scanner_new_def RestartCapture_def)
    then show ?thesis using GetResult_taken wf by (auto simp: Let_def)
  qed
qed

end
