(* ===== verification/Path.thy ===== *)
theory Path
  imports Scanner
begin

text \<open>
  \<^verbatim>\<open>core/lib/io/path.cc\<close>: file names and URIs. \<^verbatim>\<open>CleanPath\<close> works in place, and so does its model: one buffer is read at
  \<open>src\<close> and written at \<open>dst\<close>. The pieces that \<^verbatim>\<open>ParseURI\<close> returns carry their offsets, which
  \<^verbatim>\<open>SplitPath\<close> computes with. \<^verbatim>\<open>GetTempFilename\<close>, which creates a file, is not modelled.
\<close>

section \<open>Joining and splitting\<close>

definition IsAbsolutePath :: "string \<Rightarrow> bool" where
  "IsAbsolutePath path \<longleftrightarrow> path \<noteq> [] \<and> path ! 0 = CHR ''/''"

fun JoinPath_loop :: "string \<Rightarrow> string list \<Rightarrow> string" where
  "JoinPath_loop result [] = result"
| "JoinPath_loop result (path # paths) =
     JoinPath_loop
       (if path = [] then result
        else if result = [] then path
        else if last result = CHR ''/'' then
          (if IsAbsolutePath path then result @ drop 1 path else result @ path)
        else if IsAbsolutePath path then result @ path
        else result @ ''/'' @ path) paths"

definition JoinPathImpl :: "string list \<Rightarrow> string" where
  "JoinPathImpl paths = JoinPath_loop [] paths"

text \<open>The scheme, the host and the path of a URI.\<close>

definition ParseURI :: "string \<Rightarrow> piece \<times> piece \<times> piece" where
  "ParseURI uri =
     (case GetResult (OneLiteral ''://'' (StopCapture (Many LETTER_DIGIT_DOT (One LETTER (Scanner_new uri))))) of
        None \<Rightarrow> ((0, []), (0, []), (0, uri))
      | Some ((p, remaining), scheme) \<Rightarrow>
          (case GetResult (ScanUntil CHR ''/'' (Scanner_new remaining)) of
             None \<Rightarrow> (scheme, (p, remaining), (p + length remaining, []))
           | Some ((q, path), (h, host)) \<Rightarrow> (scheme, (p + h, host), (p + q, path))))"

definition CreateURI :: "string \<Rightarrow> string \<Rightarrow> string \<Rightarrow> string" where
  "CreateURI scheme host path = (if scheme = [] then path else scheme @ ''://'' @ host @ path)"

definition rfind :: "string \<Rightarrow> char \<Rightarrow> nat option" where
  "rfind s c = (if c \<in> set s then Some (length s - 1 - length (takeWhile (\<lambda>x. x \<noteq> c) (rev s))) else None)"

definition SplitPath :: "string \<Rightarrow> string \<times> string" where
  "SplitPath uri =
     (let (_, (h, host), (p, path)) = ParseURI uri in
      case rfind path CHR ''/'' of
        None \<Rightarrow> (take (h + length host) uri, path)
      | Some pos \<Rightarrow>
          if pos = 0 then (take (p + 1) uri, drop 1 path)
          else (take (p + pos) uri, drop (pos + 1) path))"

definition Dirname :: "string \<Rightarrow> string" where
  "Dirname path = fst (SplitPath path)"

definition Basename :: "string \<Rightarrow> string" where
  "Basename path = snd (SplitPath path)"

definition SplitBasename :: "string \<Rightarrow> string \<times> string" where
  "SplitBasename path =
     (let path = Basename path in
      case rfind path CHR ''.'' of None \<Rightarrow> (path, []) | Some pos \<Rightarrow> (take pos path, drop (pos + 1) path))"

definition Extension :: "string \<Rightarrow> string" where
  "Extension path = snd (SplitBasename path)"

section \<open>Cleaning a path\<close>

text \<open>A C string ends with a zero character behind its last one.\<close>

definition c_at :: "string \<Rightarrow> nat \<Rightarrow> char" where
  "c_at buf i = (if i < length buf then buf ! i else CHR 0x00)"

function skip_seps :: "string \<Rightarrow> nat \<Rightarrow> nat" where
  "skip_seps buf src = (if c_at buf src = CHR ''/'' then skip_seps buf (src + 1) else src)"
  by pat_completeness auto
termination
  by (relation "measure (\<lambda>(buf, src). length buf - src)") (auto simp: c_at_def split: if_splits)

function copy_part :: "string \<Rightarrow> nat \<Rightarrow> nat \<Rightarrow> string \<times> nat \<times> nat" where
  "copy_part buf src dst =
     (if c_at buf src \<noteq> CHR 0x00 \<and> c_at buf src \<noteq> CHR ''/''
      then copy_part (buf[dst := c_at buf src]) (src + 1) (dst + 1)
      else (buf, src, dst))"
  by pat_completeness auto
termination
  by (relation "measure (\<lambda>(buf, src, _). length buf - src)") (auto simp: c_at_def split: if_splits)

text \<open>The \<^verbatim>\<open>for\<close> loop after its first \<^verbatim>\<open>--dst\<close>; \<open>dst\<close> never falls below the limit.\<close>

fun backtrack :: "string \<Rightarrow> nat \<Rightarrow> nat \<Rightarrow> nat" where
  "backtrack buf limit 0 = 0"
| "backtrack buf limit (Suc d) = (if Suc d \<noteq> limit \<and> c_at buf d \<noteq> CHR ''/'' then backtrack buf limit d else Suc d)"

text \<open>One round of the main loop, on the buffer, \<^verbatim>\<open>src\<close>, \<^verbatim>\<open>dst\<close> and \<^verbatim>\<open>backtrack_limit\<close>.\<close>

definition clean_round :: "bool \<Rightarrow> string \<times> nat \<times> nat \<times> nat \<Rightarrow> string \<times> nat \<times> nat \<times> nat" where
  "clean_round is_absolute_path st =
     (case st of (buf, src, dst, limit) \<Rightarrow>
        let (buf, src, dst, limit) =
          (if c_at buf src = CHR ''.'' \<and> (c_at buf (src + 1) = CHR ''/'' \<or> c_at buf (src + 1) = CHR 0x00) then
             (buf, if c_at buf (src + 1) \<noteq> CHR 0x00 then src + 2 else src + 1, dst, limit)
           else if c_at buf src = CHR ''.'' \<and> c_at buf (src + 1) = CHR ''.'' \<and>
               (c_at buf (src + 2) = CHR ''/'' \<or> c_at buf (src + 2) = CHR 0x00) then
             let (buf, dst, limit) =
               (if dst \<noteq> limit then (buf, backtrack buf limit (dst - 1), limit)
                else if \<not> is_absolute_path then
                  let buf = buf[dst := c_at buf src];
                      buf = buf[dst + 1 := c_at buf (src + 1)];
                      (buf, dst) = (if c_at buf (src + 2) \<noteq> CHR 0x00 then (buf[dst + 2 := c_at buf (src + 2)], dst + 3) else (buf, dst + 2))
                  in (buf, dst, dst)
                else (buf, dst, limit))
             in (buf, if c_at buf (src + 2) \<noteq> CHR 0x00 then src + 3 else src + 2, dst, limit)
           else
             let (buf, src, dst) = copy_part buf src dst
             in if c_at buf src \<noteq> CHR 0x00 then (buf[dst := c_at buf src], src + 1, dst + 1, limit)
                else (buf, src, dst, limit))
        in (buf, skip_seps buf src, dst, limit))"

declare skip_seps.simps [simp del] copy_part.simps [simp del]

lemma c_at_nonzero: "c_at buf i \<noteq> CHR 0x00 \<Longrightarrow> i < length buf"
  by (auto simp: c_at_def split: if_splits)

lemma skip_seps_ge: "src \<le> skip_seps buf src"
  by (induction buf src rule: skip_seps.induct) (subst skip_seps.simps, auto)

lemma copy_part_ge:
  "copy_part buf src dst = (buf', src', dst') \<Longrightarrow>
     length buf' = length buf \<and> src \<le> src' \<and> (c_at buf src \<noteq> CHR 0x00 \<and> c_at buf src \<noteq> CHR ''/'' \<longrightarrow> src < src')"
proof (induction buf src dst rule: copy_part.induct)
  case (1 buf src dst)
  show ?case
  proof (cases "c_at buf src \<noteq> CHR 0x00 \<and> c_at buf src \<noteq> CHR ''/''")
    case True
    then have "copy_part (buf[dst := c_at buf src]) (src + 1) (dst + 1) = (buf', src', dst')" using 1(2) by (simp add: copy_part.simps [of buf])
    from 1(1) [OF True this] show ?thesis by simp
  next
    case False
    then show ?thesis using 1(2) by (subst (asm) copy_part.simps) auto
  qed
qed

lemma clean_round_progress:
  assumes "clean_round a (buf, src, dst, limit) = (buf', src', dst', limit')" "c_at buf src \<noteq> CHR 0x00"
  shows "length buf' = length buf \<and> src < src'"
proof -
  obtain b s d where c: "copy_part buf src dst = (b, s, d)" by (cases "copy_part buf src dst")
  from copy_part_ge [OF c] have "length b = length buf" "src \<le> s" "c_at buf src \<noteq> CHR ''/'' \<Longrightarrow> src < s" using assms(2) by auto
  moreover have "s = src \<and> b = buf" if "c_at buf src = CHR ''/''" using c that by (simp add: copy_part.simps [of buf])
  moreover have "src < skip_seps x y" if "src < y" for x y using skip_seps_ge [of y x] that by simp
  ultimately show ?thesis using assms c
    by (cases "c_at buf src = CHR ''/''") (auto simp: clean_round_def Let_def split: if_splits prod.splits)
qed

function clean_loop :: "bool \<Rightarrow> string \<times> nat \<times> nat \<times> nat \<Rightarrow> string \<times> nat \<times> nat \<times> nat" where
  "clean_loop a (buf, src, dst, limit) =
     (if c_at buf src \<noteq> CHR 0x00 then clean_loop a (clean_round a (buf, src, dst, limit)) else (buf, src, dst, limit))"
  by pat_completeness auto
termination
proof (relation "measure (\<lambda>(_, buf, src, _). length buf - src)")
  fix a buf src dst limit
  assume "c_at buf src \<noteq> CHR 0x00"
  then show "((a, clean_round a (buf, src, dst, limit)), a, buf, src, dst, limit) \<in> measure (\<lambda>(_, buf, src, _). length buf - src)"
    using clean_round_progress [of a buf src dst limit] c_at_nonzero [of buf src] by (cases "clean_round a (buf, src, dst, limit)") auto
qed simp

declare clean_loop.simps [simp del]

definition CleanPath :: "string \<Rightarrow> string" where
  "CleanPath unclean_path =
     (let path = unclean_path;
          is_absolute_path = (c_at path 0 = CHR ''/'');
          (path, src, dst) = (if is_absolute_path then (path[0 := c_at path 0], skip_seps path 1, 1) else (path, 0, 0));
          (path, src, dst, limit) = clean_loop is_absolute_path (path, src, dst, dst)
      in if dst \<noteq> 0 then take (if dst > 1 \<and> path ! (dst - 1) = CHR ''/'' then dst - 1 else dst) path
         else ''.'')"

text \<open>A number that is different in every call; the state is the static counter.\<close>

definition UniqueId :: "int64 \<Rightarrow> int64 \<times> int64" where
  "UniqueId counter = (counter + 1, counter + 1)"

section \<open>Cleaning refines the resolution of components\<close>

text \<open>The specification: the components of a path, without empty ones and single dots, are resolved on a stack, where a
  double dot removes the component before it.\<close>

fun split_seps :: "string \<Rightarrow> string list" where
  "split_seps [] = [[]]"
| "split_seps (c # cs) = (if c = CHR ''/'' then [] # split_seps cs else (c # hd (split_seps cs)) # tl (split_seps cs))"

definition components :: "string \<Rightarrow> string list" where
  "components s = filter (\<lambda>c. c \<noteq> [] \<and> c \<noteq> ''.'') (split_seps s)"

definition push :: "bool \<Rightarrow> string list \<Rightarrow> string \<Rightarrow> string list" where
  "push a st c =
     (if c = ''..'' then if st \<noteq> [] \<and> last st \<noteq> ''..'' then butlast st else if a then st else st @ [c]
      else st @ [c])"

definition join :: "string list \<Rightarrow> string" where
  "join cs = butlast (concat (map (\<lambda>c. c @ ''/'') cs))"

definition clean_spec :: "string \<Rightarrow> string" where
  "clean_spec s =
     (let a = IsAbsolutePath s; cs = foldl (push a) [] (components s)
      in if a then ''/'' @ join cs else if cs = [] then ''.'' else join cs)"

text \<open>The C string at a position, and what the loops do to it.\<close>

definition cstr :: "string \<Rightarrow> nat \<Rightarrow> string" where
  "cstr buf i = takeWhile (\<lambda>c. c \<noteq> CHR 0x00) (drop i buf)"

lemma cstr_Cons: "c_at buf i \<noteq> CHR 0x00 \<Longrightarrow> cstr buf i = c_at buf i # cstr buf (Suc i)"
  using Cons_nth_drop_Suc [of i buf, symmetric] by (auto simp: cstr_def c_at_def split: if_splits)

lemma cstr_Nil: "c_at buf i = CHR 0x00 \<Longrightarrow> cstr buf i = []"
  using Cons_nth_drop_Suc [of i buf, symmetric] by (cases "i < length buf") (auto simp: cstr_def c_at_def)

lemma cstr_Nil_iff: "cstr buf i = [] \<longleftrightarrow> c_at buf i = CHR 0x00"
  using cstr_Cons cstr_Nil by fastforce

lemma cstr_update [simp]: "j < i \<Longrightarrow> cstr (buf[j := x]) i = cstr buf i"
  by (simp add: cstr_def)

lemma c_at_update [simp]: "j \<noteq> i \<Longrightarrow> c_at (buf[j := x]) i = c_at buf i"
  by (simp add: c_at_def)

lemma take_Suc_update: "j < length buf \<Longrightarrow> take (Suc j) (buf[j := x]) = take j buf @ [x]"
  by (simp add: take_Suc_conv_app_nth)

lemma skip_seps_cstr:
  "src \<le> length buf \<Longrightarrow> skip_seps buf src \<le> length buf \<and> cstr buf (skip_seps buf src) = dropWhile (\<lambda>c. c = CHR ''/'') (cstr buf src)"
proof (induction buf src rule: skip_seps.induct)
  case (1 buf src)
  show ?case
  proof (cases "c_at buf src = CHR ''/''")
    case True
    then have n: "c_at buf src \<noteq> CHR 0x00" by simp
    then show ?thesis using 1 True c_at_nonzero [OF n] cstr_Cons [OF n] by (simp add: skip_seps.simps [of buf src])
  next
    case False
    then show ?thesis using 1(2) cstr_Cons [of buf src] cstr_Nil [of buf src]
      by (cases "c_at buf src = CHR 0x00") (simp_all add: skip_seps.simps [of buf src])
  qed
qed

lemma copy_part_cstr:
  "dst \<le> src \<Longrightarrow> src \<le> length buf \<Longrightarrow> copy_part buf src dst = (b, s, d) \<Longrightarrow>
     take d b = take dst buf @ takeWhile (\<lambda>c. c \<noteq> CHR ''/'') (cstr buf src) \<and>
     cstr b s = dropWhile (\<lambda>c. c \<noteq> CHR ''/'') (cstr buf src) \<and> d \<le> s \<and> s \<le> length b \<and> length b = length buf"
proof (induction buf src dst rule: copy_part.induct)
  case (1 buf src dst)
  show ?case
  proof (cases "c_at buf src \<noteq> CHR 0x00 \<and> c_at buf src \<noteq> CHR ''/''")
    case True
    then have "src < length buf" using c_at_nonzero by blast
    moreover have "copy_part (buf[dst := c_at buf src]) (src + 1) (dst + 1) = (b, s, d)" using 1(4) True by (simp add: copy_part.simps [of buf])
    moreover have "take (dst + 1) (buf[dst := c_at buf src]) = take dst buf @ [c_at buf src]" using calculation(1) 1(2) by (simp add: take_Suc_update)
    ultimately show ?thesis using 1(1) [OF True] 1(2,3) True cstr_Cons [of buf src] by simp
  next
    case False
    then show ?thesis using 1(2-4) cstr_Cons [of buf src] cstr_Nil [of buf src] by (subst (asm) copy_part.simps) auto
  qed
qed

lemma backtrack_take: "d \<le> n \<Longrightarrow> backtrack (take n buf) limit d = backtrack buf limit d"
proof (induction d)
  case (Suc d)
  then have "c_at (take n buf) d = c_at buf d" by (simp add: c_at_def)
  then show ?case using Suc by simp
qed simp

lemma backtrack_part:
  assumes "limit \<le> length pre" "length pre = limit \<or> pre \<noteq> [] \<and> last pre = CHR ''/''"
  shows "CHR ''/'' \<notin> set c \<Longrightarrow> backtrack (pre @ c @ x) limit (length pre + length c) = length pre"
proof (induction c arbitrary: x rule: rev_induct)
  case Nil
  show ?case
  proof (cases "length pre")
    case (Suc d)
    then have "pre \<noteq> [] \<Longrightarrow> c_at (pre @ x) d = last pre" by (auto simp: c_at_def nth_append last_conv_nth)
    then show ?thesis using assms Suc by auto
  qed simp
next
  case (snoc y c)
  have "c_at (pre @ (c @ [y]) @ x) (length pre + length c) = y" by (simp add: c_at_def nth_append)
  then show ?case using snoc.IH [of "y # x"] snoc.prems assms(1) by auto
qed

section \<open>The loop against the stack\<close>

abbreviation with_seps :: "string list \<Rightarrow> string" where "with_seps cs \<equiv> concat (map (\<lambda>c. c @ ''/'') cs)"

definition base :: "bool \<Rightarrow> string" where "base a = (if a then ''/'' else [])"

definition proper :: "string \<Rightarrow> bool" where "proper c \<longleftrightarrow> c \<noteq> [] \<and> CHR ''/'' \<notin> set c"

text \<open>The output and the limit that represent a stack while there is more to read, and the output at the end, where the
  separator after the last component may be missing.\<close>

definition rep :: "bool \<Rightarrow> string list \<Rightarrow> nat \<Rightarrow> string \<Rightarrow> bool" where
  "rep a st limit out \<longleftrightarrow> list_all proper st \<and> out = base a @ with_seps st \<and>
     (\<exists>k names. st = replicate k ''..'' @ names \<and> ''..'' \<notin> set names \<and> (a \<longrightarrow> k = 0) \<and> limit = length (base a) + 3 * k)"

definition rep_end :: "bool \<Rightarrow> string list \<Rightarrow> string \<Rightarrow> bool" where
  "rep_end a st out \<longleftrightarrow> list_all proper st \<and> (out = base a @ with_seps st \<or> st \<noteq> [] \<and> out @ ''/'' = base a @ with_seps st)"

lemma rep_rep_end: "rep a st limit out \<Longrightarrow> rep_end a st out"
  by (simp add: rep_def rep_end_def)

lemma with_seps_ups [simp]: "length (concat (replicate k ''../'')) = 3 * k"
  by (induction k) auto

text \<open>At the limit the stack holds double dots only.\<close>

lemma rep_at_limit:
  assumes "rep a st limit out"
  shows "limit \<le> length out" "length out = limit \<longleftrightarrow> st = [] \<or> last st = ''..''"
proof -
  obtain k names where k: "st = replicate k ''..'' @ names" "''..'' \<notin> set names" "limit = length (base a) + 3 * k" using assms by (auto simp: rep_def)
  have o: "length out = limit + length (with_seps names)" using assms k by (auto simp: rep_def with_seps_ups)
  then show "limit \<le> length out" by simp
  have "length (with_seps names) = 0 \<longleftrightarrow> names = []" by (cases names) auto
  moreover have "st = [] \<or> last st = ''..'' \<longleftrightarrow> names = []" using k(1,2) by (cases names rule: rev_cases; cases k) (auto simp: replicate_append_same [symmetric])
  ultimately show "length out = limit \<longleftrightarrow> st = [] \<or> last st = ''..''" using o by simp
qed

lemma rep_pop:
  assumes "rep a st limit out" "st \<noteq> []" "last st \<noteq> ''..''"
  shows "rep a (butlast st) limit (take (backtrack out limit (length out - 1)) out)"
proof -
  obtain k names where k: "st = replicate k ''..'' @ names" "''..'' \<notin> set names" "a \<longrightarrow> k = 0" "limit = length (base a) + 3 * k"
    using assms(1) by (auto simp: rep_def)
  then obtain ns c where ns: "names = ns @ [c]" using assms(2,3) by (cases names rule: rev_cases) (auto simp: replicate_append_same [symmetric])
  let ?pre = "base a @ with_seps (replicate k ''..'' @ ns)"
  have o: "out = ?pre @ c @ ''/''" "proper c" "list_all proper (replicate k ''..'' @ ns)" using assms(1) k(1) ns by (auto simp: rep_def)
  have pre: "limit \<le> length ?pre" using k(4) by (simp add: with_seps_ups)
  have "length ?pre = limit \<or> ?pre \<noteq> [] \<and> last ?pre = CHR ''/''" using k(4) by (cases ns rule: rev_cases) (simp_all add: with_seps_ups)
  from backtrack_part [OF pre this, of c "''/''"] o(2) have "backtrack out limit (length out - 1) = length ?pre" unfolding o(1) by (simp add: proper_def add.assoc)
  then have "take (backtrack out limit (length out - 1)) out = ?pre" using o(1) by simp
  moreover have "butlast st = replicate k ''..'' @ ns" using k(1) ns by (simp add: butlast_append)
  ultimately show ?thesis using k ns o(3) unfolding rep_def by auto
qed

lemma rep_push:
  assumes "rep a st limit out" "proper c" "c \<noteq> ''..''"
  shows "rep a (st @ [c]) limit (out @ c @ ''/'')" "rep_end a (st @ [c]) (out @ c)"
  using assms by (auto simp: rep_def rep_end_def)

lemma rep_up:
  assumes "rep False st limit out" "st = [] \<or> last st = ''..''"
  shows "rep False (st @ [''..'']) (length out + 3) (out @ ''../'')" "rep_end False (st @ [''..'']) (out @ ''..'')"
proof -
  obtain k names where k: "st = replicate k ''..'' @ names" "''..'' \<notin> set names" "limit = length (base False) + 3 * k" using assms(1) by (auto simp: rep_def)
  have n: "names = []" using assms(2) k by (cases names rule: rev_cases) auto
  have "length out = 3 * k" using assms(1) k(1) n by (simp add: rep_def base_def)
  then have "length out + 3 = length (base False) + 3 * Suc k" by (simp add: base_def)
  moreover have "st @ [''..''] = replicate (Suc k) ''..'' @ []" using k(1) n by (simp add: replicate_append_same)
  moreover have "list_all proper (st @ [''..''])" "out @ ''../'' = base False @ with_seps (st @ [''..''])" using assms(1) by (auto simp: rep_def proper_def)
  ultimately show "rep False (st @ [''..'']) (length out + 3) (out @ ''../'')"
    unfolding rep_def by (intro conjI exI [of _ "Suc k"] exI [of _ "[]"]) simp_all
  show "rep_end False (st @ [''..'']) (out @ ''..'')" using assms(1) by (auto simp: rep_def rep_end_def proper_def)
qed

text \<open>The three kinds of component a round can meet.\<close>

lemma cstr_ConsD:
  assumes "cstr buf i = x # xs"
  shows "c_at buf i = x" "x \<noteq> CHR 0x00" "cstr buf (Suc i) = xs" "i < length buf"
proof -
  have n: "c_at buf i \<noteq> CHR 0x00" using assms cstr_Nil_iff [of buf i] by auto
  show "c_at buf i = x" "x \<noteq> CHR 0x00" "cstr buf (Suc i) = xs" "i < length buf"
    using assms cstr_Cons [OF n] n c_at_nonzero [OF n] by auto
qed

lemma cstr_NilD: "cstr buf i = [] \<Longrightarrow> c_at buf i = CHR 0x00"
  by (simp add: cstr_Nil_iff)

lemma round_dot:
  assumes "cstr buf src = ''.'' @ tail" "tail = [] \<or> hd tail = CHR ''/''" "src \<le> length buf"
  shows "\<exists>s. clean_round a (buf, src, dst, limit) = (buf, s, dst, limit) \<and> src \<le> s \<and> s \<le> length buf \<and>
    cstr buf s = dropWhile (\<lambda>c. c = CHR ''/'') tail"
proof -
  note d = cstr_ConsD [of buf src "CHR ''.''" tail]
  show ?thesis
  proof (cases tail)
    case Nil
    then have e: "clean_round a (buf, src, dst, limit) = (buf, skip_seps buf (Suc src), dst, limit)"
      using d assms(1) cstr_NilD [of buf "Suc src"] by (simp add: clean_round_def)
    show ?thesis unfolding e using skip_seps_cstr [of "Suc src" buf] skip_seps_ge [of "Suc src" buf] d assms(1) Nil by auto
  next
    case (Cons c t)
    then have c: "cstr buf (Suc src) = CHR ''/'' # t" using d assms(1,2) by simp
    note d' = cstr_ConsD [OF c]
    have e: "clean_round a (buf, src, dst, limit) = (buf, skip_seps buf (Suc (Suc src)), dst, limit)"
      using d(1) d'(1) assms(1) by (simp add: clean_round_def)
    show ?thesis unfolding e using skip_seps_cstr [of "Suc (Suc src)" buf] skip_seps_ge [of "Suc (Suc src)" buf] d'(3,4) Cons assms(2) by auto
  qed
qed

lemma round_name:
  assumes "cstr buf src = c @ tail" "tail = [] \<or> hd tail = CHR ''/''" "proper c" "c \<noteq> ''.''" "c \<noteq> ''..''" "dst \<le> src" "src \<le> length buf"
  shows "\<exists>b s d. clean_round a (buf, src, dst, limit) = (b, s, d, limit) \<and> d \<le> s \<and> s \<le> length b \<and> length b = length buf \<and>
    take d b = take dst buf @ c @ (if tail = [] then [] else ''/'') \<and> cstr b s = dropWhile (\<lambda>c. c = CHR ''/'') tail"
proof -
  obtain x c1 where c1: "c = x # c1" using assms(3) by (cases c) (auto simp: proper_def)
  have d1: "c_at buf src = x" "cstr buf (Suc src) = c1 @ tail" using cstr_ConsD(1,3) [of buf src x "c1 @ tail"] assms(1) c1 by simp_all
  have nodot: "\<not> (c_at buf src = CHR ''.'' \<and> (c_at buf (src + 1) = CHR ''/'' \<or> c_at buf (src + 1) = CHR 0x00))"
  proof (cases c1)
    case (Cons y c2)
    then show ?thesis using cstr_ConsD(1,2) [of buf "Suc src" y "c2 @ tail"] d1 assms(3) c1 by (auto simp: proper_def)
  qed (use d1 c1 assms(4) in simp)
  have noup: "\<not> (c_at buf src = CHR ''.'' \<and> c_at buf (src + 1) = CHR ''.'' \<and> (c_at buf (src + 2) = CHR ''/'' \<or> c_at buf (src + 2) = CHR 0x00))"
  proof (cases c1)
    case (Cons y c2)
    note d2 = cstr_ConsD(1,3) [of buf "Suc src" y "c2 @ tail"]
    show ?thesis
    proof (cases c2)
      case (Cons z c3)
      then show ?thesis using cstr_ConsD(1,2) [of buf "Suc (Suc src)" z "c3 @ tail"] d2 d1 \<open>c1 = y # c2\<close> assms(3) c1 by (auto simp: proper_def)
    qed (use d1 d2 c1 Cons assms(5) in auto)
  next
    case Nil
    then have "c_at buf (src + 1) \<noteq> CHR ''.''" using d1(2) assms(2) cstr_NilD [of buf "Suc src"] cstr_ConsD(1) [of buf "Suc src"] by (cases tail) auto
    then show ?thesis by blast
  qed
  obtain b s d where cp: "copy_part buf src dst = (b, s, d)" by (cases "copy_part buf src dst")
  have tw: "takeWhile (\<lambda>c. c \<noteq> CHR ''/'') (c @ tail) = c" "dropWhile (\<lambda>c. c \<noteq> CHR ''/'') (c @ tail) = tail"
    using assms(2,3) by (cases tail; auto simp: proper_def takeWhile_append dropWhile_append)+
  from copy_part_cstr [OF assms(6,7) cp] have p: "take d b = take dst buf @ c" "cstr b s = tail" "d \<le> s" "s \<le> length b" "length b = length buf"
    unfolding assms(1) tw by auto
  show ?thesis
  proof (cases tail)
    case Nil
    then have "c_at b s = CHR 0x00" using p(2) cstr_NilD by simp
    then have e: "clean_round a (buf, src, dst, limit) = (b, skip_seps b s, d, limit)" unfolding clean_round_def case_prod_conv Let_def if_not_P [OF nodot] if_not_P [OF noup] cp by simp
    show ?thesis unfolding e using skip_seps_cstr [OF p(4)] skip_seps_ge [of s b] p Nil by auto
  next
    case (Cons z t)
    then have c: "cstr b s = CHR ''/'' # t" using p(2) assms(2) by simp
    note d' = cstr_ConsD [OF c]
    let ?b = "b[d := CHR ''/'']"
    have e: "clean_round a (buf, src, dst, limit) = (?b, skip_seps ?b (Suc s), Suc d, limit)"
      unfolding clean_round_def case_prod_conv Let_def if_not_P [OF nodot] if_not_P [OF noup] cp using d'(1) by simp
    have "take (Suc d) ?b = take dst buf @ c @ ''/''" using p(1,3) d'(4) by (simp add: take_Suc_update)
    moreover have "cstr ?b (Suc s) = t" using d'(3) p(3) by simp
    ultimately show ?thesis unfolding e using skip_seps_cstr [of "Suc s" ?b] skip_seps_ge [of "Suc s" ?b] p(3,5) d'(4) Cons assms(2)
      by (intro exI [of _ ?b] exI [of _ "skip_seps ?b (Suc s)"] exI [of _ "Suc d"]) auto
  qed
qed

lemma round_up:
  assumes "cstr buf src = ''..'' @ tail" "tail = [] \<or> hd tail = CHR ''/''" "dst \<le> src" "src \<le> length buf"
  shows "\<exists>b s d l. clean_round a (buf, src, dst, limit) = (b, s, d, l) \<and> d \<le> s \<and> s \<le> length b \<and> length b = length buf \<and>
    cstr b s = dropWhile (\<lambda>c. c = CHR ''/'') tail \<and>
    (if dst \<noteq> limit then l = limit \<and> take d b = take (backtrack (take dst buf) limit (dst - 1)) (take dst buf)
     else if a then l = limit \<and> take d b = take dst buf
     else take d b = take dst buf @ ''..'' @ (if tail = [] then [] else ''/'') \<and> l = d)"
proof -
  have c0: "cstr buf src = CHR ''.'' # CHR ''.'' # tail" using assms(1) by simp
  note d1 = cstr_ConsD [OF c0] and d2 = cstr_ConsD [OF cstr_ConsD(3) [OF c0]]
  have nodot: "\<not> (c_at buf src = CHR ''.'' \<and> (c_at buf (src + 1) = CHR ''/'' \<or> c_at buf (src + 1) = CHR 0x00))" using d2 by simp
  have c3: "c_at buf (Suc (Suc src)) = (if tail = [] then CHR 0x00 else CHR ''/'')"
    using d2(3) assms(2) cstr_NilD cstr_ConsD(1) by (cases tail) force+
  then have up: "c_at buf src = CHR ''.'' \<and> c_at buf (src + 1) = CHR ''.'' \<and> (c_at buf (src + 2) = CHR ''/'' \<or> c_at buf (src + 2) = CHR 0x00)"
    using d1(1) d2(1) by simp
  define s2 where "s2 = (if tail = [] then src + 2 else src + 3)"
  have s2: "s2 \<le> length buf" "dst + (if tail = [] then 2 else 3) \<le> s2"
    "dropWhile (\<lambda>c. c = CHR ''/'') (cstr buf s2) = dropWhile (\<lambda>c. c = CHR ''/'') tail"
    using d2(3,4) assms(2,3) cstr_ConsD [of buf "Suc (Suc src)" "hd tail" "tl tail"] by (cases tail; auto simp: s2_def eval_nat_numeral)+
  define st where "st = (if dst \<noteq> limit then (buf, backtrack buf limit (dst - 1), limit)
    else if \<not> a then
      let b = buf[dst := CHR ''.'', dst + 1 := CHR ''.''] in if tail = [] then (b, dst + 2, dst + 2) else (b[dst + 2 := CHR ''/''], dst + 3, dst + 3)
    else (buf, dst, limit))"
  have w: "c_at (buf[dst := CHR ''.'', Suc dst := CHR ''.'', Suc (Suc dst) := CHR ''/'']) (Suc (Suc src)) = CHR ''/''" if "tail \<noteq> []"
  proof (cases "dst = src")
    case True
    have "Suc (Suc src) < length buf" using c3 that c_at_nonzero [of buf "Suc (Suc src)"] by simp
    then show ?thesis using True by (simp add: c_at_def)
  qed (use assms(3) c3 that in simp)
  have e: "clean_round a (buf, src, dst, limit) = (case st of (b, d, l) \<Rightarrow> (b, skip_seps b s2, d, l))"
  proof (cases "dst \<noteq> limit \<or> a")
    case True
    then show ?thesis unfolding clean_round_def case_prod_conv Let_def if_not_P [OF nodot] if_P [OF up] st_def s2_def
      using c3 by (simp add: eval_nat_numeral)
  next
    case False
    then have f: "\<not> dst \<noteq> limit" "\<not> a" by auto
    show ?thesis unfolding clean_round_def case_prod_conv Let_def if_not_P [OF nodot] if_P [OF up] st_def s2_def if_not_P [OF f(1)] if_P [OF f(2)]
      using c3 d1(1) d2(1) assms(3) w by (cases "tail = []") (simp_all add: eval_nat_numeral)
  qed
  have bt: "backtrack buf limit d \<le> d" for d by (induction d) auto
  have ok: "(case st of (b, d, l) \<Rightarrow> d \<le> s2 \<and> length b = length buf \<and> cstr b s2 = cstr buf s2 \<and>
    (if dst \<noteq> limit then l = limit \<and> take d b = take (backtrack (take dst buf) limit (dst - 1)) (take dst buf)
     else if a then l = limit \<and> take d b = take dst buf
     else take d b = take dst buf @ ''..'' @ (if tail = [] then [] else ''/'') \<and> l = d))"
  proof (cases "dst \<noteq> limit \<or> a")
    case True
    then show ?thesis using s2(2) bt [of "dst - 1"] backtrack_take [of "dst - 1" dst buf limit] by (auto simp: st_def min_def split: if_splits)
  next
    case False
    have "take (dst + 2) (buf[dst := CHR ''.'', dst + 1 := CHR ''.'']) = take dst buf @ ''..''"
      using s2 by (simp add: take_Suc_update eval_nat_numeral split: if_splits)
    then show ?thesis using False s2 by (auto simp: st_def Let_def take_Suc_update eval_nat_numeral split: if_splits)
  qed
  obtain b d l where st: "st = (b, d, l)" by (cases st)
  have o: "d \<le> s2" "length b = length buf" "cstr b s2 = cstr buf s2" using ok unfolding st case_prod_conv by blast+
  have s: "skip_seps b s2 \<le> length b" "cstr b (skip_seps b s2) = dropWhile (\<lambda>c. c = CHR ''/'') tail"
    using skip_seps_cstr [of s2 b] s2(1,3) o(2,3) by simp_all
  have "d \<le> skip_seps b s2" using o(1) skip_seps_ge [of s2 b] by simp
  then show ?thesis unfolding e st case_prod_conv using s o(2) ok unfolding st case_prod_conv
    by (intro exI [of _ b] exI [of _ "skip_seps b s2"] exI [of _ d] exI [of _ l] conjI refl) (erule conjE | assumption)+
qed

lemma round_spec:
  assumes rep: "rep a st limit (take dst buf)" and b: "dst \<le> src" "src \<le> length buf"
    and rest: "cstr buf src = c @ tail" "proper c" "tail = [] \<or> hd tail = CHR ''/''"
  shows "\<exists>b s d l. clean_round a (buf, src, dst, limit) = (b, s, d, l) \<and> d \<le> s \<and> s \<le> length b \<and>
    cstr b s = dropWhile (\<lambda>c. c = CHR ''/'') tail \<and>
    (let st' = (if c = ''.'' then st else push a st c) in if tail = [] then rep_end a st' (take d b) else rep a st' l (take d b))"
proof -
  have len: "length (take dst buf) = dst" using b by simp
  consider "c = ''.''" | "c = ''..''" | "c \<noteq> ''.''" "c \<noteq> ''..''" by blast
  then show ?thesis
  proof cases
    case 1
    then show ?thesis using round_dot [of buf src tail a dst limit] rest b rep rep_rep_end [OF rep] by fastforce
  next
    case 2
    obtain b' s d l where r: "clean_round a (buf, src, dst, limit) = (b', s, d, l)" "d \<le> s" "s \<le> length b'"
      "cstr b' s = dropWhile (\<lambda>c. c = CHR ''/'') tail"
      "if dst \<noteq> limit then l = limit \<and> take d b' = take (backtrack (take dst buf) limit (dst - 1)) (take dst buf)
       else if a then l = limit \<and> take d b' = take dst buf
       else take d b' = take dst buf @ ''..'' @ (if tail = [] then [] else ''/'') \<and> l = d"
      using round_up [of buf src tail dst a limit] rest 2 b by (elim exE conjE meta_impE) (assumption | simp | rule that)+
    note lim = rep_at_limit(2) [OF rep, unfolded len]
    have "let st' = push a st c in if tail = [] then rep_end a st' (take d b') else rep a st' l (take d b')"
    proof (cases "dst \<noteq> limit")
      case True
      then have "st \<noteq> []" "last st \<noteq> ''..''" using lim by auto
      then show ?thesis using rep_pop [OF rep] r(5) True rep_rep_end 2 len by (auto simp: push_def Let_def)
    next
      case False
      then have st: "st = [] \<or> last st = ''..''" using lim by auto
      then have p: "push a st c = (if a then st else st @ [''..''])" using 2 by (auto simp: push_def)
      show ?thesis
      proof (cases a)
        case True
        then show ?thesis using r(5) False p rep rep_rep_end [OF rep] by (simp add: Let_def)
      next
        case na: False
        have "length (take d b') = d" using r(2,3) by simp
        moreover have "take d b' = take dst buf @ ''..'' @ (if tail = [] then [] else ''/'')" using r(5) False na by simp
        ultimately have d: "d = dst + (if tail = [] then 2 else 3)" using len by (auto split: if_splits)
        show ?thesis using rep_up [of st limit "take dst buf"] rep na st r(5) False p d len by (auto simp: Let_def)
      qed
    qed
    then show ?thesis using r(1-4) 2 by auto
  next
    case 3
    obtain b' s d where r: "clean_round a (buf, src, dst, limit) = (b', s, d, limit)" "d \<le> s" "s \<le> length b'"
      "take d b' = take dst buf @ c @ (if tail = [] then [] else ''/'')" "cstr b' s = dropWhile (\<lambda>c. c = CHR ''/'') tail"
      using round_name [OF rest(1,3,2) 3 b] by blast
    then show ?thesis using rep_push [OF rep rest(2) 3(2)] 3 by (auto simp: push_def Let_def)
  qed
qed

lemma split_seps_append: "CHR ''/'' \<notin> set c \<Longrightarrow> split_seps (c @ s) = (c @ hd (split_seps s)) # tl (split_seps s)"
proof (induction c)
  case Nil
  have "split_seps s \<noteq> []" by (cases s) auto
  then show ?case by simp
qed auto

lemma components_seps: "components (dropWhile (\<lambda>c. c = CHR ''/'') s) = components s"
  by (induction s) (auto simp: components_def)

lemma components_Cons:
  assumes "proper c" "tail = [] \<or> hd tail = CHR ''/''"
  shows "components (c @ tail) = (if c = ''.'' then [] else [c]) @ components (dropWhile (\<lambda>c. c = CHR ''/'') tail)"
proof (cases tail)
  case Nil
  then show ?thesis using assms(1) split_seps_append [of c "[]"] by (auto simp: components_def proper_def)
next
  case (Cons x t)
  then have "split_seps (c @ tail) = c # split_seps t" using assms split_seps_append [of c tail] by (simp add: proper_def)
  then have "components (c @ tail) = (if c = ''.'' then [] else [c]) @ components t" using assms(1) by (auto simp: components_def proper_def)
  then show ?thesis using components_seps [of t] Cons assms(2) by simp
qed

lemma next_component:
  assumes "s \<noteq> []" "hd s \<noteq> CHR ''/''"
  obtains c tail where "s = c @ tail" "proper c" "tail = [] \<or> hd tail = CHR ''/''"
proof (rule that)
  let ?P = "\<lambda>c. c \<noteq> CHR ''/''"
  show "s = takeWhile ?P s @ dropWhile ?P s" by simp
  show "proper (takeWhile ?P s)" using assms by (cases s) (auto simp: proper_def dest: set_takeWhileD)
  show "dropWhile ?P s = [] \<or> hd (dropWhile ?P s) = CHR ''/''" using hd_dropWhile [of ?P s] by auto
qed

lemma clean_loop_spec:
  "rep a st limit (take dst buf) \<Longrightarrow> dst \<le> src \<Longrightarrow> src \<le> length buf \<Longrightarrow> cstr buf src = [] \<or> hd (cstr buf src) \<noteq> CHR ''/'' \<Longrightarrow>
     \<exists>b s d l. clean_loop a (buf, src, dst, limit) = (b, s, d, l) \<and> d \<le> length b \<and>
       rep_end a (foldl (push a) st (components (cstr buf src))) (take d b)"
proof (induction "length (cstr buf src)" arbitrary: st limit dst buf src rule: less_induct)
  case less
  show ?case
  proof (cases "cstr buf src = []")
    case True
    then have "clean_loop a (buf, src, dst, limit) = (buf, src, dst, limit)" using cstr_NilD by (simp add: clean_loop.simps)
    then show ?thesis using less.prems(2,3) rep_rep_end [OF less.prems(1)] True by (simp add: components_def)
  next
    case False
    then have n: "c_at buf src \<noteq> CHR 0x00" by (simp add: cstr_Nil_iff)
    obtain c tail where c: "cstr buf src = c @ tail" "proper c" "tail = [] \<or> hd tail = CHR ''/''"
      using next_component [OF False] less.prems(4) False by blast
    define st' where "st' = (if c = ''.'' then st else push a st c)"
    obtain b s d l where r: "clean_round a (buf, src, dst, limit) = (b, s, d, l)" "d \<le> s" "s \<le> length b"
      "cstr b s = dropWhile (\<lambda>c. c = CHR ''/'') tail" "if tail = [] then rep_end a st' (take d b) else rep a st' l (take d b)"
      using round_spec [OF less.prems(1-3) c] unfolding st'_def Let_def by blast
    have e: "clean_loop a (buf, src, dst, limit) = clean_loop a (b, s, d, l)" using n r(1) by (simp add: clean_loop.simps [of a buf])
    have fold: "foldl (push a) st (components (cstr buf src)) = foldl (push a) st' (components (cstr b s))"
      unfolding c(1) r(4) components_Cons [OF c(2,3)] st'_def by simp
    show ?thesis
    proof (cases "tail = []")
      case True
      then have s: "cstr b s = []" using r(4) by simp
      then have "clean_loop a (b, s, d, l) = (b, s, d, l)" using cstr_NilD by (simp add: clean_loop.simps)
      moreover have "foldl (push a) st' (components (cstr b s)) = st'" using s by (simp add: components_def)
      ultimately show ?thesis using r(2,3,5) True unfolding e fold by simp
    next
      case more: False
      have "length (cstr b s) < length (cstr buf src)" using c(1,2) r(4) length_dropWhile_le [of "\<lambda>c. c = CHR ''/''" tail]
        by (cases c) (auto simp: proper_def)
      moreover have "cstr b s = [] \<or> hd (cstr b s) \<noteq> CHR ''/''" using r(4) hd_dropWhile [of "\<lambda>c. c = CHR ''/''" tail] by auto
      moreover have "rep a st' l (take d b)" using r(5) more by simp
      ultimately show ?thesis using less.hyps [of b s st' l d] r(2,3) unfolding e fold by blast
    qed
  qed
qed

text \<open>The end of the routine removes a last separator.\<close>

lemma rep_end_result:
  assumes "rep_end a st (take d b)" "d \<le> length b"
  shows "(if d \<noteq> 0 then take (if d > 1 \<and> b ! (d - 1) = CHR ''/'' then d - 1 else d) b else ''.'') =
    (if a then ''/'' @ join st else if st = [] then ''.'' else join st)"
proof -
  define out where "out = take d b"
  have len: "length out = d" using assms(2) by (simp add: out_def)
  have lst: "b ! (d - 1) = last out" if "d \<noteq> 0" using that assms(2) len by (cases "out = []") (auto simp: out_def last_conv_nth)
  have t1: "take (d - 1) b = butlast out" using assms(2) by (simp add: out_def butlast_take)
  show ?thesis
  proof (cases "st = []")
    case True
    then have "out = base a" using assms(1) by (simp add: rep_end_def out_def)
    then show ?thesis using True len t1 by (cases a) (auto simp: base_def join_def out_def)
  next
    case False
    then obtain st1 c where st: "st = st1 @ [c]" by (cases st rule: rev_cases) auto
    have c: "c \<noteq> []" "CHR ''/'' \<notin> set c" using assms(1) st by (auto simp: rep_end_def proper_def)
    have j: "base a @ join st = base a @ with_seps st1 @ c" "base a @ with_seps st = base a @ with_seps st1 @ c @ ''/''" using st by (simp_all add: join_def butlast_append)
    have res: "(if a then ''/'' @ join st else if st = [] then ''.'' else join st) = base a @ join st" using False by (simp add: base_def)
    consider "out = base a @ with_seps st1 @ c @ ''/''" | "out = base a @ with_seps st1 @ c"
      using assms(1) j(2) unfolding rep_end_def out_def [symmetric] by auto
    then show ?thesis
    proof cases
      case 1
      then have "d > 1" "last out = CHR ''/''" using len c(1) by (cases c; auto)+
      then show ?thesis using lst t1 1 j(1) unfolding res by (simp add: butlast_append)
    next
      case 2
      then have "d \<noteq> 0" "last out \<noteq> CHR ''/''" using len c 2 last_in_set [OF c(1)] by (auto, metis)
      then show ?thesis using lst 2 j(1) unfolding res by (simp add: out_def)
    qed
  qed
qed

lemma CleanPath_eq: "CleanPath p = clean_spec (cstr p 0)"
proof (cases "c_at p 0 = CHR ''/''")
  case True
  then have p: "cstr p 0 = CHR ''/'' # cstr p 1" "0 < length p" using cstr_Cons [of p 0] c_at_nonzero [of p 0] by simp_all
  have upd: "p[0 := c_at p 0] = p" using p(2) by (simp add: c_at_def)
  have one: "take 1 p = ''/''" using True p(2) by (cases p) (auto simp: c_at_def)
  let ?s = "skip_seps p 1"
  have s: "?s \<le> length p" "cstr p ?s = dropWhile (\<lambda>c. c = CHR ''/'') (cstr p 1)" "1 \<le> ?s"
    using skip_seps_cstr [of 1 p] p(2) skip_seps_ge [of 1 p] by simp_all
  have "rep True [] 1 (take 1 p)" unfolding one by (auto simp: rep_def base_def)
  moreover have "cstr p ?s = [] \<or> hd (cstr p ?s) \<noteq> CHR ''/''" unfolding s(2) using hd_dropWhile [of "\<lambda>c. c = CHR ''/''" "cstr p 1"] by blast
  ultimately obtain b s' d l where r: "clean_loop True (p, ?s, 1, 1) = (b, s', d, l)" "d \<le> length b"
    "rep_end True (foldl (push True) [] (components (cstr p ?s))) (take d b)" using clean_loop_spec [OF _ s(3,1)] by blast
  have c: "components (cstr p ?s) = components (cstr p 0)" using components_seps [of "cstr p 1"] p(1) s(2) by (simp add: components_def)
  have "CleanPath p = (if d \<noteq> 0 then take (if d > 1 \<and> b ! (d - 1) = CHR ''/'' then d - 1 else d) b else ''.'')"
    using True upd r(1) by (simp add: CleanPath_def)
  also have "\<dots> = clean_spec (cstr p 0)" unfolding rep_end_result [OF r(3,2)] c using p(1) by (simp add: clean_spec_def IsAbsolutePath_def)
  finally show ?thesis .
next
  case False
  have na: "\<not> IsAbsolutePath (cstr p 0)" using False cstr_ConsD(1) [of p 0] by (cases "cstr p 0") (auto simp: IsAbsolutePath_def)
  then have h: "cstr p 0 = [] \<or> hd (cstr p 0) \<noteq> CHR ''/''" by (cases "cstr p 0") (auto simp: IsAbsolutePath_def)
  have "rep False [] 0 (take 0 p)" by (auto simp: rep_def base_def)
  from clean_loop_spec [OF this le_refl le0 h] obtain b s' d l where r: "clean_loop False (p, 0, 0, 0) = (b, s', d, l)" "d \<le> length b"
    "rep_end False (foldl (push False) [] (components (cstr p 0))) (take d b)" by blast
  have "CleanPath p = (if d \<noteq> 0 then take (if d > 1 \<and> b ! (d - 1) = CHR ''/'' then d - 1 else d) b else ''.'')"
    using False r(1) by (simp add: CleanPath_def)
  also have "\<dots> = clean_spec (cstr p 0)" unfolding rep_end_result [OF r(3,2)] using na by (simp add: clean_spec_def)
  finally show ?thesis .
qed

text \<open>Resolving is a normal form: a resolved stack is its own components.\<close>

definition normal :: "bool \<Rightarrow> string list \<Rightarrow> bool" where
  "normal a st \<longleftrightarrow> list_all (\<lambda>c. proper c \<and> c \<noteq> ''.'') st \<and>
     (\<exists>k names. st = replicate k ''..'' @ names \<and> ''..'' \<notin> set names \<and> (a \<longrightarrow> k = 0))"

lemma push_normal:
  assumes "normal a st" "proper c" "c \<noteq> ''.''"
  shows "normal a (push a st c)"
proof -
  obtain k names where k: "st = replicate k ''..'' @ names" "''..'' \<notin> set names" "a \<longrightarrow> k = 0" using assms(1) by (auto simp: normal_def)
  have l: "list_all (\<lambda>c. proper c \<and> c \<noteq> ''.'') st" using assms(1) by (simp add: normal_def)
  show ?thesis
  proof (cases "c = ''..''")
    case False
    then have "push a st c = replicate k ''..'' @ (names @ [c])" "''..'' \<notin> set (names @ [c])" using k by (simp_all add: push_def)
    then show ?thesis unfolding normal_def using k(1,3) l assms(2,3) by (intro conjI exI [of _ k] exI [of _ "names @ [c]"]) auto
  next
    case True
    show ?thesis
    proof (cases names rule: rev_cases)
      case Nil
      then have p: "push a st c = (if a then st else replicate (Suc k) ''..'' @ [])"
        using True k(1) by (cases k) (auto simp: push_def replicate_append_same [symmetric] last_replicate)
      then show ?thesis unfolding normal_def using assms l k Nil
        by (cases a) (auto simp: proper_def list_all_iff intro!: exI [of _ "Suc k"])
    next
      case (snoc ns n)
      then have "push a st c = replicate k ''..'' @ ns" using True k by (auto simp: push_def butlast_append)
      then show ?thesis unfolding normal_def using k(1,2,3) l snoc by (intro conjI exI [of _ k] exI [of _ ns]) auto
    qed
  qed
qed

lemma components_proper: "list_all (\<lambda>c. proper c \<and> c \<noteq> ''.'') (components s)"
proof -
  have "CHR ''/'' \<notin> set c" if "c \<in> set (split_seps s)" for c
    using that
  proof (induction s arbitrary: c)
    case (Cons x s)
    have "split_seps s \<noteq> []" by (cases s) auto
    then show ?case using Cons by (cases "split_seps s") (auto split: if_splits)
  qed simp
  then show ?thesis by (auto simp: components_def list_all_iff proper_def)
qed

lemma resolve_normal: "normal a st \<Longrightarrow> list_all (\<lambda>c. proper c \<and> c \<noteq> ''.'') cs \<Longrightarrow> normal a (foldl (push a) st cs)"
  by (induction cs arbitrary: st) (auto intro: push_normal)

lemma normal_resolved:
  assumes "normal a cs" shows "foldl (push a) [] cs = cs"
proof -
  obtain k names where k: "cs = replicate k ''..'' @ names" "''..'' \<notin> set names" "a \<longrightarrow> k = 0" using assms by (auto simp: normal_def)
  have up: "foldl (push False) [] (replicate k ''..'') = replicate k ''..''"
    by (induction k) (auto simp: push_def replicate_append_same [symmetric] last_replicate)
  have "foldl (push a) st names = st @ names" for st
    using k(2) by (induction names arbitrary: st) (auto simp: push_def)
  then show ?thesis using k up by (cases a) auto
qed

lemma components_join: "list_all (\<lambda>c. proper c \<and> c \<noteq> ''.'') cs \<Longrightarrow> components (join cs) = cs"
proof (induction cs)
  case (Cons c cs)
  show ?case
  proof (cases "cs = []")
    case True
    then show ?thesis using Cons.prems components_Cons [of c "[]"] by (auto simp: join_def components_def)
  next
    case False
    then have n: "with_seps cs \<noteq> []" by (cases cs) auto
    then have j: "join (c # cs) = c @ CHR ''/'' # join cs" by (simp add: join_def butlast_append)
    have "components (join (c # cs)) = c # components (dropWhile (\<lambda>c. c = CHR ''/'') (CHR ''/'' # join cs))"
      unfolding j using components_Cons [of c "CHR ''/'' # join cs"] Cons.prems by simp
    then show ?thesis using Cons components_seps [of "join cs"] by simp
  qed
qed (simp add: join_def components_def)

lemma clean_spec_idem: "clean_spec (clean_spec s) = clean_spec s"
proof -
  define a where "a = IsAbsolutePath s"
  define cs where "cs = foldl (push a) [] (components s)"
  have n: "normal a cs" unfolding cs_def by (rule resolve_normal [OF _ components_proper]) (auto simp: normal_def)
  then have l: "list_all (\<lambda>c. proper c \<and> c \<noteq> ''.'') cs" by (simp add: normal_def)
  have e: "clean_spec s = (if a then ''/'' @ join cs else if cs = [] then ''.'' else join cs)" by (simp add: clean_spec_def a_def cs_def Let_def)
  have slash: "components (''/'' @ join cs) = cs" using components_join [OF l] by (simp add: components_def)
  have rel: "\<not> IsAbsolutePath (join cs)"
  proof (cases cs)
    case (Cons c cs')
    then obtain x c' where "c = x # c'" "x \<noteq> CHR ''/''" using l by (cases c) (auto simp: proper_def)
    then show ?thesis using Cons by (simp add: join_def IsAbsolutePath_def)
  qed (simp add: join_def IsAbsolutePath_def)
  have same: "clean_spec u = clean_spec s" if "IsAbsolutePath u = a" "components u = cs" for u
    using that normal_resolved [OF n] unfolding e by (cases a) (auto simp: clean_spec_def Let_def)
  note rel
  moreover have "IsAbsolutePath (''/'' @ u)" "\<not> IsAbsolutePath ''.''" "components ''.'' = []" for u
    by (simp_all add: IsAbsolutePath_def components_def)
  ultimately have "IsAbsolutePath (clean_spec s) = a" "components (clean_spec s) = cs" unfolding e using slash components_join [OF l] by auto
  then show ?thesis using same by blast
qed

text \<open>Cleaning adds no characters but separators and dots.\<close>

lemma push_set: "set (push a st c) \<subseteq> set st \<union> {c}"
  by (auto simp: push_def dest: in_set_butlastD)

lemma resolve_set: "set (foldl (push a) st cs) \<subseteq> set st \<union> set cs"
proof (induction cs arbitrary: st)
  case (Cons c cs)
  show ?case using Cons [of "push a st c"] push_set [of a st c] by auto
qed simp

lemma components_chars: "c \<in> set (components s) \<Longrightarrow> set c \<subseteq> set s"
proof -
  have "set c \<subseteq> set s" if "c \<in> set (split_seps s)" for c s
    using that
  proof (induction s arbitrary: c)
    case (Cons x s)
    have "split_seps s \<noteq> []" by (cases s) auto
    then show ?case using Cons by (cases "split_seps s") (fastforce split: if_splits)+
  qed simp
  then show "c \<in> set (components s) \<Longrightarrow> set c \<subseteq> set s" by (simp add: components_def)
qed

lemma clean_spec_chars: "set (clean_spec s) \<subseteq> set s \<union> {CHR ''/'', CHR ''.''}"
proof -
  define cs where "cs = foldl (push (IsAbsolutePath s)) [] (components s)"
  have "set (join cs) \<subseteq> \<Union> (set ` set cs) \<union> {CHR ''/''}" by (auto simp: join_def dest!: in_set_butlastD split: if_splits)
  moreover have "\<Union> (set ` set cs) \<subseteq> set s"
    using resolve_set [of _ "[]" "components s"] components_chars [of _ s] unfolding cs_def by fastforce
  ultimately have "set (join cs) \<subseteq> set s \<union> {CHR ''/''}" by blast
  then show ?thesis unfolding clean_spec_def cs_def [symmetric] Let_def by auto
qed

section \<open>URIs\<close>

definition scheme_of :: "string \<Rightarrow> string" where
  "scheme_of uri = takeWhile (Matches LETTER_DIGIT_DOT) uri"

text \<open>The scheme is the longest prefix of letters, digits and dots, if it starts with a letter, has at least two
  characters and is followed by a colon and two slashes.\<close>

definition has_scheme :: "string \<Rightarrow> bool" where
  "has_scheme uri \<longleftrightarrow> uri \<noteq> [] \<and> IsLetter (hd uri) \<and> 2 \<le> length (scheme_of uri) \<and>
     prefix ''://'' (drop (length (scheme_of uri)) uri)"

lemma scheme_scan:
  "GetResult (OneLiteral ''://'' (StopCapture (Many LETTER_DIGIT_DOT (One LETTER (Scanner_new uri))))) =
     (if has_scheme uri then Some ((length (scheme_of uri) + 3, drop (length (scheme_of uri) + 3) uri), (0, scheme_of uri)) else None)"
proof -
  define s where "s = OneLiteral ''://'' (StopCapture (Many LETTER_DIGIT_DOT (One LETTER (Scanner_new uri))))"
  have err: "sc_error (OneLiteral ''://'' (StopCapture (Many LETTER_DIGIT_DOT x)))" if "sc_error x" for x
    using that by (simp add: OneLiteral_def ConsumePrefix_def StopCapture_def Many_def One_def sc_Error_def remove_prefix_def Any_consumes)
  have "GetResult s = (if has_scheme uri then Some ((length (scheme_of uri) + 3, drop (length (scheme_of uri) + 3) uri), (0, scheme_of uri)) else None)"
  proof (cases "uri \<noteq> [] \<and> IsLetter (hd uri)")
    case False
    then have "One LETTER (Scanner_new uri) = sc_Error (Scanner_new uri)" by (auto simp: One_def Scanner_new_def RestartCapture_def)
    then have "sc_error s" using err [of "sc_Error (Scanner_new uri)"] by (simp add: s_def sc_Error_def)
    then show ?thesis using False by (auto simp: GetResult_def has_scheme_def)
  next
    case True
    then obtain x xs where u: "uri = x # xs" "IsLetter x" by (cases uri) auto
    have o1: "One LETTER (Scanner_new uri) = (Scanner_new uri)\<lparr>sc_pos := 1\<rparr>"
      using u by (simp add: One_def Scanner_new_def RestartCapture_def remove_prefix_def)
    have x: "Matches LETTER_DIGIT_DOT x" using u(2) by simp
    show ?thesis
    proof (cases "xs \<noteq> [] \<and> Matches LETTER_DIGIT_DOT (hd xs)")
      case False
      then have "scheme_of uri = [x]" using u(1) x by (cases xs) (auto simp: scheme_of_def)
      moreover have "sc_error (Many LETTER_DIGIT_DOT (One LETTER (Scanner_new uri)))"
        unfolding o1 using False u(1) by (auto simp: Many_def One_def Scanner_new_def RestartCapture_def sc_Error_def Any_consumes)
      then have "sc_error s" by (simp add: s_def OneLiteral_def ConsumePrefix_def StopCapture_def remove_prefix_def)
      ultimately show ?thesis by (simp add: GetResult_def has_scheme_def)
    next
      case True
      then obtain y ys where ys: "xs = y # ys" "Matches LETTER_DIGIT_DOT y" by (cases xs) auto
      define n where "n = length (scheme_of uri)"
      have n: "n = 2 + length (takeWhile (Matches LETTER_DIGIT_DOT) ys)" using u(1) ys x by (simp add: n_def scheme_of_def)
      have m: "Many LETTER_DIGIT_DOT (One LETTER (Scanner_new uri)) = (Scanner_new uri)\<lparr>sc_pos := n\<rparr>"
        unfolding o1 n Many_def using u(1) ys by (simp add: One_def Any_consumes Scanner_new_def RestartCapture_def remove_prefix_def del: Matches.simps)
      have t: "take n uri = scheme_of uri" unfolding n_def scheme_of_def by (rule takeWhile_eq_take [symmetric])
      have hs: "has_scheme uri \<longleftrightarrow> prefix ''://'' (drop n uri)" unfolding has_scheme_def n_def [symmetric] using \<open>uri \<noteq> [] \<and> IsLetter (hd uri)\<close> n by simp
      show ?thesis unfolding s_def m hs n_def [symmetric]
        by (simp add: OneLiteral_def ConsumePrefix_def StopCapture_def GetResult_def Scanner_new_def RestartCapture_def remove_prefix_def t) (simp add: numeral_3_eq_3)
    qed
  qed
  then show ?thesis by (simp only: s_def)
qed

lemma host_scan:
  "GetResult (ScanUntil CHR ''/'' (Scanner_new r)) = (let h = takeWhile (\<lambda>c. c \<noteq> CHR ''/'') r in
     if CHR ''/'' \<in> set r then Some ((length h, drop (length h) r), (0, h)) else None)"
  by (simp add: ScanUntil_consumes GetResult_def Scanner_new_def RestartCapture_def Let_def takeWhile_eq_take [symmetric])

lemma ParseURI_eq:
  "ParseURI uri =
     (if has_scheme uri then
        let n = length (scheme_of uri); r = drop (n + 3) uri; h = takeWhile (\<lambda>c. c \<noteq> CHR ''/'') r
        in ((0, scheme_of uri), (n + 3, h), (n + 3 + length h, drop (length h) r))
      else ((0, []), (0, []), (0, uri)))"
proof (cases "has_scheme uri")
  case False
  then show ?thesis by (simp add: ParseURI_def scheme_scan)
next
  case True
  define r where "r = drop (length (scheme_of uri) + 3) uri"
  have all: "takeWhile (\<lambda>c. c \<noteq> CHR ''/'') r = r" if "CHR ''/'' \<notin> set r" using that by (auto simp: takeWhile_eq_all_conv)
  show ?thesis
  proof (cases "CHR ''/'' \<in> set r")
    case slash: True
    show ?thesis unfolding ParseURI_def scheme_scan if_P [OF True] r_def [symmetric] host_scan option.case case_prod_conv Let_def if_P [OF slash] by simp
  next
    case False
    show ?thesis unfolding ParseURI_def scheme_scan if_P [OF True] r_def [symmetric] host_scan option.case case_prod_conv Let_def if_not_P [OF False] all [OF False] by simp
  qed
qed

lemma ParseURI_pieces:
  assumes "ParseURI uri = ((s, scheme), (h, host), (p, path))"
  shows "path = drop p uri" "p = h + length host" "CreateURI scheme host path = uri"
proof -
  have "path = drop p uri \<and> p = h + length host \<and> CreateURI scheme host path = uri"
  proof (cases "has_scheme uri")
    case False
    then show ?thesis using assms by (auto simp: ParseURI_eq CreateURI_def)
  next
    case True
    let ?n = "length (scheme_of uri)" and ?r = "drop (length (scheme_of uri) + 3) uri"
    let ?h = "takeWhile (\<lambda>c. c \<noteq> CHR ''/'') ?r"
    have e: "scheme = scheme_of uri" "host = ?h" "h = ?n + 3" "p = ?n + 3 + length ?h" "path = drop (length ?h) ?r"
      using assms unfolding ParseURI_eq if_P [OF True] Let_def by blast+
    obtain z where z: "drop ?n uri = ''://'' @ z" using True by (auto simp: has_scheme_def prefix_def)
    have "uri = take ?n uri @ ''://'' @ z" using z by (metis append_take_drop_id)
    moreover have "take ?n uri = scheme_of uri" unfolding scheme_of_def by (rule takeWhile_eq_take [symmetric])
    moreover have "?r = z" using arg_cong [OF z, of "drop 3"] by (simp add: add.commute)
    moreover have "?h @ drop (length ?h) ?r = ?r" by (metis append_take_drop_id takeWhile_eq_take)
    moreover have "scheme_of uri \<noteq> []" using True by (auto simp: has_scheme_def)
    ultimately show ?thesis unfolding e by (auto simp: CreateURI_def add.commute)
  qed
  then show "path = drop p uri" "p = h + length host" "CreateURI scheme host path = uri" by auto
qed

lemma rfind_split:
  assumes "rfind s c = Some pos"
  shows "pos < length s" "s ! pos = c" "c \<notin> set (drop (Suc pos) s)"
proof -
  have c: "c \<in> set s" and pos: "pos = length s - 1 - length (takeWhile (\<lambda>x. x \<noteq> c) (rev s))" using assms by (auto simp: rfind_def split: if_splits)
  then obtain a b where s: "s = a @ c # b" "c \<notin> set b" using split_list_last by fastforce
  have "takeWhile (\<lambda>x. x \<noteq> c) (rev s) = rev b" using s by (simp add: takeWhile_append)
  then have "pos = length a" using pos s(1) by simp
  then show "pos < length s" "s ! pos = c" "c \<notin> set (drop (Suc pos) s)" using s by (auto simp: nth_append)
qed

lemma rfind_None: "rfind s c = None \<longleftrightarrow> c \<notin> set s"
  by (simp add: rfind_def)

lemma split_at: "pos < length s \<Longrightarrow> take pos s @ s ! pos # drop (Suc pos) s = s"
  by (simp add: id_take_nth_drop [symmetric])

lemma SplitPath_parts: "\<exists>sep. uri = Dirname uri @ sep @ Basename uri \<and> sep \<in> {[], ''/''} \<and> CHR ''/'' \<notin> set (Basename uri)"
proof -
  obtain s scheme h host p path where u: "ParseURI uri = ((s, scheme), (h, host), (p, path))" by (metis prod.collapse)
  note parts = ParseURI_pieces [OF u]
  have d: "Dirname uri = fst (SplitPath uri)" "Basename uri = snd (SplitPath uri)" by (simp_all add: Dirname_def Basename_def)
  show ?thesis
  proof (cases "rfind path CHR ''/''")
    case None
    then have e: "SplitPath uri = (take p uri, path)" using u parts(2) by (simp add: SplitPath_def)
    show ?thesis unfolding d e using None parts(1) by (intro exI [of _ "[]"]) (simp add: rfind_None)
  next
    case (Some pos)
    note f = rfind_split [OF Some]
    have e: "SplitPath uri = (if pos = 0 then (take (p + 1) uri, drop 1 path) else (take (p + pos) uri, drop (Suc pos) path))"
      using u Some by (simp add: SplitPath_def)
    have at: "p + pos < length uri" "uri ! (p + pos) = CHR ''/''" "drop (Suc pos) path = drop (Suc (p + pos)) uri" using f(1,2) parts(1) by (auto simp: add.commute)
    show ?thesis
    proof (cases "pos = 0")
      case True
      then show ?thesis unfolding d e using f(3) parts(1) by (intro exI [of _ "[]"]) simp
    next
      case False
      then show ?thesis unfolding d e using f(3) at split_at [OF at(1)] by (intro exI [of _ "''/''"]) simp
    qed
  qed
qed

lemma SplitBasename_parts:
  "\<exists>sep. Basename p = fst (SplitBasename p) @ sep @ Extension p \<and> sep = (if CHR ''.'' \<in> set (Basename p) then ''.'' else []) \<and>
     CHR ''.'' \<notin> set (Extension p)"
proof (cases "rfind (Basename p) CHR ''.''")
  case None
  then have "SplitBasename p = (Basename p, [])" by (simp add: SplitBasename_def)
  then show ?thesis using None by (simp add: Extension_def rfind_None)
next
  case (Some pos)
  note f = rfind_split [OF Some]
  have "CHR ''.'' \<in> set (Basename p)" using f(1,2) by (metis nth_mem)
  moreover have "SplitBasename p = (take pos (Basename p), drop (Suc pos) (Basename p))" using Some by (simp add: SplitBasename_def Let_def)
  ultimately show ?thesis using f(3) split_at [OF f(1)] f(2) by (simp add: Extension_def)
qed

lemma ParseURI_CreateURI:
  assumes "2 \<le> length scheme" "IsLetter (hd scheme)" "list_all (Matches LETTER_DIGIT_DOT) scheme"
    and "CHR ''/'' \<notin> set host" "path = [] \<or> hd path = CHR ''/''"
  shows "ParseURI (CreateURI scheme host path) =
    ((0, scheme), (length scheme + 3, host), (length scheme + 3 + length host, path))"
proof -
  let ?uri = "scheme @ ''://'' @ host @ path"
  have ne: "scheme \<noteq> []" using assms(1) by auto
  have c: "\<not> Matches LETTER_DIGIT_DOT CHR '':''" by (simp add: IsLetter_def IsDigit_def char_between_def)
  have s: "scheme_of ?uri = scheme" unfolding scheme_of_def using assms(3) c by (simp add: takeWhile_append list_all_iff del: Matches.simps)
  have h: "has_scheme ?uri" unfolding has_scheme_def s using assms(1,2) ne by simp
  have "takeWhile (\<lambda>c. c \<noteq> CHR ''/'') (host @ path) = host" using assms(4,5) by (cases path) (auto simp: takeWhile_append)
  moreover have "drop (length scheme + 3) ?uri = host @ path" by (simp add: numeral_3_eq_3)
  ultimately show ?thesis using ne unfolding CreateURI_def if_not_P [OF ne] ParseURI_eq if_P [OF h] s Let_def by (simp only: if_False append_eq_conv_conj) simp
qed

section \<open>Joining\<close>

lemma components_append: "components (r @ CHR ''/'' # p) = components r @ components p"
proof -
  have "split_seps (r @ CHR ''/'' # p) = split_seps r @ split_seps p"
  proof (induction r)
    case (Cons x r)
    have "split_seps r \<noteq> []" by (cases r) auto
    then show ?case using Cons by auto
  qed simp
  then show ?thesis by (simp add: components_def)
qed

lemma components_empty [simp]: "components [] = []"
  by (simp add: components_def)

lemma JoinPath_loop_components: "components (JoinPath_loop r ps) = components r @ concat (map components ps)"
proof (induction ps arbitrary: r)
  case (Cons p ps)
  let ?r = "if p = [] then r else if r = [] then p else if last r = CHR ''/'' then (if IsAbsolutePath p then r @ drop 1 p else r @ p)
    else if IsAbsolutePath p then r @ p else r @ ''/'' @ p"
  have "components ?r = components r @ components p"
  proof (cases "p = [] \<or> r = []")
    case False
    then obtain p0 p' r0 r' where p: "p = p0 # p'" and r: "r = r' @ [r0]" by (cases p; cases r rule: rev_cases) auto
    have a: "IsAbsolutePath p \<longleftrightarrow> p0 = CHR ''/''" by (simp add: p IsAbsolutePath_def)
    have s: "components (CHR ''/'' # x) = components x" "components (x @ ''/'') = components x" for x
      using components_append [of "[]" x] components_append [of x "[]"] by simp_all
    show ?thesis using components_append [of r p] components_append [of r p'] components_append [of r' p] components_append [of r' p'] s
      unfolding a by (cases "r0 = CHR ''/''"; cases "p0 = CHR ''/''") (simp_all add: p r)
  qed auto
  then show ?case using Cons [of ?r] by simp
qed simp

section \<open>Properties\<close>

text \<open>C36. \<^verbatim>\<open>CleanPath\<close>, which rewrites the path in place while it reads it, computes the lexical resolution of the
  components of the path: empty components and single dots vanish, a double dot removes the component before it, stays
  at the front of a relative path and vanishes at the root, and an empty result is a single dot. A path that was cleaned
  is not changed by cleaning it again, and cleaning a joined path resolves the components of all its parts in turn.\<close>

theorem CleanPath_resolves:
  "CleanPath p = clean_spec (cstr p 0) \<and> CleanPath (CleanPath p) = CleanPath p \<and>
   components (JoinPathImpl ps) = concat (map components ps)"
proof -
  have "CHR 0x00 \<notin> set (cstr p 0)" by (auto simp: cstr_def dest: set_takeWhileD)
  then have "CHR 0x00 \<notin> set (CleanPath p)" using clean_spec_chars [of "cstr p 0"] unfolding CleanPath_eq by auto
  then have "cstr (CleanPath p) 0 = CleanPath p" unfolding cstr_def drop_0 by (auto simp: takeWhile_eq_all_conv)
  then show ?thesis using CleanPath_eq [of "CleanPath p"] clean_spec_idem JoinPath_loop_components [of "[]" ps]
    by (simp add: CleanPath_eq [of p] JoinPathImpl_def)
qed

text \<open>C37. URIs round trip. Whatever the string, its scheme, host and path put together again give the string, the directory
  and the base name are its parts before and after the last separator of the path, and the extension is what follows the
  last dot of the base name; and the scheme (of at least two characters), host and path of a URI that was put together are
  found again.\<close>

theorem uri_roundtrip:
  "(case ParseURI uri of ((_, scheme), (_, host), (_, path)) \<Rightarrow> CreateURI scheme host path = uri) \<and>
   (\<exists>sep. uri = Dirname uri @ sep @ Basename uri \<and> sep \<in> {[], ''/''} \<and> CHR ''/'' \<notin> set (Basename uri)) \<and>
   (\<exists>sep. Basename uri = fst (SplitBasename uri) @ sep @ Extension uri \<and>
      sep = (if CHR ''.'' \<in> set (Basename uri) then ''.'' else []) \<and> CHR ''.'' \<notin> set (Extension uri)) \<and>
   (2 \<le> length scheme \<and> IsLetter (hd scheme) \<and> list_all (Matches LETTER_DIGIT_DOT) scheme \<and>
      CHR ''/'' \<notin> set host \<and> (path = [] \<or> hd path = CHR ''/'') \<longrightarrow>
    ParseURI (CreateURI scheme host path) =
      ((0, scheme), (length scheme + 3, host), (length scheme + 3 + length host, path)))"
proof -
  obtain a b c d e f where u: "ParseURI uri = ((a, b), (c, d), (e, f))" by (metis prod.collapse)
  show ?thesis using ParseURI_pieces(3) [OF u] SplitPath_parts [of uri] SplitBasename_parts [of uri] ParseURI_CreateURI [of scheme host path]
    unfolding u by auto
qed

theorem uri_roundtrip_witness:
  "ParseURI ''gs://bucket/a.b'' = ((0, ''gs''), (5, ''bucket''), (11, ''/a.b''))"
  using uri_roundtrip [of "[]" "''gs''" "''bucket''" "''/a.b''"]
  by (simp add: CreateURI_def IsLetter_def IsDigit_def char_between_def)

end
