(* ===== verification/Base64.thy ===== *)
theory Base64
  imports TF_Prelude
begin

text \<open>
  \<^verbatim>\<open>core/lib/strings/base64.cc\<close>: web-safe base64. A \<^verbatim>\<open>char\<close> is a byte; where the source
  computes with it, it is promoted to a 32-bit \<^verbatim>\<open>int\<close> by sign extension, \<open>scast\<close>, and shifted
  arithmetically, \<open>signed_drop_bit\<close>. The output argument is a pointer: \<open>None\<close> is \<^verbatim>\<open>nullptr\<close>, and an
  error leaves what it points to. The buffer is the list of the bytes written to it so far; running out of
  memory for it (\<^verbatim>\<open>new\<close> throws) is left out.
\<close>

section \<open>Tables and characters\<close>

definition kBase64Bytes :: "8 word list" where
  "kBase64Bytes =
     [-1,   -1,   -1,   -1,   -1,   -1,   -1,   -1,   -1,   -1,   -1,   -1,
      -1,   -1,   -1,   -1,   -1,   -1,   -1,   -1,   -1,   -1,   -1,   -1,
      -1,   -1,   -1,   -1,   -1,   -1,   -1,   -1,   -1,   -1,   -1,   -1,
      -1,   -1,   -1,   -1,   -1,   -1,   -1,   -1,   -1,  0x3E,  -1,   -1,
     0x34, 0x35, 0x36, 0x37, 0x38, 0x39, 0x3A, 0x3B, 0x3C, 0x3D,  -1,   -1,
      -1,   -1,   -1,   -1,   -1,  0x00, 0x01, 0x02, 0x03, 0x04, 0x05, 0x06,
     0x07, 0x08, 0x09, 0x0A, 0x0B, 0x0C, 0x0D, 0x0E, 0x0F, 0x10, 0x11, 0x12,
     0x13, 0x14, 0x15, 0x16, 0x17, 0x18, 0x19,  -1,   -1,   -1,   -1,  0x3F,
      -1,  0x1A, 0x1B, 0x1C, 0x1D, 0x1E, 0x1F, 0x20, 0x21, 0x22, 0x23, 0x24,
     0x25, 0x26, 0x27, 0x28, 0x29, 0x2A, 0x2B, 0x2C, 0x2D, 0x2E, 0x2F, 0x30,
     0x31, 0x32, 0x33,  -1,   -1,   -1,   -1,   -1]"

definition byte_of_char :: "char \<Rightarrow> byte" where
  "byte_of_char c = word_of_nat (of_char c)"

definition kBase64UrlSafeChars :: bytes where
  "kBase64UrlSafeChars = map byte_of_char
     ''ABCDEFGHIJKLMNOPQRSTUVWXYZabcdefghijklmnopqrstuvwxyz0123456789-_''"

definition kPadChar :: byte where "kPadChar = byte_of_char CHR ''=''"

definition Convert :: "byte \<Rightarrow> uint32" where
  "Convert x =
     (let y = (kBase64Bytes ! unat (x AND 0x7F)) OR (x AND 0x80) :: 8 word
      in scast y)"

section \<open>Decoding\<close>

text \<open>\<^verbatim>\<open>DecodeThreeChars\<close>: \<open>Inl\<close> is the error; the arguments are the four characters at
  \<^verbatim>\<open>codes\<close>.\<close>

definition DecodeThreeChars :: "byte \<Rightarrow> byte \<Rightarrow> byte \<Rightarrow> byte \<Rightarrow> status + bytes" where
  "DecodeThreeChars c0 c1 c2 c3 =
     (let packed = push_bit 18 (Convert c0) OR push_bit 12 (Convert c1) OR push_bit 6 (Convert c2) OR Convert c3
      in if packed AND 0xFF000000 \<noteq> 0 then Inl (Error INVALID_ARGUMENT ''Invalid character found in base64.'')
         else Inr [ucast (drop_bit 16 packed), ucast (drop_bit 8 packed), ucast packed])"

text \<open>The loop over the groups that are not the last one: it returns the buffer and the rest of the input.\<close>

fun Base64Decode_loop :: "bytes \<Rightarrow> bytes \<Rightarrow> status + bytes \<times> bytes" where
  "Base64Decode_loop (c0 # c1 # c2 # c3 # c4 # b64) buffer =
     (case DecodeThreeChars c0 c1 c2 c3 of Inl e \<Rightarrow> Inl e
      | Inr r \<Rightarrow> Base64Decode_loop (c4 # b64) (buffer @ r))"
| "Base64Decode_loop b64 buffer = Inr (buffer, b64)"

definition trim_padding :: "bytes \<Rightarrow> bytes" where
  "trim_padding b64 =
     (if length b64 = 4 then
        if b64 ! 2 = kPadChar \<and> b64 ! 3 = kPadChar then take 2 b64
        else if b64 ! 2 \<noteq> kPadChar \<and> b64 ! 3 = kPadChar then take 3 b64
        else b64
      else b64)"

definition Base64Decode :: "bytes \<Rightarrow> bytes option \<Rightarrow> status \<times> bytes option" where
  "Base64Decode data decoded =
     (if decoded = None then (Error INTERNAL '''decoded' cannot be nullptr.'', None)
      else if data = [] then (OK, Some [])
      else case Base64Decode_loop data [] of Inl e \<Rightarrow> (e, decoded)
        | Inr (buffer, b64) \<Rightarrow>
            (let b64 = trim_padding b64; remain = length b64 in
             if remain = 1 then (Error INVALID_ARGUMENT ''Base64 string length cannot be 1 modulo 4.'', decoded)
             else
               let tail = b64 @ replicate (4 - remain) (kBase64UrlSafeChars ! 0) in
               case DecodeThreeChars (tail ! 0) (tail ! 1) (tail ! 2) (tail ! 3) of Inl e \<Rightarrow> (e, decoded)
               | Inr r \<Rightarrow> (OK, Some (take (length buffer + remain - 1) (buffer @ r)))))"

section \<open>Encoding\<close>

abbreviation prom :: "byte \<Rightarrow> 32 word" where "prom b \<equiv> scast b"

abbreviation base64_char :: "32 word \<Rightarrow> byte" where "base64_char i \<equiv> kBase64UrlSafeChars ! unat i"

fun Base64Encode_loop :: "bytes \<Rightarrow> bytes \<Rightarrow> bytes \<times> bytes" where
  "Base64Encode_loop (d0 # d1 # d2 # data) buffer =
     Base64Encode_loop data (buffer @
       [base64_char (signed_drop_bit 2 (prom d0) AND 0x3F),
        base64_char (push_bit 4 (prom d0 AND 0x03) OR (signed_drop_bit 4 (prom d1) AND 0x0F)),
        base64_char (push_bit 2 (prom d1 AND 0x0F) OR (signed_drop_bit 6 (prom d2) AND 0x03)),
        base64_char (prom d2 AND 0x3F)])"
| "Base64Encode_loop data buffer = (buffer, data)"

fun encode_tail :: "bool \<Rightarrow> bytes \<Rightarrow> bytes" where
  "encode_tail with_padding [d0, d1] =
     [base64_char (signed_drop_bit 2 (prom d0) AND 0x3F),
      base64_char (push_bit 4 (prom d0 AND 0x03) OR (signed_drop_bit 4 (prom d1) AND 0x0F)),
      base64_char (push_bit 2 (prom d1 AND 0x0F))] @
     (if with_padding then [kPadChar] else [])"
| "encode_tail with_padding [d0] =
     [base64_char (signed_drop_bit 2 (prom d0) AND 0x3F),
      base64_char (push_bit 4 (prom d0 AND 0x03))] @
     (if with_padding then [kPadChar, kPadChar] else [])"
| "encode_tail with_padding _ = []"

definition Base64Encode :: "bytes \<Rightarrow> bool \<Rightarrow> bytes option \<Rightarrow> status \<times> bytes option" where
  "Base64Encode source with_padding encoded =
     (if encoded = None then (Error INTERNAL '''encoded' cannot be nullptr.'', None)
      else let (buffer, data) = Base64Encode_loop source []
           in (OK, Some (buffer @ encode_tail with_padding data)))"

definition Base64Encode_default :: "bytes \<Rightarrow> bytes option \<Rightarrow> status \<times> bytes option" where
  "Base64Encode_default source encoded = Base64Encode source False encoded"

section \<open>Characters and six-bit values\<close>

definition valid_char :: "byte \<Rightarrow> bool" where
  "valid_char b \<longleftrightarrow> b \<in> set kBase64UrlSafeChars"

lemma Convert_table: "list_all (\<lambda>i. Convert (kBase64UrlSafeChars ! i) = word_of_nat i) [0..<64]"
  by code_simp

lemma Bytes_table: "list_all (\<lambda>i. kBase64Bytes ! i = -1 \<or>
    unat (kBase64Bytes ! i) < 64 \<and> kBase64UrlSafeChars ! unat (kBase64Bytes ! i) = word_of_nat i) [0..<128]"
  by code_simp

lemma length_chars [simp]: "length kBase64UrlSafeChars = 64"
  by code_simp

lemma pad_not_valid: "\<not> valid_char kPadChar"
  unfolding valid_char_def by code_simp

lemma Convert_char:
  assumes "unat (i :: uint32) < 64" shows "Convert (base64_char i) = i"
proof -
  have "Convert (kBase64UrlSafeChars ! unat i) = word_of_nat (unat i)"
    using Convert_table assms by (simp add: list_all_iff)
  then show ?thesis by simp
qed

lemma valid_base64_char: "unat (i :: uint32) < 64 \<Longrightarrow> valid_char (base64_char i)"
  by (simp add: valid_char_def)

lemma valid_char_iff: "valid_char b \<longleftrightarrow> (\<exists>i < 64. b = kBase64UrlSafeChars ! i)"
  by (auto simp: valid_char_def in_set_conv_nth)

lemma Convert_invalid_sign:
  assumes "\<not> valid_char b" shows "bit ((kBase64Bytes ! unat (b AND 0x7F)) OR (b AND 0x80)) 7"
proof (cases "bit b 7")
  case False
  have "b AND 0x7F = b"
  proof (rule bit_word_eqI)
    fix n assume "n < LENGTH(8)"
    then show "bit (b AND 0x7F) n = bit b n" using False by (cases "n = 7") (auto simp: bit_simps word_bits)
  qed
  moreover have "unat (b AND 0x7F) < 2 ^ 7"
  proof -
    have "b AND 0x7F = take_bit 7 b" by (simp add: take_bit_eq_mask mask_eq_exp_minus_1)
    then show ?thesis using take_bit_nat_less_exp [of 7 "unat b"] by (simp add: unsigned_take_bit_eq)
  qed
  ultimately have lt: "unat b < 128" by simp
  then have "kBase64Bytes ! unat b = -1 \<or>
    unat (kBase64Bytes ! unat b) < 64 \<and> kBase64UrlSafeChars ! unat (kBase64Bytes ! unat b) = b"
    using Bytes_table by (auto simp: list_all_iff)
  then have "kBase64Bytes ! unat b = -1" using assms by (auto simp: valid_char_iff)
  then show ?thesis using \<open>b AND 0x7F = b\<close> by (simp add: bit_simps)
qed (simp add: bit_simps word_bits)

lemma Convert_bits:
  shows "valid_char b \<Longrightarrow> bit (Convert b) n \<Longrightarrow> n < 6"
    and "\<not> valid_char b \<Longrightarrow> 7 \<le> n \<Longrightarrow> n < 32 \<Longrightarrow> bit (Convert b) n"
proof -
  show "n < 6" if v: "valid_char b" and b: "bit (Convert b) n"
  proof (rule ccontr)
    assume n: "\<not> n < 6"
    obtain i where i: "i < 64" "b = kBase64UrlSafeChars ! i" using v by (auto simp: valid_char_iff)
    then have "Convert b = word_of_nat i" using Convert_table by (simp add: list_all_iff)
    moreover have "unat (word_of_nat i :: uint32) < 2 ^ 6" using i by (simp add: unsigned_of_nat take_bit_nat_eq_self)
    ultimately show False using bit_small_word [of "Convert b" 6 n] b n by simp
  qed
  show "bit (Convert b) n" if v: "\<not> valid_char b" and n: "7 \<le> n" "n < 32"
    unfolding Convert_def Let_def using Convert_invalid_sign [OF v] n by (simp add: bit_signed_iff)
qed

lemma high_byte: "(0xFF000000 :: uint32) = push_bit 24 (mask 8)"
  by (simp add: push_bit_eq_mult mask_eq_exp_minus_1)

text \<open>The packed word has a bit in its high byte exactly when one of the characters is not in the alphabet.\<close>

lemma packed_high_iff:
  "(push_bit 18 (Convert a) OR push_bit 12 (Convert b) OR push_bit 6 (Convert c) OR Convert d) AND 0xFF000000 = 0 \<longleftrightarrow>
     valid_char a \<and> valid_char b \<and> valid_char c \<and> valid_char d"
  (is "?p AND _ = 0 \<longleftrightarrow> ?v")
proof
  assume z: "?p AND 0xFF000000 = 0"
  have "\<not> bit (?p AND 0xFF000000) 31" unfolding z by simp
  then have "\<not> bit ?p 31" unfolding high_byte by (simp add: bit_simps)
  then show ?v using Convert_bits(2) [of a 13] Convert_bits(2) [of b 19] Convert_bits(2) [of c 25] Convert_bits(2) [of d 31]
    by (auto simp: bit_simps)
next
  assume v: ?v
  show "?p AND 0xFF000000 = 0"
  proof (rule bit_word_eqI)
    fix n assume "n < LENGTH(32)"
    show "bit (?p AND 0xFF000000) n = bit (0 :: uint32) n"
      unfolding high_byte using v by (auto simp: bit_simps dest!: Convert_bits(1) [rotated])
  qed
qed

lemma DecodeThreeChars_error:
  "(\<exists>r. DecodeThreeChars a b c d = Inr r \<and> length r = 3) \<longleftrightarrow> valid_char a \<and> valid_char b \<and> valid_char c \<and> valid_char d"
  "\<not> (valid_char a \<and> valid_char b \<and> valid_char c \<and> valid_char d) \<Longrightarrow>
     DecodeThreeChars a b c d = Inl (Error INVALID_ARGUMENT ''Invalid character found in base64.'')"
  unfolding DecodeThreeChars_def Let_def packed_high_iff by auto

section \<open>Groups of three bytes\<close>

lemma masks: "(0x3F :: 32 word) = mask 6" "(0x0F :: 32 word) = mask 4" "(0x03 :: 32 word) = mask 2"
  by (simp_all add: mask_eq_exp_minus_1)

lemma bit_prom: "n < 8 \<Longrightarrow> bit (prom b) n \<longleftrightarrow> bit b n"
  by (cases "n = 7") (auto simp: bit_simps min_def)

lemma bit_shifted_prom: "k + m \<le> 8 \<Longrightarrow> bit (signed_drop_bit k (prom b) AND mask m) n \<longleftrightarrow> n < m \<and> bit b (k + n)"
  using bit_prom [of "k + n" b] by (auto simp: bit_signed_drop_bit_iff bit_and_iff bit_mask_iff)

lemma bit_masked_prom: "m \<le> 8 \<Longrightarrow> bit (prom b AND mask m) n \<longleftrightarrow> n < m \<and> bit b n"
  using bit_prom [of n b] by (auto simp: bit_and_iff bit_mask_iff)

lemma six_bits: "(\<And>n. bit (w :: uint32) n \<Longrightarrow> n < 6) \<Longrightarrow> unat w < 64"
proof -
  assume b: "\<And>n. bit w n \<Longrightarrow> n < 6"
  have "w = take_bit 6 w" by (rule bit_word_eqI) (auto simp: bit_simps dest: b)
  then have "unat w = take_bit 6 (unat w)" by (metis unsigned_take_bit_eq)
  also have "\<dots> < 2 ^ 6" by (rule take_bit_nat_less_exp)
  finally show ?thesis by simp
qed

lemmas index_bits = masks bit_shifted_prom bit_masked_prom bit_simps

lemma indices_small:
  "unat (signed_drop_bit 2 (prom a) AND 0x3F) < 64"
  "unat (push_bit 4 (prom a AND 0x03) OR (signed_drop_bit 4 (prom b) AND 0x0F)) < 64"
  "unat (push_bit 2 (prom b AND 0x0F) OR (signed_drop_bit 6 (prom c) AND 0x03)) < 64"
  "unat (prom c AND 0x3F) < 64" "unat (push_bit 4 (prom a AND 0x03)) < 64" "unat (push_bit 2 (prom b AND 0x0F)) < 64"
  by (rule six_bits; auto simp: index_bits)+

text \<open>Decoding the four characters of a group, whole or cut after one or two bytes.\<close>

lemma decode_group:
  assumes i: "unat i0 < 64" "unat i1 < 64" "unat i2 < 64" "unat i3 < 64"
  shows "DecodeThreeChars (base64_char i0) (base64_char i1) (base64_char i2) (base64_char i3) =
    Inr [ucast (drop_bit 16 (push_bit 18 i0 OR push_bit 12 i1 OR push_bit 6 i2 OR i3)),
         ucast (drop_bit 8 (push_bit 18 i0 OR push_bit 12 i1 OR push_bit 6 i2 OR i3)),
         ucast (push_bit 18 i0 OR push_bit 12 i1 OR push_bit 6 i2 OR i3)]"
proof -
  have "(push_bit 18 i0 OR push_bit 12 i1 OR push_bit 6 i2 OR i3) AND 0xFF000000 = 0"
    using packed_high_iff [of "base64_char i0" "base64_char i1" "base64_char i2" "base64_char i3"]
      valid_base64_char i Convert_char by simp
  then show ?thesis by (simp add: DecodeThreeChars_def Let_def Convert_char i)
qed

lemma group_bytes:
  fixes a b c :: byte
  defines "w \<equiv> push_bit 18 (signed_drop_bit 2 (prom a) AND 0x3F) OR
    push_bit 12 (push_bit 4 (prom a AND 0x03) OR (signed_drop_bit 4 (prom b) AND 0x0F)) OR
    push_bit 6 (push_bit 2 (prom b AND 0x0F) OR (signed_drop_bit 6 (prom c) AND 0x03)) OR (prom c AND 0x3F)"
  shows "ucast (drop_bit 16 w) = a" "ucast (drop_bit 8 w) = b" "ucast w = c"
proof -
  have w: "bit w n \<longleftrightarrow> (if n < 8 then bit c n else if n < 16 then bit b (n - 8) else n < 24 \<and> bit a (n - 16))" for n
  proof -
    have "n < 6 \<or> (\<exists>k < 2. n = 6 + k) \<or> (\<exists>k < 4. n = 8 + k) \<or> (\<exists>k < 4. n = 12 + k) \<or> (\<exists>k < 2. n = 16 + k) \<or>
        (\<exists>k < 6. n = 18 + k) \<or> (\<exists>k. n = 24 + k)" by presburger
    then show ?thesis
      unfolding w_def masks
      by (elim disjE exE conjE)
         (simp_all add: bit_or_iff bit_push_bit_iff bit_shifted_prom bit_masked_prom
            del: push_bit_and push_bit_or push_bit_push_bit)
  qed
  show "ucast (drop_bit 16 w) = a" by (rule bit_word_eqI) (auto simp: bit_simps w)
  show "ucast (drop_bit 8 w) = b" by (rule bit_word_eqI) (auto simp: bit_simps w)
  show "ucast w = c" by (rule bit_word_eqI) (auto simp: bit_simps w)
qed

text \<open>The last group: bytes that are not there count as zero.\<close>

lemma decode_encoded_group:
  "DecodeThreeChars (base64_char (signed_drop_bit 2 (prom a) AND 0x3F))
     (base64_char (push_bit 4 (prom a AND 0x03) OR (signed_drop_bit 4 (prom b) AND 0x0F)))
     (base64_char (push_bit 2 (prom b AND 0x0F) OR (signed_drop_bit 6 (prom c) AND 0x03)))
     (base64_char (prom c AND 0x3F)) = Inr [a, b, c]"
  using decode_group [OF indices_small(1) [of a] indices_small(2) [of a b] indices_small(3) [of b c] indices_small(4) [of c]]
  by (simp only: group_bytes)

lemma decode_encoded_two:
  "DecodeThreeChars (base64_char (signed_drop_bit 2 (prom a) AND 0x3F))
     (base64_char (push_bit 4 (prom a AND 0x03) OR (signed_drop_bit 4 (prom b) AND 0x0F)))
     (base64_char (push_bit 2 (prom b AND 0x0F))) (kBase64UrlSafeChars ! 0) = Inr [a, b, 0]"
  using decode_encoded_group [of a b 0] by simp

lemma decode_encoded_one:
  "DecodeThreeChars (base64_char (signed_drop_bit 2 (prom a) AND 0x3F))
     (base64_char (push_bit 4 (prom a AND 0x03))) (kBase64UrlSafeChars ! 0) (kBase64UrlSafeChars ! 0) = Inr [a, 0, 0]"
  using decode_encoded_group [of a 0 0] by simp

section \<open>Whole strings\<close>

text \<open>The encoding, group by group.\<close>

fun base64 :: "bool \<Rightarrow> bytes \<Rightarrow> bytes" where
  "base64 pad (d0 # d1 # d2 # data) =
     [base64_char (signed_drop_bit 2 (prom d0) AND 0x3F),
      base64_char (push_bit 4 (prom d0 AND 0x03) OR (signed_drop_bit 4 (prom d1) AND 0x0F)),
      base64_char (push_bit 2 (prom d1 AND 0x0F) OR (signed_drop_bit 6 (prom d2) AND 0x03)),
      base64_char (prom d2 AND 0x3F)] @ base64 pad data"
| "base64 pad data = encode_tail pad data"

lemma Base64Encode_loop_eq:
  "Base64Encode_loop source buffer = (b, data) \<Longrightarrow> b @ encode_tail pad data = buffer @ base64 pad source"
  by (induction source buffer rule: Base64Encode_loop.induct) auto

lemma Base64Encode_eq: "Base64Encode source pad (Some e) = (OK, Some (base64 pad source))"
  using Base64Encode_loop_eq [of source "[]" _ _ pad] by (auto simp: Base64Encode_def split: prod.split)

lemma base64_eq_Nil [simp]: "base64 pad source = [] \<longleftrightarrow> source = []"
  by (cases "(pad, source)" rule: base64.cases) auto

text \<open>What \<^verbatim>\<open>Base64Decode\<close> does after its loop.\<close>

definition finish_decode :: "bytes \<Rightarrow> bytes \<Rightarrow> status + bytes" where
  "finish_decode buffer b64 =
     (let b64 = trim_padding b64; remain = length b64 in
      if remain = 1 then Inl (Error INVALID_ARGUMENT ''Base64 string length cannot be 1 modulo 4.'')
      else let tail = b64 @ replicate (4 - remain) (kBase64UrlSafeChars ! 0) in
        case DecodeThreeChars (tail ! 0) (tail ! 1) (tail ! 2) (tail ! 3) of Inl e \<Rightarrow> Inl e
        | Inr r \<Rightarrow> Inr (take (length buffer + remain - 1) (buffer @ r)))"

definition decode_from :: "bytes \<Rightarrow> bytes \<Rightarrow> status + bytes" where
  "decode_from data buffer = (case Base64Decode_loop data buffer of Inl e \<Rightarrow> Inl e | Inr (b, c) \<Rightarrow> finish_decode b c)"

lemma Base64Decode_eq:
  "data \<noteq> [] \<Longrightarrow> Base64Decode data (Some d) = (case decode_from data [] of Inl e \<Rightarrow> (e, Some d) | Inr r \<Rightarrow> (OK, Some r))"
  by (auto simp: Base64Decode_def decode_from_def finish_decode_def Let_def split: sum.splits prod.splits)

lemma decode_from_group:
  "rest \<noteq> [] \<Longrightarrow> decode_from (c0 # c1 # c2 # c3 # rest) buffer =
     (case DecodeThreeChars c0 c1 c2 c3 of Inl e \<Rightarrow> Inl e | Inr r \<Rightarrow> decode_from rest (buffer @ r))"
  by (cases rest) (auto simp: decode_from_def split: sum.split)

lemma decode_from_last: "length data \<le> 4 \<Longrightarrow> decode_from data buffer = finish_decode buffer data"
  by (cases "(data, buffer)" rule: Base64Decode_loop.cases) (auto simp: decode_from_def)

lemma chars_not_pad [simp]: "unat (i :: uint32) < 64 \<Longrightarrow> base64_char i \<noteq> kPadChar"
  using valid_base64_char pad_not_valid by metis

lemma decode_base64: "source \<noteq> [] \<Longrightarrow> decode_from (base64 pad source) buffer = Inr (buffer @ source)"
proof (induction pad source arbitrary: buffer rule: base64.induct [case_names group none one two])
  case (group pad d0 d1 d2 data)
  show ?case
  proof (cases "data = []")
    case True
    then show ?thesis
      using indices_small [of d2] decode_encoded_group [of d0 d1 d2]
      by (simp add: decode_from_last finish_decode_def trim_padding_def)
  next
    case False
    then show ?thesis using group decode_encoded_group [of d0 d1 d2] by (simp add: decode_from_group)
  qed
next
  case (one pad d0)
  then show ?case using decode_encoded_one [of d0]
    by (simp add: decode_from_last finish_decode_def trim_padding_def numeral_nat)
next
  case (two pad d0 d1)
  then show ?case using decode_encoded_two [of d0 d1] indices_small [of d1]
    by (simp add: decode_from_last finish_decode_def trim_padding_def numeral_nat)
qed simp

text \<open>C17. Base64 round trip: encoding succeeds on every byte string, with and without padding, and decoding
  gives the string back.\<close>

theorem base64_roundtrip:
  "\<exists>enc. Base64Encode source pad (Some e) = (OK, Some enc) \<and> Base64Decode enc (Some d) = (OK, Some source)"
proof (cases "source = []")
  case False
  then show ?thesis
    by (simp add: Base64Encode_eq Base64Decode_eq decode_base64)
qed (simp add: Base64Encode_eq Base64Decode_def)

text \<open>The characters of an input before its padding, which only a full last group has.\<close>

fun base64_body :: "bytes \<Rightarrow> bytes" where
  "base64_body (c0 # c1 # c2 # c3 # c4 # data) = c0 # c1 # c2 # c3 # base64_body (c4 # data)"
| "base64_body data = trim_padding data"

definition decodable :: "bytes \<Rightarrow> bool" where
  "decodable data \<longleftrightarrow> list_all valid_char (base64_body data) \<and> length (base64_body data) mod 4 \<noteq> 1"

lemma trim_padding_cases:
  assumes "data \<noteq> []" "length data \<le> 4"
  obtains c0 where "trim_padding data = [c0]" | c0 c1 where "trim_padding data = [c0, c1]"
  | c0 c1 c2 where "trim_padding data = [c0, c1, c2]" | c0 c1 c2 c3 where "trim_padding data = [c0, c1, c2, c3]"
proof -
  have "trim_padding data \<noteq> []" "length (trim_padding data) \<le> 4" using assms by (auto simp: trim_padding_def)
  then have "0 < length (trim_padding data)" "length (trim_padding data) \<le> 4" by simp_all
  then have "length (trim_padding data) = 1 \<or> length (trim_padding data) = 2 \<or> length (trim_padding data) = 3 \<or>
    length (trim_padding data) = 4" by linarith
  then show thesis using that by (auto simp: length_Suc_conv numeral_eq_Suc)
qed

lemma valid_A [simp]: "valid_char (kBase64UrlSafeChars ! 0)"
  unfolding valid_char_iff by (intro exI [of _ 0]) simp

lemma finish_decode_iff:
  assumes "data \<noteq> []" "length data \<le> 4"
  shows "if list_all valid_char (trim_padding data) \<and> length (trim_padding data) mod 4 \<noteq> 1
    then \<exists>r. finish_decode buffer data = Inr (buffer @ r) \<and> length r = length (trim_padding data) - 1
    else \<exists>m. finish_decode buffer data = Inl (Error INVALID_ARGUMENT m)"
proof -
  have tk: "\<exists>r'. take (length buffer + k) (buffer @ r) = buffer @ r' \<and> length r' = k" if "length r = 3" "k \<le> 3" for r k
    using that by (intro exI [of _ "take k r"]) simp
  have three: "(\<exists>r. DecodeThreeChars a b c d = Inr r \<and> length r = 3) \<and> list_all valid_char [a, b, c, d] \<or>
      (\<exists>m. DecodeThreeChars a b c d = Inl (Error INVALID_ARGUMENT m)) \<and> \<not> list_all valid_char [a, b, c, d]" for a b c d
    using DecodeThreeChars_error [of a b c d] by auto
  let ?A = "kBase64UrlSafeChars ! 0"
  have fin: ?thesis if L: "L = [a, b, c, d]" and t: "trim_padding data = take (Suc k) L" "list_all ((=) ?A) (drop (Suc k) L)"
    and k: "0 < k" "k \<le> 3" for a b c d k L
  proof -
    have len: "length L = 4" using L by simp
    have d: "drop (Suc k) L = replicate (4 - Suc k) ?A"
      using t(2) len by (intro replicate_eqI) (auto simp: list_all_iff)
    have pad: "trim_padding data @ replicate (4 - Suc k) ?A = L"
      unfolding t(1) d [symmetric] by (rule append_take_drop_id)
    have l: "length (trim_padding data) = Suc k" using t(1) k len by simp
    have v: "list_all valid_char (trim_padding data) \<longleftrightarrow> list_all valid_char L"
      unfolding pad [symmetric] list_all_append by (simp add: list_all_iff)
    have fd: "finish_decode buffer data =
        (case DecodeThreeChars a b c d of Inl e \<Rightarrow> Inl e | Inr r \<Rightarrow> Inr (take (length buffer + k) (buffer @ r)))"
    proof -
      have e: "length buffer + Suc k - 1 = length buffer + k" by simp
      show ?thesis using k unfolding finish_decode_def Let_def l pad e unfolding L by simp
    qed
    have m: "Suc k mod 4 \<noteq> 1" using k by (cases "k = 3") auto
    from three [of a b c d] show ?thesis
    proof
      assume "(\<exists>r. DecodeThreeChars a b c d = Inr r \<and> length r = 3) \<and> list_all valid_char [a, b, c, d]"
      then obtain r where r: "DecodeThreeChars a b c d = Inr r" "length r = 3" "list_all valid_char [a, b, c, d]" by blast
      then show ?thesis using tk [OF r(2) k(2)] m unfolding fd l v L by (simp only: r sum.case) simp
    next
      assume "(\<exists>m. DecodeThreeChars a b c d = Inl (Error INVALID_ARGUMENT m)) \<and> \<not> list_all valid_char [a, b, c, d]"
      then show ?thesis unfolding fd l v L by auto
    qed
  qed
  from assms show ?thesis
  proof (cases rule: trim_padding_cases)
    case (1 c0)
    then show ?thesis by (simp add: finish_decode_def)
  next
    case (2 c0 c1)
    then show ?thesis by (intro fin [OF refl, of 1 c0 c1 ?A ?A]) simp_all
  next
    case (3 c0 c1 c2)
    then show ?thesis by (intro fin [OF refl, of 2 c0 c1 c2 ?A]) (simp_all add: numeral_eq_Suc)
  next
    case (4 c0 c1 c2 c3)
    then show ?thesis by (intro fin [OF refl, of 3 c0 c1 c2 c3]) (simp_all add: numeral_eq_Suc)
  qed
qed

lemma decode_last_iff:
  assumes "data \<noteq> []" "length data \<le> 4" "base64_body data = trim_padding data"
  shows "if decodable data
    then \<exists>r. decode_from data buffer = Inr (buffer @ r) \<and> length r = 3 * length (base64_body data) div 4
    else \<exists>m. decode_from data buffer = Inl (Error INVALID_ARGUMENT m)"
proof -
  let ?n = "length (trim_padding data)"
  have "?n \<le> 4" "0 < ?n" using assms(1,2) by (auto simp: trim_padding_def)
  then have "?n = 1 \<or> ?n - 1 = 3 * ?n div 4" by arith
  moreover have "decode_from data buffer = finish_decode buffer data" using assms(2) by (rule decode_from_last)
  ultimately show ?thesis
    using finish_decode_iff [OF assms(1,2), of buffer] unfolding decodable_def assms(3) by (auto split: if_splits)
qed

lemma decode_from_iff:
  "data \<noteq> [] \<Longrightarrow> if decodable data
    then \<exists>r. decode_from data buffer = Inr (buffer @ r) \<and> length r = 3 * length (base64_body data) div 4
    else \<exists>m. decode_from data buffer = Inl (Error INVALID_ARGUMENT m)"
proof (induction data arbitrary: buffer rule: base64_body.induct)
  case (1 c0 c1 c2 c3 c4 data)
  show ?case
  proof (cases "list_all valid_char [c0, c1, c2, c3]")
    case True
    then obtain r where r: "DecodeThreeChars c0 c1 c2 c3 = Inr r" "length r = 3"
      using DecodeThreeChars_error(1) [of c0 c1 c2 c3] by auto
    have d: "decodable (c0 # c1 # c2 # c3 # c4 # data) \<longleftrightarrow> decodable (c4 # data)" using True by (simp add: decodable_def)
    show ?thesis using "1.IH" [of "buffer @ r"] r by (auto simp: d decode_from_group split: if_splits)
  next
    case False
    then have "\<not> decodable (c0 # c1 # c2 # c3 # c4 # data)" by (auto simp: decodable_def)
    then show ?thesis using DecodeThreeChars_error(2) [of c0 c1 c2 c3] False by (simp add: decode_from_group)
  qed
qed (simp, (rule decode_last_iff; simp)+)

text \<open>Base64 text, independently of the decoder: \<open>n\<close> characters of the web-safe alphabet, \<open>n\<close> not 1 modulo 4, and the
  padding that completes the last group or no padding.\<close>

definition web_safe :: "byte \<Rightarrow> bool" where
  "web_safe b \<longleftrightarrow> (let n = unat b in 65 \<le> n \<and> n \<le> 90 \<or> 97 \<le> n \<and> n \<le> 122 \<or> 48 \<le> n \<and> n \<le> 57 \<or> n = 45 \<or> n = 95)"

definition base64_text :: "bytes \<Rightarrow> nat \<Rightarrow> bool" where
  "base64_text data n \<longleftrightarrow> (\<exists>body pad. data = body @ pad \<and> length body = n \<and> list_all web_safe body \<and> n mod 4 \<noteq> 1 \<and>
     (pad = [] \<or> pad = [61] \<and> n mod 4 = 3 \<or> pad = [61, 61] \<and> n mod 4 = 2))"

lemma web_safe_chars: "list_all web_safe kBase64UrlSafeChars"
  by code_simp

lemma web_safe_tables:
  "list_all (\<lambda>i. kBase64UrlSafeChars ! i = word_of_nat (65 + i) \<and> kBase64UrlSafeChars ! (26 + i) = word_of_nat (97 + i)) [0..<26]"
  "list_all (\<lambda>i. kBase64UrlSafeChars ! (52 + i) = word_of_nat (48 + i)) [0..<10]"
  "kBase64UrlSafeChars ! 62 = word_of_nat 45" "kBase64UrlSafeChars ! 63 = word_of_nat 95"
  by code_simp+

lemma web_safe_eq: "web_safe = valid_char"
proof
  fix b :: byte
  have nth: "valid_char b" if "kBase64UrlSafeChars ! i = word_of_nat (unat b)" "i < 64" for i
    using that unfolding valid_char_iff by (intro exI [of _ i]) simp
  have r: "k + (n - k) = n" if "k \<le> n" for k n :: nat using that by simp
  show "web_safe b = valid_char b"
  proof
    assume "valid_char b"
    then show "web_safe b" using web_safe_chars by (simp add: valid_char_def list_all_iff)
  next
    assume "web_safe b"
    then consider "65 \<le> unat b" "unat b \<le> 90" | "97 \<le> unat b" "unat b \<le> 122" | "48 \<le> unat b" "unat b \<le> 57" | "unat b = 45" | "unat b = 95"
      by (auto simp: web_safe_def Let_def)
    then show "valid_char b"
    proof cases
      case 1
      then have "unat b - 65 \<in> set [0..<26]" by auto
      then have "kBase64UrlSafeChars ! (unat b - 65) = word_of_nat (65 + (unat b - 65))" using web_safe_tables(1) unfolding list_all_iff by blast
      then show ?thesis using nth 1 unfolding r [OF 1(1)] by simp
    next
      case 2
      then have "unat b - 97 \<in> set [0..<26]" by auto
      then have "kBase64UrlSafeChars ! (26 + (unat b - 97)) = word_of_nat (97 + (unat b - 97))" using web_safe_tables(1) unfolding list_all_iff by blast
      then show ?thesis using nth 2 unfolding r [OF 2(1)] by simp
    next
      case 3
      then have "unat b - 48 \<in> set [0..<10]" by auto
      then have "kBase64UrlSafeChars ! (52 + (unat b - 48)) = word_of_nat (48 + (unat b - 48))" using web_safe_tables(2) unfolding list_all_iff by blast
      then show ?thesis using nth 3 unfolding r [OF 3(1)] by simp
    next
      case 4
      then show ?thesis using nth [of 62] web_safe_tables(3) by simp
    next
      case 5
      then show ?thesis using nth [of 63] web_safe_tables(4) by simp
    qed
  qed
qed

lemma pad_eq: "kPadChar = 61" "\<not> valid_char 61"
proof -
  show "kPadChar = 61" by code_simp
  then show "\<not> valid_char 61" using pad_not_valid by simp
qed

definition padded_by :: "byte list \<Rightarrow> bytes \<Rightarrow> nat \<Rightarrow> bool" where
  "padded_by pad data n \<longleftrightarrow> (\<exists>body. data = body @ pad \<and> list_all valid_char body \<and> length body = n)"

lemma base64_text_cases:
  "base64_text data n \<longleftrightarrow>
     padded_by [] data n \<and> n mod 4 \<noteq> 1 \<or> padded_by [61] data n \<and> n mod 4 = 3 \<or> padded_by [61, 61] data n \<and> n mod 4 = 2"
proof -
  have split: "(\<exists>body pad. data = body @ pad \<and> length body = n \<and> L body \<and> A \<and> (pad = [] \<or> pad = [x] \<and> B \<or> pad = [x, x] \<and> C)) \<longleftrightarrow>
    (\<exists>body. data = body @ [] \<and> L body \<and> length body = n) \<and> A \<or> (\<exists>body. data = body @ [x] \<and> L body \<and> length body = n) \<and> A \<and> B \<or>
    (\<exists>body. data = body @ [x, x] \<and> L body \<and> length body = n) \<and> A \<and> C" for L A B C and x :: byte
    by blast
  have "n mod 4 \<noteq> 1 \<and> n mod 4 = 3 \<longleftrightarrow> n mod 4 = 3" "n mod 4 \<noteq> 1 \<and> n mod 4 = 2 \<longleftrightarrow> n mod 4 = 2" by linarith+
  then show ?thesis unfolding base64_text_def web_safe_eq split padded_by_def by simp
qed

lemma padded_by_simps:
  "padded_by [] data n \<longleftrightarrow> list_all valid_char data \<and> length data = n"
  "padded_by pad (c # data) n \<longleftrightarrow> pad = c # data \<and> n = 0 \<or> valid_char c \<and> 0 < n \<and> padded_by pad data (n - 1)"
  "padded_by pad [] n \<longleftrightarrow> pad = [] \<and> n = 0"
proof -
  show "padded_by [] data n \<longleftrightarrow> list_all valid_char data \<and> length data = n" "padded_by pad [] n \<longleftrightarrow> pad = [] \<and> n = 0"
    by (auto simp: padded_by_def)
  show "padded_by pad (c # data) n \<longleftrightarrow> pad = c # data \<and> n = 0 \<or> valid_char c \<and> 0 < n \<and> padded_by pad data (n - 1)"
    unfolding padded_by_def
  proof (intro iffI; elim exE conjE disjE)
    fix body assume "c # data = body @ pad" "list_all valid_char body" "length body = n"
    then show "pad = c # data \<and> n = 0 \<or> valid_char c \<and> 0 < n \<and> (\<exists>body. data = body @ pad \<and> list_all valid_char body \<and> length body = n - 1)"
      by (cases body) auto
  next
    assume "pad = c # data" "n = 0"
    then show "\<exists>body. c # data = body @ pad \<and> list_all valid_char body \<and> length body = n" by (intro exI [of _ "[]"]) simp
  next
    fix body assume "valid_char c" "0 < n" "data = body @ pad" "list_all valid_char body" "length body = n - 1"
    then show "\<exists>body. c # data = body @ pad \<and> list_all valid_char body \<and> length body = n" by (intro exI [of _ "c # body"]) simp
  qed
qed

lemma base64_text_last:
  assumes "data \<noteq> []" "length data \<le> 4"
  shows "base64_text data n \<longleftrightarrow> list_all valid_char (trim_padding data) \<and> length (trim_padding data) mod 4 \<noteq> 1 \<and> n = length (trim_padding data)"
proof -
  have "0 < length data" using assms(1) by simp
  then consider a where "data = [a]" | a b where "data = [a, b]" | a b c where "data = [a, b, c]" | a b c d where "data = [a, b, c, d]"
    using assms(2) by (auto simp: length_Suc_conv numeral_eq_Suc le_Suc_eq)
  moreover have "n = 0 \<or> n = 1 \<or> n = 2 \<or> n = 3 \<or> n = 4 \<or> 4 < n" by linarith
  ultimately show ?thesis using pad_eq(2)
    by (elim disjE; cases) (simp_all add: base64_text_cases padded_by_simps trim_padding_def pad_eq(1))
qed

lemma base64_text_group:
  "base64_text (c0 # c1 # c2 # c3 # c4 # data) n \<longleftrightarrow>
     list_all valid_char [c0, c1, c2, c3] \<and> 4 \<le> n \<and> base64_text (c4 # data) (n - 4)"
proof (cases "4 \<le> n")
  case True
  then obtain k where n: "n = k + 4" by (metis add.commute le_Suc_ex)
  have "length (pad :: bytes) < 5 \<Longrightarrow> padded_by pad (c0 # c1 # c2 # c3 # c4 # data) n \<longleftrightarrow>
      list_all valid_char [c0, c1, c2, c3] \<and> padded_by pad (c4 # data) k" for pad
    unfolding n by (simp only: padded_by_simps(2)) (auto simp: numeral_eq_Suc)
  then show ?thesis unfolding base64_text_cases using n by auto
next
  case False
  then have "n = 0 \<or> n = 1 \<or> n = 2 \<or> n = 3" by linarith
  then show ?thesis by (elim disjE) (simp_all add: base64_text_cases padded_by_simps)
qed

lemma base64_text_iff: "data \<noteq> [] \<Longrightarrow> base64_text data n \<longleftrightarrow> decodable data \<and> n = length (base64_body data)"
proof (induction data arbitrary: n rule: base64_body.induct)
  case (1 c0 c1 c2 c3 c4 data)
  have "base64_text (c4 # data) (n - 4) \<longleftrightarrow> decodable (c4 # data) \<and> n - 4 = length (base64_body (c4 # data))" using 1 by simp
  moreover have "4 \<le> n \<and> n - 4 = length (base64_body (c4 # data)) \<longleftrightarrow> n = length (base64_body (c0 # c1 # c2 # c3 # c4 # data))" by auto
  moreover have "list_all valid_char [c0, c1, c2, c3] \<and> decodable (c4 # data) \<longleftrightarrow> decodable (c0 # c1 # c2 # c3 # c4 # data)"
    by (auto simp: decodable_def)
  ultimately show ?case unfolding base64_text_group by blast
qed (simp, (simp only: base64_text_last list.distinct not_False_eq_True length_Cons, simp add: base64_text_last decodable_def)+)

text \<open>C18. \<^verbatim>\<open>Base64Decode\<close> accepts exactly base64 text: characters of the web-safe alphabet, not 1 modulo 4 of them, followed by
  the padding of the last group or by none. An accepted text of \<open>n\<close> characters gives \<open>3 n / 4\<close> bytes; any other input
  gives \<^verbatim>\<open>INVALID_ARGUMENT\<close> and leaves the output as it was.\<close>

theorem Base64Decode_accepts:
  "if \<exists>n. base64_text data n
   then \<exists>n r. base64_text data n \<and> Base64Decode data (Some d) = (OK, Some r) \<and> length r = 3 * n div 4
   else \<exists>m. Base64Decode data (Some d) = (Error INVALID_ARGUMENT m, Some d)"
proof (cases "data = []")
  case True
  then have "base64_text data 0" by (simp add: base64_text_def)
  moreover have "Base64Decode data (Some d) = (OK, Some [])" using True by (simp add: Base64Decode_def)
  ultimately show ?thesis by force
next
  case False
  show ?thesis
    using decode_from_iff [OF False, of "[]"] unfolding base64_text_iff [OF False]
    by (auto simp: Base64Decode_eq [OF False] split: if_splits)
qed

theorem Base64Decode_accepts_witness:
  "(\<exists>r. Base64Decode (map byte_of_char ''YWI='') (Some []) = (OK, Some r) \<and> length r = 2) \<and>
   (\<exists>m. Base64Decode (map byte_of_char ''Y'') (Some []) = (Error INVALID_ARGUMENT m, Some []))"
proof -
  have t: "base64_text (map byte_of_char ''YWI='') 3"
    unfolding base64_text_def by (rule exI [of _ "map byte_of_char ''YWI''"], rule exI [of _ "[61]"]) code_simp
  then have ex: "\<exists>n. base64_text (map byte_of_char ''YWI='') n" by blast
  have n: "n = 3" if "base64_text (map byte_of_char ''YWI='') n" for n
    using that t base64_text_iff [of "map byte_of_char ''YWI=''"] by simp
  have y: "\<not> base64_text (map byte_of_char ''Y'') n" for n
    using base64_text_last [of "map byte_of_char ''Y''" n] by (simp add: trim_padding_def)
  show ?thesis
  proof
    obtain n r where r: "base64_text (map byte_of_char ''YWI='') n" "Base64Decode (map byte_of_char ''YWI='') (Some []) = (OK, Some r)" "length r = 3 * n div 4"
      using Base64Decode_accepts [of "map byte_of_char ''YWI=''" "[]"] if_P [OF ex] by metis
    then show "\<exists>r. Base64Decode (map byte_of_char ''YWI='') (Some []) = (OK, Some r) \<and> length r = 2" using n [OF r(1)] by auto
    have "\<not> (\<exists>n. base64_text (map byte_of_char ''Y'') n)" using y by blast
    from if_not_P [OF this] Base64Decode_accepts [of "map byte_of_char ''Y''" "[]"]
    show "\<exists>m. Base64Decode (map byte_of_char ''Y'') (Some []) = (Error INVALID_ARGUMENT m, Some [])" by metis
  qed
qed

end
