(* ===== verification/Graph_Cycles.thy ===== *)
theory Graph_Cycles
  imports TF_Prelude "HOL-Library.Multiset"
begin

text \<open>
  \<^verbatim>\<open>compiler/jit/graphcycles/graphcycles.cc\<close>: incremental cycle detection by the
  Pearce-Kelly algorithm, which the JIT uses to keep its clusters acyclic. A node is a record of its
  rank, its mark, its data and the sets of its neighbours; the table of nodes is a list. The edge sets
  are hash sets of the standard library, whose iteration order is unspecified: \<open>ord\<close> gives the
  order of the elements of a set, and nothing depends on which one it is. The temporary vectors of
  \<^verbatim>\<open>Rep\<close>, which every operation clears before use, are local values. \<open>None\<close> is an
  index outside the node table (undefined in the source) or a failed \<^verbatim>\<open>CHECK\<close>. Node numbers
  and ranks are below \<open>2 ^ 31\<close>, as in every graph that fits in memory, and are not truncated here.
\<close>

section \<open>State\<close>

record Node =
  n_rank :: nat
  n_visited :: bool
  n_data :: "nat option"
  n_in :: "nat set"
  n_out :: "nat set"

record GraphCycles =
  gc_nodes :: "Node list"
  gc_free_nodes :: "nat list"

type_synonym iteration_order = "nat set \<Rightarrow> nat list"

definition GraphCycles_new :: GraphCycles where
  "GraphCycles_new = \<lparr>gc_nodes = [], gc_free_nodes = []\<rparr>"

text \<open>Updates through a node pointer.\<close>

definition upd :: "nat \<Rightarrow> (Node \<Rightarrow> Node) \<Rightarrow> Node list \<Rightarrow> Node list" where
  "upd n f ns = ns[n := f (ns ! n)]"

abbreviation set_visited :: "bool \<Rightarrow> Node \<Rightarrow> Node" where
  "set_visited b nd \<equiv> nd\<lparr>n_visited := b\<rparr>"

section \<open>Operations\<close>

text \<open>\<^verbatim>\<open>CheckInvariants\<close>: \<open>False\<close> is a fatal log message.\<close>

fun CheckInvariants_loop :: "iteration_order \<Rightarrow> Node list \<Rightarrow> nat list \<Rightarrow> nat set \<Rightarrow> bool" where
  "CheckInvariants_loop ord ns [] ranks = True"
| "CheckInvariants_loop ord ns (x # xs) ranks =
     (let nx = ns ! x in
      if n_visited nx then False
      else if n_rank nx \<in> ranks then False
      else if list_ex (\<lambda>y. n_rank nx \<ge> n_rank (ns ! y)) (ord (n_out nx)) then False
      else CheckInvariants_loop ord ns xs (insert (n_rank nx) ranks))"

definition CheckInvariants :: "iteration_order \<Rightarrow> GraphCycles \<Rightarrow> bool" where
  "CheckInvariants ord g = CheckInvariants_loop ord (gc_nodes g) [0..<length (gc_nodes g)] {}"

definition NewNode :: "GraphCycles \<Rightarrow> nat \<times> GraphCycles" where
  "NewNode g =
     (if gc_free_nodes g = [] then
        let n = \<lparr>n_rank = length (gc_nodes g), n_visited = False, n_data = None, n_in = {}, n_out = {}\<rparr>
        in (n_rank n, g\<lparr>gc_nodes := gc_nodes g @ [n]\<rparr>)
      else
        let r = last (gc_free_nodes g)
        in (r, g\<lparr>gc_nodes := upd r (\<lambda>n. n\<lparr>n_data := None\<rparr>) (gc_nodes g),
                 gc_free_nodes := butlast (gc_free_nodes g)\<rparr>))"

definition erase_in :: "nat \<Rightarrow> nat list \<Rightarrow> Node list \<Rightarrow> Node list" where
  "erase_in node ys ns = fold (\<lambda>y. upd y (\<lambda>n. n\<lparr>n_in := n_in n - {node}\<rparr>)) ys ns"

definition erase_out :: "nat \<Rightarrow> nat list \<Rightarrow> Node list \<Rightarrow> Node list" where
  "erase_out node ys ns = fold (\<lambda>y. upd y (\<lambda>n. n\<lparr>n_out := n_out n - {node}\<rparr>)) ys ns"

definition RemoveNode :: "iteration_order \<Rightarrow> nat \<Rightarrow> GraphCycles \<Rightarrow> GraphCycles option" where
  "RemoveNode ord node g =
     (if node < length (gc_nodes g) then
        let ns = gc_nodes g;
            ns = erase_in node (ord (n_out (ns ! node))) ns;
            ns = erase_out node (ord (n_in (ns ! node))) ns;
            ns = upd node (\<lambda>n. n\<lparr>n_in := {}, n_out := {}\<rparr>) ns
        in Some (g\<lparr>gc_nodes := ns, gc_free_nodes := gc_free_nodes g @ [node]\<rparr>)
      else None)"

definition GetNodeData :: "nat \<Rightarrow> GraphCycles \<Rightarrow> nat option option" where
  "GetNodeData node g = (if node < length (gc_nodes g) then Some (n_data (gc_nodes g ! node)) else None)"

definition SetNodeData :: "nat \<Rightarrow> nat option \<Rightarrow> GraphCycles \<Rightarrow> GraphCycles option" where
  "SetNodeData node data g =
     (if node < length (gc_nodes g)
      then Some (g\<lparr>gc_nodes := upd node (\<lambda>n. n\<lparr>n_data := data\<rparr>) (gc_nodes g)\<rparr>) else None)"

definition HasEdge :: "nat \<Rightarrow> nat \<Rightarrow> GraphCycles \<Rightarrow> bool option" where
  "HasEdge x y g = (if x < length (gc_nodes g) then Some (y \<in> n_out (gc_nodes g ! x)) else None)"

definition remove_edge :: "nat \<Rightarrow> nat \<Rightarrow> Node list \<Rightarrow> Node list" where
  "remove_edge x y ns =
     upd y (\<lambda>n. n\<lparr>n_in := n_in n - {x}\<rparr>) (upd x (\<lambda>n. n\<lparr>n_out := n_out n - {y}\<rparr>) ns)"

definition RemoveEdge :: "nat \<Rightarrow> nat \<Rightarrow> GraphCycles \<Rightarrow> GraphCycles option" where
  "RemoveEdge x y g =
     (if x < length (gc_nodes g) \<and> y < length (gc_nodes g)
      then Some (g\<lparr>gc_nodes := remove_edge x y (gc_nodes g)\<rparr>) else None)"

text \<open>The scan of the out-edges in \<^verbatim>\<open>ForwardDFS\<close>: \<open>None\<close> is a cycle. The stack has its
  top at the front.\<close>

fun ForwardDFS_edges :: "Node list \<Rightarrow> nat \<Rightarrow> nat list \<Rightarrow> nat list \<Rightarrow> nat list option" where
  "ForwardDFS_edges ns upper_bound [] stack = Some stack"
| "ForwardDFS_edges ns upper_bound (w # ws) stack =
     (let nw = ns ! w in
      if n_rank nw = upper_bound then None
      else ForwardDFS_edges ns upper_bound ws
             (if \<not> n_visited nw \<and> n_rank nw < upper_bound then w # stack else stack))"

definition unvisited :: "Node list \<Rightarrow> nat set" where
  "unvisited ns = {i. i < length ns \<and> \<not> n_visited (ns ! i)}"

lemma unvisited_upd:
  assumes "n < length ns" "\<not> n_visited (ns ! n)"
  shows "card (unvisited (upd n (set_visited True) ns)) < card (unvisited ns)"
proof (rule psubset_card_mono)
  show "finite (unvisited ns)" by (simp add: unvisited_def)
  show "unvisited (upd n (set_visited True) ns) \<subset> unvisited ns"
    using assms by (auto simp: unvisited_def upd_def nth_list_update split: if_splits)
qed

function ForwardDFS_loop ::
  "iteration_order \<Rightarrow> nat \<Rightarrow> Node list \<Rightarrow> nat list \<Rightarrow> nat list \<Rightarrow> (bool \<times> Node list \<times> nat list) option" where
  "ForwardDFS_loop ord upper_bound ns [] deltaf = Some (True, ns, deltaf)"
| "ForwardDFS_loop ord upper_bound ns (n # stack) deltaf =
     (if n < length ns then
        if n_visited (ns ! n) then ForwardDFS_loop ord upper_bound ns stack deltaf
        else
          case ForwardDFS_edges (upd n (set_visited True) ns) upper_bound (ord (n_out (ns ! n))) stack of
            None \<Rightarrow> Some (False, upd n (set_visited True) ns, deltaf @ [n])
          | Some stack' \<Rightarrow>
              ForwardDFS_loop ord upper_bound (upd n (set_visited True) ns) stack' (deltaf @ [n])
      else None)"
  by pat_completeness auto
termination
  by (relation "measures [\<lambda>(_, _, ns, _). card (unvisited ns), \<lambda>(_, _, _, stack, _). length stack]")
     (auto simp: unvisited_upd)

definition ForwardDFS :: "iteration_order \<Rightarrow> Node list \<Rightarrow> nat \<Rightarrow> nat \<Rightarrow> (bool \<times> Node list \<times> nat list) option" where
  "ForwardDFS ord ns n upper_bound = ForwardDFS_loop ord upper_bound ns [n] []"

fun BackwardDFS_edges :: "Node list \<Rightarrow> nat \<Rightarrow> nat list \<Rightarrow> nat list \<Rightarrow> nat list" where
  "BackwardDFS_edges ns lower_bound [] stack = stack"
| "BackwardDFS_edges ns lower_bound (w # ws) stack =
     (let nw = ns ! w in
      BackwardDFS_edges ns lower_bound ws
        (if \<not> n_visited nw \<and> lower_bound < n_rank nw then w # stack else stack))"

function BackwardDFS_loop ::
  "iteration_order \<Rightarrow> nat \<Rightarrow> Node list \<Rightarrow> nat list \<Rightarrow> nat list \<Rightarrow> (Node list \<times> nat list) option" where
  "BackwardDFS_loop ord lower_bound ns [] deltab = Some (ns, deltab)"
| "BackwardDFS_loop ord lower_bound ns (n # stack) deltab =
     (if n < length ns then
        if n_visited (ns ! n) then BackwardDFS_loop ord lower_bound ns stack deltab
        else
          BackwardDFS_loop ord lower_bound (upd n (set_visited True) ns)
            (BackwardDFS_edges (upd n (set_visited True) ns) lower_bound (ord (n_in (ns ! n))) stack)
            (deltab @ [n])
      else None)"
  by pat_completeness auto
termination
  by (relation "measures [\<lambda>(_, _, ns, _). card (unvisited ns), \<lambda>(_, _, _, stack, _). length stack]")
     (auto simp: unvisited_upd)

definition BackwardDFS :: "iteration_order \<Rightarrow> Node list \<Rightarrow> nat \<Rightarrow> nat \<Rightarrow> (Node list \<times> nat list) option" where
  "BackwardDFS ord ns n lower_bound = BackwardDFS_loop ord lower_bound ns [n] []"

definition Sort :: "Node list \<Rightarrow> nat list \<Rightarrow> nat list" where
  "Sort ns delta = sort_key (\<lambda>a. n_rank (ns ! a)) delta"

text \<open>\<^verbatim>\<open>MoveToList\<close> returns the ranks that replace the entries of the source.\<close>

fun MoveToList :: "Node list \<Rightarrow> nat list \<Rightarrow> nat list \<Rightarrow> nat list \<times> Node list \<times> nat list" where
  "MoveToList ns [] dst = ([], ns, dst)"
| "MoveToList ns (w # src) dst =
     (let (ranks, ns', dst') = MoveToList (upd w (set_visited False) ns) src (dst @ [w])
      in (n_rank (ns ! w) # ranks, ns', dst'))"

definition ClearVisitedBits :: "Node list \<Rightarrow> nat list \<Rightarrow> Node list" where
  "ClearVisitedBits ns xs = fold (\<lambda>n. upd n (set_visited False)) xs ns"

fun std_merge :: "nat list \<Rightarrow> nat list \<Rightarrow> nat list" where
  "std_merge [] ys = ys"
| "std_merge xs [] = xs"
| "std_merge (x # xs) (y # ys) = (if y < x then y # std_merge (x # xs) ys else x # std_merge xs (y # ys))"

definition Reorder :: "Node list \<Rightarrow> nat list \<Rightarrow> nat list \<Rightarrow> Node list" where
  "Reorder ns deltab deltaf =
     (let deltab = Sort ns deltab;
          deltaf = Sort ns deltaf;
          (ranksb, ns, lst) = MoveToList ns deltab [];
          (ranksf, ns, lst) = MoveToList ns deltaf lst;
          merged = std_merge ranksb ranksf
      in fold (\<lambda>(n, r). upd n (\<lambda>nd. nd\<lparr>n_rank := r\<rparr>)) (zip lst merged) ns)"

definition InsertEdge :: "iteration_order \<Rightarrow> nat \<Rightarrow> nat \<Rightarrow> GraphCycles \<Rightarrow> (bool \<times> GraphCycles) option" where
  "InsertEdge ord x y g =
     (if x = y then Some (False, g)
      else if x < length (gc_nodes g) \<and> y < length (gc_nodes g) then
        if y \<in> n_out (gc_nodes g ! x) then Some (True, g)
        else
          let ns = upd x (\<lambda>n. n\<lparr>n_out := insert y (n_out n)\<rparr>) (gc_nodes g);
              ns = upd y (\<lambda>n. n\<lparr>n_in := insert x (n_in n)\<rparr>) ns;
              rx = n_rank (ns ! x); ry = n_rank (ns ! y)
          in if rx \<le> ry then Some (True, g\<lparr>gc_nodes := ns\<rparr>)
             else case ForwardDFS ord ns y rx of None \<Rightarrow> None
               | Some (False, ns, deltaf) \<Rightarrow>
                   Some (False, g\<lparr>gc_nodes := ClearVisitedBits (remove_edge x y ns) deltaf\<rparr>)
               | Some (True, ns, deltaf) \<Rightarrow>
                   (case BackwardDFS ord ns x ry of None \<Rightarrow> None
                    | Some (ns, deltab) \<Rightarrow> Some (True, g\<lparr>gc_nodes := Reorder ns deltab deltaf\<rparr>))
      else None)"

text \<open>\<^verbatim>\<open>FindPath\<close> keeps a stack of node numbers and markers \<open>-1\<close>, and writes at most
  \<open>max_path_len\<close> entries of the caller's array.\<close>

fun FindPath_push :: "nat list \<Rightarrow> nat set \<Rightarrow> int list \<Rightarrow> nat set \<times> int list" where
  "FindPath_push [] seen stack = (seen, stack)"
| "FindPath_push (w # ws) seen stack =
     (if w \<in> seen then FindPath_push ws seen stack
      else FindPath_push ws (insert w seen) (int w # stack))"

definition unseen :: "iteration_order \<Rightarrow> Node list \<Rightarrow> nat set \<Rightarrow> nat set" where
  "unseen ord ns seen = (\<Union>i < length ns. set (ord (n_out (ns ! i)))) - seen"

lemma FindPath_push_eq:
  "FindPath_push ws seen stack = (seen', stack') \<Longrightarrow>
     seen' = seen \<union> set ws \<and> (\<exists>new. stack' = map int new @ stack \<and> set new = set ws - seen \<and> distinct new)"
proof (induction ws seen stack rule: FindPath_push.induct)
  case (2 w ws seen stack)
  show ?case
  proof (cases "w \<in> seen")
    case False
    then obtain new where "seen' = insert w seen \<union> set ws" "stack' = map int new @ int w # stack"
      "set new = set ws - insert w seen" "distinct new" using 2 by auto
    then show ?thesis using False by (intro conjI exI [of _ "new @ [w]"]) auto
  qed (use 2 in auto)
qed simp

lemma unseen_push:
  assumes "FindPath_push (ord (n_out (ns ! n))) seen stack = (seen', stack')" "n < length ns"
  shows "card (unseen ord ns seen') < card (unseen ord ns seen) \<or>
    card (unseen ord ns seen') = card (unseen ord ns seen) \<and> stack' = stack"
proof -
  obtain new where e: "seen' = seen \<union> set (ord (n_out (ns ! n)))" "stack' = map int new @ stack"
    "set new = set (ord (n_out (ns ! n))) - seen" using FindPath_push_eq [OF assms(1)] by blast
  have fin: "finite (unseen ord ns seen)" by (simp add: unseen_def)
  show ?thesis
  proof (cases "new = []")
    case True
    then have "unseen ord ns seen' = unseen ord ns seen" using e by (auto simp: unseen_def)
    then show ?thesis using True e by simp
  next
    case False
    then have "unseen ord ns seen' \<subset> unseen ord ns seen"
      using e assms(2) by (cases new) (auto simp: unseen_def psubset_eq)
    then show ?thesis using psubset_card_mono [OF fin] by simp
  qed
qed

function FindPath_loop :: "iteration_order \<Rightarrow> Node list \<Rightarrow> nat \<Rightarrow> int \<Rightarrow> nat set \<Rightarrow> int list \<Rightarrow> int \<Rightarrow> nat list \<Rightarrow>
    (int \<times> nat list) option" where
  "FindPath_loop ord ns y max_path_len seen [] path_len path = Some (0, path)"
| "FindPath_loop ord ns y max_path_len seen (n # stack) path_len path =
     (if n < 0 then FindPath_loop ord ns y max_path_len seen stack (path_len - 1) path
      else
        if nat n = y then
          Some (path_len + 1, if path_len < max_path_len then path[nat path_len := nat n] else path)
        else if nat n < length ns then
          FindPath_loop ord ns y max_path_len
            (fst (FindPath_push (ord (n_out (ns ! nat n))) seen (- 1 # stack)))
            (snd (FindPath_push (ord (n_out (ns ! nat n))) seen (- 1 # stack)))
            (path_len + 1) (if path_len < max_path_len then path[nat path_len := nat n] else path)
        else None)"
  by pat_completeness auto
termination
proof (relation "measures [\<lambda>(ord, ns, _, _, seen, _). card (unseen ord ns seen),
      \<lambda>(_, _, _, _, _, stack, _). length (filter (\<lambda>n. n \<ge> 0) stack), \<lambda>(_, _, _, _, _, stack, _). length stack]",
      goal_cases)
  case (3 ord ns y max_path_len seen n stack path_len path)
  from unseen_push [OF prod.collapse [symmetric] 3(3), of ord seen "- 1 # stack"] 3(1) show ?case by auto
qed auto

definition FindPath :: "iteration_order \<Rightarrow> nat \<Rightarrow> nat \<Rightarrow> int \<Rightarrow> nat list \<Rightarrow> GraphCycles \<Rightarrow> (int \<times> nat list) option" where
  "FindPath ord x y max_path_len path g = FindPath_loop ord (gc_nodes g) y max_path_len {} [int x] 0 path"

definition IsReachable :: "iteration_order \<Rightarrow> nat \<Rightarrow> nat \<Rightarrow> GraphCycles \<Rightarrow> bool option" where
  "IsReachable ord x y g = map_option (\<lambda>(len, _). len > 0) (FindPath ord x y 0 [] g)"

definition IsReachableNonConst :: "iteration_order \<Rightarrow> nat \<Rightarrow> nat \<Rightarrow> GraphCycles \<Rightarrow> (bool \<times> GraphCycles) option" where
  "IsReachableNonConst ord x y g =
     (if x = y then Some (True, g)
      else if x < length (gc_nodes g) \<and> y < length (gc_nodes g) then
        if n_rank (gc_nodes g ! x) \<ge> n_rank (gc_nodes g ! y) then Some (False, g)
        else case ForwardDFS ord (gc_nodes g) x (n_rank (gc_nodes g ! y)) of None \<Rightarrow> None
          | Some (found, ns, deltaf) \<Rightarrow> Some (\<not> found, g\<lparr>gc_nodes := ClearVisitedBits ns deltaf\<rparr>)
      else None)"

definition CanContractEdge :: "iteration_order \<Rightarrow> nat \<Rightarrow> nat \<Rightarrow> GraphCycles \<Rightarrow> (bool \<times> GraphCycles) option" where
  "CanContractEdge ord a b g =
     (if HasEdge a b g \<noteq> Some True then None
      else case RemoveEdge a b g of None \<Rightarrow> None
        | Some g \<Rightarrow> (case IsReachableNonConst ord a b g of None \<Rightarrow> None
          | Some (reachable, g) \<Rightarrow> (case InsertEdge ord a b g of None \<Rightarrow> None
            | Some (_, g) \<Rightarrow> Some (\<not> reachable, g))))"

text \<open>A run of \<^verbatim>\<open>InsertEdge\<close> calls whose results are not looked at.\<close>

fun InsertEdges :: "iteration_order \<Rightarrow> (nat \<times> nat) list \<Rightarrow> GraphCycles \<Rightarrow> GraphCycles option" where
  "InsertEdges ord [] g = Some g"
| "InsertEdges ord ((x, y) # es) g =
     (case InsertEdge ord x y g of None \<Rightarrow> None | Some (_, g) \<Rightarrow> InsertEdges ord es g)"

definition ContractEdge :: "iteration_order \<Rightarrow> nat \<Rightarrow> nat \<Rightarrow> GraphCycles \<Rightarrow> (bool \<times> GraphCycles) option" where
  "ContractEdge ord a b g =
     (if HasEdge a b g \<noteq> Some True then None
      else case RemoveEdge a b g of None \<Rightarrow> None
        | Some g \<Rightarrow> (case IsReachableNonConst ord a b g of None \<Rightarrow> None
          | Some (True, g) \<Rightarrow> (case InsertEdge ord a b g of None \<Rightarrow> None | Some (_, g) \<Rightarrow> Some (False, g))
          | Some (False, g) \<Rightarrow>
              (let out = n_out (gc_nodes g ! b);
                   inn = n_in (gc_nodes g ! b);
                   ns = upd b (\<lambda>n. n\<lparr>n_out := {}, n_in := {}\<rparr>) (gc_nodes g);
                   ns = erase_in b (ord out) ns;
                   ns = erase_out b (ord inn) ns;
                   g = g\<lparr>gc_nodes := ns, gc_free_nodes := gc_free_nodes g @ [b]\<rparr>
               in case InsertEdges ord (map (Pair a) (ord out)) g of None \<Rightarrow> None
                  | Some g \<Rightarrow> map_option (Pair True) (InsertEdges ord (map (\<lambda>y. (y, a)) (ord inn)) g))))"

definition Successors :: "nat \<Rightarrow> GraphCycles \<Rightarrow> nat set option" where
  "Successors node g = (if node < length (gc_nodes g) then Some (n_out (gc_nodes g ! node)) else None)"

definition Predecessors :: "nat \<Rightarrow> GraphCycles \<Rightarrow> nat set option" where
  "Predecessors node g = (if node < length (gc_nodes g) then Some (n_in (gc_nodes g ! node)) else None)"

section \<open>Graphs and marks\<close>

abbreviation rk :: "Node list \<Rightarrow> nat \<Rightarrow> nat" where "rk ns i \<equiv> n_rank (ns ! i)"

definition edges :: "Node list \<Rightarrow> (nat \<times> nat) set" where
  "edges ns = {(x, y). x < length ns \<and> y \<in> n_out (ns ! x)}"

definition wf_nodes :: "Node list \<Rightarrow> bool" where
  "wf_nodes ns \<longleftrightarrow>
     (\<forall>x < length ns. n_out (ns ! x) \<subseteq> {..<length ns} \<and> n_in (ns ! x) \<subseteq> {..<length ns}) \<and>
     (\<forall>x < length ns. \<forall>y < length ns. y \<in> n_out (ns ! x) \<longleftrightarrow> x \<in> n_in (ns ! y))"

text \<open>Two tables with the same graph and ranks, which may differ in their marks and data.\<close>

definition agree :: "Node list \<Rightarrow> Node list \<Rightarrow> bool" where
  "agree ns ms \<longleftrightarrow> length ns = length ms \<and>
     (\<forall>i < length ns. n_rank (ns ! i) = n_rank (ms ! i) \<and> n_in (ns ! i) = n_in (ms ! i) \<and>
        n_out (ns ! i) = n_out (ms ! i) \<and> n_data (ns ! i) = n_data (ms ! i))"

definition marked :: "Node list \<Rightarrow> nat set" where
  "marked ns = {i. i < length ns \<and> n_visited (ns ! i)}"

lemma length_upd [simp]: "length (upd n f ns) = length ns"
  by (simp add: upd_def)

lemma nth_upd: "i < length ns \<Longrightarrow> upd n f ns ! i = (if i = n then f (ns ! i) else ns ! i)"
  by (auto simp: upd_def nth_list_update)

lemma agree_refl [simp]: "agree ns ns"
  by (simp add: agree_def)

lemma agree_trans: "agree a b \<Longrightarrow> agree b c \<Longrightarrow> agree a c"
  by (simp add: agree_def)

lemma agree_sym: "agree a b \<Longrightarrow> agree b a"
  by (simp add: agree_def)

lemma agree_mark: "agree ns (upd n (set_visited b) ns)"
  by (simp add: agree_def nth_upd)

lemma agree_edges: "agree ns ms \<Longrightarrow> edges ns = edges ms"
  by (auto simp: agree_def edges_def)

lemma agree_wf: "agree ns ms \<Longrightarrow> wf_nodes ns \<longleftrightarrow> wf_nodes ms"
  unfolding agree_def wf_nodes_def by force

lemma marked_mark:
  "n < length ns \<Longrightarrow> marked (upd n (set_visited b) ns) = (if b then insert n (marked ns) else marked ns - {n})"
  by (auto simp: marked_def nth_upd split: if_splits)

lemma edges_in_range:
  assumes "wf_nodes ns" shows "(x, y) \<in> edges ns \<Longrightarrow> x < length ns \<and> y < length ns"
  using assms by (auto simp: wf_nodes_def edges_def)

lemma wf_in_edges: "wf_nodes ns \<Longrightarrow> y < length ns \<Longrightarrow> n_in (ns ! y) = {x. (x, y) \<in> edges ns}"
  unfolding wf_nodes_def edges_def by blast

lemma agree_marked_eq:
  assumes "agree ns ms" "marked ns = marked ms" shows "ns = (ms :: Node list)"
proof (rule nth_equalityI)
  fix i assume i: "i < length ns"
  have "n_visited (ns ! i) = n_visited (ms ! i)" using assms i by (auto simp: agree_def marked_def set_eq_iff)
  then show "ns ! i = ms ! i" using assms(1) i by (simp add: agree_def)
qed (use assms in \<open>simp add: agree_def\<close>)

text \<open>The invariant of the forward search from \<open>y\<close> on the table \<open>ns0\<close> without marks.\<close>

definition fwd_inv :: "Node list \<Rightarrow> nat \<Rightarrow> nat \<Rightarrow> Node list \<Rightarrow> nat list \<Rightarrow> nat list \<Rightarrow> bool" where
  "fwd_inv ns0 y u ns stack delta \<longleftrightarrow> agree ns0 ns \<and> marked ns = set delta \<and> distinct delta \<and>
     set stack \<subseteq> {..<length ns0} \<and> y \<in> set delta \<union> set stack \<and>
     (\<forall>v \<in> set delta \<union> set stack. (y, v) \<in> (edges ns0)\<^sup>* \<and> rk ns0 v < u) \<and>
     (\<forall>v \<in> set delta. \<forall>w. (v, w) \<in> edges ns0 \<longrightarrow>
        rk ns0 w \<noteq> u \<and> (rk ns0 w < u \<longrightarrow> w \<in> set delta \<union> set stack))"

lemma ForwardDFS_edges_None:
  "ForwardDFS_edges ns u ws st = None \<Longrightarrow> \<exists>w \<in> set ws. rk ns w = u"
  by (induction ws arbitrary: st) (auto simp: Let_def split: if_splits)

lemma ForwardDFS_edges_Some:
  "ForwardDFS_edges ns u ws st = Some st' \<Longrightarrow>
     set st' = set st \<union> {w \<in> set ws. \<not> n_visited (ns ! w) \<and> rk ns w < u} \<and> (\<forall>w \<in> set ws. rk ns w \<noteq> u)"
  by (induction ws arbitrary: st) (auto simp: Let_def split: if_splits)

text \<open>What the searches rely on of the hash sets: iterating visits exactly the elements.\<close>

locale edge_iteration =
  fixes ord :: iteration_order
  assumes set_ord: "finite S \<Longrightarrow> set (ord S) = S"
begin

lemma wf_ord:
  assumes "wf_nodes ns" "x < length ns"
  shows "set (ord (n_out (ns ! x))) = n_out (ns ! x)" "set (ord (n_in (ns ! x))) = n_in (ns ! x)"
  using assms by (auto intro!: set_ord simp: wf_nodes_def intro: finite_subset)

lemma fwd_inv_step:
  assumes wf: "wf_nodes ns0" and inv: "fwd_inv ns0 y u ns (n # stack) delta" and nv: "\<not> n_visited (ns ! n)"
    and st: "ForwardDFS_edges (upd n (set_visited True) ns) u (ord (n_out (ns ! n))) stack = Some st'"
  shows "fwd_inv ns0 y u (upd n (set_visited True) ns) st' (delta @ [n])"
proof -
  let ?ms = "upd n (set_visited True) ns"
  have ag: "agree ns0 ns" and n: "n < length ns0" using inv by (auto simp: fwd_inv_def)
  have len: "length ns = length ns0" using ag by (simp add: agree_def)
  have ag': "agree ns0 ?ms" using agree_trans [OF ag agree_mark] .
  have rk: "rk ?ms i = rk ns0 i" if "i < length ns0" for i using ag' that by (simp add: agree_def)
  have outs: "set (ord (n_out (ns ! n))) = {w. (n, w) \<in> edges ns0}"
    using wf_ord(1) [of ns n] agree_wf [OF ag] wf n len ag by (auto simp: edges_def agree_def)
  have range: "(n, w) \<in> edges ns0 \<Longrightarrow> w < length ns0" for w using edges_in_range [OF wf] by blast
  note se = ForwardDFS_edges_Some [OF st, unfolded outs]
  have vis: "n_visited (?ms ! w) \<longleftrightarrow> w \<in> insert n (set delta)" if "w < length ns0" for w
    using inv that len by (auto simp: fwd_inv_def marked_def nth_upd set_eq_iff)
  have nd: "n \<notin> set delta" using inv nv n len by (auto simp: fwd_inv_def marked_def)
  have mk: "marked ?ms = set (delta @ [n])" using marked_mark [of n ns True] inv n len by (simp add: fwd_inv_def)
  have new: "set st' = set stack \<union> {w. (n, w) \<in> edges ns0 \<and> w \<notin> insert n (set delta) \<and> rk ns0 w < u}"
    using se range rk vis by auto
  have reach: "(y, n) \<in> (edges ns0)\<^sup>*" using inv by (simp add: fwd_inv_def)
  have ne: "rk ns0 w \<noteq> u" if "(n, w) \<in> edges ns0" for w using se that range rk by auto
  show ?thesis
    unfolding fwd_inv_def
  proof (intro conjI)
    show "set st' \<subseteq> {..<length ns0}" using new inv range by (auto simp: fwd_inv_def)
    show "y \<in> set (delta @ [n]) \<union> set st'" using inv new by (auto simp: fwd_inv_def)
    show "\<forall>v \<in> set (delta @ [n]) \<union> set st'. (y, v) \<in> (edges ns0)\<^sup>* \<and> rk ns0 v < u"
      using inv new reach by (auto simp: fwd_inv_def intro: rtrancl_into_rtrancl)
    show "\<forall>v \<in> set (delta @ [n]). \<forall>w. (v, w) \<in> edges ns0 \<longrightarrow>
        rk ns0 w \<noteq> u \<and> (rk ns0 w < u \<longrightarrow> w \<in> set (delta @ [n]) \<union> set st')"
      using inv new ne by (auto simp: fwd_inv_def)
  qed (use ag' mk nd inv in \<open>auto simp: fwd_inv_def\<close>)
qed

end

lemma ForwardDFS_loop_inv:
  "fwd_inv ns0 y u ns stack delta \<Longrightarrow> edge_iteration ord \<Longrightarrow> wf_nodes ns0 \<Longrightarrow>
    \<exists>ns' delta'. (ForwardDFS_loop ord u ns stack delta = Some (True, ns', delta') \<and> fwd_inv ns0 y u ns' [] delta') \<or>
      (ForwardDFS_loop ord u ns stack delta = Some (False, ns', delta') \<and> agree ns0 ns' \<and> marked ns' = set delta' \<and>
         set delta' \<subseteq> {..<length ns0} \<and> (\<exists>w. (y, w) \<in> (edges ns0)\<^sup>* \<and> w < length ns0 \<and> rk ns0 w = u))"
proof (induction ord u ns stack delta rule: ForwardDFS_loop.induct)
  case (1 ord u ns delta)
  then show ?case by auto
next
  case (2 ord u ns n stack delta)
  note it = "2.prems"(2)
  have ag: "agree ns0 ns" and n: "n < length ns0" using "2.prems" by (auto simp: fwd_inv_def)
  then have nl: "n < length ns" by (simp add: agree_def)
  show ?case
  proof (cases "n_visited (ns ! n)")
    case True
    have "n \<in> set delta" using "2.prems"(1) True nl by (auto simp: fwd_inv_def marked_def)
    then have "fwd_inv ns0 y u ns stack delta" using "2.prems"(1) by (auto simp: fwd_inv_def)
    from "2.IH"(1) [OF nl True this "2.prems"(2,3)] show ?thesis using True nl by simp
  next
    case False
    let ?ms = "upd n (set_visited True) ns"
    show ?thesis
    proof (cases "ForwardDFS_edges ?ms u (ord (n_out (ns ! n))) stack")
      case (Some st')
      from "2.IH"(2) [OF nl False Some edge_iteration.fwd_inv_step [OF it "2.prems"(3,1) False Some] "2.prems"(2,3)]
      show ?thesis using False Some nl by simp
    next
      case None
      have ag': "agree ns0 ?ms" using agree_trans [OF ag agree_mark] .
      from ForwardDFS_edges_None [OF None] obtain w where w: "w \<in> set (ord (n_out (ns ! n)))" "rk ?ms w = u" by blast
      have "wf_nodes ns" using agree_wf [OF ag] "2.prems"(3) by simp
      then have "w \<in> n_out (ns ! n)" using edge_iteration.wf_ord(1) [OF it, of ns n] nl w(1) by simp
      then have e: "(n, w) \<in> edges ns0" using ag n by (simp add: edges_def agree_def)
      then have wl: "w < length ns0" using edges_in_range "2.prems"(3) by blast
      have "(y, w) \<in> (edges ns0)\<^sup>*" using "2.prems"(1) e by (auto simp: fwd_inv_def intro: rtrancl_into_rtrancl)
      moreover have "rk ns0 w = u" using w(2) wl ag' by (simp add: agree_def)
      moreover have "marked ?ms = set (delta @ [n])"
        using "2.prems"(1) marked_mark [OF nl, of True] by (simp add: fwd_inv_def)
      moreover have "set (delta @ [n]) \<subseteq> {..<length ns0}"
        using "2.prems"(1) n ag by (auto simp: fwd_inv_def marked_def agree_def)
      ultimately show ?thesis using False None nl ag' wl by auto
    qed
  qed
qed

text \<open>The forward search: it fails exactly when a node of rank \<open>u\<close> can be reached, and otherwise
  marks the nodes below \<open>u\<close> that can be reached. Edges out of the node of rank \<open>u\<close> need not respect
  the ranks.\<close>

lemma ForwardDFS_correct:
  assumes it: "edge_iteration ord" and wf: "wf_nodes ns" and clean: "marked ns = {}"
    and y: "y < length ns" "rk ns y < u"
    and topo: "\<And>v w. (v, w) \<in> edges ns \<Longrightarrow> rk ns v \<noteq> u \<Longrightarrow> rk ns v < rk ns w"
  shows "\<exists>ns' delta. ForwardDFS ord ns y u = Some (\<not> (\<exists>w. (y, w) \<in> (edges ns)\<^sup>* \<and> rk ns w = u), ns', delta) \<and>
    agree ns ns' \<and> marked ns' = set delta \<and>
    (\<not> (\<exists>w. (y, w) \<in> (edges ns)\<^sup>* \<and> rk ns w = u) \<longrightarrow>
       distinct delta \<and> set delta = {v. (y, v) \<in> (edges ns)\<^sup>* \<and> rk ns v < u})"
proof -
  have "fwd_inv ns y u ns [y] []" using clean y by (simp add: fwd_inv_def)
  from ForwardDFS_loop_inv [OF this it wf] obtain ns' delta where
    "(ForwardDFS ord ns y u = Some (True, ns', delta) \<and> fwd_inv ns y u ns' [] delta) \<or>
      (ForwardDFS ord ns y u = Some (False, ns', delta) \<and> agree ns ns' \<and> marked ns' = set delta \<and>
         (\<exists>w. (y, w) \<in> (edges ns)\<^sup>* \<and> rk ns w = u))" unfolding ForwardDFS_def by blast
  then show ?thesis
  proof
    assume "ForwardDFS ord ns y u = Some (False, ns', delta) \<and> agree ns ns' \<and> marked ns' = set delta \<and>
         (\<exists>w. (y, w) \<in> (edges ns)\<^sup>* \<and> rk ns w = u)"
    then show ?thesis by (intro exI [of _ ns'] exI [of _ delta]) simp
  next
    assume a: "ForwardDFS ord ns y u = Some (True, ns', delta) \<and> fwd_inv ns y u ns' [] delta"
    have reach: "v \<in> set delta \<and> rk ns v < u \<or> u < rk ns v" if "(y, v) \<in> (edges ns)\<^sup>*" for v
      using that
    proof (induction rule: rtrancl_induct)
      case base
      then show ?case using a y by (simp add: fwd_inv_def)
    next
      case (step v w)
      from step.IH show ?case
      proof
        assume "v \<in> set delta \<and> rk ns v < u"
        then have "rk ns w \<noteq> u \<and> (rk ns w < u \<longrightarrow> w \<in> set delta)" using a step.hyps(2) by (auto simp: fwd_inv_def)
        then show ?thesis by linarith
      next
        assume "u < rk ns v"
        then show ?thesis using topo [OF step.hyps(2)] by simp
      qed
    qed
    have none: "\<not> (\<exists>w. (y, w) \<in> (edges ns)\<^sup>* \<and> rk ns w = u)" using reach by fastforce
    have "set delta = {v. (y, v) \<in> (edges ns)\<^sup>* \<and> rk ns v < u}"
    proof (intro set_eqI iffI)
      fix v assume "v \<in> {v. (y, v) \<in> (edges ns)\<^sup>* \<and> rk ns v < u}"
      then show "v \<in> set delta" using reach [of v] by auto
    qed (use a in \<open>auto simp: fwd_inv_def\<close>)
    then show ?thesis using a none
      by (intro exI [of _ ns'] exI [of _ delta]) (simp add: fwd_inv_def)
  qed
qed

text \<open>The backward search, which runs over the marks \<open>V0\<close> that the forward search left.\<close>

lemma BackwardDFS_edges_set:
  "set (BackwardDFS_edges ns l ws st) = set st \<union> {w \<in> set ws. \<not> n_visited (ns ! w) \<and> l < rk ns w}"
  by (induction ws arbitrary: st) (auto simp: Let_def)

definition bwd_inv :: "Node list \<Rightarrow> nat set \<Rightarrow> nat \<Rightarrow> nat \<Rightarrow> Node list \<Rightarrow> nat list \<Rightarrow> nat list \<Rightarrow> bool" where
  "bwd_inv ns0 V0 x l ns stack delta \<longleftrightarrow> agree ns0 ns \<and> marked ns = V0 \<union> set delta \<and> distinct delta \<and>
     set delta \<inter> V0 = {} \<and> set stack \<subseteq> {..<length ns0} \<and> x \<in> set delta \<union> set stack \<and>
     (\<forall>v \<in> set delta \<union> set stack. (v, x) \<in> (edges ns0)\<^sup>* \<and> l < rk ns0 v) \<and>
     (\<forall>v \<in> set delta. \<forall>w. (w, v) \<in> edges ns0 \<longrightarrow> l < rk ns0 w \<longrightarrow> w \<in> V0 \<union> set delta \<union> set stack)"

lemma bwd_inv_step:
  assumes it: "edge_iteration ord" and wf: "wf_nodes ns0" and inv: "bwd_inv ns0 V0 x l ns (n # stack) delta"
    and nv: "\<not> n_visited (ns ! n)"
  shows "bwd_inv ns0 V0 x l (upd n (set_visited True) ns)
    (BackwardDFS_edges (upd n (set_visited True) ns) l (ord (n_in (ns ! n))) stack) (delta @ [n])"
proof -
  let ?ms = "upd n (set_visited True) ns"
  let ?st = "BackwardDFS_edges ?ms l (ord (n_in (ns ! n))) stack"
  have ag: "agree ns0 ns" and n: "n < length ns0" using inv by (auto simp: bwd_inv_def)
  have len: "length ns = length ns0" using ag by (simp add: agree_def)
  have wfn: "wf_nodes ns" using agree_wf [OF ag] wf by simp
  have ag': "agree ns0 ?ms" using agree_trans [OF ag agree_mark] .
  have rk: "rk ?ms i = rk ns0 i" if "i < length ns0" for i using ag' that by (simp add: agree_def)
  have ins: "set (ord (n_in (ns ! n))) = {w. (w, n) \<in> edges ns0}"
    using edge_iteration.wf_ord(2) [OF it wfn, of n] wf_in_edges [OF wfn, of n] n len agree_edges [OF ag] by simp
  have range: "(w, n) \<in> edges ns0 \<Longrightarrow> w < length ns0" for w using edges_in_range [OF wf] by blast
  have vis: "n_visited (?ms ! w) \<longleftrightarrow> w \<in> V0 \<union> insert n (set delta)" if "w < length ns0" for w
    using inv that len by (auto simp: bwd_inv_def marked_def nth_upd set_eq_iff)
  have nd: "n \<notin> V0 \<union> set delta" using inv nv n len by (auto simp: bwd_inv_def marked_def set_eq_iff)
  have mk: "marked ?ms = V0 \<union> set (delta @ [n])" using marked_mark [of n ns True] inv n len by (simp add: bwd_inv_def)
  have new: "set ?st = set stack \<union> {w. (w, n) \<in> edges ns0 \<and> w \<notin> V0 \<union> insert n (set delta) \<and> l < rk ns0 w}"
    unfolding BackwardDFS_edges_set ins using range rk vis by auto
  have reach: "(n, x) \<in> (edges ns0)\<^sup>*" using inv by (simp add: bwd_inv_def)
  show ?thesis
    unfolding bwd_inv_def
  proof (intro conjI)
    show "set ?st \<subseteq> {..<length ns0}" using new inv range by (auto simp: bwd_inv_def)
    show "x \<in> set (delta @ [n]) \<union> set ?st" using inv new by (auto simp: bwd_inv_def)
    show "\<forall>v \<in> set (delta @ [n]) \<union> set ?st. (v, x) \<in> (edges ns0)\<^sup>* \<and> l < rk ns0 v"
      using inv new reach by (auto simp: bwd_inv_def intro: converse_rtrancl_into_rtrancl)
    show "\<forall>v \<in> set (delta @ [n]). \<forall>w. (w, v) \<in> edges ns0 \<longrightarrow> l < rk ns0 w \<longrightarrow>
        w \<in> V0 \<union> set (delta @ [n]) \<union> set ?st"
      using inv new by (auto simp: bwd_inv_def)
  qed (use ag' mk nd inv in \<open>auto simp: bwd_inv_def\<close>)
qed

lemma BackwardDFS_loop_inv:
  "bwd_inv ns0 V0 x l ns stack delta \<Longrightarrow> edge_iteration ord \<Longrightarrow> wf_nodes ns0 \<Longrightarrow>
    \<exists>ns' delta'. BackwardDFS_loop ord l ns stack delta = Some (ns', delta') \<and> bwd_inv ns0 V0 x l ns' [] delta' \<or>
      (\<exists>v. v \<in> V0 \<and> (v, x) \<in> (edges ns0)\<^sup>*)"
proof (induction ord l ns stack delta rule: BackwardDFS_loop.induct)
  case (2 ord l ns n stack delta)
  have ag: "agree ns0 ns" and n: "n < length ns0" using "2.prems" by (auto simp: bwd_inv_def)
  then have nl: "n < length ns" by (simp add: agree_def)
  show ?case
  proof (cases "n_visited (ns ! n)")
    case True
    then have "n \<in> V0 \<or> n \<in> set delta" using "2.prems"(1) nl by (auto simp: bwd_inv_def marked_def set_eq_iff)
    then show ?thesis
    proof
      assume "n \<in> V0"
      then show ?thesis using "2.prems"(1) by (auto simp: bwd_inv_def)
    next
      assume "n \<in> set delta"
      then have "bwd_inv ns0 V0 x l ns stack delta" using "2.prems"(1) by (auto simp: bwd_inv_def)
      from "2.IH"(1) [OF nl True this "2.prems"(2,3)] show ?thesis using True nl by simp
    qed
  next
    case False
    from "2.IH"(2) [OF nl False bwd_inv_step [OF "2.prems"(2,3,1) False] "2.prems"(2,3)]
    show ?thesis using False nl by simp
  qed
qed auto

lemma BackwardDFS_correct:
  assumes it: "edge_iteration ord" and wf: "wf_nodes ns" and x: "x < length ns" "l < rk ns x"
    and disj: "\<And>v. (v, x) \<in> (edges ns)\<^sup>* \<Longrightarrow> v \<notin> marked ns"
    and topo: "\<And>v w. (v, w) \<in> edges ns \<Longrightarrow> v \<noteq> x \<Longrightarrow> rk ns v < rk ns w"
  shows "\<exists>ns' delta. BackwardDFS ord ns x l = Some (ns', delta) \<and> agree ns ns' \<and>
    marked ns' = marked ns \<union> set delta \<and> distinct delta \<and> set delta = {v. (v, x) \<in> (edges ns)\<^sup>* \<and> l < rk ns v}"
proof -
  have "bwd_inv ns (marked ns) x l ns [x] []" using x by (simp add: bwd_inv_def)
  from BackwardDFS_loop_inv [OF this it wf] disj obtain ns' delta where
    a: "BackwardDFS ord ns x l = Some (ns', delta)" "bwd_inv ns (marked ns) x l ns' [] delta"
    unfolding BackwardDFS_def by blast
  have reach: "v \<in> set delta \<or> rk ns v \<le> l" if "(v, x) \<in> (edges ns)\<^sup>*" for v
    using that
  proof (induction rule: converse_rtrancl_induct)
    case base
    then show ?case using a by (simp add: bwd_inv_def)
  next
    case (step w v)
    have r: "(w, x) \<in> (edges ns)\<^sup>*" using step.hyps by (rule converse_rtrancl_into_rtrancl)
    show ?case
    proof (cases "w = x")
      case True
      then show ?thesis using a by (simp add: bwd_inv_def)
    next
      case False
      from step.IH show ?thesis
      proof
        assume "v \<in> set delta"
        then have "l < rk ns w \<longrightarrow> w \<in> marked ns \<union> set delta"
          using a(2) step.hyps(1) unfolding bwd_inv_def by fastforce
        then show ?thesis using disj [OF r] by (meson Un_iff not_le)
      next
        assume "rk ns v \<le> l"
        then show ?thesis using topo [OF step.hyps(1) False] by simp
      qed
    qed
  qed
  have "set delta = {v. (v, x) \<in> (edges ns)\<^sup>* \<and> l < rk ns v}"
  proof (intro set_eqI iffI)
    fix v assume "v \<in> {v. (v, x) \<in> (edges ns)\<^sup>* \<and> l < rk ns v}"
    then show "v \<in> set delta" using reach [of v] by auto
  qed (use a(2) in \<open>auto simp: bwd_inv_def\<close>)
  then show ?thesis using a by (intro exI [of _ ns'] exI [of _ delta]) (simp add: bwd_inv_def)
qed

section \<open>Reassigning ranks\<close>

lemma mset_std_merge: "mset (std_merge xs ys) = mset xs + mset ys"
  by (induction xs ys rule: std_merge.induct) auto

lemma set_std_merge: "set (std_merge xs ys) = set xs \<union> set ys"
  by (metis mset_std_merge set_mset_mset set_mset_union)

lemma sorted_std_merge: "sorted xs \<Longrightarrow> sorted ys \<Longrightarrow> sorted (std_merge xs ys)"
  by (induction xs ys rule: std_merge.induct) (auto simp: set_std_merge)

lemma strict_std_merge:
  assumes "sorted_wrt (<) xs" "sorted_wrt (<) ys" "set xs \<inter> set ys = {}"
  shows "sorted_wrt (<) (std_merge xs ys)"
proof -
  have "distinct (std_merge xs ys)"
    using assms by (metis distinct_append mset_append mset_eq_imp_distinct_iff mset_std_merge strict_sorted_iff)
  then show ?thesis using assms sorted_std_merge by (simp add: strict_sorted_iff)
qed

text \<open>The elements of a sorted part of a sorted list: the \<open>j\<close>-th from the front is not below the
  \<open>j\<close>-th of the whole, and dually from the end.\<close>

lemma sorted_part_front:
  fixes R xs :: "nat list"
  assumes R: "sorted_wrt (<) R" and xs: "sorted_wrt (<) xs" "set xs \<subseteq> set R" and j: "j < length xs"
  shows "R ! j \<le> xs ! j"
proof (rule ccontr)
  assume n: "\<not> R ! j \<le> xs ! j"
  have jR: "j < length R"
  proof -
    have "length xs \<le> length R"
      using xs R by (metis card_mono distinct_card List.finite_set strict_sorted_iff)
    then show ?thesis using j by simp
  qed
  have "set (take (Suc j) xs) \<subseteq> set (take j R)"
  proof
    fix v assume "v \<in> set (take (Suc j) xs)"
    then obtain m where m: "m \<le> j" "v = xs ! m" using j by (auto simp: in_set_conv_nth less_Suc_eq_le)
    have "v \<le> xs ! j" using m xs(1) j by (cases "m = j") (auto simp: sorted_wrt_iff_nth_less intro: less_imp_le)
    moreover obtain k where k: "k < length R" "v = R ! k" using xs(2) m j by (metis in_set_conv_nth le_less_trans nth_mem subsetD)
    ultimately have "R ! k < R ! j" using n by simp
    then have "k < j" using R k jR by (metis linorder_neqE_nat not_less_iff_gr_or_eq sorted_wrt_nth_less)
    then show "v \<in> set (take j R)" using k by (auto simp: in_set_conv_nth)
  qed
  then have "card (set (take (Suc j) xs)) \<le> card (set (take j R))" by (simp add: card_mono)
  moreover have "card (set (take (Suc j) xs)) = Suc j"
    using xs(1) j by (metis Suc_leI distinct_card distinct_take length_take min_absorb2 strict_sorted_iff)
  moreover have "card (set (take j R)) \<le> j" by (metis card_length length_take min.bounded_iff order.trans min.cobounded2)
  ultimately show False by simp
qed

lemma sorted_part_back:
  fixes R ys :: "nat list"
  assumes R: "sorted_wrt (<) R" and ys: "sorted_wrt (<) ys" "set ys \<subseteq> set R" and j: "j < length ys"
  shows "ys ! j \<le> R ! (length R - length ys + j)"
proof (rule ccontr)
  let ?m = "length R - length ys + j"
  assume n: "\<not> ys ! j \<le> R ! ?m"
  have le: "length ys \<le> length R"
    using ys R by (metis card_mono distinct_card List.finite_set strict_sorted_iff)
  have mR: "?m < length R" using le j by simp
  have "set (drop j ys) \<subseteq> set (drop (Suc ?m) R)"
  proof
    fix v assume "v \<in> set (drop j ys)"
    then obtain i where i: "i < length ys - j" "v = ys ! (j + i)" by (auto simp: in_set_conv_nth)
    have "ys ! j \<le> v" using i ys(1) j by (cases "i = 0") (auto simp: sorted_wrt_iff_nth_less intro!: less_imp_le)
    moreover obtain k where k: "k < length R" "v = R ! k"
      using ys(2) i by (metis add.commute in_set_conv_nth less_diff_conv nth_mem subsetD)
    ultimately have "R ! ?m < R ! k" using n by simp
    then have "?m < k" using R k mR by (metis linorder_neqE_nat not_less_iff_gr_or_eq sorted_wrt_nth_less)
    then have "k - Suc ?m < length (drop (Suc ?m) R)" "v = drop (Suc ?m) R ! (k - Suc ?m)" using k by auto
    then show "v \<in> set (drop (Suc ?m) R)" using nth_mem by metis
  qed
  then have "card (set (drop j ys)) \<le> card (set (drop (Suc ?m) R))" by (simp add: card_mono)
  moreover have "card (set (drop j ys)) = length ys - j"
    using ys(1) by (metis distinct_card distinct_drop length_drop strict_sorted_iff)
  moreover have "card (set (drop (Suc ?m) R)) \<le> length R - Suc ?m" by (metis card_length length_drop)
  ultimately show False using le j by simp
qed

text \<open>The new ranks \<open>r'\<close>: those of the two sorted lists, merged and given to the lists in turn.\<close>

definition reassigned :: "nat set \<Rightarrow> (nat \<Rightarrow> nat) \<Rightarrow> (nat \<Rightarrow> nat) \<Rightarrow> nat list \<Rightarrow> nat list \<Rightarrow> bool" where
  "reassigned A r r' SB SF \<longleftrightarrow> inj_on r A \<and> set (SB @ SF) \<subseteq> A \<and>
     sorted_wrt (<) (map r SB) \<and> sorted_wrt (<) (map r SF) \<and> set SB \<inter> set SF = {} \<and>
     map r' (SB @ SF) = std_merge (map r SB) (map r SF) \<and> (\<forall>i \<in> A - set (SB @ SF). r' i = r i)"

lemma reassigned_pool:
  assumes "reassigned A r r' SB SF"
  shows "sorted_wrt (<) (map r' (SB @ SF))" "set (map r' (SB @ SF)) = r ` set (SB @ SF)"
proof -
  have "r ` set SB \<inter> r ` set SF = {}"
    using assms by (auto simp: reassigned_def dest!: inj_onD)
  then show "sorted_wrt (<) (map r' (SB @ SF))"
    using assms strict_std_merge [of "map r SB" "map r SF"] by (simp only: reassigned_def set_map)
  show "set (map r' (SB @ SF)) = r ` set (SB @ SF)"
    using assms by (simp only: reassigned_def set_std_merge) (simp add: image_Un)
qed

lemma reassigned_bij:
  assumes re: "reassigned A r r' SB SF"
  shows "inj_on r' A" "r' ` A = r ` A"
proof -
  let ?L = "set (SB @ SF)"
  have L: "?L \<subseteq> A" and inj: "inj_on r A" and off: "\<And>i. i \<in> A - ?L \<Longrightarrow> r' i = r i"
    using re by (auto simp: reassigned_def)
  have im: "r' ` ?L = r ` ?L" using reassigned_pool(2) [OF re] by (simp only: set_map)
  have injL: "inj_on r' ?L"
    using reassigned_pool(1) [OF re] by (simp only: strict_sorted_iff distinct_map)
  have imo: "r' ` (A - ?L) = r ` (A - ?L)" using off by (rule image_cong [OF refl])
  have injo: "inj_on r' (A - ?L)" by (rule iffD2 [OF inj_on_cong inj_on_diff [OF inj]]) (rule off)
  have A: "A = ?L \<union> (A - ?L)" using L by blast
  have "r ` (?L \<inter> (A - ?L)) = r ` ?L \<inter> r ` (A - ?L)" by (rule inj_on_image_Int [OF inj L]) blast
  then have "r' ` ?L \<inter> r' ` (A - ?L) = {}" unfolding im imo by simp
  then have "inj_on r' (?L \<union> (A - ?L))" using injL injo unfolding inj_on_Un by blast
  then show "inj_on r' A" using A by simp
  have "r' ` (?L \<union> (A - ?L)) = r ` (?L \<union> (A - ?L))" by (simp only: image_Un im imo)
  then show "r' ` A = r ` A" using A by simp
qed

lemma reassigned_down:
  assumes re: "reassigned A r r' SB SF" and v: "v \<in> set SB" shows "r' v \<le> r v"
proof -
  obtain j where j: "j < length SB" "v = SB ! j" using v by (auto simp: in_set_conv_nth)
  have "map r' (SB @ SF) ! j \<le> map r SB ! j"
    using reassigned_pool [OF re] re j(1) by (intro sorted_part_front) (auto simp: reassigned_def set_std_merge)
  then show ?thesis using j by (simp add: nth_append)
qed

lemma reassigned_up:
  assumes re: "reassigned A r r' SB SF" and v: "v \<in> set SF" shows "r v \<le> r' v"
proof -
  obtain j where j: "j < length SF" "v = SF ! j" using v by (auto simp: in_set_conv_nth)
  have "map r SF ! j \<le> map r' (SB @ SF) ! (length (map r' (SB @ SF)) - length (map r SF) + j)"
    using reassigned_pool [OF re] re j(1) by (intro sorted_part_back) (auto simp: reassigned_def set_std_merge)
  then show ?thesis using j by (simp add: nth_append)
qed

lemma reassigned_between:
  assumes re: "reassigned A r r' SB SF" and "v \<in> set SB" "w \<in> set SF" shows "r' v < r' w"
  using reassigned_pool(1) [OF re] assms(2,3) by (auto simp: sorted_wrt_append)

lemma map_strict_mono:
  fixes f g :: "nat \<Rightarrow> nat"
  assumes "sorted_wrt (<) (map f xs)" "sorted_wrt (<) (map g xs)" "v \<in> set xs" "w \<in> set xs" "f v < f w"
  shows "g v < g w"
proof -
  obtain i j where ij: "i < length xs" "v = xs ! i" "j < length xs" "w = xs ! j"
    using assms(3,4) by (auto simp: in_set_conv_nth)
  have "i < j"
  proof (rule ccontr)
    assume "\<not> i < j"
    then have "f w \<le> f v" using assms(1) ij
      by (cases "i = j") (auto simp: sorted_wrt_iff_nth_less intro!: less_imp_le)
    then show False using assms(5) by simp
  qed
  then show ?thesis using assms(2) ij by (simp add: sorted_wrt_iff_nth_less)
qed

lemma reassigned_within:
  assumes re: "reassigned A r r' SB SF" and "v \<in> set SB \<and> w \<in> set SB \<or> v \<in> set SF \<and> w \<in> set SF" "r v < r w"
  shows "r' v < r' w"
proof -
  have "sorted_wrt (<) (map r' SB)" "sorted_wrt (<) (map r' SF)"
    using reassigned_pool(1) [OF re] by (auto simp: sorted_wrt_append)
  moreover have "sorted_wrt (<) (map r SB)" "sorted_wrt (<) (map r SF)" using re by (auto simp: reassigned_def)
  ultimately show ?thesis using assms(2,3) map_strict_mono by blast
qed

text \<open>The theorem of Pearce and Kelly: after the edge \<open>(x, y)\<close> against the ranks, moving what reaches
  \<open>x\<close> above \<open>y\<close> before what \<open>y\<close> reaches below \<open>x\<close> gives ranks that every edge respects.\<close>

lemma reassigned_topo:
  assumes re: "reassigned A r r' SB SF" and EA: "E \<subseteq> A \<times> A" and xy: "(x, y) \<in> E" "r y < r x"
    and topo: "\<And>v w. (v, w) \<in> E \<Longrightarrow> (v, w) \<noteq> (x, y) \<Longrightarrow> r v < r w" and acyc: "(y, x) \<notin> E\<^sup>*"
    and B: "set SB = {v. (v, x) \<in> E\<^sup>* \<and> r y < r v}" and F: "set SF = {v. (y, v) \<in> E\<^sup>* \<and> r v < r x}"
    and vw: "(v, w) \<in> E"
  shows "r' v < r' w"
proof -
  have inA: "v \<in> A" "w \<in> A" "x \<in> A" "y \<in> A" using EA vw xy(1) by auto
  have inj: "a = b" if "r a = r b" "a \<in> A" "b \<in> A" for a b using re that by (auto simp: reassigned_def dest: inj_onD)
  have off: "r' i = r i" if "i \<in> A" "i \<notin> set SB" "i \<notin> set SF" for i using re that by (auto simp: reassigned_def)
  have lex: "r u \<le> r x" if "(u, x) \<in> E\<^sup>*" for u
    using that
  proof (induction rule: converse_rtrancl_induct)
    case (step a b)
    then show ?case using topo [of a b] by (cases "a = x") auto
  qed simp
  have gey: "r y \<le> r u" if "(y, u) \<in> E\<^sup>*" for u
    using that
  proof (induction rule: rtrancl_induct)
    case (step a b)
    then have "a \<noteq> x" using acyc by auto
    then show ?case using topo [of a b] step by auto
  qed simp
  have img: "r' u \<in> r ` set (SB @ SF)" if "u \<in> set (SB @ SF)" for u
    using reassigned_pool(2) [OF re] that by (metis image_eqI set_map)
  have low: "r y \<le> r' u" if u: "u \<in> set (SB @ SF)" for u
    using img [OF u] B F gey by auto
  have high: "r' u \<le> r x" if u: "u \<in> set (SB @ SF)" for u
    using img [OF u] B F lex by auto
  have xB: "x \<in> set SB" "x \<notin> set SF" and yF: "y \<in> set SF" "y \<notin> set SB" using B F xy by auto
  consider (BB) "v \<in> set SB" "w \<in> set SB" | (FF) "v \<in> set SF" "w \<in> set SF" | (BF) "v \<in> set SB" "w \<in> set SF"
    | (FB) "v \<in> set SF" "w \<in> set SB" | (Bo) "v \<in> set SB" "w \<notin> set SB" "w \<notin> set SF"
    | (Fo) "v \<in> set SF" "w \<notin> set SB" "w \<notin> set SF" | (oB) "v \<notin> set SB" "v \<notin> set SF" "w \<in> set SB"
    | (oF) "v \<notin> set SB" "v \<notin> set SF" "w \<in> set SF" | (oo) "v \<notin> set SB" "v \<notin> set SF" "w \<notin> set SB" "w \<notin> set SF"
    by blast
  then show ?thesis
  proof cases
    case BB
    then have "r v < r w" using topo [OF vw] yF by auto
    then show ?thesis using reassigned_within [OF re] BB by blast
  next
    case FF
    then have "r v < r w" using topo [OF vw] xB by auto
    then show ?thesis using reassigned_within [OF re] FF by blast
  next
    case BF
    then show ?thesis using reassigned_between [OF re] by blast
  next
    case FB
    then have "(y, x) \<in> E\<^sup>*" using B F vw by (auto intro: rtrancl_trans converse_rtrancl_into_rtrancl)
    then show ?thesis using acyc by simp
  next
    case Bo
    then have "r v < r w" using topo [OF vw] yF by auto
    then show ?thesis using reassigned_down [OF re Bo(1)] off [OF inA(2) Bo(2,3)] by simp
  next
    case Fo
    then have yw: "(y, w) \<in> E\<^sup>*" using F vw by (auto intro: rtrancl_into_rtrancl)
    then have "w \<noteq> x" "\<not> r w < r x" using acyc Fo F by auto
    then have "r x < r w" using inj [of w x] inA by (meson linorder_neqE_nat)
    then show ?thesis using high [of v] off [OF inA(2) Fo(2,3)] Fo(1) by simp
  next
    case oB
    then have vx: "(v, x) \<in> E\<^sup>*" using B vw by (auto intro: converse_rtrancl_into_rtrancl)
    then have "v \<noteq> y" "\<not> r y < r v" using acyc oB B by auto
    then have "r v < r y" using inj [of v y] inA by (meson linorder_neqE_nat)
    then show ?thesis using low [of w] off [OF inA(1) oB(1,2)] oB(3) by simp
  next
    case oF
    then have "r v < r w" using topo [OF vw] xB by auto
    then show ?thesis using reassigned_up [OF re oF(3)] off [OF inA(1) oF(1,2)] by simp
  next
    case oo
    then have "r v < r w" using topo [OF vw] xB by auto
    then show ?thesis using off inA oo by simp
  qed
qed

section \<open>Reorder\<close>

definition same_graph :: "Node list \<Rightarrow> Node list \<Rightarrow> bool" where
  "same_graph ns ms \<longleftrightarrow> length ns = length ms \<and>
     (\<forall>i < length ns. n_in (ns ! i) = n_in (ms ! i) \<and> n_out (ns ! i) = n_out (ms ! i) \<and> n_data (ns ! i) = n_data (ms ! i))"

lemma same_graph_edges: "same_graph ns ms \<Longrightarrow> edges ns = edges ms"
  by (auto simp: same_graph_def edges_def)

lemma wf_nodes_cong:
  assumes "length ns = length ms"
    and eq: "\<And>i. i < length ns \<Longrightarrow> n_in (ns ! i) = n_in (ms ! i) \<and> n_out (ns ! i) = n_out (ms ! i)"
  shows "wf_nodes ns \<longleftrightarrow> wf_nodes ms"
  using assms(1) by (auto simp: wf_nodes_def eq)

lemma same_graph_wf: "same_graph ns ms \<Longrightarrow> wf_nodes ns \<longleftrightarrow> wf_nodes ms"
  by (rule wf_nodes_cong) (simp_all add: same_graph_def)

lemma agree_same_graph: "agree ns ms \<Longrightarrow> same_graph ns ms"
  by (simp add: agree_def same_graph_def)

lemma same_graph_trans: "same_graph a b \<Longrightarrow> same_graph b c \<Longrightarrow> same_graph a c"
  by (simp add: same_graph_def)

lemma ClearVisitedBits_agree: "agree ns (ClearVisitedBits ns xs)"
  unfolding ClearVisitedBits_def
  by (induction xs arbitrary: ns) (auto intro: agree_trans agree_mark)

lemma length_ClearVisitedBits [simp]: "length (ClearVisitedBits ns xs) = length ns"
  using ClearVisitedBits_agree [of ns xs] by (simp add: agree_def)

lemma marked_ClearVisitedBits:
  "set xs \<subseteq> {..<length ns} \<Longrightarrow> marked (ClearVisitedBits ns xs) = marked ns - set xs"
  unfolding ClearVisitedBits_def
  by (induction xs arbitrary: ns) (auto simp: marked_mark)

lemma MoveToList_eq:
  "set src \<subseteq> {..<length ns} \<Longrightarrow> MoveToList ns src dst = (map (rk ns) src, ClearVisitedBits ns src, dst @ src)"
proof (induction ns src dst rule: MoveToList.induct)
  case (2 ns w src dst)
  have "rk (upd w (set_visited False) ns) i = rk ns i" if "i < length ns" for i
    using that by (simp add: nth_upd)
  then show ?case using 2 by (auto simp: ClearVisitedBits_def)
qed (simp add: ClearVisitedBits_def)

lemma fold_assign_nth:
  "distinct (map fst ps) \<Longrightarrow> i < length ns \<Longrightarrow>
    fold (\<lambda>(n, r). upd n (\<lambda>nd. nd\<lparr>n_rank := r\<rparr>)) ps ns ! i =
      (case map_of ps i of None \<Rightarrow> ns ! i | Some r \<Rightarrow> (ns ! i)\<lparr>n_rank := r\<rparr>)"
proof (induction ps arbitrary: ns)
  case (Cons p ps)
  obtain n r where p: "p = (n, r)" by fastforce
  have "map_of ps n = None" using Cons.prems(1) p by (simp add: map_of_eq_None_iff)
  then show ?case using Cons p by (auto simp: nth_upd split: option.split)
qed simp

lemma length_fold_assign [simp]:
  "length (fold (\<lambda>(n, r). upd n (\<lambda>nd. nd\<lparr>n_rank := r\<rparr>)) ps ns) = length ns"
  by (induction ps arbitrary: ns) auto

lemma set_Sort [simp]: "set (Sort ns d) = set d" and distinct_Sort [simp]: "distinct (Sort ns d) = distinct d"
  by (simp_all add: Sort_def)

lemma length_std_merge [simp]: "length (std_merge xs ys) = length xs + length ys"
  using mset_std_merge [of xs ys] by (metis size_mset size_union)

lemma Sort_strict:
  assumes "distinct d" "set d \<subseteq> A" "inj_on (rk ns) A" shows "sorted_wrt (<) (map (rk ns) (Sort ns d))"
proof -
  have "sorted (map (rk ns) (Sort ns d))" by (simp add: Sort_def)
  moreover have "distinct (map (rk ns) (Sort ns d))"
    using assms by (simp add: distinct_map inj_on_subset)
  ultimately show ?thesis by (simp add: strict_sorted_iff)
qed

lemma Reorder_eq:
  assumes "set b \<subseteq> {..<length ns}" "set f \<subseteq> {..<length ns}"
  shows "Reorder ns b f =
    fold (\<lambda>(n, r). upd n (\<lambda>nd. nd\<lparr>n_rank := r\<rparr>))
      (zip (Sort ns b @ Sort ns f) (std_merge (map (rk ns) (Sort ns b)) (map (rk ns) (Sort ns f))))
      (ClearVisitedBits (ClearVisitedBits ns (Sort ns b)) (Sort ns f))"
proof -
  have ag: "agree ns (ClearVisitedBits ns (Sort ns b))" by (rule ClearVisitedBits_agree)
  have "map (rk (ClearVisitedBits ns (Sort ns b))) (Sort ns f) = map (rk ns) (Sort ns f)"
    using ag assms(2) by (auto simp: agree_def)
  then show ?thesis using assms by (simp add: Reorder_def MoveToList_eq del: map_eq_conv)
qed

lemma Reorder_spec:
  assumes inj: "inj_on (rk ns) {..<length ns}" and b: "distinct b" "set b \<subseteq> {..<length ns}"
    and f: "distinct f" "set f \<subseteq> {..<length ns}" and bf: "set b \<inter> set f = {}"
  shows "same_graph ns (Reorder ns b f)" "marked (Reorder ns b f) = marked ns - (set b \<union> set f)"
    "reassigned {..<length ns} (rk ns) (rk (Reorder ns b f)) (Sort ns b) (Sort ns f)"
proof -
  define L where "L = Sort ns b @ Sort ns f"
  define R where "R = std_merge (map (rk ns) (Sort ns b)) (map (rk ns) (Sort ns f))"
  define cs where "cs = ClearVisitedBits (ClearVisitedBits ns (Sort ns b)) (Sort ns f)"
  have ag: "agree ns cs" unfolding cs_def by (rule agree_trans [OF ClearVisitedBits_agree ClearVisitedBits_agree])
  have setL: "set L = set b \<union> set f" by (simp add: L_def)
  have dL: "distinct L" and lR: "length L = length R" using b f bf by (simp_all add: L_def R_def)
  have nth: "Reorder ns b f ! i =
      (case map_of (zip L R) i of None \<Rightarrow> cs ! i | Some r \<Rightarrow> (cs ! i)\<lparr>n_rank := r\<rparr>)" if "i < length ns" for i
    unfolding Reorder_eq [OF b(2) f(2), folded L_def R_def cs_def] using that dL lR ag
    by (intro fold_assign_nth) (simp_all add: map_fst_zip agree_def)
  have len: "length (Reorder ns b f) = length ns" by (simp add: Reorder_eq [OF b(2) f(2)])
  show "same_graph ns (Reorder ns b f)"
    using ag nth len by (auto simp: same_graph_def agree_def split: option.split)
  have "n_visited (Reorder ns b f ! i) = n_visited (cs ! i)" if "i < length ns" for i
    using nth [OF that] by (simp split: option.split)
  then have "marked (Reorder ns b f) = marked cs" using len ag by (auto simp: marked_def agree_def)
  then show "marked (Reorder ns b f) = marked ns - (set b \<union> set f)"
    using b f by (auto simp: marked_ClearVisitedBits cs_def)
  have "rk (Reorder ns b f) (L ! j) = R ! j" if "j < length L" for j
  proof -
    have "L ! j \<in> set L" using that by (rule nth_mem)
    then have "L ! j < length ns" using b(2) f(2) setL by auto
    from nth [OF this] show ?thesis by (simp add: map_of_zip_nth [OF lR dL] that lR [symmetric])
  qed
  then have "map (rk (Reorder ns b f)) L = R" using lR by (intro nth_equalityI) simp_all
  moreover have "rk (Reorder ns b f) i = rk ns i" if "i \<in> {..<length ns} - set L" for i
  proof -
    have "map_of (zip L R) i = None" using that lR by (simp add: map_of_zip_is_None)
    then show ?thesis using nth [of i] that ag by (simp add: agree_def)
  qed
  ultimately show "reassigned {..<length ns} (rk ns) (rk (Reorder ns b f)) (Sort ns b) (Sort ns f)"
    using inj b f bf Sort_strict [OF _ _ inj] by (simp add: reassigned_def L_def R_def)
qed

section \<open>The invariant and edge insertion\<close>

text \<open>A table of nodes between two operations: nothing is marked, the ranks are a permutation of the
  node numbers, and every edge goes to a greater rank.\<close>

definition good_nodes :: "Node list \<Rightarrow> bool" where
  "good_nodes ns \<longleftrightarrow> wf_nodes ns \<and> marked ns = {} \<and> rk ns ` {..<length ns} = {..<length ns} \<and>
     (\<forall>(x, y) \<in> edges ns. rk ns x < rk ns y)"

lemma good_nodes_topo: "good_nodes ns \<Longrightarrow> (x, y) \<in> edges ns \<Longrightarrow> rk ns x < rk ns y"
  by (auto simp: good_nodes_def)

lemma good_nodes_inj: "good_nodes ns \<Longrightarrow> inj_on (rk ns) {..<length ns}"
  by (rule finite_surj_inj) (auto simp: good_nodes_def)

lemma good_nodes_path: "(x, y) \<in> (edges ns)\<^sup>* \<Longrightarrow> good_nodes ns \<Longrightarrow> x = y \<or> rk ns x < rk ns y"
proof (induction rule: rtrancl_induct)
  case (step y z)
  then show ?case using good_nodes_topo [of ns y z] by auto
qed simp

lemma good_nodes_acyclic: "good_nodes ns \<Longrightarrow> acyclic (edges ns)"
proof (rule acyclicI, rule allI, rule notI)
  fix x assume g: "good_nodes ns" and "(x, x) \<in> (edges ns)\<^sup>+"
  then obtain z where z: "(x, z) \<in> edges ns" "(z, x) \<in> (edges ns)\<^sup>*" by (blast dest: tranclD)
  show False using good_nodes_topo [OF g z(1)] good_nodes_path [OF z(2) g] by auto
qed

definition add_edge :: "nat \<Rightarrow> nat \<Rightarrow> Node list \<Rightarrow> Node list" where
  "add_edge x y ns = upd y (\<lambda>n. n\<lparr>n_in := insert x (n_in n)\<rparr>) (upd x (\<lambda>n. n\<lparr>n_out := insert y (n_out n)\<rparr>) ns)"

lemma nth_add_edge:
  "i < length ns \<Longrightarrow> rk (add_edge x y ns) i = rk ns i \<and> n_visited (add_edge x y ns ! i) = n_visited (ns ! i) \<and>
     n_data (add_edge x y ns ! i) = n_data (ns ! i) \<and>
     n_out (add_edge x y ns ! i) = (if i = x then insert y else id) (n_out (ns ! i)) \<and>
     n_in (add_edge x y ns ! i) = (if i = y then insert x else id) (n_in (ns ! i))"
  by (simp add: add_edge_def nth_upd)

lemma length_add_edge [simp]: "length (add_edge x y ns) = length ns"
  by (simp add: add_edge_def)

lemma edges_add_edge: "x < length ns \<Longrightarrow> edges (add_edge x y ns) = insert (x, y) (edges ns)"
  by (auto simp: edges_def nth_add_edge split: if_splits)

lemma marked_add_edge: "marked (add_edge x y ns) = marked ns"
  by (auto simp: marked_def nth_add_edge)

lemma wf_add_edge: "wf_nodes ns \<Longrightarrow> x < length ns \<Longrightarrow> y < length ns \<Longrightarrow> wf_nodes (add_edge x y ns)"
  unfolding wf_nodes_def length_add_edge by (auto simp: nth_add_edge split: if_splits)

lemma nth_remove_edge:
  "i < length ns \<Longrightarrow> rk (remove_edge x y ns) i = rk ns i \<and> n_visited (remove_edge x y ns ! i) = n_visited (ns ! i) \<and>
     n_data (remove_edge x y ns ! i) = n_data (ns ! i) \<and>
     n_out (remove_edge x y ns ! i) = (if i = x then n_out (ns ! i) - {y} else n_out (ns ! i)) \<and>
     n_in (remove_edge x y ns ! i) = (if i = y then n_in (ns ! i) - {x} else n_in (ns ! i))"
  by (simp add: remove_edge_def nth_upd)

lemma length_remove_edge [simp]: "length (remove_edge x y ns) = length ns"
  by (simp add: remove_edge_def)

lemma marked_remove_edge: "marked (remove_edge x y ns) = marked ns"
  by (auto simp: marked_def nth_remove_edge)

lemma edges_remove_edge: "edges (remove_edge x y ns) = edges ns - {(x, y)}"
  by (auto simp: edges_def nth_remove_edge split: if_splits)

lemma wf_remove_edge: "wf_nodes ns \<Longrightarrow> wf_nodes (remove_edge x y ns)"
  unfolding wf_nodes_def length_remove_edge by (auto simp: nth_remove_edge split: if_splits)

lemma remove_add_edge:
  assumes "wf_nodes ns" "x < length ns" "y < length ns" "(x, y) \<notin> edges ns" "agree (add_edge x y ns) ms"
  shows "agree ns (remove_edge x y ms)"
proof -
  have "y \<notin> n_out (ns ! x)" "x \<notin> n_in (ns ! y)" using assms(1-4) by (auto simp: edges_def wf_nodes_def)
  then show ?thesis using assms(5) unfolding agree_def
    by (auto simp: nth_remove_edge nth_add_edge split: if_splits)
qed

lemma insert_cycle_iff: "(y, x) \<in> (insert (x, y) E)\<^sup>* \<longleftrightarrow> (y, x) \<in> E\<^sup>*"
  by (auto simp: rtrancl_insert)

lemma path_in_range: "(x, y) \<in> (edges ns)\<^sup>* \<Longrightarrow> wf_nodes ns \<Longrightarrow> x < length ns \<Longrightarrow> y < length ns"
  by (induction rule: rtrancl_induct) (auto dest: edges_in_range)

lemma path_in_range': "(x, y) \<in> (edges ns)\<^sup>* \<Longrightarrow> wf_nodes ns \<Longrightarrow> y < length ns \<Longrightarrow> x < length ns"
  by (induction rule: converse_rtrancl_induct) (auto dest: edges_in_range)

text \<open>The search and the reordering, on a table \<open>ns\<close> in which only the edge \<open>(x, y)\<close> is against the ranks.\<close>

lemma insert_search:
  assumes it: "edge_iteration ord" and g: "good_nodes ns0" and x: "x < length ns0" and y: "y < length ns0"
    and lt: "rk ns0 y < rk ns0 x" and ns: "ns = add_edge x y ns0"
  shows "\<exists>ns' delta. ForwardDFS ord ns y (rk ns x) = Some ((y, x) \<notin> (edges ns)\<^sup>*, ns', delta) \<and>
    agree ns ns' \<and> marked ns' = set delta \<and>
    ((y, x) \<notin> (edges ns)\<^sup>* \<longrightarrow> distinct delta \<and> set delta = {v. (y, v) \<in> (edges ns)\<^sup>* \<and> rk ns v < rk ns x})"
proof -
  have len: "length ns = length ns0" and rk: "\<And>i. i < length ns \<Longrightarrow> rk ns i = rk ns0 i"
    using ns by (simp_all add: nth_add_edge)
  have wf: "wf_nodes ns" using g x y ns by (simp add: good_nodes_def wf_add_edge)
  have clean: "marked ns = {}" using g ns by (simp add: good_nodes_def marked_add_edge)
  have E: "edges ns = insert (x, y) (edges ns0)" using ns x by (simp add: edges_add_edge)
  have topo: "rk ns v < rk ns w" if "(v, w) \<in> edges ns" "rk ns v \<noteq> rk ns x" for v w
  proof -
    have "(v, w) \<in> edges ns0" using that E by auto
    then show ?thesis using good_nodes_topo [OF g] rk edges_in_range [OF wf that(1)] by simp
  qed
  have eq: "(\<exists>w. (y, w) \<in> (edges ns)\<^sup>* \<and> rk ns w = rk ns x) \<longleftrightarrow> (y, x) \<in> (edges ns)\<^sup>*"
  proof
    assume "\<exists>w. (y, w) \<in> (edges ns)\<^sup>* \<and> rk ns w = rk ns x"
    then obtain w where w: "(y, w) \<in> (edges ns)\<^sup>*" "rk ns w = rk ns x" by blast
    then have "w < length ns" using path_in_range [OF w(1) wf] y len by simp
    then have "w = x" using w(2) good_nodes_inj [OF g] rk len x by (auto dest: inj_onD)
    then show "(y, x) \<in> (edges ns)\<^sup>*" using w(1) by simp
  qed auto
  have "y < length ns" "rk ns y < rk ns x" using y x len rk lt by simp_all
  from ForwardDFS_correct [OF it wf clean this topo] show ?thesis unfolding eq by blast
qed

lemma insert_reorder:
  assumes it: "edge_iteration ord" and g: "good_nodes ns0" and x: "x < length ns0" and y: "y < length ns0"
    and lt: "rk ns0 y < rk ns0 x" and ns: "ns = add_edge x y ns0"
    and no: "(y, x) \<notin> (edges ns)\<^sup>*" and ag: "agree ns ns1" and mk: "marked ns1 = set df" and df: "distinct df"
    and sf: "set df = {v. (y, v) \<in> (edges ns)\<^sup>* \<and> rk ns v < rk ns x}"
  shows "\<exists>ns2 db. BackwardDFS ord ns1 x (rk ns y) = Some (ns2, db) \<and> good_nodes (Reorder ns2 db df) \<and>
    same_graph ns (Reorder ns2 db df)"
proof -
  have len: "length ns = length ns0" and rk: "\<And>i. i < length ns \<Longrightarrow> rk ns i = rk ns0 i"
    using ns by (simp_all add: nth_add_edge)
  have wf: "wf_nodes ns" using g x y ns by (simp add: good_nodes_def wf_add_edge)
  have E: "edges ns = insert (x, y) (edges ns0)" using ns x by (simp add: edges_add_edge)
  have E1: "edges ns1 = edges ns" using agree_edges [OF ag] by simp
  have rk1: "rk ns1 i = rk ns i" if "i < length ns" for i using ag that by (simp add: agree_def)
  have len1: "length ns1 = length ns" using ag by (simp add: agree_def)
  have topo: "rk ns v < rk ns w" if "(v, w) \<in> edges ns" "(v, w) \<noteq> (x, y)" for v w
  proof -
    have "(v, w) \<in> edges ns0" using that E by auto
    then show ?thesis using good_nodes_topo [OF g] rk edges_in_range [OF wf that(1)] by simp
  qed
  have lt1: "rk ns y < rk ns x" and x1: "x < length ns" and y1: "y < length ns" using x y len rk lt by simp_all
  have wf1: "wf_nodes ns1" using agree_wf [OF ag] wf by simp
  have "v \<notin> marked ns1" if "(v, x) \<in> (edges ns1)\<^sup>*" for v
    using that no mk sf E1 by (auto dest: rtrancl_trans)
  moreover have "rk ns1 v < rk ns1 w" if "(v, w) \<in> edges ns1" "v \<noteq> x" for v w
    using topo [of v w] that edges_in_range [OF wf1 that(1)] rk1 len1 E1 by simp
  ultimately obtain ns2 db where b: "BackwardDFS ord ns1 x (rk ns y) = Some (ns2, db)" "agree ns1 ns2"
    "marked ns2 = marked ns1 \<union> set db" "distinct db" "set db = {v. (v, x) \<in> (edges ns1)\<^sup>* \<and> rk ns y < rk ns1 v}"
    using BackwardDFS_correct [OF it wf1, of x "rk ns y"] x1 lt1 rk1 len1 by auto
  have ag2: "agree ns ns2" using agree_trans [OF ag b(2)] .
  have len2: "length ns2 = length ns" and rk2: "\<And>i. i < length ns \<Longrightarrow> rk ns2 i = rk ns i"
    using ag2 by (simp_all add: agree_def)
  have E2: "edges ns2 = edges ns" using agree_edges [OF ag2] by simp
  have rb: "set db \<subseteq> {..<length ns2}" and rf: "set df \<subseteq> {..<length ns2}"
    using b(3) mk ag b(2) by (auto simp: marked_def agree_def)
  have img: "rk ns2 ` {..<length ns2} = {..<length ns2}"
    using g len len2 rk rk2 by (simp add: good_nodes_def cong: image_cong_simp)
  have inj: "inj_on (rk ns2) {..<length ns2}" using img by (intro finite_surj_inj) auto
  have db: "set db = {v. (v, x) \<in> (edges ns2)\<^sup>* \<and> rk ns2 y < rk ns2 v}"
    using b(5) E1 E2 path_in_range' [OF _ wf, of _ x] x1 y1 rk1 rk2 by auto
  have df': "set df = {v. (y, v) \<in> (edges ns2)\<^sup>* \<and> rk ns2 v < rk ns2 x}"
    using sf E2 path_in_range [OF _ wf, of y] x1 y1 rk2 by auto
  have disj: "set db \<inter> set df = {}" using db df' no E2 by (auto dest: rtrancl_trans)
  note sp = Reorder_spec [OF inj b(4) rb df rf disj]
  have top: "rk (Reorder ns2 db df) v < rk (Reorder ns2 db df) w" if "(v, w) \<in> edges ns2" for v w
  proof (rule reassigned_topo [OF sp(3), of "edges ns2" x y])
    show "edges ns2 \<subseteq> {..<length ns2} \<times> {..<length ns2}"
      using edges_in_range [OF wf] E2 len2 by auto
    show "rk ns2 v < rk ns2 w" if "(v, w) \<in> edges ns2" "(v, w) \<noteq> (x, y)" for v w
      using that topo edges_in_range [OF wf] E2 rk2 by metis
  qed (use E E2 lt1 x1 y1 rk2 no db df' that in auto)
  have same: "same_graph ns (Reorder ns2 db df)"
    using same_graph_trans [OF agree_same_graph [OF ag2] sp(1)] .
  have "good_nodes (Reorder ns2 db df)"
    unfolding good_nodes_def
  proof (intro conjI)
    show "wf_nodes (Reorder ns2 db df)" using same_graph_wf [OF same] wf by simp
    show "marked (Reorder ns2 db df) = {}" using sp(2) b(3) mk by auto
    have "length (Reorder ns2 db df) = length ns2" using sp(1) by (simp add: same_graph_def)
    then show "rk (Reorder ns2 db df) ` {..<length (Reorder ns2 db df)} = {..<length (Reorder ns2 db df)}"
      using reassigned_bij(2) [OF sp(3)] img by simp
    show "\<forall>(v, w) \<in> edges (Reorder ns2 db df). rk (Reorder ns2 db df) v < rk (Reorder ns2 db df) w"
      using top same_graph_edges [OF sp(1)] by auto
  qed
  then show ?thesis using b(1) same by blast
qed

lemma good_add_edge:
  assumes "good_nodes ns" "x < length ns" "y < length ns" "rk ns x < rk ns y"
  shows "good_nodes (add_edge x y ns)"
proof -
  have "wf_nodes (add_edge x y ns)" using assms by (simp add: good_nodes_def wf_add_edge)
  moreover have "\<forall>(v, w) \<in> edges (add_edge x y ns). rk (add_edge x y ns) v < rk (add_edge x y ns) w"
    using assms edges_in_range [of ns] by (auto simp: edges_add_edge nth_add_edge good_nodes_def)
  moreover have "rk (add_edge x y ns) ` {..<length ns} = {..<length ns}"
    using assms(1) by (simp add: good_nodes_def nth_add_edge cong: image_cong_simp)
  ultimately show ?thesis using assms(1) by (simp add: good_nodes_def marked_add_edge)
qed

definition edge_inserted :: "nat \<Rightarrow> nat \<Rightarrow> Node list \<Rightarrow> Node list \<Rightarrow> bool" where
  "edge_inserted x y ns ns' \<longleftrightarrow> same_graph (add_edge x y ns) ns' \<or> (x, y) \<in> edges ns \<and> ns' = ns"

lemma InsertEdge_correct:
  assumes it: "edge_iteration ord" and g: "good_nodes (gc_nodes g)"
    and x: "x < length (gc_nodes g)" and y: "y < length (gc_nodes g)"
  shows "(y, x) \<in> (edges (gc_nodes g))\<^sup>* \<Longrightarrow> InsertEdge ord x y g = Some (False, g)"
    "(y, x) \<notin> (edges (gc_nodes g))\<^sup>* \<Longrightarrow> \<exists>ns. InsertEdge ord x y g = Some (True, g\<lparr>gc_nodes := ns\<rparr>) \<and>
       good_nodes ns \<and> edge_inserted x y (gc_nodes g) ns"
proof -
  let ?ns = "gc_nodes g" and ?ns1 = "add_edge x y (gc_nodes g)"
  have wf: "wf_nodes ?ns" using g by (simp add: good_nodes_def)
  have E1: "edges ?ns1 = insert (x, y) (edges ?ns)" using x by (simp add: edges_add_edge)
  have rk1: "rk ?ns1 x = rk ?ns x" "rk ?ns1 y = rk ?ns y" using x y by (simp_all add: nth_add_edge)
  have cyc: "(y, x) \<in> (edges ?ns1)\<^sup>* \<longleftrightarrow> (y, x) \<in> (edges ?ns)\<^sup>*" unfolding E1 by (rule insert_cycle_iff)
  have unf: "InsertEdge ord x y g =
      (if x = y then Some (False, g) else if (x, y) \<in> edges ?ns then Some (True, g)
       else if rk ?ns1 x \<le> rk ?ns1 y then Some (True, g\<lparr>gc_nodes := ?ns1\<rparr>)
       else case ForwardDFS ord ?ns1 y (rk ?ns1 x) of None \<Rightarrow> None
               | Some (False, ns, deltaf) \<Rightarrow>
                   Some (False, g\<lparr>gc_nodes := ClearVisitedBits (remove_edge x y ns) deltaf\<rparr>)
               | Some (True, ns, deltaf) \<Rightarrow>
                   (case BackwardDFS ord ns x (rk ?ns1 y) of None \<Rightarrow> None
                    | Some (ns, deltab) \<Rightarrow> Some (True, g\<lparr>gc_nodes := Reorder ns deltab deltaf\<rparr>)))"
    unfolding InsertEdge_def Let_def add_edge_def by (simp add: x y edges_def)
  show "InsertEdge ord x y g = Some (False, g)" if c: "(y, x) \<in> (edges ?ns)\<^sup>*"
  proof (cases "x = y")
    case False
    then have lt: "rk ?ns y < rk ?ns x" using good_nodes_path [OF c g] by auto
    then have ne: "(x, y) \<notin> edges ?ns" using good_nodes_topo [OF g] by fastforce
    obtain ns' d where f: "ForwardDFS ord ?ns1 y (rk ?ns1 x) = Some (False, ns', d)" "agree ?ns1 ns'" "marked ns' = set d"
      using insert_search [OF it g x y lt refl] c cyc by auto
    have ag: "agree ?ns (remove_edge x y ns')" using remove_add_edge [OF wf x y ne f(2)] .
    have "set d \<subseteq> {..<length ns'}" using f(3) by (auto simp: marked_def)
    then have "marked (ClearVisitedBits (remove_edge x y ns') d) = marked ?ns"
      using f(3) g by (simp add: marked_ClearVisitedBits marked_remove_edge good_nodes_def)
    then have "ClearVisitedBits (remove_edge x y ns') d = ?ns"
      using agree_marked_eq agree_sym agree_trans [OF ag ClearVisitedBits_agree] by blast
    then show ?thesis using False ne lt f(1) rk1 by (simp add: unf)
  qed (simp add: InsertEdge_def)
  show "\<exists>ns. InsertEdge ord x y g = Some (True, g\<lparr>gc_nodes := ns\<rparr>) \<and> good_nodes ns \<and> edge_inserted x y ?ns ns"
    if c: "(y, x) \<notin> (edges ?ns)\<^sup>*"
  proof -
    have xy: "x \<noteq> y" using c by auto
    consider (old) "(x, y) \<in> edges ?ns" | (up) "(x, y) \<notin> edges ?ns" "rk ?ns x \<le> rk ?ns y"
      | (down) "(x, y) \<notin> edges ?ns" "rk ?ns y < rk ?ns x" by linarith
    then show ?thesis
    proof cases
      case old
      then show ?thesis using xy g by (intro exI [of _ ?ns]) (simp add: unf edge_inserted_def)
    next
      case up
      have "rk ?ns x \<noteq> rk ?ns y" using xy x y good_nodes_inj [OF g] by (auto dest: inj_onD)
      then have "good_nodes ?ns1" using up good_add_edge [OF g x y] by simp
      then show ?thesis using xy up rk1
        by (intro exI [of _ ?ns1]) (simp add: unf edge_inserted_def same_graph_def)
    next
      case down
      obtain ns' d where f: "ForwardDFS ord ?ns1 y (rk ?ns1 x) = Some (True, ns', d)" "agree ?ns1 ns'" "marked ns' = set d"
        "distinct d" "set d = {v. (y, v) \<in> (edges ?ns1)\<^sup>* \<and> rk ?ns1 v < rk ?ns1 x}"
        using insert_search [OF it g x y down(2) refl] c cyc by auto
      from insert_reorder [OF it g x y down(2) refl _ f(2-5)] c cyc obtain ns2 db where
        b: "BackwardDFS ord ns' x (rk ?ns1 y) = Some (ns2, db)" "good_nodes (Reorder ns2 db d)"
           "same_graph ?ns1 (Reorder ns2 db d)" by blast
      then show ?thesis using xy down f(1) rk1
        by (intro exI [of _ "Reorder ns2 db d"]) (simp add: unf edge_inserted_def)
    qed
  qed
qed

section \<open>The other operations\<close>

lemma good_nodes_sub:
  assumes "good_nodes ns" "length ns' = length ns" "wf_nodes ns'" "edges ns' \<subseteq> edges ns"
    and eq: "\<And>i. i < length ns \<Longrightarrow> rk ns' i = rk ns i \<and> n_visited (ns' ! i) = n_visited (ns ! i)"
  shows "good_nodes ns'"
proof -
  have "rk ns' ` {..<length ns} = rk ns ` {..<length ns}" using eq by (intro image_cong) auto
  moreover have "marked ns' = marked ns" using assms(2) eq by (auto simp: marked_def)
  moreover have "rk ns' x < rk ns' y" if "(x, y) \<in> edges ns'" for x y
    using that assms(1-4) edges_in_range [OF assms(3) that] good_nodes_topo [OF assms(1), of x y] eq by auto
  ultimately show ?thesis using assms(1-3) by (auto simp: good_nodes_def)
qed

definition isolated_at :: "nat \<Rightarrow> Node list \<Rightarrow> Node list \<Rightarrow> bool" where
  "isolated_at node ns ns' \<longleftrightarrow> length ns' = length ns \<and> (\<forall>i < length ns.
     rk ns' i = rk ns i \<and> n_visited (ns' ! i) = n_visited (ns ! i) \<and> n_data (ns' ! i) = n_data (ns ! i) \<and>
     n_out (ns' ! i) = (if i = node then {} else n_out (ns ! i) - {node}) \<and>
     n_in (ns' ! i) = (if i = node then {} else n_in (ns ! i) - {node}))"

lemma nth_erase_in: "i < length ns \<Longrightarrow> erase_in node ys ns ! i =
    (if i \<in> set ys then (ns ! i)\<lparr>n_in := n_in (ns ! i) - {node}\<rparr> else ns ! i)"
  unfolding erase_in_def by (induction ys arbitrary: ns) (auto simp: nth_upd)

lemma nth_erase_out: "i < length ns \<Longrightarrow> erase_out node ys ns ! i =
    (if i \<in> set ys then (ns ! i)\<lparr>n_out := n_out (ns ! i) - {node}\<rparr> else ns ! i)"
  unfolding erase_out_def by (induction ys arbitrary: ns) (auto simp: nth_upd)

lemma length_erase [simp]: "length (erase_in node ys ns) = length ns" "length (erase_out node ys ns) = length ns"
proof -
  show "length (erase_in node ys ns) = length ns"
    unfolding erase_in_def by (induction ys arbitrary: ns) auto
  show "length (erase_out node ys ns) = length ns"
    unfolding erase_out_def by (induction ys arbitrary: ns) auto
qed

lemma isolated_at_edges: "isolated_at b ns ns' \<Longrightarrow> edges ns' = {(u, v) \<in> edges ns. u \<noteq> b \<and> v \<noteq> b}"
  by (auto simp: isolated_at_def edges_def split: if_splits)

lemma isolated_at_wf: "isolated_at b ns ns' \<Longrightarrow> wf_nodes ns \<Longrightarrow> wf_nodes ns'"
  unfolding isolated_at_def wf_nodes_def by (auto split: if_splits)

lemma isolated_at_good: "isolated_at b ns ns' \<Longrightarrow> good_nodes ns \<Longrightarrow> good_nodes ns'"
  using isolated_at_edges [of b ns ns'] isolated_at_wf [of b ns ns']
  by (intro good_nodes_sub [of ns ns']) (auto simp: isolated_at_def good_nodes_def)

definition clear_edges :: "nat \<Rightarrow> Node list \<Rightarrow> Node list" where
  "clear_edges b ns = upd b (\<lambda>n. n\<lparr>n_in := {}, n_out := {}\<rparr>) ns"

lemma clear_edges_swap: "upd b (\<lambda>n. n\<lparr>n_out := {}, n_in := {}\<rparr>) ns = clear_edges b ns"
  unfolding clear_edges_def upd_def by (rule arg_cong [where f = "list_update ns b"]) (cases "ns ! b", simp)

lemma good_nodes_no_loop: "good_nodes ns \<Longrightarrow> (x, x) \<notin> edges ns"
  using good_nodes_topo by blast

lemma isolated_atI:
  assumes "wf_nodes ns" "b < length ns" "(b, b) \<notin> edges ns" "set outs = n_out (ns ! b)" "set ins = n_in (ns ! b)"
  shows "isolated_at b ns (clear_edges b (erase_out b ins (erase_in b outs ns)))"
    "isolated_at b ns (erase_out b ins (erase_in b outs (clear_edges b ns)))"
proof -
  have nb: "b \<notin> n_out (ns ! b)" "b \<notin> n_in (ns ! b)" using assms by (auto simp: edges_def wf_nodes_def)
  have sym: "i \<in> n_out (ns ! b) \<longleftrightarrow> b \<in> n_in (ns ! i)" "i \<in> n_in (ns ! b) \<longleftrightarrow> b \<in> n_out (ns ! i)"
    if "i < length ns" for i using assms(1,2) that by (auto simp: wf_nodes_def)
  show "isolated_at b ns (clear_edges b (erase_out b ins (erase_in b outs ns)))"
    unfolding isolated_at_def clear_edges_def
    using sym nb assms(4,5) by (auto simp: nth_upd nth_erase_in nth_erase_out)
  show "isolated_at b ns (erase_out b ins (erase_in b outs (clear_edges b ns)))"
    unfolding isolated_at_def clear_edges_def
    using sym nb assms(4,5) by (auto simp: nth_upd nth_erase_in nth_erase_out)
qed

lemma IsReachableNonConst_correct:
  assumes it: "edge_iteration ord" and g: "good_nodes (gc_nodes g)"
    and x: "x < length (gc_nodes g)" and y: "y < length (gc_nodes g)"
  shows "IsReachableNonConst ord x y g = Some ((x, y) \<in> (edges (gc_nodes g))\<^sup>*, g)"
proof -
  let ?ns = "gc_nodes g"
  have wf: "wf_nodes ?ns" and clean: "marked ?ns = {}" using g by (simp_all add: good_nodes_def)
  consider "x = y" | (ge) "x \<noteq> y" "rk ?ns x \<ge> rk ?ns y" | (lt) "x \<noteq> y" "rk ?ns x < rk ?ns y" by linarith
  then show ?thesis
  proof cases
    case ge
    then have "(x, y) \<notin> (edges ?ns)\<^sup>*" using good_nodes_path [OF _ g, of x y] by auto
    then show ?thesis using ge x y by (simp add: IsReachableNonConst_def)
  next
    case lt
    have eq: "(\<exists>w. (x, w) \<in> (edges ?ns)\<^sup>* \<and> rk ?ns w = rk ?ns y) \<longleftrightarrow> (x, y) \<in> (edges ?ns)\<^sup>*"
      using path_in_range [OF _ wf x] good_nodes_inj [OF g] y by (auto dest!: inj_onD)
    from ForwardDFS_correct [OF it wf clean x lt(2) good_nodes_topo [OF g]] obtain ns d where
      f: "ForwardDFS ord ?ns x (rk ?ns y) = Some ((x, y) \<notin> (edges ?ns)\<^sup>*, ns, d)" "agree ?ns ns" "marked ns = set d"
      unfolding eq by blast
    have "set d \<subseteq> {..<length ns}" using f(3) by (auto simp: marked_def)
    then have "marked (ClearVisitedBits ns d) = marked ?ns" using f(3) clean by (simp add: marked_ClearVisitedBits)
    then have "ClearVisitedBits ns d = ?ns"
      using agree_marked_eq agree_sym agree_trans [OF f(2) ClearVisitedBits_agree] by blast
    then show ?thesis using lt x y f(1) by (simp add: IsReachableNonConst_def)
  qed (simp add: IsReachableNonConst_def)
qed

lemma edges_inserted:
  "edge_inserted x y ns ns' \<Longrightarrow> x < length ns \<Longrightarrow> edges ns' = insert (x, y) (edges ns) \<and> length ns' = length ns"
  using same_graph_edges [of "add_edge x y ns" ns'] edges_add_edge [of x ns y]
  by (auto simp: edge_inserted_def same_graph_def)

lemma InsertEdges_correct:
  "edge_iteration ord \<Longrightarrow> good_nodes (gc_nodes g) \<Longrightarrow> \<forall>(x, y) \<in> set es. x < length (gc_nodes g) \<and> y < length (gc_nodes g) \<Longrightarrow>
    acyclic (edges (gc_nodes g) \<union> set es) \<Longrightarrow>
    \<exists>ns. InsertEdges ord es g = Some (g\<lparr>gc_nodes := ns\<rparr>) \<and> good_nodes ns \<and> length ns = length (gc_nodes g) \<and>
      edges ns = edges (gc_nodes g) \<union> set es"
proof (induction es arbitrary: g)
  case (Cons e es)
  obtain x y where e: "e = (x, y)" by fastforce
  have r: "x < length (gc_nodes g)" "y < length (gc_nodes g)" using Cons.prems(3) e by auto
  have "(y, x) \<notin> (edges (gc_nodes g))\<^sup>*"
  proof
    assume "(y, x) \<in> (edges (gc_nodes g))\<^sup>*"
    then have "(y, x) \<in> (edges (gc_nodes g) \<union> set (e # es))\<^sup>*" by (intro in_rtrancl_UnI disjI1)
    then have "(x, x) \<in> (edges (gc_nodes g) \<union> set (e # es))\<^sup>+" using e by (auto intro: rtrancl_into_trancl2)
    then show False using Cons.prems(4) by (simp add: acyclic_def)
  qed
  from InsertEdge_correct(2) [OF Cons.prems(1,2) r this] obtain ns where
    i: "InsertEdge ord x y g = Some (True, g\<lparr>gc_nodes := ns\<rparr>)" "good_nodes ns" "edge_inserted x y (gc_nodes g) ns" by blast
  note en = edges_inserted [OF i(3) r(1)]
  have "\<exists>ns'. InsertEdges ord es (g\<lparr>gc_nodes := ns\<rparr>) = Some (g\<lparr>gc_nodes := ns\<rparr>\<lparr>gc_nodes := ns'\<rparr>) \<and> good_nodes ns' \<and>
      length ns' = length ns \<and> edges ns' = edges ns \<union> set es"
    using Cons.IH [of "g\<lparr>gc_nodes := ns\<rparr>"] Cons.prems i(2) en e by simp
  then show ?case using i(1) en e by auto
next
  case Nil
  then show ?case by (intro exI [of _ "gc_nodes g"]) simp
qed

section \<open>Contracting an edge\<close>

text \<open>Merging two nodes that no path connects keeps a graph acyclic.\<close>

definition merge_into :: "nat \<Rightarrow> nat \<Rightarrow> nat \<Rightarrow> nat" where
  "merge_into a b u = (if u = b then a else u)"

lemma merge_into_eq: "merge_into a b u = merge_into a b v \<longleftrightarrow> u = v \<or> u \<in> {a, b} \<and> v \<in> {a, b}"
  by (auto simp: merge_into_def)

lemma merged_path:
  assumes "(p, q) \<in> (map_prod (merge_into a b) (merge_into a b) ` E)\<^sup>+"
  shows "\<exists>u v. merge_into a b u = p \<and> merge_into a b v = q \<and>
    ((u, v) \<in> E\<^sup>+ \<or> (\<exists>c \<in> {a, b}. \<exists>d \<in> {a, b}. (u, c) \<in> E\<^sup>+ \<and> (d, v) \<in> E\<^sup>+))"
  using assms
proof (induction rule: trancl_induct)
  case (base q)
  then show ?case by auto
next
  case (step q r)
  obtain s t where st: "(s, t) \<in> E" "merge_into a b s = q" "merge_into a b t = r" using step.hyps(2) by auto
  obtain u v where uv: "merge_into a b u = p" "merge_into a b v = q"
    "(u, v) \<in> E\<^sup>+ \<or> (\<exists>c \<in> {a, b}. \<exists>d \<in> {a, b}. (u, c) \<in> E\<^sup>+ \<and> (d, v) \<in> E\<^sup>+)" using step.IH by blast
  show ?case
  proof (cases "v = s")
    case True
    then have "(u, t) \<in> E\<^sup>+ \<or> (\<exists>c \<in> {a, b}. \<exists>d \<in> {a, b}. (u, c) \<in> E\<^sup>+ \<and> (d, t) \<in> E\<^sup>+)"
      using uv(3) st(1) by (blast intro: trancl_into_trancl)
    then show ?thesis using uv(1) st(3) by blast
  next
    case False
    then have vs: "v \<in> {a, b}" "s \<in> {a, b}" using uv(2) st(2) merge_into_eq by metis+
    then have "\<exists>c \<in> {a, b}. (u, c) \<in> E\<^sup>+" using uv(3) by blast
    then show ?thesis using uv(1) st vs by blast
  qed
qed

lemma merged_acyclic:
  assumes "acyclic E" "\<And>c d. c \<in> {a, b} \<Longrightarrow> d \<in> {a, b} \<Longrightarrow> (c, d) \<notin> E\<^sup>+"
  shows "acyclic (map_prod (merge_into a b) (merge_into a b) ` E)"
proof (rule acyclicI, rule allI, rule notI)
  fix p assume "(p, p) \<in> (map_prod (merge_into a b) (merge_into a b) ` E)\<^sup>+"
  from merged_path [OF this] obtain u v where
    uv: "merge_into a b u = p \<and> merge_into a b v = p"
    "(u, v) \<in> E\<^sup>+ \<or> (\<exists>c \<in> {a, b}. \<exists>d \<in> {a, b}. (u, c) \<in> E\<^sup>+ \<and> (d, v) \<in> E\<^sup>+)" by blast
  from uv(1) have "merge_into a b u = merge_into a b v" by simp
  then have "u = v \<or> u \<in> {a, b} \<and> v \<in> {a, b}" by (simp add: merge_into_eq)
  then show False
  proof
    assume "u = v"
    then show False using uv(2) assms by (auto simp: acyclic_def dest: trancl_trans)
  next
    assume "u \<in> {a, b} \<and> v \<in> {a, b}"
    then show False using uv(2) assms(2) by blast
  qed
qed

lemma merge_image:
  assumes "a \<noteq> b" "(b, b) \<notin> E" "(a, b) \<notin> E"
  shows "map_prod (merge_into a b) (merge_into a b) ` E =
    {(u, v) \<in> E. u \<noteq> b \<and> v \<noteq> b} \<union> Pair a ` {v. (b, v) \<in> E} \<union> (\<lambda>y. (y, a)) ` {u. (u, b) \<in> E}"
    (is "?l = ?r")
proof
  show "?l \<subseteq> ?r" using assms by (auto simp: merge_into_def split: if_splits)
  have m: "(merge_into a b p, merge_into a b q) \<in> ?l" if "(p, q) \<in> E" for p q
    using that by (rule rev_image_eqI) simp
  show "?r \<subseteq> ?l"
  proof (intro Un_least subsetI)
    fix e assume "e \<in> {(u, v) \<in> E. u \<noteq> b \<and> v \<noteq> b}"
    then obtain u v where "e = (u, v)" "(u, v) \<in> E" "u \<noteq> b" "v \<noteq> b" by blast
    then show "e \<in> ?l" using m [of u v] by (simp add: merge_into_def)
  next
    fix e assume "e \<in> Pair a ` {v. (b, v) \<in> E}"
    then obtain v where "e = (a, v)" "(b, v) \<in> E" by blast
    then show "e \<in> ?l" using m [of b v] assms by (cases "v = b") (simp_all add: merge_into_def)
  next
    fix e assume "e \<in> (\<lambda>y. (y, a)) ` {u. (u, b) \<in> E}"
    then obtain u where "e = (u, a)" "(u, b) \<in> E" by blast
    then show "e \<in> ?l" using m [of u b] assms by (cases "u = b") (simp_all add: merge_into_def)
  qed
qed

lemma HasEdge_iff: "HasEdge a b g = Some True \<longleftrightarrow> (a, b) \<in> edges (gc_nodes g)"
  by (simp add: HasEdge_def edges_def)

lemma good_remove_edge: "good_nodes ns \<Longrightarrow> good_nodes (remove_edge x y ns)"
  by (rule good_nodes_sub [of ns]) (auto simp: nth_remove_edge edges_remove_edge wf_remove_edge good_nodes_def)

lemma add_remove_edge:
  assumes "wf_nodes ns" "(a, b) \<in> edges ns" shows "add_edge a b (remove_edge a b ns) = ns"
proof (rule nth_equalityI)
  have "a < length ns" "b < length ns" using edges_in_range assms by blast+
  then have "b \<in> n_out (ns ! a)" "a \<in> n_in (ns ! b)" using assms by (auto simp: edges_def wf_nodes_def)
  then show "add_edge a b (remove_edge a b ns) ! i = ns ! i" if "i < length (add_edge a b (remove_edge a b ns))" for i
    using that nth_add_edge [of i "remove_edge a b ns" a b] nth_remove_edge [of i ns a b] by (simp add: insert_absorb)
qed simp

text \<open>Removing an edge, asking for another path, and putting the edge back.\<close>

lemma remove_and_restore:
  assumes it: "edge_iteration ord" and g: "good_nodes (gc_nodes g)" and e: "(a, b) \<in> edges (gc_nodes g)"
  shows "RemoveEdge a b g = Some (g\<lparr>gc_nodes := remove_edge a b (gc_nodes g)\<rparr>)"
    "IsReachableNonConst ord a b (g\<lparr>gc_nodes := remove_edge a b (gc_nodes g)\<rparr>) =
       Some ((a, b) \<in> (edges (gc_nodes g) - {(a, b)})\<^sup>*, g\<lparr>gc_nodes := remove_edge a b (gc_nodes g)\<rparr>)"
    "InsertEdge ord a b (g\<lparr>gc_nodes := remove_edge a b (gc_nodes g)\<rparr>) = Some (True, g)"
proof -
  let ?ns = "gc_nodes g"
  have wf: "wf_nodes ?ns" using g by (simp add: good_nodes_def)
  have r: "a < length ?ns" "b < length ?ns" using edges_in_range [OF wf e] by simp_all
  have lt: "rk ?ns a < rk ?ns b" using good_nodes_topo [OF g e] .
  show "RemoveEdge a b g = Some (g\<lparr>gc_nodes := remove_edge a b ?ns\<rparr>)" using r by (simp add: RemoveEdge_def)
  show "IsReachableNonConst ord a b (g\<lparr>gc_nodes := remove_edge a b ?ns\<rparr>) =
       Some ((a, b) \<in> (edges ?ns - {(a, b)})\<^sup>*, g\<lparr>gc_nodes := remove_edge a b ?ns\<rparr>)"
    using IsReachableNonConst_correct [OF it, of "g\<lparr>gc_nodes := remove_edge a b ?ns\<rparr>" a b] good_remove_edge [OF g] r
    by (simp add: edges_remove_edge)
  have "b \<notin> n_out (remove_edge a b ?ns ! a)" using r by (simp add: nth_remove_edge)
  moreover have "rk (add_edge a b (remove_edge a b ?ns)) a \<le> rk (add_edge a b (remove_edge a b ?ns)) b"
    using lt add_remove_edge [OF wf e] by simp
  ultimately show "InsertEdge ord a b (g\<lparr>gc_nodes := remove_edge a b ?ns\<rparr>) = Some (True, g)"
    using r lt add_remove_edge [OF wf e] by (auto simp: InsertEdge_def Let_def add_edge_def)
qed

lemma CanContractEdge_eq:
  assumes "edge_iteration ord" "good_nodes (gc_nodes g)" "(a, b) \<in> edges (gc_nodes g)"
  shows "CanContractEdge ord a b g = Some ((a, b) \<notin> (edges (gc_nodes g) - {(a, b)})\<^sup>*, g)"
  using assms by (simp add: CanContractEdge_def HasEdge_iff remove_and_restore)

lemma ContractEdge_refused:
  assumes "edge_iteration ord" "good_nodes (gc_nodes g)" "(a, b) \<in> edges (gc_nodes g)"
    "(a, b) \<in> (edges (gc_nodes g) - {(a, b)})\<^sup>*"
  shows "ContractEdge ord a b g = Some (False, g)"
  using assms by (simp add: ContractEdge_def HasEdge_iff remove_and_restore)

lemma ContractEdge_done:
  assumes it: "edge_iteration ord" and g: "good_nodes (gc_nodes g)" and e: "(a, b) \<in> edges (gc_nodes g)"
    and np: "(a, b) \<notin> (edges (gc_nodes g) - {(a, b)})\<^sup>*"
  shows "\<exists>ns. ContractEdge ord a b g = Some (True, g\<lparr>gc_nodes := ns, gc_free_nodes := gc_free_nodes g @ [b]\<rparr>) \<and>
    good_nodes ns \<and> length ns = length (gc_nodes g) \<and>
    edges ns = map_prod (merge_into a b) (merge_into a b) ` (edges (gc_nodes g) - {(a, b)})"
proof -
  let ?E = "edges (gc_nodes g) - {(a, b)}" and ?m = "map_prod (merge_into a b) (merge_into a b)"
  let ?ns = "remove_edge a b (gc_nodes g)"
  define out where "out = ord (n_out (?ns ! b))"
  define inn where "inn = ord (n_in (?ns ! b))"
  define ns1 where "ns1 = erase_out b inn (erase_in b out (clear_edges b ?ns))"
  define g1 where "g1 = g\<lparr>gc_nodes := ns1, gc_free_nodes := gc_free_nodes g @ [b]\<rparr>"
  have gr: "good_nodes ?ns" using good_remove_edge [OF g] .
  have wf: "wf_nodes ?ns" using gr by (simp add: good_nodes_def)
  have E: "edges ?ns = ?E" by (rule edges_remove_edge)
  have r: "a < length ?ns" "b < length ?ns" using edges_in_range [of "gc_nodes g"] g e by (auto simp: good_nodes_def)
  have so: "set out = n_out (?ns ! b)" "set inn = n_in (?ns ! b)"
    using edge_iteration.wf_ord [OF it wf r(2)] by (simp_all add: out_def inn_def)
  have outs: "set out = {v. (b, v) \<in> ?E}" "set inn = {u. (u, b) \<in> ?E}"
    using so r(2) wf_in_edges [OF wf r(2)] E by (auto simp: edges_def)
  have iso: "isolated_at b ?ns ns1"
    unfolding ns1_def using isolated_atI(2) [OF wf r(2) good_nodes_no_loop [OF gr] so] .
  have g1: "good_nodes (gc_nodes g1)" using isolated_at_good [OF iso gr] by (simp add: g1_def)
  have len: "length (gc_nodes g1) = length (gc_nodes g)" using iso by (simp add: g1_def isolated_at_def)
  have E1: "edges (gc_nodes g1) = {(u, v) \<in> ?E. u \<noteq> b \<and> v \<noteq> b}"
    using isolated_at_edges [OF iso] E by (simp add: g1_def)
  have ab: "a \<noteq> b" "(b, a) \<notin> ?E\<^sup>*" "(b, b) \<notin> ?E" "(a, b) \<notin> ?E"
    using good_nodes_topo [OF g e] good_nodes_path [OF _ gr, of b a] good_nodes_no_loop [OF gr, of b] E r
    by (auto simp: nth_remove_edge)
  have im: "edges (gc_nodes g1) \<union> set (map (Pair a) out) \<union> set (map (\<lambda>y. (y, a)) inn) = ?m ` ?E"
    unfolding E1 merge_image [OF ab(1,3,4)] using outs by (simp only: set_map)
  have ac: "acyclic (?m ` ?E)"
  proof (rule merged_acyclic)
    show "acyclic ?E" using good_nodes_acyclic [OF gr] E by simp
    show "(c, d) \<notin> ?E\<^sup>+" if "c \<in> {a, b}" "d \<in> {a, b}" for c d
      using that np ab(2) \<open>acyclic ?E\<close> by (auto simp: acyclic_def dest: trancl_into_rtrancl)
  qed
  have rng: "\<forall>(x, y) \<in> ?m ` ?E. x < length (gc_nodes g) \<and> y < length (gc_nodes g)"
    using edges_in_range [of "gc_nodes g"] g r by (auto simp: merge_into_def good_nodes_def split: if_splits)
  have r2: "\<forall>(x, y) \<in> set (map (Pair a) out). x < length (gc_nodes g) \<and> y < length (gc_nodes g)"
    "\<forall>(x, y) \<in> set (map (\<lambda>y. (y, a)) inn). x < length (gc_nodes g) \<and> y < length (gc_nodes g)"
    using rng unfolding im [symmetric] ball_Un by blast+
  obtain ns2 where i2: "InsertEdges ord (map (Pair a) out) g1 = Some (g1\<lparr>gc_nodes := ns2\<rparr>)" "good_nodes ns2"
      "length ns2 = length (gc_nodes g)" "edges ns2 = edges (gc_nodes g1) \<union> set (map (Pair a) out)"
    using InsertEdges_correct [OF it g1, of "map (Pair a) out"] r2(1) len
      acyclic_subset [OF ac, of "edges (gc_nodes g1) \<union> set (map (Pair a) out)"] im [symmetric] by (auto simp del: set_map)
  obtain ns3 where i3: "InsertEdges ord (map (\<lambda>y. (y, a)) inn) (g1\<lparr>gc_nodes := ns2\<rparr>) = Some (g1\<lparr>gc_nodes := ns3\<rparr>)"
      "good_nodes ns3" "length ns3 = length (gc_nodes g)" "edges ns3 = ?m ` ?E"
    using InsertEdges_correct [OF it, of "g1\<lparr>gc_nodes := ns2\<rparr>" "map (\<lambda>y. (y, a)) inn"] r2(2) ac i2 im by auto
  have "ContractEdge ord a b g = Some (True, g1\<lparr>gc_nodes := ns3\<rparr>)"
    using remove_and_restore(1,2) [OF it g e] np e i2(1) i3(1)
    by (simp add: ContractEdge_def HasEdge_iff Let_def g1_def ns1_def out_def inn_def clear_edges_swap)
  moreover have "g1\<lparr>gc_nodes := ns3\<rparr> = g\<lparr>gc_nodes := ns3, gc_free_nodes := gc_free_nodes g @ [b]\<rparr>"
    by (cases g) (simp add: g1_def)
  ultimately show ?thesis using i3(2-4) by auto
qed

section \<open>The graph a client sees\<close>

definition live :: "GraphCycles \<Rightarrow> nat set" where
  "live g = {..<length (gc_nodes g)} - set (gc_free_nodes g)"

definition graph :: "GraphCycles \<Rightarrow> (nat \<times> nat) set" where
  "graph g = edges (gc_nodes g)"

definition gc_inv :: "GraphCycles \<Rightarrow> bool" where
  "gc_inv g \<longleftrightarrow> good_nodes (gc_nodes g) \<and> distinct (gc_free_nodes g) \<and>
     set (gc_free_nodes g) \<subseteq> {..<length (gc_nodes g)} \<and> graph g \<subseteq> live g \<times> live g"

lemma gc_inv_new: "gc_inv GraphCycles_new" "live GraphCycles_new = {}" "graph GraphCycles_new = {}"
  by (auto simp: gc_inv_def good_nodes_def wf_nodes_def marked_def edges_def live_def graph_def GraphCycles_new_def)

lemma CheckInvariants_loop_iff:
  "CheckInvariants_loop ord ns xs ranks \<longleftrightarrow>
     (\<forall>x \<in> set xs. \<not> n_visited (ns ! x) \<and> rk ns x \<notin> ranks \<and> (\<forall>y \<in> set (ord (n_out (ns ! x))). rk ns x < rk ns y)) \<and>
     distinct (map (rk ns) xs)"
proof (induction xs arbitrary: ranks)
  case (Cons x xs)
  have "(\<forall>y \<in> set xs. rk ns y \<notin> insert (rk ns x) ranks) \<longleftrightarrow> (\<forall>y \<in> set xs. rk ns y \<notin> ranks) \<and> rk ns x \<notin> rk ns ` set xs"
    by (auto simp: image_iff)
  then show ?case by (auto simp: Let_def list_ex_iff not_less Cons.IH)
qed simp

text \<open>The self-check of the code accepts exactly the tables without marks, with distinct ranks that
  every edge respects.\<close>

lemma CheckInvariants_iff:
  assumes it: "edge_iteration ord" and wf: "wf_nodes (gc_nodes g)"
  shows "CheckInvariants ord g \<longleftrightarrow> marked (gc_nodes g) = {} \<and> inj_on (rk (gc_nodes g)) {..<length (gc_nodes g)} \<and>
    (\<forall>(x, y) \<in> graph g. rk (gc_nodes g) x < rk (gc_nodes g) y)"
proof -
  have "set [0..<length (gc_nodes g)] = {..<length (gc_nodes g)}" by auto
  then show ?thesis
    using edge_iteration.wf_ord(1) [OF it wf]
    by (auto simp: CheckInvariants_def CheckInvariants_loop_iff distinct_map marked_def graph_def edges_def)
qed

lemma gc_inv_checks: "edge_iteration ord \<Longrightarrow> gc_inv g \<Longrightarrow> CheckInvariants ord g"
  using good_nodes_inj [of "gc_nodes g"]
  by (auto simp: CheckInvariants_iff gc_inv_def good_nodes_def graph_def)

lemma good_nodes_append:
  assumes g: "good_nodes ns" and n: "n = \<lparr>n_rank = length ns, n_visited = False, n_data = d, n_in = {}, n_out = {}\<rparr>"
  shows "good_nodes (ns @ [n])" "edges (ns @ [n]) = edges ns"
proof -
  show E: "edges (ns @ [n]) = edges ns" using n by (auto simp: edges_def nth_append less_Suc_eq split: if_splits)
  have img: "rk (ns @ [n]) ` {..<length ns} = rk ns ` {..<length ns}" by (intro image_cong) (auto simp: nth_append)
  have "rk (ns @ [n]) ` {..<Suc (length ns)} = {..<Suc (length ns)}"
    using img g n by (simp add: lessThan_Suc good_nodes_def)
  moreover have "wf_nodes (ns @ [n])"
  proof -
    have sub: "n_out (ns ! x) \<subseteq> {..<length ns}" "n_in (ns ! x) \<subseteq> {..<length ns}" if "x < length ns" for x
      using g that by (simp_all add: good_nodes_def wf_nodes_def)
    have sym: "y \<in> n_out (ns ! x) \<longleftrightarrow> x \<in> n_in (ns ! y)" if "x < length ns" "y < length ns" for x y
      using g that by (simp add: good_nodes_def wf_nodes_def)
    have no: "n_out n = {}" "n_in n = {}" using n by simp_all
    have nth: "(ns @ [n]) ! i = (if i < length ns then ns ! i else n)" if "i < Suc (length ns)" for i
      using that by (auto simp: nth_append less_Suc_eq)
    show ?thesis unfolding wf_nodes_def
    proof (intro conjI allI impI)
      fix x assume x: "x < length (ns @ [n])"
      show "n_out ((ns @ [n]) ! x) \<subseteq> {..<length (ns @ [n])}" "n_in ((ns @ [n]) ! x) \<subseteq> {..<length (ns @ [n])}"
        using x sub [of x] no by (auto simp: nth intro: less_SucI)
    next
      fix x y assume "x < length (ns @ [n])" "y < length (ns @ [n])"
      then show "y \<in> n_out ((ns @ [n]) ! x) \<longleftrightarrow> x \<in> n_in ((ns @ [n]) ! y)"
        using sub [of x] sub [of y] sym [of x y] no by (auto simp: nth)
    qed
  qed
  moreover have "marked (ns @ [n]) = {}" using g n by (auto simp: good_nodes_def marked_def nth_append less_Suc_eq)
  moreover have "rk (ns @ [n]) x < rk (ns @ [n]) y" if "(x, y) \<in> edges ns" for x y
    using that edges_in_range [of ns x y] good_nodes_topo [OF g that] g by (simp add: good_nodes_def nth_append)
  ultimately show "good_nodes (ns @ [n])" using E by (auto simp: good_nodes_def)
qed

lemma good_nodes_data:
  assumes g: "good_nodes ns"
  shows "good_nodes (upd n (\<lambda>nd. nd\<lparr>n_data := d\<rparr>) ns)" "edges (upd n (\<lambda>nd. nd\<lparr>n_data := d\<rparr>) ns) = edges ns"
proof -
  define ms where "ms = upd n (\<lambda>nd. nd\<lparr>n_data := d\<rparr>) ns"
  have len: "length ms = length ns" by (simp add: ms_def)
  have nth: "rk ms i = rk ns i \<and> n_visited (ms ! i) = n_visited (ns ! i)"
    "n_in (ms ! i) = n_in (ns ! i) \<and> n_out (ms ! i) = n_out (ns ! i)" if "i < length ns" for i
    using that by (simp_all add: ms_def nth_upd)
  have E: "edges ms = edges ns" using len nth(2) by (auto simp: edges_def)
  have "wf_nodes ns" using g by (simp add: good_nodes_def)
  moreover have "wf_nodes ms \<longleftrightarrow> wf_nodes ns" by (rule wf_nodes_cong) (simp_all add: len nth(2))
  ultimately have "good_nodes ms" using good_nodes_sub [OF g len _ _ nth(1)] E by simp
  then show "good_nodes (upd n (\<lambda>nd. nd\<lparr>n_data := d\<rparr>) ns)" by (simp add: ms_def)
  show "edges (upd n (\<lambda>nd. nd\<lparr>n_data := d\<rparr>) ns) = edges ns" using E by (simp add: ms_def)
qed

lemma NewNode_correct:
  assumes inv: "gc_inv g" and n: "NewNode g = (n, g')"
  shows "gc_inv g' \<and> n \<notin> live g \<and> live g' = insert n (live g) \<and> graph g' = graph g"
proof (cases "gc_free_nodes g = []")
  case True
  let ?n = "\<lparr>n_rank = length (gc_nodes g), n_visited = False, n_data = None, n_in = {}, n_out = {}\<rparr>"
  have g': "n = length (gc_nodes g)" "g' = g\<lparr>gc_nodes := gc_nodes g @ [?n]\<rparr>" using n True by (auto simp: NewNode_def)
  note gn = good_nodes_append [of "gc_nodes g" ?n None]
  have "good_nodes (gc_nodes g')" "graph g' = graph g" using gn inv g' by (simp_all add: gc_inv_def graph_def)
  moreover have "live g' = insert n (live g)" "n \<notin> live g" using g' True by (auto simp: live_def)
  ultimately show ?thesis using inv True g' by (auto simp: gc_inv_def)
next
  case False
  then obtain f where f: "gc_free_nodes g = f @ [n]"
    using n by (metis NewNode_def Pair_inject append_butlast_last_id)
  then have g': "g' = g\<lparr>gc_nodes := upd n (\<lambda>n. n\<lparr>n_data := None\<rparr>) (gc_nodes g), gc_free_nodes := f\<rparr>"
    using n by (auto simp: NewNode_def Let_def)
  have "graph g' = graph g" "good_nodes (gc_nodes g')"
    using g' good_nodes_data [of "gc_nodes g"] inv by (simp_all add: graph_def gc_inv_def)
  moreover have "live g' = insert n (live g)" "n \<notin> live g" using f inv g' by (auto simp: live_def gc_inv_def)
  ultimately show ?thesis using inv f g' by (auto simp: gc_inv_def)
qed

lemma RemoveNode_correct:
  assumes it: "edge_iteration ord" and inv: "gc_inv g" and n: "n \<in> live g"
  shows "\<exists>g'. RemoveNode ord n g = Some g' \<and> gc_inv g' \<and> live g' = live g - {n} \<and>
    graph g' = {(u, v) \<in> graph g. u \<noteq> n \<and> v \<noteq> n}"
proof -
  let ?ns = "gc_nodes g"
  have good: "good_nodes ?ns" using inv by (simp add: gc_inv_def)
  then have wf: "wf_nodes ?ns" by (simp add: good_nodes_def)
  have nl: "n < length ?ns" "n \<notin> set (gc_free_nodes g)" using n by (auto simp: live_def)
  have "n \<notin> n_out (?ns ! n)" using good_nodes_no_loop [OF good, of n] nl by (simp add: edges_def)
  then have ins: "n_in (erase_in n (ord (n_out (?ns ! n))) ?ns ! n) = n_in (?ns ! n)"
    using nl edge_iteration.wf_ord(1) [OF it wf nl(1)] by (simp add: nth_erase_in)
  let ?ns' = "clear_edges n (erase_out n (ord (n_in (?ns ! n))) (erase_in n (ord (n_out (?ns ! n))) ?ns))"
  have iso: "isolated_at n ?ns ?ns'"
    using isolated_atI(1) [OF wf nl(1) good_nodes_no_loop [OF good]] edge_iteration.wf_ord [OF it wf nl(1)] by simp
  have "RemoveNode ord n g = Some (g\<lparr>gc_nodes := ?ns', gc_free_nodes := gc_free_nodes g @ [n]\<rparr>)"
    using nl(1) ins by (simp add: RemoveNode_def Let_def clear_edges_def)
  moreover have "length ?ns' = length ?ns" "edges ?ns' = {(u, v) \<in> edges ?ns. u \<noteq> n \<and> v \<noteq> n}" "good_nodes ?ns'"
    using iso isolated_at_edges [OF iso] isolated_at_good [OF iso good] by (simp_all add: isolated_at_def)
  ultimately show ?thesis using inv nl by (auto simp: gc_inv_def live_def graph_def)
qed

section \<open>Finding a path\<close>

text \<open>The stack and the tentative path \<open>P\<close>: each marker stands for a node of the path, and the nodes
  above a marker are successors of its node.\<close>

fun stack_ok :: "Node list \<Rightarrow> nat \<Rightarrow> int list \<Rightarrow> nat list \<Rightarrow> bool" where
  "stack_ok ns x [] P \<longleftrightarrow> P = []"
| "stack_ok ns x (n # st) P \<longleftrightarrow>
     (if n < 0 then P \<noteq> [] \<and> stack_ok ns x st (butlast P)
      else (if P = [] then nat n = x else (last P, nat n) \<in> edges ns) \<and> stack_ok ns x st P)"

definition path_ok :: "Node list \<Rightarrow> nat \<Rightarrow> nat list \<Rightarrow> bool" where
  "path_ok ns x P \<longleftrightarrow> (P \<noteq> [] \<longrightarrow> hd P = x) \<and> successively (\<lambda>u v. (u, v) \<in> edges ns) P"

lemma path_ok_snoc:
  "path_ok ns x P \<Longrightarrow> (if P = [] then n = x else (last P, n) \<in> edges ns) \<Longrightarrow> path_ok ns x (P @ [n])"
  by (auto simp: path_ok_def successively_append_iff hd_append split: if_splits)

lemma path_ok_butlast: "path_ok ns x P \<Longrightarrow> path_ok ns x (butlast P)"
  by (cases P rule: rev_cases) (auto simp: path_ok_def successively_append_iff hd_append split: if_splits)

lemma stack_ok_push:
  "stack_ok ns x st P \<Longrightarrow> P \<noteq> [] \<Longrightarrow> \<forall>w \<in> set new. (last P, w) \<in> edges ns \<Longrightarrow> stack_ok ns x (map int new @ st) P"
  by (induction new) auto

definition stored :: "int \<Rightarrow> nat list \<Rightarrow> nat list \<Rightarrow> bool" where
  "stored max_path_len P path \<longleftrightarrow> (\<forall>i < length P. int i < max_path_len \<longrightarrow> path ! i = P ! i)"

definition find_inv :: "Node list \<Rightarrow> nat \<Rightarrow> nat \<Rightarrow> nat set \<Rightarrow> int list \<Rightarrow> nat set \<Rightarrow> bool" where
  "find_inv ns x y seen stack D \<longleftrightarrow> (\<forall>n \<in> set stack. n < int (length ns)) \<and> y \<notin> D \<and>
     insert x seen \<subseteq> D \<union> nat ` {n \<in> set stack. n \<ge> 0} \<and> (\<forall>u \<in> D. \<forall>v. (u, v) \<in> edges ns \<longrightarrow> v \<in> seen)"

lemma find_inv_step:
  assumes wf: "wf_nodes ns" and inv: "find_inv ns x y seen (n # stack) D" and n: "0 \<le> n" "nat n \<noteq> y"
    and new: "set new = {v. (nat n, v) \<in> edges ns} - seen"
  shows "find_inv ns x y (seen \<union> {v. (nat n, v) \<in> edges ns}) (map int new @ - 1 # stack) (insert (nat n) D)"
proof -
  let ?S = "\<lambda>st. nat ` {m \<in> set st. m \<ge> 0}"
  have S: "?S (n # stack) = insert (nat n) (?S stack)" using n(1) by auto
  have S': "?S (map int new @ - 1 # stack) = set new \<union> ?S stack"
  proof -
    have "{m \<in> set (map int new @ - 1 # stack). m \<ge> 0} = int ` set new \<union> {m \<in> set stack. m \<ge> 0}" by auto
    then show ?thesis by (simp add: image_Un image_image)
  qed
  have bnd: "int v < int (length ns)" if "v \<in> set new" for v using that new edges_in_range [OF wf] by auto
  show ?thesis
    unfolding find_inv_def S'
  proof (intro conjI)
    show "\<forall>m \<in> set (map int new @ - 1 # stack). m < int (length ns)"
      using bnd inv by (auto simp: find_inv_def)
    show "insert x (seen \<union> {v. (nat n, v) \<in> edges ns}) \<subseteq> insert (nat n) D \<union> (set new \<union> ?S stack)"
      using inv new unfolding find_inv_def S by blast
  qed (use inv n in \<open>auto simp: find_inv_def\<close>)
qed

lemma stored_snoc:
  assumes "stored m P path" "m \<le> int (length path)"
  shows "stored m (P @ [n]) (if int (length P) < m then path[length P := n] else path)"
  using assms by (auto simp: stored_def nth_append less_Suc_eq nth_list_update)

lemma FindPath_loop_correct:
  "edge_iteration ord \<Longrightarrow> wf_nodes ns \<Longrightarrow> stack_ok ns x stack P \<Longrightarrow> path_ok ns x P \<Longrightarrow> path_len = int (length P) \<Longrightarrow>
    stored max_path_len P path \<Longrightarrow> max_path_len \<le> int (length path) \<Longrightarrow> find_inv ns x y seen stack D \<Longrightarrow>
    \<exists>k path'. FindPath_loop ord ns y max_path_len seen stack path_len path = Some (int k, path') \<and>
      length path' = length path \<and>
      (k = 0 \<and> (x, y) \<notin> (edges ns)\<^sup>* \<or>
       (\<exists>P'. length P' = k \<and> k > 0 \<and> path_ok ns x P' \<and> last P' = y \<and> stored max_path_len P' path'))"
proof (induction ord ns y max_path_len seen stack path_len path arbitrary: P D rule: FindPath_loop.induct)
  case (1 ord ns y max_path_len seen path_len path)
  have "v \<in> D" if "(x, v) \<in> (edges ns)\<^sup>*" for v
    using that by (induction rule: rtrancl_induct) (use "1.prems"(8) in \<open>auto simp: find_inv_def\<close>)
  then show ?case using "1.prems"(8) by (intro exI [of _ 0] exI [of _ path]) (auto simp: find_inv_def)
next
  case (2 ord ns y max_path_len seen n stack path_len path)
  show ?case
  proof (cases "n < 0")
    case True
    then have P: "stack_ok ns x stack (butlast P)" "P \<noteq> []" using "2.prems"(3) by auto
    have inv: "find_inv ns x y seen stack D" using "2.prems"(8) True by (auto simp: find_inv_def)
    have st: "stored max_path_len (butlast P) path" using "2.prems"(6) by (auto simp: stored_def nth_butlast)
    have len: "path_len - 1 = int (length (butlast P))" using "2.prems"(5) P(2) by (cases P) auto
    from "2.IH"(1) [OF True "2.prems"(1,2) P(1) path_ok_butlast [OF "2.prems"(4)] len st "2.prems"(7) inv]
    show ?thesis using True by simp
  next
    case False
    let ?path = "if path_len < max_path_len then path[nat path_len := nat n] else path"
    let ?P = "P @ [nat n]"
    have ok: "path_ok ns x ?P" using "2.prems"(3,4) False by (intro path_ok_snoc) auto
    have st: "stored max_path_len ?P ?path"
      using stored_snoc [OF "2.prems"(6,7), of "nat n"] "2.prems"(5) by (simp split: if_splits)
    have len: "length ?path = length path" by simp
    show ?thesis
    proof (cases "nat n = y")
      case True
      then have "FindPath_loop ord ns y max_path_len seen (n # stack) path_len path = Some (int (Suc (length P)), ?path)"
        using False "2.prems"(5) by simp
      moreover have "length ?P = Suc (length P) \<and> Suc (length P) > 0 \<and> path_ok ns x ?P \<and> last ?P = y \<and>
          stored max_path_len ?P ?path" using ok st True by simp
      ultimately show ?thesis using len by blast
    next
      case ny: False
      have nl: "nat n < length ns" using "2.prems"(8) False by (auto simp: find_inv_def)
      obtain seen' stack' where p: "FindPath_push (ord (n_out (ns ! nat n))) seen (- 1 # stack) = (seen', stack')" by fastforce
      obtain new where new: "seen' = seen \<union> {v. (nat n, v) \<in> edges ns}" "stack' = map int new @ - 1 # stack"
        "set new = {v. (nat n, v) \<in> edges ns} - seen"
        using FindPath_push_eq [OF p] edge_iteration.wf_ord(1) [OF "2.prems"(1,2) nl] nl by (auto simp: edges_def)
      have "stack_ok ns x (- 1 # stack) ?P" using "2.prems"(3) False by simp
      then have sk: "stack_ok ns x stack' ?P" unfolding new(2) using new(3) by (intro stack_ok_push) auto
      have "find_inv ns x y seen' stack' (insert (nat n) D)"
        unfolding new(1,2) using find_inv_step [OF "2.prems"(2,8) _ ny new(3)] False by simp
      note inv' = this
      have eq: "FindPath_loop ord ns y max_path_len seen (n # stack) path_len path =
          FindPath_loop ord ns y max_path_len seen' stack' (path_len + 1) ?path" using False ny nl p by simp
      have l: "path_len + 1 = int (length ?P)" "max_path_len \<le> int (length ?path)" using "2.prems"(5,7) len by simp_all
      from "2.IH"(2) [OF False ny nl, unfolded p fst_conv snd_conv, OF "2.prems"(1,2) sk ok l(1) st l(2) inv']
      show ?thesis unfolding eq len .
    qed
  qed
qed

section \<open>Correctness of the component\<close>

interpretation sorted_sets: edge_iteration sorted_list_of_set
  by unfold_locales simp

lemma gc_inv_live: "gc_inv g \<Longrightarrow> x \<in> live g \<Longrightarrow> x < length (gc_nodes g)"
  by (simp add: live_def)

lemma gc_inv_good: "gc_inv g \<Longrightarrow> good_nodes (gc_nodes g)"
  by (simp add: gc_inv_def)

lemma gc_inv_same_free:
  assumes "gc_inv g" "good_nodes ns" "length ns = length (gc_nodes g)" "edges ns \<subseteq> live g \<times> live g"
  shows "gc_inv (g\<lparr>gc_nodes := ns\<rparr>)" "live (g\<lparr>gc_nodes := ns\<rparr>) = live g"
  using assms by (auto simp: gc_inv_def live_def graph_def)

lemma InsertEdge_inv:
  assumes it: "edge_iteration ord" and inv: "gc_inv g" and xy: "x \<in> live g" "y \<in> live g"
  shows "\<exists>g'. InsertEdge ord x y g = Some ((y, x) \<notin> (graph g)\<^sup>*, g') \<and> gc_inv g' \<and> live g' = live g \<and>
    graph g' = (if (y, x) \<in> (graph g)\<^sup>* then graph g else insert (x, y) (graph g))"
proof (cases "(y, x) \<in> (graph g)\<^sup>*")
  case True
  then show ?thesis
    using InsertEdge_correct(1) [OF it gc_inv_good [OF inv] gc_inv_live [OF inv xy(1)] gc_inv_live [OF inv xy(2)]] inv
    by (simp add: graph_def)
next
  case False
  from InsertEdge_correct(2) [OF it gc_inv_good [OF inv] gc_inv_live [OF inv xy(1)] gc_inv_live [OF inv xy(2)]] False
  obtain ns where ns: "InsertEdge ord x y g = Some (True, g\<lparr>gc_nodes := ns\<rparr>)" "good_nodes ns" "edge_inserted x y (gc_nodes g) ns"
    by (auto simp: graph_def)
  note en = edges_inserted [OF ns(3) gc_inv_live [OF inv xy(1)]]
  have "edges ns \<subseteq> live g \<times> live g" using en xy inv by (auto simp: gc_inv_def graph_def)
  with gc_inv_same_free [OF inv ns(2)] en ns(1) False show ?thesis by (simp add: graph_def)
qed

lemma ContractEdge_inv:
  assumes it: "edge_iteration ord" and inv: "gc_inv g" and e: "(a, b) \<in> graph g"
  shows "\<exists>g'. ContractEdge ord a b g = Some ((a, b) \<notin> (graph g - {(a, b)})\<^sup>*, g') \<and> gc_inv g' \<and>
    (if (a, b) \<in> (graph g - {(a, b)})\<^sup>* then g' = g
     else live g' = live g - {b} \<and>
       graph g' = map_prod (merge_into a b) (merge_into a b) ` (graph g - {(a, b)}))"
proof (cases "(a, b) \<in> (graph g - {(a, b)})\<^sup>*")
  case True
  then show ?thesis using ContractEdge_refused [OF it gc_inv_good [OF inv]] e inv by (simp add: graph_def)
next
  case False
  let ?m = "map_prod (merge_into a b) (merge_into a b)"
  have ab: "a \<in> live g" "b \<in> live g" "a \<noteq> b"
    using e inv good_nodes_no_loop [OF gc_inv_good [OF inv], of a] by (auto simp: gc_inv_def graph_def)
  from ContractEdge_done [OF it gc_inv_good [OF inv], of a b] e False obtain ns where
    c: "ContractEdge ord a b g = Some (True, g\<lparr>gc_nodes := ns, gc_free_nodes := gc_free_nodes g @ [b]\<rparr>)" "good_nodes ns"
      "length ns = length (gc_nodes g)" "edges ns = ?m ` (graph g - {(a, b)})" by (auto simp: graph_def)
  have rng: "?m ` (graph g - {(a, b)}) \<subseteq> (live g - {b}) \<times> (live g - {b})"
    using inv ab by (auto simp: gc_inv_def merge_into_def split: if_splits)
  let ?g = "g\<lparr>gc_nodes := ns, gc_free_nodes := gc_free_nodes g @ [b]\<rparr>"
  have "live ?g = live g - {b}" using c(3) by (auto simp: live_def)
  then have "gc_inv ?g" using inv c rng ab by (auto simp: gc_inv_def graph_def live_def)
  then show ?thesis using c False \<open>live ?g = live g - {b}\<close> by (auto simp: graph_def)
qed

lemma RemoveEdge_inv:
  assumes "gc_inv g" "x \<in> live g" "y \<in> live g"
  shows "\<exists>g'. RemoveEdge x y g = Some g' \<and> gc_inv g' \<and> live g' = live g \<and> graph g' = graph g - {(x, y)}"
proof -
  have "edges (remove_edge x y (gc_nodes g)) \<subseteq> live g \<times> live g"
    using assms(1) by (auto simp: edges_remove_edge gc_inv_def graph_def)
  with gc_inv_same_free [OF assms(1) good_remove_edge [OF gc_inv_good [OF assms(1)]]] show ?thesis
    using gc_inv_live [OF assms(1,2)] gc_inv_live [OF assms(1,3)]
    by (simp add: RemoveEdge_def graph_def edges_remove_edge)
qed

lemma SetNodeData_inv:
  assumes "gc_inv g" "n \<in> live g"
  shows "\<exists>g'. SetNodeData n d g = Some g' \<and> gc_inv g' \<and> live g' = live g \<and> graph g' = graph g \<and>
    GetNodeData n g' = Some d"
proof -
  note gd = good_nodes_data [OF gc_inv_good [OF assms(1)], of n d]
  have "edges (upd n (\<lambda>n. n\<lparr>n_data := d\<rparr>) (gc_nodes g)) \<subseteq> live g \<times> live g"
    using assms(1) gd by (simp add: gc_inv_def graph_def)
  with gc_inv_same_free [OF assms(1) gd(1)] show ?thesis
    using gc_inv_live [OF assms] gd(2) by (simp add: SetNodeData_def GetNodeData_def graph_def nth_upd)
qed

text \<open>The steps of a client, which names live nodes only.\<close>

inductive gc_step :: "iteration_order \<Rightarrow> GraphCycles \<Rightarrow> GraphCycles \<Rightarrow> bool" for ord where
  step_new: "NewNode g = (n, g') \<Longrightarrow> gc_step ord g g'"
| step_remove: "n \<in> live g \<Longrightarrow> RemoveNode ord n g = Some g' \<Longrightarrow> gc_step ord g g'"
| step_data: "n \<in> live g \<Longrightarrow> SetNodeData n d g = Some g' \<Longrightarrow> gc_step ord g g'"
| step_insert: "x \<in> live g \<Longrightarrow> y \<in> live g \<Longrightarrow> InsertEdge ord x y g = Some (b, g') \<Longrightarrow> gc_step ord g g'"
| step_erase: "x \<in> live g \<Longrightarrow> y \<in> live g \<Longrightarrow> RemoveEdge x y g = Some g' \<Longrightarrow> gc_step ord g g'"
| step_reach: "x \<in> live g \<Longrightarrow> y \<in> live g \<Longrightarrow> IsReachableNonConst ord x y g = Some (b, g') \<Longrightarrow> gc_step ord g g'"
| step_can: "CanContractEdge ord x y g = Some (b, g') \<Longrightarrow> gc_step ord g g'"
| step_contract: "ContractEdge ord x y g = Some (b, g') \<Longrightarrow> gc_step ord g g'"

lemma contract_needs_edge:
  "CanContractEdge ord a b g = Some r \<Longrightarrow> (a, b) \<in> graph g" "ContractEdge ord a b g = Some r \<Longrightarrow> (a, b) \<in> graph g"
  by (auto simp: CanContractEdge_def ContractEdge_def HasEdge_iff graph_def split: if_splits)

lemma gc_step_inv: "gc_step ord g g' \<Longrightarrow> edge_iteration ord \<Longrightarrow> gc_inv g \<Longrightarrow> gc_inv g'"
proof (induction rule: gc_step.induct)
  case (step_new g n g')
  then show ?case using NewNode_correct by blast
next
  case (step_remove n g g')
  then show ?case using RemoveNode_correct [of ord g n] by auto
next
  case (step_data n g d g')
  then show ?case using SetNodeData_inv [of g n d] by auto
next
  case (step_insert x g y b g')
  then show ?case using InsertEdge_inv [of ord g x y] by auto
next
  case (step_erase x g y g')
  then show ?case using RemoveEdge_inv [of g x y] by auto
next
  case (step_reach x g y b g')
  then show ?case using IsReachableNonConst_correct [OF _ gc_inv_good gc_inv_live gc_inv_live, of ord g x y] by simp
next
  case (step_can x y g b g')
  then show ?case
    using CanContractEdge_eq [OF _ gc_inv_good, of ord g x y] contract_needs_edge(1) [of ord x y g] by (simp add: graph_def)
next
  case (step_contract x y g b g')
  then show ?case using ContractEdge_inv [of ord g x y] contract_needs_edge(2) [of ord x y g] by auto
qed

text \<open>C13. Every graph that operations on live nodes build from the empty graph passes the self-check
  \<^verbatim>\<open>CheckInvariants\<close> (no mark left behind, distinct ranks, every edge to a greater rank) and is acyclic,
  whatever the iteration order of the edge sets.\<close>

theorem gc_reachable_invariants:
  assumes "edge_iteration ord" "(gc_step ord)\<^sup>*\<^sup>* GraphCycles_new g"
  shows "CheckInvariants ord g \<and> acyclic (graph g) \<and> graph g \<subseteq> live g \<times> live g"
proof -
  have "gc_inv g" using assms(2)
    by (induction rule: rtranclp_induct) (auto intro: gc_inv_new gc_step_inv assms(1))
  then show ?thesis
    using gc_inv_checks [OF assms(1)] good_nodes_acyclic by (auto simp: gc_inv_def graph_def)
qed

text \<open>C14. \<^verbatim>\<open>InsertEdge\<close> refines insertion into an acyclic graph: between live nodes it always
  returns, answers true exactly when the target does not reach the source, then adds exactly the new edge, and
  otherwise leaves the graph as it was; the invariant and the live nodes are kept.\<close>

theorem InsertEdge_refines:
  assumes "edge_iteration ord" "gc_inv g" "x \<in> live g" "y \<in> live g"
  shows "\<exists>g'. InsertEdge ord x y g = Some ((y, x) \<notin> (graph g)\<^sup>*, g') \<and> gc_inv g' \<and> live g' = live g \<and>
    graph g' = (if (y, x) \<in> (graph g)\<^sup>* then graph g else insert (x, y) (graph g))"
  using InsertEdge_inv [OF assms] .

text \<open>C15. \<^verbatim>\<open>ContractEdge\<close> on an edge answers false and changes nothing when another path connects
  its ends, which \<^verbatim>\<open>CanContractEdge\<close> tells beforehand without changing the graph, and otherwise merges the
  target into the source: exactly the images of the other edges remain, and the target is released.\<close>

theorem ContractEdge_refines:
  assumes "edge_iteration ord" "gc_inv g" "(a, b) \<in> graph g"
  shows "CanContractEdge ord a b g = Some ((a, b) \<notin> (graph g - {(a, b)})\<^sup>*, g) \<and>
    (\<exists>g'. ContractEdge ord a b g = Some ((a, b) \<notin> (graph g - {(a, b)})\<^sup>*, g') \<and> gc_inv g' \<and>
      (if (a, b) \<in> (graph g - {(a, b)})\<^sup>* then g' = g
       else live g' = live g - {b} \<and>
         graph g' = map_prod (merge_into a b) (merge_into a b) ` (graph g - {(a, b)})))"
  using CanContractEdge_eq [OF assms(1) gc_inv_good [OF assms(2)]] ContractEdge_inv [OF assms] assms(3)
  by (simp add: graph_def)

text \<open>C16. \<^verbatim>\<open>FindPath\<close> terminates on every graph: it returns 0 exactly when there is no path, and
  otherwise the number of nodes of a path from \<open>x\<close> to \<open>y\<close>, of which the caller's array holds the first
  \<^verbatim>\<open>max_path_len\<close>.\<close>

theorem FindPath_finds:
  assumes it: "edge_iteration ord" and inv: "gc_inv g" and x: "x \<in> live g" and m: "max_path_len \<le> int (length path)"
  shows "\<exists>k path'. FindPath ord x y max_path_len path g = Some (int k, path') \<and> length path' = length path \<and>
    (k > 0 \<longleftrightarrow> (x, y) \<in> (graph g)\<^sup>*) \<and>
    (k > 0 \<longrightarrow> (\<exists>P. length P = k \<and> hd P = x \<and> last P = y \<and> successively (\<lambda>u v. (u, v) \<in> graph g) P \<and>
       (\<forall>i < k. int i < max_path_len \<longrightarrow> path' ! i = P ! i)))"
proof -
  have wf: "wf_nodes (gc_nodes g)" using gc_inv_good [OF inv] by (simp add: good_nodes_def)
  have f: "find_inv (gc_nodes g) x y {} [int x] {}" using gc_inv_live [OF inv x] by (auto simp: find_inv_def image_iff)
  have s: "stack_ok (gc_nodes g) x [int x] []" "path_ok (gc_nodes g) x []" "stored max_path_len [] path"
    by (simp_all add: path_ok_def stored_def)
  from FindPath_loop_correct [OF it wf s(1,2) _ s(3) m f] obtain k path' where
    r: "FindPath ord x y max_path_len path g = Some (int k, path')" "length path' = length path"
      "k = 0 \<and> (x, y) \<notin> (graph g)\<^sup>* \<or>
       (\<exists>P. length P = k \<and> k > 0 \<and> path_ok (gc_nodes g) x P \<and> last P = y \<and> stored max_path_len P path')"
    by (auto simp: FindPath_def graph_def)
  have path: "(x, y) \<in> (graph g)\<^sup>*" if "path_ok (gc_nodes g) x P" "last P = y" "P \<noteq> []" for P
    using that
  proof (induction P arbitrary: y rule: rev_induct)
    case (snoc z P)
    show ?case
    proof (cases "P = []")
      case False
      then have "path_ok (gc_nodes g) x P" "(last P, z) \<in> graph g"
        using snoc.prems by (auto simp: path_ok_def successively_append_iff graph_def)
      then show ?thesis using snoc.IH [of "last P"] snoc.prems(2) False by (auto intro: rtrancl_into_rtrancl)
    qed (use snoc.prems in \<open>simp add: path_ok_def\<close>)
  qed simp
  from r(3) show ?thesis
  proof
    assume "\<exists>P. length P = k \<and> k > 0 \<and> path_ok (gc_nodes g) x P \<and> last P = y \<and> stored max_path_len P path'"
    then obtain P where P: "length P = k" "k > 0" "path_ok (gc_nodes g) x P" "last P = y" "stored max_path_len P path'" by blast
    then have "(x, y) \<in> (graph g)\<^sup>*" using path [of P] by auto
    then show ?thesis using r(1,2) P
      by (intro exI [of _ k] exI [of _ path']) (auto simp: path_ok_def stored_def graph_def intro!: exI [of _ P])
  qed (use r(1,2) in auto)
qed

text \<open>A graph of two nodes, for concrete inputs.\<close>

definition two_nodes :: GraphCycles where
  "two_nodes = snd (NewNode (snd (NewNode GraphCycles_new)))"

lemma two_nodes_reached: "(gc_step ord)\<^sup>*\<^sup>* GraphCycles_new two_nodes"
proof -
  have "gc_step ord g (snd (NewNode g))" for g by (rule step_new [of g "fst (NewNode g)"]) simp
  then show ?thesis unfolding two_nodes_def by (meson rtranclp.rtrancl_into_rtrancl rtranclp.rtrancl_refl)
qed

lemma two_nodes_inv: "gc_inv two_nodes"
  unfolding two_nodes_def using NewNode_correct gc_inv_new(1) by (metis prod.collapse)

lemma two_nodes_eq: "live two_nodes = {0, 1}" "graph two_nodes = {}"
  by (auto simp: two_nodes_def NewNode_def GraphCycles_new_def live_def graph_def edges_def nth_append less_Suc_eq nth_Cons split: if_splits nat.splits)

definition two_nodes_edge :: GraphCycles where
  "two_nodes_edge = snd (the (InsertEdge sorted_list_of_set 0 1 two_nodes))"

lemma two_nodes_edge: "gc_inv two_nodes_edge" "graph two_nodes_edge = {(0, 1)}" "live two_nodes_edge = {0, 1}"
proof -
  obtain g' where g': "InsertEdge sorted_list_of_set 0 1 two_nodes = Some ((1, 0) \<notin> (graph two_nodes)\<^sup>*, g')" "gc_inv g'"
    "live g' = live two_nodes" "graph g' = (if (1, 0) \<in> (graph two_nodes)\<^sup>* then graph two_nodes else insert (0, 1) (graph two_nodes))"
    using InsertEdge_inv [OF sorted_sets.edge_iteration_axioms two_nodes_inv, of 0 1] two_nodes_eq by auto
  have "two_nodes_edge = g'" using g'(1) by (simp add: two_nodes_edge_def)
  then show "gc_inv two_nodes_edge" "graph two_nodes_edge = {(0, 1)}" "live two_nodes_edge = {0, 1}"
    using g' two_nodes_eq by simp_all
qed

theorem gc_reachable_invariants_witness:
  "CheckInvariants sorted_list_of_set two_nodes \<and> acyclic (graph two_nodes)"
  using gc_reachable_invariants [OF sorted_sets.edge_iteration_axioms two_nodes_reached] by blast

theorem InsertEdge_refines_witness:
  "\<exists>g'. InsertEdge sorted_list_of_set 0 1 two_nodes = Some (True, g') \<and> graph g' = {(0, 1)}"
  using InsertEdge_refines [OF sorted_sets.edge_iteration_axioms two_nodes_inv, of 0 1] two_nodes_eq by auto

theorem ContractEdge_refines_witness:
  "\<exists>g'. ContractEdge sorted_list_of_set 0 1 two_nodes_edge = Some (True, g') \<and> live g' = {0}"
  using ContractEdge_refines [OF sorted_sets.edge_iteration_axioms two_nodes_edge(1), of 0 1] two_nodes_edge(2,3) by auto

theorem FindPath_finds_witness:
  "\<exists>k path'. FindPath sorted_list_of_set 0 1 2 [7, 7] two_nodes_edge = Some (int k, path') \<and> k > 0"
  using FindPath_finds [OF sorted_sets.edge_iteration_axioms two_nodes_edge(1), of 0 2 "[7, 7]" 1] two_nodes_edge(2,3) by auto

end
