(* ===== verification/Memory_Arena.thy ===== *)
theory Memory_Arena
  imports TF_Prelude
begin

text \<open>
  \<^verbatim>\<open>lite/simple_memory_arena.cc\<close> and \<^verbatim>\<open>.h\<close>: the arena that plans the tensor buffers of an
  interpreter inside one block of memory. A \<^verbatim>\<open>size_t\<close> is a natural number below \<open>2 ^ 64\<close>, and
  sums and differences wrap around (\<open>wadd\<close>, \<open>wsub\<close>). A block of memory is its address and its bytes; \<^verbatim>\<open>new char[n]\<close> is a
  parameter, the address and the indeterminate contents it returns. An alignment of 0, where the source divides
  by zero, is left out by the hypotheses of the theorems (HOL's \<open>mod 0\<close> is not the program's).
\<close>

section \<open>State\<close>

datatype TfLiteStatus = kTfLiteOk | kTfLiteError

record ArenaAlloc =
  al_offset :: nat
  al_size :: nat

record memory_block =
  mb_address :: nat
  mb_bytes :: bytes

record SimpleMemoryArena =
  committed :: bool
  arena_alignment :: nat
  high_water_mark :: nat
  underlying_buffer :: "memory_block option"
  underlying_buffer_size :: nat
  underlying_buffer_aligned_ptr :: nat
  allocs :: "ArenaAlloc list"

definition SimpleMemoryArena_new :: "nat \<Rightarrow> SimpleMemoryArena" where
  "SimpleMemoryArena_new alignment =
     \<lparr>committed = False, arena_alignment = alignment, high_water_mark = 0, underlying_buffer = None,
      underlying_buffer_size = 0, underlying_buffer_aligned_ptr = 0, allocs = []\<rparr>"

definition wadd :: "nat \<Rightarrow> nat \<Rightarrow> nat" where
  "wadd a b = (a + b) mod 2 ^ 64"

definition wsub :: "nat \<Rightarrow> nat \<Rightarrow> nat" where
  "wsub a b = nat ((int a - int b) mod 2 ^ 64)"

definition AlignTo :: "nat \<Rightarrow> nat \<Rightarrow> nat" where
  "AlignTo alignment offset =
     (if offset mod alignment = 0 then offset else wadd offset (alignment - offset mod alignment))"

section \<open>Operations\<close>

text \<open>The search for the smallest gap: \<open>best\<close> is the offset, the fit and the position of the best gap so
  far, and \<open>pos\<close> the position of the iterator.\<close>

fun best_gap :: "nat \<Rightarrow> nat \<Rightarrow> ArenaAlloc list \<Rightarrow> nat \<Rightarrow> nat \<Rightarrow> nat \<times> nat \<times> nat \<Rightarrow> nat \<times> nat \<times> nat" where
  "best_gap alignment sz [] pos current_offset best = best"
| "best_gap alignment sz (it # its) pos current_offset best =
     (let aligned_current_offset = AlignTo alignment current_offset;
          (best_offset, best_offset_fit, best_insertion_it) = best;
          best = (if wadd aligned_current_offset sz \<le> al_offset it \<and>
                     wsub (al_offset it) current_offset < best_offset_fit
                  then (aligned_current_offset, wsub (al_offset it) current_offset, pos)
                  else best)
      in best_gap alignment sz its (Suc pos) (wadd (al_offset it) (al_size it)) best)"

definition Allocate :: "nat \<Rightarrow> nat \<Rightarrow> SimpleMemoryArena \<Rightarrow> TfLiteStatus \<times> ArenaAlloc option \<times> SimpleMemoryArena" where
  "Allocate alignment sz a =
     (if \<not> alignment \<le> arena_alignment a then (kTfLiteError, None, a)
      else if sz = 0 then (kTfLiteOk, Some \<lparr>al_offset = 0, al_size = 0\<rparr>, a)
      else
        let current_top = (if allocs a = [] then 0 else wadd (al_offset (last (allocs a))) (al_size (last (allocs a))));
            (best_offset, best_offset_fit, best_insertion_it) =
              best_gap alignment sz (allocs a) 0 0 (AlignTo alignment current_top, 2 ^ 64 - 1, length (allocs a));
            new_alloc = \<lparr>al_offset = best_offset, al_size = sz\<rparr>
        in (kTfLiteOk, Some new_alloc,
            a\<lparr>high_water_mark := max (high_water_mark a) (wadd best_offset sz),
              allocs := take best_insertion_it (allocs a) @ new_alloc # drop best_insertion_it (allocs a)\<rparr>))"

text \<open>The erasing loop of \<^verbatim>\<open>Deallocate\<close>: it stops at an entry of the same offset and another size.\<close>

fun erase_allocs :: "ArenaAlloc \<Rightarrow> ArenaAlloc list \<Rightarrow> nat \<Rightarrow> bool \<times> ArenaAlloc list \<times> nat" where
  "erase_allocs alloc [] erased_allocs_count = (True, [], erased_allocs_count)"
| "erase_allocs alloc (it # its) erased_allocs_count =
     (if al_offset it = al_offset alloc then
        if al_size it \<noteq> al_size alloc then (False, it # its, erased_allocs_count)
        else erase_allocs alloc its (Suc erased_allocs_count)
      else let (ok, its', n) = erase_allocs alloc its erased_allocs_count in (ok, it # its', n))"

definition Deallocate :: "ArenaAlloc \<Rightarrow> SimpleMemoryArena \<Rightarrow> TfLiteStatus \<times> SimpleMemoryArena" where
  "Deallocate alloc a =
     (if al_size alloc = 0 then (kTfLiteOk, a)
      else let (ok, its, n) = erase_allocs alloc (allocs a) 0
           in (if ok \<and> n = 1 then kTfLiteOk else kTfLiteError, a\<lparr>allocs := its\<rparr>))"

definition RequiredBufferSize :: "SimpleMemoryArena \<Rightarrow> nat" where
  "RequiredBufferSize a = wadd (wadd (arena_alignment a) (high_water_mark a)) (arena_alignment a)"

text \<open>\<^verbatim>\<open>memcpy\<close> of \<open>n\<close> bytes to position \<open>d\<close> of one block from position \<open>s\<close> of another.\<close>

definition memcpy_bytes :: "bytes \<Rightarrow> nat \<Rightarrow> bytes \<Rightarrow> nat \<Rightarrow> nat \<Rightarrow> bytes" where
  "memcpy_bytes dst d src s n = take d dst @ take n (drop s src) @ drop (d + n) dst"

definition Commit :: "(nat \<Rightarrow> memory_block) \<Rightarrow> SimpleMemoryArena \<Rightarrow> TfLiteStatus \<times> SimpleMemoryArena" where
  "Commit new_char a =
     (let required_size = RequiredBufferSize a;
          a = (if required_size > underlying_buffer_size a then
                 let new_alloc = new_char required_size;
                     new_aligned = AlignTo (arena_alignment a) (mb_address new_alloc);
                     new_alloc =
                       (case underlying_buffer a of None \<Rightarrow> new_alloc
                        | Some old \<Rightarrow>
                            if high_water_mark a > 0 \<and> underlying_buffer_size a > 0 then
                              let copy_amount = min (mb_address old + underlying_buffer_size a - underlying_buffer_aligned_ptr a)
                                                    (mb_address new_alloc + required_size - new_aligned)
                              in new_alloc\<lparr>mb_bytes := memcpy_bytes (mb_bytes new_alloc) (new_aligned - mb_address new_alloc)
                                   (mb_bytes old) (underlying_buffer_aligned_ptr a - mb_address old) copy_amount\<rparr>
                            else new_alloc)
                 in a\<lparr>underlying_buffer := Some new_alloc, underlying_buffer_size := required_size,
                      underlying_buffer_aligned_ptr := new_aligned\<rparr>
               else a)
      in (if underlying_buffer a \<noteq> None then kTfLiteOk else kTfLiteError, a\<lparr>committed := True\<rparr>))"

text \<open>\<^verbatim>\<open>ResolveAlloc\<close>: a pointer is \<open>Some\<close> address, the null pointer \<open>None\<close>.\<close>

definition ResolveAlloc :: "ArenaAlloc \<Rightarrow> SimpleMemoryArena \<Rightarrow> TfLiteStatus \<times> nat option" where
  "ResolveAlloc alloc a =
     (if \<not> committed a then (kTfLiteError, None)
      else (kTfLiteOk, if al_size alloc = 0 then None else Some (underlying_buffer_aligned_ptr a + al_offset alloc)))"

definition Clear :: "SimpleMemoryArena \<Rightarrow> TfLiteStatus \<times> SimpleMemoryArena" where
  "Clear a = (kTfLiteOk, a\<lparr>committed := False, high_water_mark := 0, allocs := []\<rparr>)"

definition BasePointer :: "SimpleMemoryArena \<Rightarrow> nat" where
  "BasePointer a = underlying_buffer_aligned_ptr a"

section \<open>Invariant\<close>

text \<open>The entries lie one after the other between \<open>c\<close> and \<open>lim\<close>, none of them empty.\<close>

fun laid_out :: "nat \<Rightarrow> ArenaAlloc list \<Rightarrow> nat \<Rightarrow> bool" where
  "laid_out c [] lim \<longleftrightarrow> c \<le> lim"
| "laid_out c (it # its) lim \<longleftrightarrow> c \<le> al_offset it \<and> 0 < al_size it \<and> laid_out (al_offset it + al_size it) its lim"

definition end_of :: "nat \<Rightarrow> ArenaAlloc list \<Rightarrow> nat" where
  "end_of c its = (if its = [] then c else al_offset (last its) + al_size (last its))"

lemma end_of_simps [simp]: "end_of c [] = c" "end_of c (it # its) = end_of (al_offset it + al_size it) its"
  "end_of c (its @ [it]) = al_offset it + al_size it"
  by (simp_all add: end_of_def)

lemma laid_out_append: "laid_out c (xs @ ys) lim \<longleftrightarrow> laid_out c xs (end_of c xs) \<and> laid_out (end_of c xs) ys lim"
  by (induction xs arbitrary: c) auto

lemma laid_out_top: "laid_out c its lim \<Longrightarrow> end_of c its \<le> lim"
  by (induction its arbitrary: c) auto

lemma laid_out_tight: "laid_out c its lim \<Longrightarrow> laid_out c its (end_of c its)"
  by (induction its arbitrary: c) auto

lemma laid_out_start: "laid_out c its lim \<Longrightarrow> c \<le> end_of c its"
  by (induction its arbitrary: c) force+

lemma laid_out_mono: "laid_out c its lim \<Longrightarrow> lim \<le> lim' \<Longrightarrow> laid_out c its lim'"
  by (induction its arbitrary: c) auto

lemma laid_out_lower: "laid_out c its lim \<Longrightarrow> c' \<le> c \<Longrightarrow> laid_out c' its lim"
  by (cases its) auto

lemma laid_out_in:
  "laid_out c its lim \<Longrightarrow> it \<in> set its \<Longrightarrow> c \<le> al_offset it \<and> 0 < al_size it \<and> al_offset it + al_size it \<le> lim"
proof (induction its arbitrary: c)
  case (Cons x its)
  have "al_offset x + al_size x \<le> lim"
    using Cons.prems(1) laid_out_start [of "al_offset x + al_size x" its lim] laid_out_top [of "al_offset x + al_size x" its lim] by simp
  then show ?case using Cons by fastforce
qed simp

definition disjoint_allocs :: "ArenaAlloc \<Rightarrow> ArenaAlloc \<Rightarrow> bool" where
  "disjoint_allocs x y \<longleftrightarrow> {al_offset x ..< al_offset x + al_size x} \<inter> {al_offset y ..< al_offset y + al_size y} = {}"

lemma laid_out_disjoint:
  "laid_out c its lim \<Longrightarrow> sorted_wrt (\<lambda>x y. al_offset x + al_size x \<le> al_offset y) its"
  by (induction its arbitrary: c) (auto dest: laid_out_in)

definition arena_inv :: "SimpleMemoryArena \<Rightarrow> bool" where
  "arena_inv a \<longleftrightarrow> laid_out 0 (allocs a) (high_water_mark a) \<and> high_water_mark a < 2 ^ 64 \<and> 0 < arena_alignment a"

section \<open>Allocation\<close>

lemma wadd_small: "a + b < 2 ^ 64 \<Longrightarrow> wadd a b = a + b"
  by (simp add: wadd_def)

lemma wsub_small: "b \<le> a \<Longrightarrow> a < 2 ^ 64 \<Longrightarrow> wsub a b = a - b"
  by (simp add: wsub_def nat_mod_distrib [symmetric] of_nat_diff [symmetric] del: of_nat_diff)

lemma AlignTo_props:
  assumes "0 < m" "c + m < 2 ^ 64"
  shows "AlignTo m c mod m = 0" "c \<le> AlignTo m c" "AlignTo m c < c + m"
proof -
  have lt: "c mod m < m" using assms(1) by simp
  have eq: "AlignTo m c = (if c mod m = 0 then c else c + (m - c mod m))"
    using assms(2) lt by (simp add: AlignTo_def wadd_small)
  obtain r where r: "c mod m = r" by simp
  show "c \<le> AlignTo m c" "AlignTo m c < c + m" using lt assms(1) unfolding eq r by auto
  have "(c div m + 1) * m = c div m * m + m" by simp
  then have "c + (m - c mod m) = (c div m + 1) * m" using lt div_mult_mod_eq [of c m] by linarith
  then show "AlignTo m c mod m = 0" by (simp add: eq)
qed

definition good_slot :: "nat \<Rightarrow> nat \<Rightarrow> ArenaAlloc list \<Rightarrow> nat \<Rightarrow> nat \<times> nat \<times> nat \<Rightarrow> bool" where
  "good_slot m sz its lim = (\<lambda>(off, _, pos). pos \<le> length its \<and> off mod m = 0 \<and> off + sz \<le> lim + m + sz \<and>
     laid_out 0 (take pos its @ \<lparr>al_offset = off, al_size = sz\<rparr> # drop pos its) (max lim (off + sz)))"

lemma good_slot_gap:
  assumes lo: "laid_out 0 (pre @ it # its) lim" and m: "0 < m" "0 < sz" "lim + m + sz < 2 ^ 64"
    and fits: "wadd (AlignTo m (end_of 0 pre)) sz \<le> al_offset it"
  shows "good_slot m sz (pre @ it # its) lim (AlignTo m (end_of 0 pre), fit, length pre)"
proof -
  let ?e = "end_of 0 pre"
  have e: "?e \<le> lim" using lo laid_out_append laid_out_in [OF lo, of it] by fastforce
  note al = AlignTo_props [of m ?e]
  have w: "wadd (AlignTo m ?e) sz = AlignTo m ?e + sz" using al e m by (intro wadd_small) simp
  have "laid_out 0 (pre @ \<lparr>al_offset = AlignTo m ?e, al_size = sz\<rparr> # it # its) (max lim (AlignTo m ?e + sz))"
    using lo al e m fits w by (auto simp: laid_out_append intro: laid_out_mono)
  then show ?thesis using al e m by (simp add: good_slot_def)
qed

lemma best_gap_good:
  assumes lo: "laid_out 0 (pre @ its) lim" and m: "0 < m" "0 < sz" "lim + m + sz < 2 ^ 64"
    and "good_slot m sz (pre @ its) lim best" "cur = end_of 0 pre" "pos = length pre"
  shows "good_slot m sz (pre @ its) lim (best_gap m sz its pos cur best)"
  using assms
proof (induction its arbitrary: pre pos cur best)
  case (Cons it its)
  have "al_offset it + al_size it \<le> lim" using laid_out_in [OF Cons.prems(1), of it] by simp
  then have cur: "wadd (al_offset it) (al_size it) = end_of 0 (pre @ [it])" using m by (simp add: wadd_small)
  have best: "good_slot m sz (pre @ it # its) lim
     (if wadd (AlignTo m cur) sz \<le> al_offset it \<and> wsub (al_offset it) cur < fst (snd best)
      then (AlignTo m cur, wsub (al_offset it) cur, pos) else best)"
    using good_slot_gap [OF Cons.prems(1) m] Cons.prems(5-7) by auto
  show ?case
    using Cons.IH [of "pre @ [it]" _ _ "Suc pos"] Cons.prems(1-4,7) best cur
    by (auto simp: Let_def case_prod_beta split: if_splits)
qed simp

definition inserted :: "ArenaAlloc \<Rightarrow> ArenaAlloc list \<Rightarrow> ArenaAlloc list \<Rightarrow> bool" where
  "inserted x xs ys \<longleftrightarrow> (\<exists>us vs. xs = us @ vs \<and> ys = us @ x # vs)"

lemma Allocate_correct:
  assumes inv: "arena_inv a" and m: "0 < m" "m \<le> arena_alignment a" and sz: "0 < sz"
    and fits: "high_water_mark a + m + sz < 2 ^ 64"
  shows "\<exists>x l. Allocate m sz a = (kTfLiteOk, Some x, a\<lparr>high_water_mark := max (high_water_mark a) (al_offset x + sz), allocs := l\<rparr>) \<and>
    al_size x = sz \<and> al_offset x mod m = 0 \<and> inserted x (allocs a) l \<and>
    arena_inv (a\<lparr>high_water_mark := max (high_water_mark a) (al_offset x + sz), allocs := l\<rparr>)"
proof -
  let ?l = "allocs a" and ?lim = "high_water_mark a"
  have lo: "laid_out 0 ?l ?lim" using inv by (simp add: arena_inv_def)
  define e where "e = end_of 0 ?l"
  have e: "e \<le> ?lim" using laid_out_top [OF lo] by (simp add: e_def)
  have ct: "(if ?l = [] then 0 else wadd (al_offset (last ?l)) (al_size (last ?l))) = e"
    using e fits unfolding e_def end_of_def by (auto intro!: wadd_small)
  note al = AlignTo_props [OF m(1), of e]
  have "laid_out 0 (?l @ [\<lparr>al_offset = AlignTo m e, al_size = sz\<rparr>]) (max ?lim (AlignTo m e + sz))"
    using laid_out_tight [OF lo] al e fits sz by (auto simp: laid_out_append e_def)
  then have "good_slot m sz ?l ?lim (AlignTo m e, 2 ^ 64 - 1, length ?l)"
    using al e fits by (simp add: good_slot_def)
  from best_gap_good [of "[]" ?l ?lim m sz, OF _ m(1) sz fits _ refl refl] lo this
  have g: "good_slot m sz ?l ?lim (best_gap m sz ?l 0 0 (AlignTo m e, 2 ^ 64 - 1, length ?l))" by simp
  obtain off fit pos where b: "best_gap m sz ?l 0 0 (AlignTo m e, 2 ^ 64 - 1, length ?l) = (off, fit, pos)" by (metis prod.exhaust)
  let ?x = "\<lparr>al_offset = off, al_size = sz\<rparr>"
  let ?a = "a\<lparr>high_water_mark := max ?lim (off + sz), allocs := take pos ?l @ ?x # drop pos ?l\<rparr>"
  have s: "off mod m = 0" "off + sz \<le> ?lim + m + sz" "laid_out 0 (take pos ?l @ ?x # drop pos ?l) (max ?lim (off + sz))"
    using g b by (auto simp: good_slot_def)
  have w: "wadd off sz = off + sz" using s(2) fits by (intro wadd_small) simp
  have "Allocate m sz a = (kTfLiteOk, Some ?x, ?a)"
    using m sz b w unfolding Allocate_def ct by (simp add: Let_def)
  moreover have "inserted ?x ?l (take pos ?l @ ?x # drop pos ?l)" unfolding inserted_def
    by (intro exI [of _ "take pos ?l"] exI [of _ "drop pos ?l"]) simp
  moreover have "arena_inv ?a" using s fits inv by (simp add: arena_inv_def)
  ultimately show ?thesis using s(1) by (intro exI [of _ ?x] exI [of _ "take pos ?l @ ?x # drop pos ?l"]) simp
qed

section \<open>Deallocation\<close>

lemma erase_absent: "al_offset x \<notin> al_offset ` set its \<Longrightarrow> erase_allocs x its n = (True, its, n)"
  by (induction its arbitrary: n) auto

lemma erase_one:
  "al_offset x \<notin> al_offset ` set us \<Longrightarrow> al_offset x \<notin> al_offset ` set vs \<Longrightarrow>
     erase_allocs x (us @ x # vs) n = (True, us @ vs, Suc n)"
  by (induction us arbitrary: n) (auto simp: erase_absent)

lemma laid_out_offsets:
  assumes "laid_out c (us @ x # vs) lim"
  shows "al_offset x \<notin> al_offset ` set us" "al_offset x \<notin> al_offset ` set vs"
  using laid_out_disjoint [OF assms] laid_out_in [OF assms] by (force simp: sorted_wrt_append)+

lemma laid_out_erase: "laid_out c (us @ x # vs) lim \<Longrightarrow> laid_out c (us @ vs) lim"
  by (auto simp: laid_out_append intro: laid_out_lower)

lemma Deallocate_correct:
  assumes inv: "arena_inv a" and x: "allocs a = us @ x # vs"
  shows "Deallocate x a = (kTfLiteOk, a\<lparr>allocs := us @ vs\<rparr>)" "arena_inv (a\<lparr>allocs := us @ vs\<rparr>)"
proof -
  have lo: "laid_out 0 (us @ x # vs) (high_water_mark a)" using inv x by (simp add: arena_inv_def)
  have "0 < al_size x" using laid_out_in [OF lo, of x] by simp
  then show "Deallocate x a = (kTfLiteOk, a\<lparr>allocs := us @ vs\<rparr>)"
    using erase_one [OF laid_out_offsets [OF lo], of 0] x by (simp add: Deallocate_def)
  show "arena_inv (a\<lparr>allocs := us @ vs\<rparr>)" using inv laid_out_erase [OF lo] by (simp add: arena_inv_def)
qed

lemma Deallocate_unknown:
  assumes "0 < al_size x" "al_offset x \<notin> al_offset ` set (allocs a)"
  shows "Deallocate x a = (kTfLiteError, a)"
  using assms by (simp add: Deallocate_def erase_absent)

section \<open>Committing\<close>

text \<open>What the arena relies on of \<^verbatim>\<open>new char[n]\<close> for the sizes that memory can have: it returns a block
  of \<open>n\<close> bytes that ends, with the alignment, inside the address space.\<close>

locale array_new =
  fixes new_char :: "nat \<Rightarrow> memory_block" and align :: nat
  assumes new_length: "n < 2 ^ 62 \<Longrightarrow> length (mb_bytes (new_char n)) = n"
    and new_fits: "n < 2 ^ 62 \<Longrightarrow> mb_address (new_char n) + n + align < 2 ^ 64"

definition buffer_ok :: "SimpleMemoryArena \<Rightarrow> bool" where
  "buffer_ok a \<longleftrightarrow>
     (case underlying_buffer a of None \<Rightarrow> underlying_buffer_size a = 0
      | Some b \<Rightarrow> length (mb_bytes b) = underlying_buffer_size a \<and>
          mb_address b \<le> underlying_buffer_aligned_ptr a \<and>
          underlying_buffer_aligned_ptr a < mb_address b + arena_alignment a \<and>
          underlying_buffer_aligned_ptr a mod arena_alignment a = 0 \<and>
          2 * arena_alignment a \<le> underlying_buffer_size a)"

text \<open>The bytes of the arena from its aligned start.\<close>

definition arena_bytes :: "SimpleMemoryArena \<Rightarrow> bytes" where
  "arena_bytes a = (case underlying_buffer a of None \<Rightarrow> []
     | Some b \<Rightarrow> drop (underlying_buffer_aligned_ptr a - mb_address b) (mb_bytes b))"

lemma buffer_ok_update [simp]:
  "buffer_ok (a\<lparr>allocs := l\<rparr>) = buffer_ok a" "buffer_ok (a\<lparr>high_water_mark := h\<rparr>) = buffer_ok a"
  "buffer_ok (a\<lparr>committed := c\<rparr>) = buffer_ok a" "arena_bytes (a\<lparr>committed := c\<rparr>) = arena_bytes a"
  by (simp_all add: buffer_ok_def arena_bytes_def split: option.split)

lemma length_arena_bytes:
  assumes "buffer_ok a" "underlying_buffer a = Some b"
  shows "length (arena_bytes a) = mb_address b + underlying_buffer_size a - underlying_buffer_aligned_ptr a"
    "underlying_buffer_size a - arena_alignment a < length (arena_bytes a)"
  using assms by (auto simp: arena_bytes_def buffer_ok_def)

lemma drop_memcpy:
  assumes "d \<le> length dst" "n \<le> length dst - d" "n \<le> length src - s"
  shows "drop d (memcpy_bytes dst d src s n) = take n (drop s src) @ drop (d + n) dst"
    "length (memcpy_bytes dst d src s n) = length dst"
  using assms by (simp_all add: memcpy_bytes_def)

lemma new_block:
  assumes nw: "array_new new_char (arena_alignment a)" and inv: "arena_inv a"
    and n: "n = high_water_mark a + 2 * arena_alignment a" "n < 2 ^ 62"
  defines "p \<equiv> AlignTo (arena_alignment a) (mb_address (new_char n))"
  shows "mb_address (new_char n) \<le> p" "p < mb_address (new_char n) + arena_alignment a" "p mod arena_alignment a = 0"
    "length (mb_bytes (new_char n)) = n"
  using array_new.new_fits [OF nw n(2)] array_new.new_length [OF nw n(2)] inv
    AlignTo_props [of "arena_alignment a" "mb_address (new_char n)"] by (auto simp: arena_inv_def p_def)

lemma Commit_correct:
  assumes nw: "array_new new_char (arena_alignment a)" and inv: "arena_inv a" and ok: "buffer_ok a"
    and fits: "high_water_mark a + 2 * arena_alignment a < 2 ^ 62"
  shows "\<exists>a'. Commit new_char a = (kTfLiteOk, a') \<and> committed a' \<and> buffer_ok a' \<and> arena_inv a' \<and>
    allocs a' = allocs a \<and> high_water_mark a' = high_water_mark a \<and> arena_alignment a' = arena_alignment a \<and>
    high_water_mark a < length (arena_bytes a') \<and>
    (\<forall>i < high_water_mark a. i < length (arena_bytes a) \<longrightarrow> arena_bytes a' ! i = arena_bytes a ! i)"
proof -
  let ?n = "high_water_mark a + 2 * arena_alignment a" and ?m = "arena_alignment a"
  have req: "RequiredBufferSize a = ?n" using fits by (simp add: RequiredBufferSize_def wadd_small)
  have m: "0 < ?m" using inv by (simp add: arena_inv_def)
  show ?thesis
  proof (cases "?n > underlying_buffer_size a")
    case False
    then obtain b where b: "underlying_buffer a = Some b" using ok m by (cases "underlying_buffer a") (auto simp: buffer_ok_def)
    let ?a = "a\<lparr>committed := True\<rparr>"
    have "Commit new_char a = (kTfLiteOk, ?a)" using False b by (simp add: Commit_def req)
    moreover have "high_water_mark a < length (arena_bytes a)" using length_arena_bytes(2) [OF ok b] False by simp
    ultimately show ?thesis using ok inv by (intro exI [of _ ?a]) (simp add: arena_inv_def)
  next
    case True
    define nb where "nb = new_char ?n"
    define p where "p = AlignTo ?m (mb_address nb)"
    note nb = new_block [OF nw inv refl fits, folded nb_def, folded p_def]
    have fin: ?thesis if c: "Commit new_char a = (kTfLiteOk, a')" and a': "a' = a\<lparr>underlying_buffer := Some (nb\<lparr>mb_bytes := bs\<rparr>),
        underlying_buffer_size := ?n, underlying_buffer_aligned_ptr := p, committed := True\<rparr>" and l: "length bs = ?n"
      and eq: "\<forall>i < high_water_mark a. i < length (arena_bytes a) \<longrightarrow> drop (p - mb_address nb) bs ! i = arena_bytes a ! i" for a' bs
    proof -
      have ab: "arena_bytes a' = drop (p - mb_address nb) bs" using a' by (simp add: arena_bytes_def)
      have "buffer_ok a'" using a' l nb by (simp add: buffer_ok_def)
      moreover have "high_water_mark a < length (arena_bytes a')" unfolding ab using l nb m by simp
      moreover have "arena_inv a'" using inv a' by (simp add: arena_inv_def)
      ultimately show ?thesis using c a' eq ab by (intro exI [of _ a']) simp
    qed
    show ?thesis
    proof (cases "underlying_buffer a")
      case None
      show ?thesis
      proof (rule fin [of _ "mb_bytes nb"])
        show "Commit new_char a = (kTfLiteOk, a\<lparr>underlying_buffer := Some (nb\<lparr>mb_bytes := mb_bytes nb\<rparr>),
            underlying_buffer_size := ?n, underlying_buffer_aligned_ptr := p, committed := True\<rparr>)"
          using True None unfolding Commit_def req by (simp add: Let_def nb_def p_def)
      qed (use nb None in \<open>simp_all add: arena_bytes_def\<close>)
    next
      case (Some old)
      have pos: "0 < underlying_buffer_size a" using ok Some m by (simp add: buffer_ok_def)
      let ?d = "p - mb_address nb" and ?s = "underlying_buffer_aligned_ptr a - mb_address old"
      let ?k = "min (mb_address old + underlying_buffer_size a - underlying_buffer_aligned_ptr a) (mb_address nb + ?n - p)"
      let ?bs = "if high_water_mark a > 0 then memcpy_bytes (mb_bytes nb) ?d (mb_bytes old) ?s ?k else mb_bytes nb"
      have lo: "length (arena_bytes a) = mb_address old + underlying_buffer_size a - underlying_buffer_aligned_ptr a"
        using length_arena_bytes(1) [OF ok Some] .
      have k: "?d \<le> length (mb_bytes nb)" "?k \<le> length (mb_bytes nb) - ?d" "?k \<le> length (mb_bytes old) - ?s"
        using nb ok Some m by (auto simp: buffer_ok_def)
      note cp = drop_memcpy [OF k]
      have old: "arena_bytes a = drop ?s (mb_bytes old)" using Some by (simp add: arena_bytes_def)
      show ?thesis
      proof (rule fin [of _ ?bs])
        show "Commit new_char a = (kTfLiteOk, a\<lparr>underlying_buffer := Some (nb\<lparr>mb_bytes := ?bs\<rparr>),
            underlying_buffer_size := ?n, underlying_buffer_aligned_ptr := p, committed := True\<rparr>)"
          using True Some pos unfolding Commit_def req by (simp add: Let_def nb_def p_def)
        show "length ?bs = ?n" using cp(2) nb(4) by simp
        show "\<forall>i < high_water_mark a. i < length (arena_bytes a) \<longrightarrow> drop ?d ?bs ! i = arena_bytes a ! i"
        proof (intro allI impI)
          fix i assume i: "i < high_water_mark a" "i < length (arena_bytes a)"
          have "i < ?k" using i lo nb m by auto
          then show "drop ?d ?bs ! i = arena_bytes a ! i" using i cp(1) k old by (simp add: nth_append)
        qed
      qed simp
    qed
  qed
qed

section \<open>Correctness of the component\<close>

text \<open>The steps of a client, whose sizes stay within the address space.\<close>

inductive arena_step :: "SimpleMemoryArena \<Rightarrow> SimpleMemoryArena \<Rightarrow> bool" where
  allocate: "0 < m \<Longrightarrow> high_water_mark a + m + sz < 2 ^ 64 \<Longrightarrow> Allocate m sz a = (st, r, a') \<Longrightarrow> arena_step a a'"
| deallocate: "x \<in> set (allocs a) \<Longrightarrow> Deallocate x a = (st, a') \<Longrightarrow> arena_step a a'"
| commit: "array_new new_char (arena_alignment a) \<Longrightarrow> high_water_mark a + 2 * arena_alignment a < 2 ^ 62 \<Longrightarrow>
    Commit new_char a = (st, a') \<Longrightarrow> arena_step a a'"
| clear: "Clear a = (st, a') \<Longrightarrow> arena_step a a'"

lemma Allocate_inv:
  assumes "0 < m" "high_water_mark a + m + sz < 2 ^ 64" "Allocate m sz a = (st, r, a')" "arena_inv a" "buffer_ok a"
  shows "arena_inv a' \<and> buffer_ok a' \<and> arena_alignment a' = arena_alignment a"
proof (cases "m \<le> arena_alignment a \<and> 0 < sz")
  case True
  obtain x l where "Allocate m sz a = (kTfLiteOk, Some x, a\<lparr>high_water_mark := max (high_water_mark a) (al_offset x + sz), allocs := l\<rparr>)"
    "arena_inv (a\<lparr>high_water_mark := max (high_water_mark a) (al_offset x + sz), allocs := l\<rparr>)"
    using Allocate_correct [OF assms(4,1) _ _ assms(2)] True by blast
  then show ?thesis using assms(3,5) by auto
next
  case False
  then have "a' = a" using assms(3) by (auto simp: Allocate_def split: if_splits)
  then show ?thesis using assms by simp
qed

lemma arena_step_inv: "arena_step a a' \<Longrightarrow> arena_inv a \<Longrightarrow> buffer_ok a \<Longrightarrow>
    arena_inv a' \<and> buffer_ok a' \<and> arena_alignment a' = arena_alignment a"
proof (induction rule: arena_step.induct)
  case (allocate m a sz st r a')
  then show ?case using Allocate_inv by blast
next
  case (deallocate x a st a')
  from split_list [OF deallocate.hyps(1)] obtain us vs where x: "allocs a = us @ x # vs" by blast
  then have "a' = a\<lparr>allocs := us @ vs\<rparr>" using Deallocate_correct(1) [OF deallocate.prems(1) x] deallocate.hyps(2) by simp
  then show ?case using Deallocate_correct(2) [OF deallocate.prems(1) x] deallocate.prems(2) by simp
next
  case (commit new_char a st a')
  then show ?case using Commit_correct [of new_char a] by auto
next
  case (clear a st a')
  then show ?case by (auto simp: Clear_def arena_inv_def)
qed

lemma arena_new_inv: "0 < m \<Longrightarrow> arena_inv (SimpleMemoryArena_new m) \<and> buffer_ok (SimpleMemoryArena_new m)"
  by (simp add: SimpleMemoryArena_new_def arena_inv_def buffer_ok_def)

lemma arena_reachable_inv:
  assumes "arena_step\<^sup>*\<^sup>* (SimpleMemoryArena_new m) a" "0 < m"
  shows "arena_inv a \<and> buffer_ok a \<and> arena_alignment a = m"
  using assms(1)
proof (induction rule: rtranclp_induct)
  case base
  then show ?case using arena_new_inv [OF assms(2)] by (simp add: SimpleMemoryArena_new_def)
next
  case (step b c)
  then show ?case using arena_step_inv [OF step.hyps(2)] by simp
qed

text \<open>C19. In every state of the arena the live allocations are sorted by offset, pairwise disjoint, not empty,
  and end below the high-water mark.\<close>

theorem arena_allocs_disjoint:
  assumes "0 < m" "arena_step\<^sup>*\<^sup>* (SimpleMemoryArena_new m) a"
  shows "sorted_wrt (\<lambda>x y. al_offset x < al_offset y \<and> disjoint_allocs x y) (allocs a) \<and>
    (\<forall>x \<in> set (allocs a). 0 < al_size x \<and> al_offset x + al_size x \<le> high_water_mark a)"
proof -
  have lo: "laid_out 0 (allocs a) (high_water_mark a)" using arena_reachable_inv [OF assms(2,1)] by (simp add: arena_inv_def)
  have sz: "\<forall>x \<in> set (allocs a). 0 < al_size x \<and> al_offset x + al_size x \<le> high_water_mark a"
    using laid_out_in [OF lo] by blast
  have "sorted_wrt (\<lambda>x y. al_offset x < al_offset y \<and> disjoint_allocs x y) (allocs a)"
    by (rule sorted_wrt_mono_rel [OF _ laid_out_disjoint [OF lo]]) (use sz in \<open>auto simp: disjoint_allocs_def\<close>)
  then show ?thesis using sz by blast
qed

text \<open>A request of \<open>sz > 0\<close> bytes at an alignment that the arena supports succeeds: the new block has that
  size, an aligned offset, and is disjoint from every live block; the others keep their places.\<close>

theorem Allocate_disjoint:
  assumes "arena_inv a" "0 < m" "m \<le> arena_alignment a" "0 < sz" "high_water_mark a + m + sz < 2 ^ 64"
  shows "\<exists>x a'. Allocate m sz a = (kTfLiteOk, Some x, a') \<and> al_size x = sz \<and> al_offset x mod m = 0 \<and>
    (\<forall>y \<in> set (allocs a). disjoint_allocs x y) \<and> inserted x (allocs a) (allocs a') \<and> arena_inv a'"
proof -
  from Allocate_correct [OF assms] obtain x l where
    x: "Allocate m sz a = (kTfLiteOk, Some x, a\<lparr>high_water_mark := max (high_water_mark a) (al_offset x + sz), allocs := l\<rparr>)"
      "al_size x = sz" "al_offset x mod m = 0" "inserted x (allocs a) l"
      "arena_inv (a\<lparr>high_water_mark := max (high_water_mark a) (al_offset x + sz), allocs := l\<rparr>)" by auto
  from x(4) obtain us vs where uv: "allocs a = us @ vs" "l = us @ x # vs" by (auto simp: inserted_def)
  have "laid_out 0 (us @ x # vs) (max (high_water_mark a) (al_offset x + sz))" using x(5) uv by (simp add: arena_inv_def)
  from laid_out_disjoint [OF this] have "\<forall>y \<in> set (allocs a). disjoint_allocs x y"
    unfolding uv(1) by (auto simp: sorted_wrt_append disjoint_allocs_def)
  then show ?thesis using x by auto
qed

text \<open>C20. After \<^verbatim>\<open>Commit\<close> every live allocation resolves to a pointer to its own bytes of the buffer, and
  what the buffer held below the high-water mark is still there at the same offsets, even when the buffer was moved.\<close>

theorem Commit_resolves:
  assumes "array_new new_char m" "0 < m" "arena_step\<^sup>*\<^sup>* (SimpleMemoryArena_new m) a" "high_water_mark a + 2 * m < 2 ^ 62"
  shows "\<exists>a' b. Commit new_char a = (kTfLiteOk, a') \<and> underlying_buffer a' = Some b \<and>
    (\<forall>x \<in> set (allocs a). ResolveAlloc x a' = (kTfLiteOk, Some (BasePointer a' + al_offset x)) \<and>
       mb_address b \<le> BasePointer a' + al_offset x \<and>
       BasePointer a' + al_offset x + al_size x \<le> mb_address b + length (mb_bytes b)) \<and>
    BasePointer a' mod m = 0 \<and>
    (\<forall>i < high_water_mark a. i < length (arena_bytes a) \<longrightarrow> arena_bytes a' ! i = arena_bytes a ! i)"
proof -
  have inv: "arena_inv a" "buffer_ok a" "arena_alignment a = m" using arena_reachable_inv [OF assms(3,2)] by simp_all
  from Commit_correct [of new_char a] assms inv obtain a' where
    c: "Commit new_char a = (kTfLiteOk, a')" "committed a'" "buffer_ok a'" "arena_alignment a' = m"
      "high_water_mark a < length (arena_bytes a')"
      "\<forall>i < high_water_mark a. i < length (arena_bytes a) \<longrightarrow> arena_bytes a' ! i = arena_bytes a ! i" by auto
  obtain b where b: "underlying_buffer a' = Some b" using c(5) by (cases "underlying_buffer a'") (auto simp: arena_bytes_def)
  have bp: "mb_address b \<le> BasePointer a'" "BasePointer a' mod m = 0" "length (mb_bytes b) = underlying_buffer_size a'"
    using c(3,4) b by (auto simp: buffer_ok_def BasePointer_def)
  have top: "BasePointer a' + high_water_mark a \<le> mb_address b + length (mb_bytes b)"
    using length_arena_bytes(1) [OF c(3) b] c(5) bp by (simp add: BasePointer_def)
  have "laid_out 0 (allocs a) (high_water_mark a)" using inv(1) by (simp add: arena_inv_def)
  from laid_out_in [OF this] have x: "0 < al_size x \<and> al_offset x + al_size x \<le> high_water_mark a" if "x \<in> set (allocs a)" for x
    using that by blast
  have "\<forall>x \<in> set (allocs a). ResolveAlloc x a' = (kTfLiteOk, Some (BasePointer a' + al_offset x)) \<and>
       mb_address b \<le> BasePointer a' + al_offset x \<and>
       BasePointer a' + al_offset x + al_size x \<le> mb_address b + length (mb_bytes b)"
  proof
    fix x assume "x \<in> set (allocs a)"
    from x [OF this] show "ResolveAlloc x a' = (kTfLiteOk, Some (BasePointer a' + al_offset x)) \<and>
       mb_address b \<le> BasePointer a' + al_offset x \<and>
       BasePointer a' + al_offset x + al_size x \<le> mb_address b + length (mb_bytes b)"
      using c(2) bp(1) top by (simp add: ResolveAlloc_def BasePointer_def)
  qed
  then show ?thesis using c(1,6) b bp(2) by (intro exI [of _ a'] exI [of _ b]) simp
qed

text \<open>A concrete memory and a concrete arena.\<close>

definition low_memory :: "nat \<Rightarrow> memory_block" where
  "low_memory n = \<lparr>mb_address = 10, mb_bytes = replicate n 0\<rparr>"

interpretation low: array_new low_memory 4
  by unfold_locales (simp_all add: low_memory_def)

definition small_arena :: SimpleMemoryArena where
  "small_arena = snd (snd (Allocate 4 6 (SimpleMemoryArena_new 4)))"

lemma small_arena_eq: "small_arena = \<lparr>committed = False, arena_alignment = 4, high_water_mark = 6, underlying_buffer = None,
      underlying_buffer_size = 0, underlying_buffer_aligned_ptr = 0, allocs = [\<lparr>al_offset = 0, al_size = 6\<rparr>]\<rparr>"
  by (simp add: small_arena_def Allocate_def SimpleMemoryArena_new_def AlignTo_def wadd_def Let_def)

lemma small_arena_reached: "arena_step\<^sup>*\<^sup>* (SimpleMemoryArena_new 4) small_arena"
proof -
  have "arena_step (SimpleMemoryArena_new 4) small_arena"
  proof (rule allocate [of 4 _ 6])
    let ?r = "Allocate 4 6 (SimpleMemoryArena_new 4)"
    show "?r = (fst ?r, fst (snd ?r), small_arena)" by (simp add: small_arena_def)
  qed (simp_all add: SimpleMemoryArena_new_def)
  then show ?thesis by blast
qed

theorem arena_allocs_disjoint_witness: "list_all (\<lambda>x. al_offset x + al_size x \<le> 6) (allocs small_arena)"
  using arena_allocs_disjoint [OF _ small_arena_reached] by (simp add: small_arena_eq)

theorem Allocate_disjoint_witness:
  "\<exists>x a'. Allocate 4 8 small_arena = (kTfLiteOk, Some x, a') \<and> al_size x = 8 \<and> al_offset x mod 4 = 0"
  using Allocate_disjoint [of small_arena 4 8] arena_reachable_inv [OF small_arena_reached]
  by (auto simp: small_arena_eq)

theorem Commit_resolves_witness:
  "\<exists>a'. Commit low_memory small_arena = (kTfLiteOk, a') \<and> BasePointer a' mod 4 = 0"
  using Commit_resolves [OF low.array_new_axioms _ small_arena_reached] by (auto simp: small_arena_eq)

end
