(* ===== verification/Broadcast.thy ===== *)
theory Broadcast
  imports TF_Prelude "HOL-Library.Word"
begin

text \<open>
  \<^verbatim>\<open>core/util/bcast.cc\<close>: the shapes by which a binary operation broadcasts its arguments, with numpy's
  rule. Dimensions are \<^verbatim>\<open>int64\<close>, 64-bit words whose products wrap around. A vector is a list, and
  \<^verbatim>\<open>push_back\<close> appends.
\<close>

type_synonym Vec = "int64 list"

record BCast =
  b_valid :: bool
  b_x_reshape :: Vec
  b_x_bcast :: Vec
  b_y_reshape :: Vec
  b_y_bcast :: Vec
  b_result :: Vec
  b_output :: Vec
  b_grad_x_reduce_idx :: "nat list"
  b_grad_y_reduce_idx :: "nat list"

definition BCast_empty :: BCast where
  "BCast_empty = \<lparr>b_valid = True, b_x_reshape = [], b_x_bcast = [], b_y_reshape = [], b_y_bcast = [], b_result = [],
     b_output = [], b_grad_x_reduce_idx = [], b_grad_y_reduce_idx = []\<rparr>"

datatype State = STATE_UNKNOWN | SAME | X_ONE | Y_ONE

definition Reverse :: "'a list \<Rightarrow> 'a list" where
  "Reverse shape = rev shape"

definition Vec_resize :: "nat \<Rightarrow> 'a \<Rightarrow> 'a list \<Rightarrow> 'a list" where
  "Vec_resize n v xs = take n xs @ replicate (n - length xs) v"

definition mul_back :: "int64 \<Rightarrow> Vec \<Rightarrow> Vec" where
  "mul_back v xs = butlast xs @ [last xs * v]"

text \<open>One dimension: the output, the factors and the case, \<open>None\<close> if the dimensions are incompatible.\<close>

definition bcast_dim :: "int64 \<Rightarrow> int64 \<Rightarrow> (int64 \<times> int64 \<times> int64 \<times> State) option" where
  "bcast_dim x_i y_i =
     (if x_i = y_i then Some (x_i, 1, 1, SAME)
      else if x_i = 1 then Some (y_i, y_i, 1, X_ONE)
      else if y_i = 1 then Some (x_i, 1, x_i, Y_ONE)
      else None)"

definition push_dim :: "int64 \<Rightarrow> int64 \<Rightarrow> int64 \<Rightarrow> int64 \<Rightarrow> int64 \<Rightarrow> BCast \<Rightarrow> BCast" where
  "push_dim o_i x_i bx_i y_i by_i b =
     b\<lparr>b_result := b_result b @ [o_i], b_x_reshape := b_x_reshape b @ [x_i], b_x_bcast := b_x_bcast b @ [bx_i],
       b_y_reshape := b_y_reshape b @ [y_i], b_y_bcast := b_y_bcast b @ [by_i]\<rparr>"

definition mul_dim :: "int64 \<Rightarrow> int64 \<Rightarrow> int64 \<Rightarrow> int64 \<Rightarrow> int64 \<Rightarrow> BCast \<Rightarrow> BCast" where
  "mul_dim o_i x_i bx_i y_i by_i b =
     b\<lparr>b_result := mul_back o_i (b_result b), b_x_reshape := mul_back x_i (b_x_reshape b),
       b_x_bcast := mul_back bx_i (b_x_bcast b), b_y_reshape := mul_back y_i (b_y_reshape b),
       b_y_bcast := mul_back by_i (b_y_bcast b)\<rparr>"

text \<open>The loop over the dimensions from the inner-most one; \<open>n\<close> is their number and \<open>i\<close> the current one.\<close>

fun BCast_loop :: "bool \<Rightarrow> nat \<Rightarrow> nat \<Rightarrow> State \<Rightarrow> (int64 \<times> int64) list \<Rightarrow> BCast \<Rightarrow> BCast" where
  "BCast_loop fewer_dims n i prev [] b = b"
| "BCast_loop fewer_dims n i prev ((x_i, y_i) # dims) b =
     (case bcast_dim x_i y_i of None \<Rightarrow> b\<lparr>b_valid := False\<rparr>
      | Some (o_i, bx_i, by_i, cur) \<Rightarrow>
         let b = (if cur = X_ONE then b\<lparr>b_grad_x_reduce_idx := b_grad_x_reduce_idx b @ [n - 1 - i]\<rparr>
                  else if cur = Y_ONE then b\<lparr>b_grad_y_reduce_idx := b_grad_y_reduce_idx b @ [n - 1 - i]\<rparr>
                  else b);
             b = b\<lparr>b_output := b_output b @ [o_i]\<rparr>
         in if cur = SAME \<and> x_i = 1 then
              let b = b\<lparr>b_grad_x_reduce_idx := b_grad_x_reduce_idx b @ [n - 1 - i],
                        b_grad_y_reduce_idx := b_grad_y_reduce_idx b @ [n - 1 - i]\<rparr>
              in BCast_loop fewer_dims n (Suc i) prev dims
                   (if \<not> fewer_dims then push_dim o_i x_i bx_i y_i by_i b else b)
            else if fewer_dims \<and> prev = cur then
              BCast_loop fewer_dims n (Suc i) cur dims (mul_dim o_i x_i bx_i y_i by_i b)
            else BCast_loop fewer_dims n (Suc i) cur dims (push_dim o_i x_i bx_i y_i by_i b))"

definition reverse_all :: "BCast \<Rightarrow> BCast" where
  "reverse_all b =
     b\<lparr>b_x_reshape := Reverse (b_x_reshape b), b_x_bcast := Reverse (b_x_bcast b), b_y_reshape := Reverse (b_y_reshape b),
       b_y_bcast := Reverse (b_y_bcast b), b_result := Reverse (b_result b), b_output := Reverse (b_output b),
       b_grad_x_reduce_idx := Reverse (b_grad_x_reduce_idx b), b_grad_y_reduce_idx := Reverse (b_grad_y_reduce_idx b)\<rparr>"

text \<open>The 1-extended dimensions, inner-most first.\<close>

definition aligned_dims :: "Vec \<Rightarrow> Vec \<Rightarrow> (int64 \<times> int64) list" where
  "aligned_dims sx sy =
     (let x = Reverse sx; y = Reverse sy
      in if length x > length y then zip x (Vec_resize (length x) 1 y) else zip (Vec_resize (length y) 1 x) y)"

definition BCast_new :: "Vec \<Rightarrow> Vec \<Rightarrow> bool \<Rightarrow> BCast" where
  "BCast_new sx sy fewer_dims =
     (if sx = sy \<and> fewer_dims then
        let elements = fold (\<lambda>dim e. e * dim) sx 1
        in BCast_empty\<lparr>b_output := sx, b_result := [elements], b_x_reshape := [elements], b_y_reshape := [elements],
             b_x_bcast := [1], b_y_bcast := [1]\<rparr>
      else
        let dims = aligned_dims sx sy;
            b = BCast_loop fewer_dims (length dims) 0 STATE_UNKNOWN dims BCast_empty
        in if \<not> b_valid b then b
           else reverse_all (if b_result b = [] then push_dim 1 1 1 1 1 b else b))"

section \<open>Invariants\<close>

definition compatible :: "int64 \<times> int64 \<Rightarrow> bool" where
  "compatible = (\<lambda>(x, y). x = y \<or> x = 1 \<or> y = 1)"

definition bdim :: "int64 \<times> int64 \<Rightarrow> int64" where
  "bdim = (\<lambda>(x, y). if x = 1 then y else x)"

text \<open>The invariants that the comments of the source state, dimension by dimension, with the numbers of elements.\<close>

definition factor_of :: "Vec \<Rightarrow> Vec \<Rightarrow> Vec \<Rightarrow> bool" where
  "factor_of res re bc \<longleftrightarrow> length re = length res \<and> length bc = length res \<and>
     (\<forall>i < length res. res ! i = re ! i * bc ! i)"

definition factors_ok :: "BCast \<Rightarrow> bool" where
  "factors_ok b \<longleftrightarrow> factor_of (b_result b) (b_x_reshape b) (b_x_bcast b) \<and>
     factor_of (b_result b) (b_y_reshape b) (b_y_bcast b)"

definition counts_ok :: "(int64 \<times> int64) list \<Rightarrow> BCast \<Rightarrow> bool" where
  "counts_ok dims b \<longleftrightarrow> prod_list (b_x_reshape b) = prod_list (map fst dims) \<and>
     prod_list (b_y_reshape b) = prod_list (map snd dims) \<and> prod_list (b_result b) = prod_list (map bdim dims) \<and>
     b_output b = map bdim dims"

lemma bcast_dim_Some:
  "bcast_dim x y = Some (q, bx, by', c) \<Longrightarrow> compatible (x, y) \<and> q = bdim (x, y) \<and> q = x * bx \<and> q = y * by' \<and> c \<noteq> STATE_UNKNOWN"
  by (auto simp: bcast_dim_def compatible_def bdim_def split: if_splits)

lemma bcast_dim_None: "bcast_dim x y = None \<longleftrightarrow> \<not> compatible (x, y)"
  by (auto simp: bcast_dim_def compatible_def)

lemma factor_push: "factor_of res re bc \<Longrightarrow> q = x * bx \<Longrightarrow> factor_of (res @ [q]) (re @ [x]) (bc @ [bx])"
  unfolding factor_of_def by (auto simp: nth_append less_Suc_eq)

lemma factor_snoc: "factor_of (res @ [q]) (re @ [x]) (bc @ [bx]) \<longleftrightarrow> factor_of res re bc \<and> q = x * bx"
  unfolding factor_of_def by (auto simp: nth_append less_Suc_eq split: if_splits)

lemma factor_mul:
  assumes f: "factor_of res re bc" and ne: "res \<noteq> []" and q: "q = x * bx"
  shows "factor_of (mul_back q res) (mul_back x re) (mul_back bx bc)"
proof -
  obtain r s where r: "res = r @ [s]" using ne by (metis append_butlast_last_id)
  moreover obtain u v where u: "re = u @ [v]" using f ne by (metis append_butlast_last_id factor_of_def length_0_conv)
  moreover obtain u' v' where u': "bc = u' @ [v']" using f ne by (metis append_butlast_last_id factor_of_def length_0_conv)
  ultimately have "factor_of r u u'" "s = v * v'" using f factor_snoc by metis+
  moreover have "s * q = (v * x) * (v' * bx)"
    unfolding q \<open>s = v * v'\<close> by (simp only: mult.assoc mult.left_commute)
  ultimately show ?thesis unfolding r u u' mul_back_def by (simp add: factor_snoc)
qed

lemma factors_push: "factors_ok b \<Longrightarrow> q = x * bx \<Longrightarrow> q = y * by' \<Longrightarrow> factors_ok (push_dim q x bx y by' b)"
  by (simp add: factors_ok_def push_dim_def factor_push)

lemma factors_mul:
  "factors_ok b \<Longrightarrow> b_result b \<noteq> [] \<Longrightarrow> q = x * bx \<Longrightarrow> q = y * by' \<Longrightarrow> factors_ok (mul_dim q x bx y by' b)"
  by (simp add: factors_ok_def mul_dim_def factor_mul)

lemma factors_nonempty:
  "factors_ok b \<Longrightarrow> b_result b \<noteq> [] \<Longrightarrow> b_x_reshape b \<noteq> [] \<and> b_y_reshape b \<noteq> []"
  by (auto simp: factors_ok_def factor_of_def)

lemma prod_mul_back: "xs \<noteq> [] \<Longrightarrow> prod_list (mul_back v xs) = prod_list xs * v"
  by (cases xs rule: rev_cases) (simp_all add: mul_back_def mult.assoc)

definition grads_ok :: "nat \<Rightarrow> (int64 \<times> int64) list \<Rightarrow> BCast \<Rightarrow> bool" where
  "grads_ok n dims b \<longleftrightarrow>
     b_grad_x_reduce_idx b = map (\<lambda>i. n - 1 - i) (filter (\<lambda>i. fst (dims ! i) = 1) [0..<length dims]) \<and>
     b_grad_y_reduce_idx b = map (\<lambda>i. n - 1 - i) (filter (\<lambda>i. snd (dims ! i) = 1) [0..<length dims])"

definition bcast_inv :: "nat \<Rightarrow> (int64 \<times> int64) list \<Rightarrow> BCast \<Rightarrow> bool" where
  "bcast_inv n dims b \<longleftrightarrow> b_valid b \<and> factors_ok b \<and> counts_ok dims b \<and> grads_ok n dims b"

lemma filter_snoc_nth:
  "filter (\<lambda>i. P ((xs @ [x]) ! i)) [0..<length (xs @ [x])] =
     filter (\<lambda>i. P (xs ! i)) [0..<length xs] @ (if P x then [length xs] else [])"
proof -
  have "filter (\<lambda>i. P ((xs @ [x]) ! i)) [0..<length xs] = filter (\<lambda>i. P (xs ! i)) [0..<length xs]"
    by (rule filter_cong) (auto simp: nth_append)
  then show ?thesis by simp
qed

lemma grads_step:
  assumes "grads_ok n dims b"
    and "b_grad_x_reduce_idx b' = b_grad_x_reduce_idx b @ (if x = 1 then [n - 1 - length dims] else [])"
    and "b_grad_y_reduce_idx b' = b_grad_y_reduce_idx b @ (if y = 1 then [n - 1 - length dims] else [])"
  shows "grads_ok n (dims @ [(x, y)]) b'"
  using assms unfolding grads_ok_def
  using filter_snoc_nth [of "\<lambda>p. fst p = 1" dims "(x, y)"] filter_snoc_nth [of "\<lambda>p. snd p = 1" dims "(x, y)"]
  by (simp del: upt_Suc)

lemma BCast_loop_inv:
  "bcast_inv n seen b \<Longrightarrow> (prev \<noteq> STATE_UNKNOWN \<Longrightarrow> b_result b \<noteq> []) \<Longrightarrow> i = length seen \<Longrightarrow>
     if list_all compatible dims then bcast_inv n (seen @ dims) (BCast_loop f n i prev dims b)
     else \<not> b_valid (BCast_loop f n i prev dims b)"
proof (induction dims arbitrary: seen b prev i)
  case (Cons d dims)
  obtain x y where d: "d = (x, y)" by fastforce
  show ?case
  proof (cases "bcast_dim x y")
    case None
    then show ?thesis using bcast_dim_None [of x y] d by simp
  next
    case (Some t)
    obtain q bx by' c where t: "t = (q, bx, by', c)" by (cases t)
    note s = bcast_dim_Some [OF Some [unfolded t]]
    have eqs: "q = x * bx" "q = y * by'" "q = bdim (x, y)" "c \<noteq> STATE_UNKNOWN" and comp: "compatible d" using s d by auto
    have cc: "c = X_ONE \<longleftrightarrow> x = 1 \<and> y \<noteq> 1" "c = Y_ONE \<longleftrightarrow> y = 1 \<and> x \<noteq> 1" "c = SAME \<longleftrightarrow> x = y"
      using Some t by (auto simp: bcast_dim_def split: if_splits)
    define b1 where "b1 = (if c = X_ONE then b\<lparr>b_grad_x_reduce_idx := b_grad_x_reduce_idx b @ [n - 1 - i]\<rparr>
                  else if c = Y_ONE then b\<lparr>b_grad_y_reduce_idx := b_grad_y_reduce_idx b @ [n - 1 - i]\<rparr> else b)"
    define b2 where "b2 = b1\<lparr>b_output := b_output b1 @ [q]\<rparr>"
    define b3 where "b3 = b2\<lparr>b_grad_x_reduce_idx := b_grad_x_reduce_idx b2 @ [n - 1 - i],
                        b_grad_y_reduce_idx := b_grad_y_reduce_idx b2 @ [n - 1 - i]\<rparr>"
    have fx: "factors_ok b2" "factors_ok b3" "b_result b2 = b_result b" "b_valid b2" "b_valid b3"
      using Cons.prems(1) by (simp_all add: b3_def b2_def b1_def bcast_inv_def factors_ok_def)
    have out: "b_output b2 = b_output b @ [q]" "b_output b3 = b_output b @ [q]" "b_result b3 = b_result b"
      "b_x_reshape b2 = b_x_reshape b" "b_x_reshape b3 = b_x_reshape b" "b_y_reshape b2 = b_y_reshape b" "b_y_reshape b3 = b_y_reshape b"
      by (simp_all add: b3_def b2_def b1_def)
    have cnt: "counts_ok seen b" and gr: "grads_ok n seen b" using Cons.prems(1) by (simp_all add: bcast_inv_def)
    have g2: "grads_ok n (seen @ [d]) b2" if "\<not> (c = SAME \<and> x = 1)"
      unfolding d by (rule grads_step [OF gr]) (use that cc Cons.prems(3) in \<open>auto simp: b2_def b1_def\<close>)
    have g3: "grads_ok n (seen @ [d]) b3" if "c = SAME \<and> x = 1"
      unfolding d by (rule grads_step [OF gr]) (use that cc Cons.prems(3) in \<open>auto simp: b3_def b2_def b1_def\<close>)
    have gp: "grads_ok n ds (push_dim q x bx y by' b') = grads_ok n ds b'" "grads_ok n ds (mul_dim q x bx y by' b') = grads_ok n ds b'"
      for ds b' by (simp_all add: grads_ok_def push_dim_def mul_dim_def)
    have vp: "b_valid (push_dim q x bx y by' b') = b_valid b'" "b_valid (mul_dim q x bx y by' b') = b_valid b'" for b'
      by (simp_all add: push_dim_def mul_dim_def)
    have cp: "counts_ok (seen @ [d]) (push_dim q x bx y by' b')" if "b' = b2 \<or> b' = b3" for b'
      using that cnt out fx(3) eqs(3) unfolding d counts_ok_def by (auto simp: push_dim_def)
    have go: "bcast_inv n (seen @ [d]) (if f then b3 else push_dim q x bx y by' b3)" if s1: "c = SAME \<and> x = 1"
    proof -
      have "x = 1" "y = 1" using s1 cc by auto
      then have "counts_ok (seen @ [d]) b3" using cnt out eqs(3) unfolding d counts_ok_def by (auto simp: bdim_def)
      then show ?thesis using fx g3 [OF s1] cp [of b3] factors_push [OF fx(2) eqs(1,2)] by (simp add: bcast_inv_def gp vp)
    qed
    have go2: "bcast_inv n (seen @ [d]) (push_dim q x bx y by' b2)" if "\<not> (c = SAME \<and> x = 1)"
      using fx g2 [OF that] cp [of b2] factors_push [OF fx(1) eqs(1,2)] by (simp add: bcast_inv_def gp vp)
    have go3: "bcast_inv n (seen @ [d]) (mul_dim q x bx y by' b2)" if s1: "\<not> (c = SAME \<and> x = 1)" "prev = c"
    proof -
      have ne: "b_result b2 \<noteq> []" using Cons.prems(2) s1(2) eqs(4) fx(3) by simp
      have "counts_ok (seen @ [d]) (mul_dim q x bx y by' b2)"
        using cnt out eqs(3) ne factors_nonempty [OF fx(1) ne] fx(3) unfolding d counts_ok_def
        by (simp add: mul_dim_def prod_mul_back)
      then show ?thesis using fx g2 [OF s1(1)] factors_mul [OF fx(1) ne eqs(1,2)] by (simp add: bcast_inv_def gp vp)
    qed
    have loop: "BCast_loop f n i prev (d # dims) b =
       (if c = SAME \<and> x = 1 then BCast_loop f n (Suc i) prev dims (if f then b3 else push_dim q x bx y by' b3)
        else if f \<and> prev = c then BCast_loop f n (Suc i) c dims (mul_dim q x bx y by' b2)
        else BCast_loop f n (Suc i) c dims (push_dim q x bx y by' b2))"
      using Some t d by (simp add: Let_def b1_def b2_def b3_def)
    have nep: "b_result (push_dim q x bx y by' b') \<noteq> []" "b_result (mul_dim q x bx y by' b') \<noteq> []" for b'
      by (simp_all add: push_dim_def mul_dim_def mul_back_def)
    have IH: "if list_all compatible (d # dims) then bcast_inv n (seen @ d # dims) (BCast_loop f n (Suc i) p dims b')
        else \<not> b_valid (BCast_loop f n (Suc i) p dims b')"
      if "bcast_inv n (seen @ [d]) b'" "p \<noteq> STATE_UNKNOWN \<longrightarrow> b_result b' \<noteq> []" for p b'
      using Cons.IH [of "seen @ [d]" b' p "Suc i"] that Cons.prems(3) comp by (simp split: if_splits)
    show ?thesis
    proof (cases "c = SAME \<and> x = 1")
      case True
      have "prev \<noteq> STATE_UNKNOWN \<longrightarrow> b_result (if f then b3 else push_dim q x bx y by' b3) \<noteq> []"
        using Cons.prems(2) out nep by simp
      then show ?thesis using IH [OF go [OF True], of prev] True unfolding loop by simp
    next
      case False
      then show ?thesis
        using IH [OF go2 [OF False], of c] IH [OF go3 [OF False], of c] nep unfolding loop by auto
    qed
  qed
qed simp

section \<open>The shapes of a broadcast\<close>

text \<open>The reference: both shapes are extended with 1 on the left to the same rank, the dimensions must be
  pairwise equal or 1, and the output has the other one.\<close>

definition extend_left :: "nat \<Rightarrow> Vec \<Rightarrow> Vec" where
  "extend_left n s = replicate (n - length s) 1 @ s"

definition numpy_dims :: "Vec \<Rightarrow> Vec \<Rightarrow> (int64 \<times> int64) list" where
  "numpy_dims sx sy = (let n = max (length sx) (length sy) in zip (extend_left n sx) (extend_left n sy))"

lemma aligned_dims_eq: "aligned_dims sx sy = rev (numpy_dims sx sy)"
proof -
  have l: "length (extend_left (max (length sx) (length sy)) sx) = length (extend_left (max (length sx) (length sy)) sy)"
    by (simp add: extend_left_def)
  show ?thesis
    unfolding aligned_dims_def numpy_dims_def Let_def
    by (simp add: zip_rev [OF l, symmetric]) (simp add: extend_left_def Reverse_def Vec_resize_def max_def)
qed

lemma prod_numpy:
  "prod_list (map fst (numpy_dims sx sy)) = prod_list sx" "prod_list (map snd (numpy_dims sx sy)) = prod_list sy"
proof -
  have e: "prod_list (extend_left n s) = prod_list s" for n s by (induction n) (simp_all add: extend_left_def prod_list_replicate)
  have "length (extend_left (max (length sx) (length sy)) sx) = length (extend_left (max (length sx) (length sy)) sy)"
    by (simp add: extend_left_def)
  then show "prod_list (map fst (numpy_dims sx sy)) = prod_list sx" "prod_list (map snd (numpy_dims sx sy)) = prod_list sy"
    by (simp_all add: numpy_dims_def Let_def e)
qed

lemma prod_rev: "prod_list (rev xs) = prod_list (xs :: int64 list)"
  by (induction xs) (simp_all add: mult.commute)

lemma factor_rev: "factor_of res re bc \<Longrightarrow> factor_of (rev res) (rev re) (rev bc)"
  by (simp add: factor_of_def rev_nth)

lemma factors_reverse: "factors_ok b \<Longrightarrow> factors_ok (reverse_all b)"
  by (simp add: factors_ok_def reverse_all_def Reverse_def factor_rev)

lemma fold_mult: "fold (\<lambda>dim e. e * dim) s a = a * prod_list (s :: Vec)"
  by (induction s arbitrary: a) (simp_all add: mult.assoc)

lemma numpy_same: "numpy_dims s s = zip s s"
  by (simp add: numpy_dims_def extend_left_def)

lemma BCast_slow:
  assumes "\<not> (sx = sy \<and> fewer)"
  shows "if list_all compatible (numpy_dims sx sy)
    then \<exists>b. BCast_new sx sy fewer = reverse_all b \<and>
      bcast_inv (length (numpy_dims sx sy)) (rev (numpy_dims sx sy)) b \<and> b_result b \<noteq> []
    else \<not> b_valid (BCast_new sx sy fewer)"
proof -
  let ?d = "rev (numpy_dims sx sy)"
  define b where "b = BCast_loop fewer (length ?d) 0 STATE_UNKNOWN ?d BCast_empty"
  have "bcast_inv (length ?d) [] BCast_empty"
    by (simp add: bcast_inv_def factors_ok_def factor_of_def counts_ok_def grads_ok_def BCast_empty_def)
  from BCast_loop_inv [OF this, of STATE_UNKNOWN 0 ?d fewer]
  have inv: "if list_all compatible ?d then bcast_inv (length ?d) ?d b else \<not> b_valid b"
    by (simp add: b_def split: if_splits)
  have new: "BCast_new sx sy fewer = (if \<not> b_valid b then b else reverse_all (if b_result b = [] then push_dim 1 1 1 1 1 b else b))"
    unfolding BCast_new_def aligned_dims_eq b_def Let_def by (simp only: assms if_False)
  show ?thesis
  proof (cases "list_all compatible ?d")
    case True
    let ?b = "if b_result b = [] then push_dim 1 1 1 1 1 b else b"
    have i: "bcast_inv (length ?d) ?d b" using inv True by simp
    have "bcast_inv (length ?d) ?d (push_dim 1 1 1 1 1 b)"
      using i factors_push [of b 1 1 1 1 1] by (simp add: bcast_inv_def counts_ok_def grads_ok_def push_dim_def)
    then have "bcast_inv (length ?d) ?d ?b" using i by (simp only: simp_thms split: if_split)
    moreover have "b_result ?b \<noteq> []" by (cases "b_result b = []") (simp_all add: push_dim_def)
    moreover have "BCast_new sx sy fewer = reverse_all ?b" using new i by (simp only: bcast_inv_def simp_thms if_False)
    moreover have c: "list_all compatible (numpy_dims sx sy)" using True by simp
    ultimately show ?thesis unfolding if_P [OF c] length_rev by blast
  next
    case False
    then show ?thesis using inv new by (simp add: list_all_rev)
  qed
qed

lemma rev_positions: "rev (map (\<lambda>i. n - 1 - i) (filter P [0..<n])) = filter (\<lambda>j. P (n - 1 - j)) [0..<n]"
proof -
  have r: "rev [0..<n] = map (\<lambda>i. n - 1 - i) [0..<n]" by (rule nth_equalityI) (auto simp: rev_nth)
  have "rev (map (\<lambda>i. n - 1 - i) (filter P [0..<n])) = map (\<lambda>i. n - 1 - i) (filter P (rev [0..<n]))"
    by (simp only: rev_map rev_filter)
  also have "\<dots> = map ((\<lambda>i. n - 1 - i) \<circ> (\<lambda>i. n - 1 - i)) (filter (P \<circ> (\<lambda>i. n - 1 - i)) [0..<n])"
    unfolding r filter_map map_map ..
  also have "\<dots> = filter (P \<circ> (\<lambda>i. n - 1 - i)) [0..<n]" by (rule map_idI) auto
  finally show ?thesis by (simp only: o_def)
qed

text \<open>C21. \<^verbatim>\<open>BCast\<close> follows numpy's rule: it is valid exactly when the shapes, extended with 1 on the left, are
  compatible, and then \<^verbatim>\<open>output_shape\<close> is the broadcast shape. With either setting of
  \<^verbatim>\<open>fewer_dims_optimization\<close> the intermediate shapes have equal rank and satisfy
  \<^verbatim>\<open>result[i] = x_reshape[i] * x_bcast[i] = y_reshape[i] * y_bcast[i]\<close>, and the reshapes keep the numbers of
  elements (all products modulo \<open>2 ^ 64\<close>).\<close>

theorem BCast_numpy:
  "(b_valid (BCast_new sx sy fewer) \<longleftrightarrow> list_all compatible (numpy_dims sx sy)) \<and>
   (list_all compatible (numpy_dims sx sy) \<longrightarrow>
      b_output (BCast_new sx sy fewer) = map bdim (numpy_dims sx sy) \<and> factors_ok (BCast_new sx sy fewer) \<and>
      b_result (BCast_new sx sy fewer) \<noteq> [] \<and>
      prod_list (b_x_reshape (BCast_new sx sy fewer)) = prod_list sx \<and>
      prod_list (b_y_reshape (BCast_new sx sy fewer)) = prod_list sy \<and>
      prod_list (b_result (BCast_new sx sy fewer)) = prod_list (b_output (BCast_new sx sy fewer)))"
proof (cases "sx = sy \<and> fewer")
  case True
  have "list_all compatible (zip sy sy)" "map bdim (zip sy sy) = sy"
    by (auto simp: list_all_iff compatible_def bdim_def zip_same_conv_map intro: map_idI)
  then show ?thesis using True
    by (simp add: BCast_new_def numpy_same fold_mult BCast_empty_def factors_ok_def factor_of_def Let_def)
next
  case False
  note slow = BCast_slow [OF False]
  show ?thesis
  proof (cases "list_all compatible (numpy_dims sx sy)")
    case True
    from slow True obtain b where b: "BCast_new sx sy fewer = reverse_all b"
      "bcast_inv (length (numpy_dims sx sy)) (rev (numpy_dims sx sy)) b" "b_result b \<noteq> []" by auto
    have "factors_ok b" "counts_ok (rev (numpy_dims sx sy)) b" "b_valid b" using b(2) by (auto simp: bcast_inv_def)
    then show ?thesis using True b(3) factors_reverse [of b] unfolding b(1)
      by (simp add: reverse_all_def Reverse_def counts_ok_def prod_rev rev_map [symmetric] prod_numpy)
  qed (use slow in simp)
qed

text \<open>C22. For compatible shapes: on the fast path, which equal shapes take unless fewer dimensions are switched off, no gradient
  is reduced. Otherwise the gradient of an argument is reduced over exactly the dimensions of the output in which the
  extended argument has size 1, in increasing order.\<close>

theorem BCast_grad_reduce:
  assumes "list_all compatible (numpy_dims sx sy)"
  shows "if sx = sy \<and> fewer
    then b_grad_x_reduce_idx (BCast_new sx sy fewer) = [] \<and> b_grad_y_reduce_idx (BCast_new sx sy fewer) = []
    else b_grad_x_reduce_idx (BCast_new sx sy fewer) =
        filter (\<lambda>j. fst (numpy_dims sx sy ! j) = 1) [0..<length (numpy_dims sx sy)] \<and>
      b_grad_y_reduce_idx (BCast_new sx sy fewer) =
        filter (\<lambda>j. snd (numpy_dims sx sy ! j) = 1) [0..<length (numpy_dims sx sy)]"
proof (cases "sx = sy \<and> fewer")
  case True
  then show ?thesis by (simp add: BCast_new_def BCast_empty_def Let_def)
next
  case slow: False
  let ?n = "length (numpy_dims sx sy)"
  from BCast_slow [OF slow] assms obtain b where b: "BCast_new sx sy fewer = reverse_all b"
      "grads_ok ?n (rev (numpy_dims sx sy)) b" by (auto simp: bcast_inv_def)
  let ?d = "numpy_dims sx sy"
  have "filter (\<lambda>j. P (rev ?d ! (?n - 1 - j))) [0..<?n] = filter (\<lambda>j. P (?d ! j)) [0..<?n]" for P
    by (rule filter_cong) (auto simp: rev_nth)
  then have rp: "rev (map (\<lambda>i. ?n - 1 - i) (filter (\<lambda>i. P (rev ?d ! i)) [0..<?n])) = filter (\<lambda>j. P (?d ! j)) [0..<?n]" for P
    using trans [OF rev_positions [of ?n "\<lambda>i. P (rev ?d ! i)"]] by blast
  have r: "b_grad_x_reduce_idx (reverse_all b) = rev (b_grad_x_reduce_idx b)"
    "b_grad_y_reduce_idx (reverse_all b) = rev (b_grad_y_reduce_idx b)" by (simp_all add: reverse_all_def Reverse_def)
  from b(2) have "b_grad_x_reduce_idx b = map (\<lambda>i. ?n - 1 - i) (filter (\<lambda>i. fst (rev ?d ! i) = 1) [0..<?n])"
    "b_grad_y_reduce_idx b = map (\<lambda>i. ?n - 1 - i) (filter (\<lambda>i. snd (rev ?d ! i) = 1) [0..<?n])"
    by (simp_all only: grads_ok_def length_rev)
  then have "b_grad_x_reduce_idx (reverse_all b) = filter (\<lambda>j. fst (?d ! j) = 1) [0..<?n] \<and>
      b_grad_y_reduce_idx (reverse_all b) = filter (\<lambda>j. snd (?d ! j) = 1) [0..<?n]"
    unfolding r using rp [of "\<lambda>p. fst p = 1"] rp [of "\<lambda>p. snd p = 1"] by (simp only: simp_thms)
  then show ?thesis unfolding if_not_P [OF slow] b(1) .
qed

theorem BCast_numpy_witness:
  "b_output (BCast_new [2, 1] [2, 3] True) = [2, 3]"
proof -
  have "list_all compatible (numpy_dims [2, 1] [2, 3])" by (simp add: numpy_dims_def extend_left_def compatible_def)
  then show ?thesis using BCast_numpy [of "[2, 1]" "[2, 3]" True]
    by (simp add: numpy_dims_def extend_left_def bdim_def)
qed

theorem BCast_grad_reduce_witness:
  "b_grad_x_reduce_idx (BCast_new [2, 1] [2, 3] True) = [1]"
proof -
  have "list_all compatible (numpy_dims [2, 1] [2, 3])" by (simp add: numpy_dims_def extend_left_def compatible_def)
  then show ?thesis using BCast_grad_reduce [of "[2, 1]" "[2, 3]" True]
    by (simp add: numpy_dims_def extend_left_def upt_rec)
qed

end
