(* ===== verification/Notification.thy ===== *)
theory Notification
  imports TF_Prelude
begin

text \<open>
  \<^verbatim>\<open>core/platform/default/notification.h\<close>: a flag that is set once and that threads wait for. The condition variable is
  the set of the threads that sleep in it. A critical section of \<^verbatim>\<open>mu_\<close> is one atomic operation: \<^verbatim>\<open>cv_.wait\<close> leaves
  the mutex and goes to sleep at once, and a thread that wakes up takes the mutex again and goes round the loop. The flag
  is also read outside of the mutex, as a step of its own.
\<close>

record 't Notification =
  nt_notified :: bool
  nt_waiters :: "'t set"

definition Notification_new :: "'t Notification" where
  "Notification_new = \<lparr>nt_notified = False, nt_waiters = {}\<rparr>"

definition HasBeenNotified :: "'t Notification \<Rightarrow> bool" where
  "HasBeenNotified n = nt_notified n"

text \<open>The condition variable: going to sleep, waking all sleepers, and waking one that nobody notified.\<close>

definition cv_wait :: "'t \<Rightarrow> 't Notification \<Rightarrow> 't Notification" where
  "cv_wait t n = n\<lparr>nt_waiters := insert t (nt_waiters n)\<rparr>"

definition cv_notify_all :: "'t Notification \<Rightarrow> 't Notification" where
  "cv_notify_all n = n\<lparr>nt_waiters := {}\<rparr>"

definition cv_spurious :: "'t \<Rightarrow> 't Notification \<Rightarrow> 't Notification" where
  "cv_spurious t n = n\<lparr>nt_waiters := nt_waiters n - {t}\<rparr>"

definition Notify :: "'t Notification \<Rightarrow> 't Notification" where
  "Notify n = cv_notify_all (n\<lparr>nt_notified := True\<rparr>)"

text \<open>Where a thread stands in \<^verbatim>\<open>WaitForNotification\<close>: before the test without the mutex, before the test of the
  loop, or in \<^verbatim>\<open>cv_.wait\<close>. \<open>None\<close> is the return.\<close>

datatype wait_pc = BeforeTest | AtLoop | InWait

definition WaitForNotification_test :: "'t Notification \<Rightarrow> wait_pc option" where
  "WaitForNotification_test n = (if \<not> HasBeenNotified n then Some AtLoop else None)"

definition WaitForNotification_loop :: "'t \<Rightarrow> 't Notification \<Rightarrow> 't Notification \<times> wait_pc option" where
  "WaitForNotification_loop t n = (if \<not> HasBeenNotified n then (cv_wait t n, Some InWait) else (n, None))"

text \<open>After the notification nobody sleeps and nobody goes to sleep.\<close>

definition awake :: "'t Notification \<Rightarrow> bool" where
  "awake n \<longleftrightarrow> (HasBeenNotified n \<longrightarrow> nt_waiters n = {})"

lemmas notification_defs = Notification_new_def HasBeenNotified_def cv_wait_def cv_notify_all_def cv_spurious_def Notify_def
  WaitForNotification_test_def WaitForNotification_loop_def awake_def

lemma awake_intros [simp, intro]:
  "awake Notification_new" "awake (Notify n)" "awake n \<Longrightarrow> awake (cv_spurious t n)"
  "awake n \<Longrightarrow> WaitForNotification_loop t n = (n', pc) \<Longrightarrow> awake n'"
  by (auto simp: notification_defs split: if_splits)

lemma HasBeenNotified_simps [simp]:
  "\<not> HasBeenNotified Notification_new" "HasBeenNotified (Notify n)" "HasBeenNotified (cv_spurious t n) = HasBeenNotified n"
  by (simp_all add: notification_defs)

lemma WaitForNotification_loop_flag:
  "WaitForNotification_loop t n = (n', pc) \<Longrightarrow> HasBeenNotified n' = HasBeenNotified n"
  by (auto simp: notification_defs split: if_splits)

end
