(* ===== verification/Cancellation_Manager.thy ===== *)
theory Cancellation_Manager
  imports Notification "HOL-Library.AList" "HOL-Library.Multiset"
begin

text \<open>
  \<^verbatim>\<open>core/framework/cancellation.cc\<close>: the cancellation manager, with its callbacks run outside of the lock.
  Each critical section of the source is one atomic operation on the manager; a method that leaves the lock in between
  is a sequence of steps of its thread, and the steps of all threads interleave. Callbacks are opaque values: by the
  contract in the header they do not call the manager, so that running one is a single event. The callback table is an
  association list, and the order in which \<^verbatim>\<open>FlatMap\<close> iterates over it is a parameter.
  Tokens are unbounded integers: the \<^verbatim>\<open>int64\<close> counter would overflow after \<open>2 ^ 63\<close> calls.
\<close>

section \<open>The manager\<close>

type_synonym CancellationToken = int

definition kInvalidToken :: CancellationToken where "kInvalidToken = -1"

record ('t, 'cb) CancellationManager =
  is_cancelling :: bool
  is_cancelled :: bool
  cancelled_notification :: "'t Notification"
  next_cancellation_token :: CancellationToken
  callbacks :: "(CancellationToken \<times> 'cb) list"

definition CancellationManager_new :: "('t, 'cb) CancellationManager" where
  "CancellationManager_new =
     \<lparr>is_cancelling = False, is_cancelled = False, cancelled_notification = Notification_new, next_cancellation_token = 0, callbacks = []\<rparr>"

text \<open>The two critical sections of \<^verbatim>\<open>StartCancel\<close>, the first of which returns early or hands over the callbacks, and
  the notification after them.\<close>

definition StartCancel_lock :: "('t, 'cb) CancellationManager \<Rightarrow> (('t, 'cb) CancellationManager \<times> (CancellationToken \<times> 'cb) list) option" where
  "StartCancel_lock m =
     (if is_cancelled m \<or> is_cancelling m then None
      else Some (m\<lparr>is_cancelling := True, callbacks := []\<rparr>, callbacks m))"

definition StartCancel_unlock :: "('t, 'cb) CancellationManager \<Rightarrow> ('t, 'cb) CancellationManager" where
  "StartCancel_unlock m = m\<lparr>is_cancelling := False, is_cancelled := True\<rparr>"

definition StartCancel_notify :: "('t, 'cb) CancellationManager \<Rightarrow> ('t, 'cb) CancellationManager" where
  "StartCancel_notify m = m\<lparr>cancelled_notification := Notify (cancelled_notification m)\<rparr>"

abbreviation notified :: "('t, 'cb) CancellationManager \<Rightarrow> bool" where
  "notified m \<equiv> HasBeenNotified (cancelled_notification m)"

definition IsCancelled :: "('t, 'cb) CancellationManager \<Rightarrow> bool" where
  "IsCancelled m = is_cancelled m"

definition get_cancellation_token :: "('t, 'cb) CancellationManager \<Rightarrow> CancellationToken \<times> ('t, 'cb) CancellationManager" where
  "get_cancellation_token m = (next_cancellation_token m, m\<lparr>next_cancellation_token := next_cancellation_token m + 1\<rparr>)"

text \<open>\<open>None\<close> is the failure of the \<^verbatim>\<open>CHECK_LT\<close>.\<close>

definition RegisterCallback :: "CancellationToken \<Rightarrow> 'cb \<Rightarrow> ('t, 'cb) CancellationManager \<Rightarrow> (bool \<times> ('t, 'cb) CancellationManager) option" where
  "RegisterCallback token callback m =
     (if token < next_cancellation_token m then
        let should_register = \<not> is_cancelled m \<and> \<not> is_cancelling m
        in Some (should_register, if should_register then m\<lparr>callbacks := AList.update token callback (callbacks m)\<rparr> else m)
      else None)"

text \<open>The critical section of \<^verbatim>\<open>DeregisterCallback\<close>; without a result the caller goes on to wait for the
  notification and then returns false.\<close>

definition DeregisterCallback_lock :: "CancellationToken \<Rightarrow> ('t, 'cb) CancellationManager \<Rightarrow> ('t, 'cb) CancellationManager \<times> bool option" where
  "DeregisterCallback_lock token m =
     (if is_cancelled m then (m, Some False)
      else if is_cancelling m then (m, None)
      else (m\<lparr>callbacks := AList.delete token (callbacks m)\<rparr>, Some True))"

definition TryDeregisterCallback :: "CancellationToken \<Rightarrow> ('t, 'cb) CancellationManager \<Rightarrow> bool \<times> ('t, 'cb) CancellationManager" where
  "TryDeregisterCallback token m =
     (if is_cancelled m \<or> is_cancelling m then (False, m)
      else (True, m\<lparr>callbacks := AList.delete token (callbacks m)\<rparr>))"

text \<open>A whole \<^verbatim>\<open>StartCancel\<close> without interference, as the destructor calls it: the callbacks run and the
  manager afterwards.\<close>

definition StartCancel :: "((CancellationToken \<times> 'cb) list \<Rightarrow> (CancellationToken \<times> 'cb) list) \<Rightarrow> ('t, 'cb) CancellationManager \<Rightarrow>
    (CancellationToken \<times> 'cb) list \<times> ('t, 'cb) CancellationManager" where
  "StartCancel ord m =
     (case StartCancel_lock m of None \<Rightarrow> ([], m)
      | Some (m, callbacks_to_run) \<Rightarrow> (ord callbacks_to_run, StartCancel_notify (StartCancel_unlock m)))"

definition CancellationManager_delete :: "((CancellationToken \<times> 'cb) list \<Rightarrow> (CancellationToken \<times> 'cb) list) \<Rightarrow>
    ('t, 'cb) CancellationManager \<Rightarrow> (CancellationToken \<times> 'cb) list" where
  "CancellationManager_delete ord m = (if callbacks m \<noteq> [] then fst (StartCancel ord m) else [])"

section \<open>Threads\<close>

text \<open>Where a thread stands: outside of the manager, in the loop of \<^verbatim>\<open>StartCancel\<close> with callbacks left to run,
  between its second critical section and the notification, or waiting in \<^verbatim>\<open>DeregisterCallback\<close>
  for the notification.\<close>

datatype 'cb phase = Idle | Cancelling "(CancellationToken \<times> 'cb) list" | Notifying | Waiting CancellationToken wait_pc

datatype 'cb event =
    Token CancellationToken
  | Register CancellationToken 'cb bool
  | Deregister CancellationToken bool
  | DeregisterWait CancellationToken | EnterLoop | Sleep | Wake | SpuriousWake
  | TryDeregister CancellationToken bool
  | Begin | Skip | Invoke CancellationToken 'cb | End | Notified

record ('t, 'cb) cancel_system =
  manager :: "('t, 'cb) CancellationManager"
  phase :: "'t \<Rightarrow> 'cb phase"

definition system_new :: "('t, 'cb) cancel_system" where
  "system_new = \<lparr>manager = CancellationManager_new, phase = (\<lambda>_. Idle)\<rparr>"

inductive cancel_step :: "((CancellationToken \<times> 'cb) list \<Rightarrow> (CancellationToken \<times> 'cb) list) \<Rightarrow> 't \<Rightarrow> 'cb event \<Rightarrow>
    ('t, 'cb) cancel_system \<Rightarrow> ('t, 'cb) cancel_system \<Rightarrow> bool" for ord t where
  token: "phase s t = Idle \<Longrightarrow> get_cancellation_token (manager s) = (tok, m) \<Longrightarrow>
    cancel_step ord t (Token tok) s (s\<lparr>manager := m\<rparr>)"
| register: "phase s t = Idle \<Longrightarrow> RegisterCallback tok cb (manager s) = Some (b, m) \<Longrightarrow>
    cancel_step ord t (Register tok cb b) s (s\<lparr>manager := m\<rparr>)"
| deregister: "phase s t = Idle \<Longrightarrow> DeregisterCallback_lock tok (manager s) = (m, Some b) \<Longrightarrow>
    cancel_step ord t (Deregister tok b) s (s\<lparr>manager := m\<rparr>)"
| deregister_wait: "phase s t = Idle \<Longrightarrow> DeregisterCallback_lock tok (manager s) = (m, None) \<Longrightarrow>
    cancel_step ord t (DeregisterWait tok) s (s\<lparr>manager := m, phase := (phase s)(t := Waiting tok BeforeTest)\<rparr>)"
| test_return: "phase s t = Waiting tok BeforeTest \<Longrightarrow> WaitForNotification_test (cancelled_notification (manager s)) = None \<Longrightarrow>
    cancel_step ord t (Deregister tok False) s (s\<lparr>phase := (phase s)(t := Idle)\<rparr>)"
| test_wait: "phase s t = Waiting tok BeforeTest \<Longrightarrow> WaitForNotification_test (cancelled_notification (manager s)) = Some pc \<Longrightarrow>
    cancel_step ord t EnterLoop s (s\<lparr>phase := (phase s)(t := Waiting tok pc)\<rparr>)"
| loop_return: "phase s t = Waiting tok AtLoop \<Longrightarrow> WaitForNotification_loop t (cancelled_notification (manager s)) = (n, None) \<Longrightarrow>
    cancel_step ord t (Deregister tok False) s
      (s\<lparr>manager := (manager s)\<lparr>cancelled_notification := n\<rparr>, phase := (phase s)(t := Idle)\<rparr>)"
| loop_wait: "phase s t = Waiting tok AtLoop \<Longrightarrow> WaitForNotification_loop t (cancelled_notification (manager s)) = (n, Some pc) \<Longrightarrow>
    cancel_step ord t Sleep s
      (s\<lparr>manager := (manager s)\<lparr>cancelled_notification := n\<rparr>, phase := (phase s)(t := Waiting tok pc)\<rparr>)"
| wake: "phase s t = Waiting tok InWait \<Longrightarrow> t \<notin> nt_waiters (cancelled_notification (manager s)) \<Longrightarrow>
    cancel_step ord t Wake s (s\<lparr>phase := (phase s)(t := Waiting tok AtLoop)\<rparr>)"
| spurious_wake: "phase s t = Waiting tok InWait \<Longrightarrow> t \<in> nt_waiters (cancelled_notification (manager s)) \<Longrightarrow>
    cancel_step ord t SpuriousWake s
      (s\<lparr>manager := (manager s)\<lparr>cancelled_notification := cv_spurious t (cancelled_notification (manager s))\<rparr>\<rparr>)"
| try_deregister: "phase s t = Idle \<Longrightarrow> TryDeregisterCallback tok (manager s) = (b, m) \<Longrightarrow>
    cancel_step ord t (TryDeregister tok b) s (s\<lparr>manager := m\<rparr>)"
| skip: "phase s t = Idle \<Longrightarrow> StartCancel_lock (manager s) = None \<Longrightarrow> cancel_step ord t Skip s s"
| begin_cancel: "phase s t = Idle \<Longrightarrow> StartCancel_lock (manager s) = Some (m, cbs) \<Longrightarrow>
    cancel_step ord t Begin s (s\<lparr>manager := m, phase := (phase s)(t := Cancelling (ord cbs))\<rparr>)"
| invoke: "phase s t = Cancelling ((tok, cb) # l) \<Longrightarrow>
    cancel_step ord t (Invoke tok cb) s (s\<lparr>phase := (phase s)(t := Cancelling l)\<rparr>)"
| end_cancel: "phase s t = Cancelling [] \<Longrightarrow>
    cancel_step ord t End s (s\<lparr>manager := StartCancel_unlock (manager s), phase := (phase s)(t := Notifying)\<rparr>)"
| notify: "phase s t = Notifying \<Longrightarrow>
    cancel_step ord t Notified s (s\<lparr>manager := StartCancel_notify (manager s), phase := (phase s)(t := Idle)\<rparr>)"

inductive_cases cancel_stepE: "cancel_step ord t e s s'"

text \<open>A run and its trace, the latest event last.\<close>

inductive cancel_run :: "((CancellationToken \<times> 'cb) list \<Rightarrow> (CancellationToken \<times> 'cb) list) \<Rightarrow>
    ('t \<times> 'cb event) list \<Rightarrow> ('t, 'cb) cancel_system \<Rightarrow> bool" for ord where
  start: "cancel_run ord [] system_new"
| step: "cancel_run ord tr s \<Longrightarrow> cancel_step ord t e s s' \<Longrightarrow> cancel_run ord (tr @ [(t, e)]) s'"

text \<open>What a trace says: the callbacks registered and not deregistered, and those that were run.\<close>

fun registered_after :: "(CancellationToken \<times> 'cb) list \<Rightarrow> 'cb event \<Rightarrow> (CancellationToken \<times> 'cb) list" where
  "registered_after l (Register tok cb True) = AList.update tok cb l"
| "registered_after l (Deregister tok True) = AList.delete tok l"
| "registered_after l (TryDeregister tok True) = AList.delete tok l"
| "registered_after l _ = l"

definition registered :: "('t \<times> 'cb event) list \<Rightarrow> (CancellationToken \<times> 'cb) list" where
  "registered tr = foldl (\<lambda>l (t, e). registered_after l e) [] tr"

fun invoked_by :: "'cb event \<Rightarrow> (CancellationToken \<times> 'cb) list" where
  "invoked_by (Invoke tok cb) = [(tok, cb)]"
| "invoked_by _ = []"

definition invoked :: "('t \<times> 'cb event) list \<Rightarrow> (CancellationToken \<times> 'cb) list" where
  "invoked tr = concat (map (\<lambda>(t, e). invoked_by e) tr)"

lemma registered_simps [simp]:
  "registered [] = []" "registered (tr @ [(t, e)]) = registered_after (registered tr) e"
  by (simp_all add: registered_def)

lemma invoked_simps [simp]: "invoked [] = []" "invoked (tr @ tr') = invoked tr @ invoked tr'" "invoked ((t, e) # tr) = invoked_by e @ invoked tr"
  by (simp_all add: invoked_def)

section \<open>Invariant\<close>

text \<open>The order of iteration of the callback table.\<close>

locale callback_order =
  fixes ord :: "(CancellationToken \<times> 'cb) list \<Rightarrow> (CancellationToken \<times> 'cb) list"
  assumes mset_ord: "mset (ord l) = mset l"

text \<open>The invariant of a run: which threads are where in each stage of the manager, and how the table and the rest of the
  loop relate to the trace.\<close>

definition quiet :: "'cb phase \<Rightarrow> bool" where
  "quiet p \<longleftrightarrow> p = Idle \<or> (\<exists>tok pc. p = Waiting tok pc)"

definition cancel_inv :: "('t \<times> 'cb event) list \<Rightarrow> ('t, 'cb) cancel_system \<Rightarrow> bool" where
  "cancel_inv tr s \<longleftrightarrow>
     (let m = manager s in
      distinct (map fst (registered tr)) \<and> (notified m \<longrightarrow> is_cancelled m) \<and>
      (if is_cancelled m then
         \<not> is_cancelling m \<and> callbacks m = [] \<and> mset (invoked tr) = mset (registered tr) \<and>
         (if notified m then \<forall>t. quiet (phase s t)
          else \<exists>t. phase s t = Notifying \<and> (\<forall>u. u \<noteq> t \<longrightarrow> quiet (phase s u)))
       else if is_cancelling m then
         callbacks m = [] \<and> (\<exists>t l. phase s t = Cancelling l \<and> mset (invoked tr @ l) = mset (registered tr) \<and>
            (\<forall>u. u \<noteq> t \<longrightarrow> quiet (phase s u)))
       else callbacks m = registered tr \<and> invoked tr = [] \<and> (\<forall>t. phase s t = Idle)))"

lemma quiet_simps [simp]: "quiet Idle" "quiet (Waiting tok pc)" "\<not> quiet (Cancelling l)" "\<not> quiet Notifying"
  by (simp_all add: quiet_def)

text \<open>Introduction and elimination by the stage of the manager.\<close>

lemma cancel_inv_before:
  "\<not> is_cancelled (manager s) \<Longrightarrow> \<not> is_cancelling (manager s) \<Longrightarrow>
   cancel_inv tr s \<longleftrightarrow> distinct (map fst (registered tr)) \<and> \<not> notified (manager s) \<and> callbacks (manager s) = registered tr \<and>
     invoked tr = [] \<and> (\<forall>t. phase s t = Idle)"
  by (auto simp: cancel_inv_def Let_def)

lemma cancel_inv_during:
  "\<not> is_cancelled (manager s) \<Longrightarrow> is_cancelling (manager s) \<Longrightarrow>
   cancel_inv tr s \<longleftrightarrow> distinct (map fst (registered tr)) \<and> \<not> notified (manager s) \<and> callbacks (manager s) = [] \<and>
     (\<exists>t l. phase s t = Cancelling l \<and> mset (invoked tr @ l) = mset (registered tr) \<and> (\<forall>u. u \<noteq> t \<longrightarrow> quiet (phase s u)))"
  by (auto simp: cancel_inv_def Let_def)

lemma cancel_inv_after:
  "is_cancelled (manager s) \<Longrightarrow>
   cancel_inv tr s \<longleftrightarrow> distinct (map fst (registered tr)) \<and> \<not> is_cancelling (manager s) \<and> callbacks (manager s) = [] \<and>
     mset (invoked tr) = mset (registered tr) \<and>
     (if notified (manager s) then \<forall>t. quiet (phase s t)
      else \<exists>t. phase s t = Notifying \<and> (\<forall>u. u \<noteq> t \<longrightarrow> quiet (phase s u)))"
  by (auto simp: cancel_inv_def Let_def)

text \<open>Steps that change neither the stage nor the relation to the trace.\<close>

lemma cancel_inv_silent:
  assumes "cancel_inv tr s" "registered_after (registered tr) e = registered tr" "invoked_by e = []"
    and "is_cancelled (manager s') = is_cancelled (manager s)" "is_cancelling (manager s') = is_cancelling (manager s)"
    "notified (manager s') = notified (manager s)" "callbacks (manager s') = callbacks (manager s)"
    and "phase s' = phase s \<or> (is_cancelled (manager s) \<or> is_cancelling (manager s)) \<and> quiet (phase s t) \<and> quiet p \<and> phase s' = (phase s)(t := p)"
  shows "cancel_inv (tr @ [(t, e)]) s'"
proof -
  note same = assms(4-7)
  have k: "quiet (phase s u) \<Longrightarrow> quiet (phase s' u)" "\<not> quiet (phase s u) \<Longrightarrow> phase s' u = phase s u" for u
    using assms(8) by (auto simp: fun_upd_apply)
  consider "is_cancelled (manager s)" | "\<not> is_cancelled (manager s)" "is_cancelling (manager s)"
    | "\<not> is_cancelled (manager s)" "\<not> is_cancelling (manager s)" by blast
  then show ?thesis
  proof cases
    case 1
    then have new1: "is_cancelled (manager s')" using same by simp
    show ?thesis
    proof (cases "notified (manager s)")
      case True
      then show ?thesis using assms(1-3) same k(1) unfolding cancel_inv_after [OF 1] cancel_inv_after [OF new1] by simp
    next
      case False
      then obtain u where "phase s u = Notifying" "\<forall>v. v \<noteq> u \<longrightarrow> quiet (phase s v)"
        using assms(1) unfolding cancel_inv_after [OF 1] by auto
      then have "phase s' u = Notifying \<and> (\<forall>v. v \<noteq> u \<longrightarrow> quiet (phase s' v))" using k by simp
      then show ?thesis using False assms(1-3) same unfolding cancel_inv_after [OF 1] cancel_inv_after [OF new1] by auto
    qed
  next
    case 2
    then have new2: "\<not> is_cancelled (manager s')" "is_cancelling (manager s')" using same by simp_all
    obtain u l where u: "phase s u = Cancelling l" "\<forall>v. v \<noteq> u \<longrightarrow> quiet (phase s v)" "mset (invoked tr @ l) = mset (registered tr)"
      using assms(1) unfolding cancel_inv_during [OF 2] by blast
    have "phase s' u = Cancelling l \<and> (\<forall>v. v \<noteq> u \<longrightarrow> quiet (phase s' v))" using k u(1,2) by simp
    then show ?thesis using u(3) assms(1-3) same unfolding cancel_inv_during [OF 2] cancel_inv_during [OF new2] by auto
  next
    case 3
    then have new3: "\<not> is_cancelled (manager s')" "\<not> is_cancelling (manager s')" using same by simp_all
    then show ?thesis using assms 3 unfolding cancel_inv_before [OF 3] cancel_inv_before [OF new3] by auto
  qed
qed

text \<open>A thread in the loop or about to notify determines the stage.\<close>

lemma cancel_inv_cancelling:
  assumes inv: "cancel_inv tr s" and t: "phase s t = Cancelling l"
  shows "\<not> is_cancelled (manager s)" "is_cancelling (manager s)" "mset (invoked tr @ l) = mset (registered tr)"
    "\<forall>u. u \<noteq> t \<longrightarrow> quiet (phase s u)"
proof -
  have nq: "\<not> quiet (phase s t)" using t by simp
  show a: "\<not> is_cancelled (manager s)"
  proof
    assume 1: "is_cancelled (manager s)"
    show False using inv nq t unfolding cancel_inv_after [OF 1] by (metis phase.distinct(7))
  qed
  show b: "is_cancelling (manager s)"
  proof (rule ccontr)
    assume "\<not> is_cancelling (manager s)"
    then show False using inv t by (simp add: cancel_inv_before [OF a])
  qed
  obtain u l' where "phase s u = Cancelling l'" "mset (invoked tr @ l') = mset (registered tr)" "\<forall>v. v \<noteq> u \<longrightarrow> quiet (phase s v)"
    using inv unfolding cancel_inv_during [OF a b] by blast
  moreover from this have "u = t" using nq by metis
  ultimately show "mset (invoked tr @ l) = mset (registered tr)" "\<forall>u. u \<noteq> t \<longrightarrow> quiet (phase s u)" using t by auto
qed

lemma cancel_inv_notifying:
  assumes inv: "cancel_inv tr s" and t: "phase s t = Notifying"
  shows "is_cancelled (manager s)" "\<not> notified (manager s)" "\<forall>u. u \<noteq> t \<longrightarrow> quiet (phase s u)"
proof -
  have nq: "\<not> quiet (phase s t)" using t by simp
  show a: "is_cancelled (manager s)"
  proof (rule ccontr)
    assume n: "\<not> is_cancelled (manager s)"
    show False
    proof (cases "is_cancelling (manager s)")
      case True
      then show False using inv nq t unfolding cancel_inv_during [OF n True] by (metis phase.distinct(7))
    next
      case False
      then show False using inv t by (simp add: cancel_inv_before [OF n])
    qed
  qed
  show "\<not> notified (manager s)" using inv nq unfolding cancel_inv_after [OF a] by auto
  then show "\<forall>u. u \<noteq> t \<longrightarrow> quiet (phase s u)" using inv nq unfolding cancel_inv_after [OF a] by metis
qed

lemma cancel_inv_waiting:
  assumes "cancel_inv tr s" "phase s t = Waiting tok pc"
  shows "is_cancelled (manager s) \<or> is_cancelling (manager s)"
proof (rule ccontr)
  assume "\<not> ?thesis"
  then show False using assms by (simp add: cancel_inv_before)
qed

context callback_order
begin

lemma cancel_inv_step:
  assumes "cancel_step ord t e s s'" and inv: "cancel_inv tr s"
  shows "cancel_inv (tr @ [(t, e)]) s'"
  using assms(1)
proof (cases rule: cancel_step.cases)
  case (token tok m)
  then show ?thesis using inv by (intro cancel_inv_silent [of tr s _ _ t Idle]) (auto simp: get_cancellation_token_def)
next
  case (register tok cb b m)
  show ?thesis
  proof (cases b)
    case True
    then have b: "\<not> is_cancelled (manager s)" "\<not> is_cancelling (manager s)" "m = manager s\<lparr>callbacks := AList.update tok cb (callbacks (manager s))\<rparr>"
      using register by (auto simp: RegisterCallback_def Let_def split: if_splits)
    then show ?thesis using inv register True by (simp add: cancel_inv_before distinct_update)
  next
    case False
    then show ?thesis using inv register
      by (intro cancel_inv_silent [of tr s _ _ t Idle]) (auto simp: RegisterCallback_def Let_def split: if_splits)
  qed
next
  case (deregister tok m b)
  show ?thesis
  proof (cases b)
    case True
    then have b: "\<not> is_cancelled (manager s)" "\<not> is_cancelling (manager s)" "m = manager s\<lparr>callbacks := AList.delete tok (callbacks (manager s))\<rparr>"
      using deregister by (auto simp: DeregisterCallback_lock_def split: if_splits)
    then show ?thesis using inv deregister True by (simp add: cancel_inv_before distinct_delete)
  next
    case False
    then show ?thesis using inv deregister
      by (intro cancel_inv_silent [of tr s _ _ t Idle]) (auto simp: DeregisterCallback_lock_def split: if_splits)
  qed
next
  case (deregister_wait tok m)
  then show ?thesis using inv
    by (intro cancel_inv_silent [of tr s _ _ t "Waiting tok BeforeTest"]) (auto simp: DeregisterCallback_lock_def split: if_splits)
next
  case (test_return tok)
  then show ?thesis using inv cancel_inv_waiting [OF inv] by (intro cancel_inv_silent [of tr s _ _ t Idle]) auto
next
  case (test_wait tok pc)
  then show ?thesis using inv cancel_inv_waiting [OF inv] by (intro cancel_inv_silent [of tr s _ _ t "Waiting tok pc"]) auto
next
  case (loop_return tok n)
  then show ?thesis using inv cancel_inv_waiting [OF inv] WaitForNotification_loop_flag [OF loop_return(4)]
    by (intro cancel_inv_silent [of tr s _ _ t Idle]) auto
next
  case (loop_wait tok n pc)
  then show ?thesis using inv cancel_inv_waiting [OF inv] WaitForNotification_loop_flag [OF loop_wait(4)]
    by (intro cancel_inv_silent [of tr s _ _ t "Waiting tok pc"]) auto
next
  case (wake tok)
  then show ?thesis using inv cancel_inv_waiting [OF inv] by (intro cancel_inv_silent [of tr s _ _ t "Waiting tok AtLoop"]) auto
next
  case (spurious_wake tok)
  then show ?thesis using inv by (intro cancel_inv_silent [of tr s _ _ t Idle]) auto
next
  case (try_deregister tok b m)
  show ?thesis
  proof (cases b)
    case True
    then have b: "\<not> is_cancelled (manager s)" "\<not> is_cancelling (manager s)" "m = manager s\<lparr>callbacks := AList.delete tok (callbacks (manager s))\<rparr>"
      using try_deregister by (auto simp: TryDeregisterCallback_def split: if_splits)
    then show ?thesis using inv try_deregister True by (simp add: cancel_inv_before distinct_delete)
  next
    case False
    then show ?thesis using inv try_deregister
      by (intro cancel_inv_silent [of tr s _ _ t Idle]) (auto simp: TryDeregisterCallback_def split: if_splits)
  qed
next
  case skip
  then show ?thesis using inv by (intro cancel_inv_silent [of tr s _ _ t Idle]) auto
next
  case (begin_cancel m cbs)
  then have b: "\<not> is_cancelled (manager s)" "\<not> is_cancelling (manager s)" "cbs = callbacks (manager s)"
    "m = manager s\<lparr>is_cancelling := True, callbacks := []\<rparr>" by (auto simp: StartCancel_lock_def split: if_splits)
  have "mset (ord cbs) = mset (registered tr)" using inv b(1,2,3) mset_ord by (simp add: cancel_inv_before)
  then show ?thesis using inv begin_cancel b(1,2,4) by (simp add: cancel_inv_before cancel_inv_during)
next
  case (invoke tok cb l)
  note c = cancel_inv_cancelling [OF inv invoke(3)]
  then have "cancel_inv tr s \<Longrightarrow> mset (invoked (tr @ [(t, e)]) @ l) = mset (registered (tr @ [(t, e)]))"
    using invoke by simp
  then show ?thesis using inv invoke c
    by (simp add: cancel_inv_during)
next
  case end_cancel
  note c = cancel_inv_cancelling [OF inv end_cancel(3)]
  show ?thesis using inv end_cancel c
    by (simp add: cancel_inv_during cancel_inv_after StartCancel_unlock_def)
next
  case notify
  note c = cancel_inv_notifying [OF inv notify(3)]
  show ?thesis using inv notify c by (simp add: cancel_inv_after StartCancel_notify_def)
qed

lemma cancel_run_inv: "cancel_run ord tr s \<Longrightarrow> cancel_inv tr s"
proof (induction rule: cancel_run.induct)
  case start
  show ?case by (simp add: cancel_inv_def system_new_def CancellationManager_new_def)
next
  case (step tr s t e s')
  then show ?case by (intro cancel_inv_step)
qed

text \<open>The assertion in \<^verbatim>\<open>Notify\<close>: the notification comes once.\<close>

lemma notify_assertion: "cancel_run ord tr s \<Longrightarrow> phase s t = Notifying \<Longrightarrow> \<not> HasBeenNotified (cancelled_notification (manager s))"
  by (rule cancel_inv_notifying(2) [OF cancel_run_inv])

text \<open>The manager is cancelled from the end of the loop on.\<close>

lemma cancelled_iff_End: "cancel_run ord tr s \<Longrightarrow> is_cancelled (manager s) \<longleftrightarrow> End \<in> snd ` set tr"
proof (induction rule: cancel_run.induct)
  case start
  show ?case by (simp add: system_new_def CancellationManager_new_def)
next
  case (step tr s t e s')
  from step.hyps(2) step.IH show ?case
    by (cases rule: cancel_step.cases)
       (auto simp: get_cancellation_token_def RegisterCallback_def DeregisterCallback_lock_def TryDeregisterCallback_def
          StartCancel_lock_def StartCancel_unlock_def StartCancel_notify_def Let_def split: if_splits)
qed

text \<open>From then on nothing is registered, deregistered or run any more.\<close>

lemma cancelled_silent:
  assumes "cancel_step ord t e s s'" "cancel_inv tr s" "is_cancelled (manager s)"
  shows "registered_after l e = l" "invoked_by e = []"
  using assms cancel_inv_cancelling [OF assms(2), of t]
  by (cases rule: cancel_step.cases;
      auto simp: RegisterCallback_def DeregisterCallback_lock_def TryDeregisterCallback_def Let_def split: if_splits)+

lemma cancelled_frozen:
  "cancel_run ord tr2 s \<Longrightarrow> tr2 = tr @ tr' \<Longrightarrow> End \<in> snd ` set tr \<Longrightarrow> invoked tr' = [] \<and> registered tr2 = registered tr"
proof (induction arbitrary: tr' rule: cancel_run.induct)
  case (step tr2 s t e s')
  show ?case
  proof (cases tr' rule: rev_cases)
    case Nil
    then show ?thesis using step.prems(1) by simp
  next
    case (snoc ys y)
    then have y: "tr2 = tr @ ys" "y = (t, e)" using step.prems(1) by auto
    then have "is_cancelled (manager s)" using cancelled_iff_End [OF step.hyps(1)] step.prems(2) by auto
    from cancelled_silent [OF step.hyps(2) cancel_run_inv [OF step.hyps(1)] this] step.IH [OF y(1) step.prems(2)]
    show ?thesis using snoc y by (simp flip: append_assoc)
  qed
qed auto

lemma cancel_run_prefix: "cancel_run ord tr2 s \<Longrightarrow> tr2 = tr @ tr' \<Longrightarrow> \<exists>s1. cancel_run ord tr s1"
proof (induction arbitrary: tr' rule: cancel_run.induct)
  case (step tr2 s t e s')
  show ?case
  proof (cases tr' rule: rev_cases)
    case Nil
    then show ?thesis using step cancel_run.step [OF step.hyps] by auto
  next
    case (snoc ys y)
    then show ?thesis using step.IH [of ys] step.prems by simp
  qed
qed (auto intro: cancel_run.start)

lemma cancel_run_last:
  assumes "cancel_run ord (tr @ [(t, e)]) s'"
  shows "\<exists>s. cancel_run ord tr s \<and> cancel_step ord t e s s'"
  using assms by (cases rule: cancel_run.cases) auto

lemma Deregister_False_cancelled:
  assumes "cancel_step ord t (Deregister tok False) s s'" "cancel_inv tr s"
  shows "is_cancelled (manager s)"
  using assms by (cases rule: cancel_step.cases) 
    (auto simp: DeregisterCallback_lock_def WaitForNotification_test_def WaitForNotification_loop_def cancel_inv_def Let_def split: if_splits)

lemma invoked_registered: "cancel_inv tr s \<Longrightarrow> set (invoked tr) \<subseteq> set (registered tr) \<and> distinct (map fst (invoked tr))"
proof -
  assume inv: "cancel_inv tr s"
  then obtain l where "mset (invoked tr @ l) = mset (registered tr)"
    by (cases "is_cancelled (manager s)"; cases "is_cancelling (manager s)")
       (auto simp: cancel_inv_after cancel_inv_before cancel_inv_during intro: that [of "[]"])
  moreover have "distinct (map fst (registered tr))" using inv by (simp add: cancel_inv_def Let_def)
  ultimately have "set (invoked tr @ l) = set (registered tr)" "distinct (map fst (invoked tr @ l))"
    by (metis mset_eq_setD, metis distinct_map mset_eq_imp_distinct_iff mset_eq_setD)
  then show ?thesis by auto
qed

end

lemma not_registered:
  "tok \<notin> fst ` set (registered xs) \<Longrightarrow> \<forall>u cb. (u, Register tok cb True) \<notin> set ys \<Longrightarrow> tok \<notin> fst ` set (registered (xs @ ys))"
proof (induction ys rule: rev_induct)
  case (snoc y ys)
  obtain u e where y: "y = (u, e)" by fastforce
  have IH: "tok \<notin> fst ` set (registered (xs @ ys))" using snoc by auto
  have "registered (xs @ ys @ [y]) = registered_after (registered (xs @ ys)) e"
    unfolding y append_assoc [symmetric] by (simp only: registered_simps)
  moreover have "tok \<notin> fst ` set (registered_after l e)" if "tok \<notin> fst ` set l" for l
    using that snoc.prems(2) y by (cases "(l, e)" rule: registered_after.cases) (auto simp: dom_update AList.delete_eq)
  ultimately show ?case using IH by simp
qed simp

section \<open>Fair runs\<close>

text \<open>An infinite run that pauses where no label is given, and weak fairness: a thread that is inside a method and not
  asleep takes a step eventually. Nothing is assumed of spurious wakeups.\<close>

definition cancel_path :: "((CancellationToken \<times> 'cb) list \<Rightarrow> (CancellationToken \<times> 'cb) list) \<Rightarrow>
    (nat \<Rightarrow> ('t, 'cb) cancel_system) \<Rightarrow> (nat \<Rightarrow> ('t \<times> 'cb event) option) \<Rightarrow> bool" where
  "cancel_path ord \<sigma> lab \<longleftrightarrow> \<sigma> 0 = system_new \<and>
     (\<forall>i. case lab i of None \<Rightarrow> \<sigma> (Suc i) = \<sigma> i | Some (t, e) \<Rightarrow> cancel_step ord t e (\<sigma> i) (\<sigma> (Suc i)))"

definition can_step :: "('t, 'cb) cancel_system \<Rightarrow> 't \<Rightarrow> bool" where
  "can_step s t = (case phase s t of Idle \<Rightarrow> False
     | Waiting _ InWait \<Rightarrow> t \<notin> nt_waiters (cancelled_notification (manager s)) | _ \<Rightarrow> True)"

definition fair :: "(nat \<Rightarrow> ('t, 'cb) cancel_system) \<Rightarrow> (nat \<Rightarrow> ('t \<times> 'cb event) option) \<Rightarrow> bool" where
  "fair \<sigma> lab \<longleftrightarrow> (\<forall>t i. (\<forall>j \<ge> i. can_step (\<sigma> j) t) \<longrightarrow> (\<exists>j \<ge> i. \<exists>e. lab j = Some (t, e)))"

lemma step_other: "cancel_step ord u e s s' \<Longrightarrow> t \<noteq> u \<Longrightarrow> phase s' t = phase s t"
  by (erule cancel_step.cases) auto

lemma step_notified: "cancel_step ord u e s s' \<Longrightarrow> notified (manager s) \<Longrightarrow> notified (manager s')"
  by (erule cancel_step.cases)
     (auto simp: get_cancellation_token_def RegisterCallback_def DeregisterCallback_lock_def TryDeregisterCallback_def
        StartCancel_lock_def StartCancel_unlock_def StartCancel_notify_def Let_def WaitForNotification_loop_flag split: if_splits)

lemma step_awake: "cancel_step ord u e s s' \<Longrightarrow> awake (cancelled_notification (manager s)) \<Longrightarrow> awake (cancelled_notification (manager s'))"
  by (erule cancel_step.cases)
     (auto simp: get_cancellation_token_def RegisterCallback_def DeregisterCallback_lock_def TryDeregisterCallback_def
        StartCancel_lock_def StartCancel_unlock_def StartCancel_notify_def Let_def split: if_splits)

lemma run_awake: "cancel_run ord tr s \<Longrightarrow> awake (cancelled_notification (manager s))"
  by (induction rule: cancel_run.induct) (auto simp: system_new_def CancellationManager_new_def intro: step_awake)

lemma path_step:
  assumes "cancel_path ord \<sigma> lab"
  shows "lab i = Some (t, e) \<Longrightarrow> cancel_step ord t e (\<sigma> i) (\<sigma> (Suc i))"
    and "\<nexists>e. lab i = Some (t, e) \<Longrightarrow> phase (\<sigma> (Suc i)) t = phase (\<sigma> i) t"
    and "notified (manager (\<sigma> i)) \<Longrightarrow> notified (manager (\<sigma> (Suc i)))"
proof -
  have p: "case lab i of None \<Rightarrow> \<sigma> (Suc i) = \<sigma> i | Some (t, e) \<Rightarrow> cancel_step ord t e (\<sigma> i) (\<sigma> (Suc i))"
    using assms by (simp add: cancel_path_def)
  show "lab i = Some (t, e) \<Longrightarrow> cancel_step ord t e (\<sigma> i) (\<sigma> (Suc i))" using p by simp
  show "\<nexists>e. lab i = Some (t, e) \<Longrightarrow> phase (\<sigma> (Suc i)) t = phase (\<sigma> i) t"
    using p step_other by (cases "lab i") (fastforce split: prod.splits)+
  show "notified (manager (\<sigma> i)) \<Longrightarrow> notified (manager (\<sigma> (Suc i)))"
    using p step_notified by (cases "lab i") (fastforce split: prod.splits)+
qed

lemma path_notified: "cancel_path ord \<sigma> lab \<Longrightarrow> notified (manager (\<sigma> i)) \<Longrightarrow> i \<le> j \<Longrightarrow> notified (manager (\<sigma> j))"
  using path_step(3) by (induction j) (auto simp: le_Suc_eq)

lemma path_run:
  assumes p: "cancel_path ord \<sigma> lab" shows "\<exists>tr. cancel_run ord tr (\<sigma> i)"
proof (induction i)
  case 0
  then show ?case using p cancel_run.start by (auto simp: cancel_path_def)
next
  case (Suc i)
  then obtain tr where tr: "cancel_run ord tr (\<sigma> i)" by blast
  show ?case
  proof (cases "lab i")
    case None
    moreover have "case lab i of None \<Rightarrow> \<sigma> (Suc i) = \<sigma> i | Some (t, e) \<Rightarrow> cancel_step ord t e (\<sigma> i) (\<sigma> (Suc i))"
      using p by (simp add: cancel_path_def)
    ultimately have "\<sigma> (Suc i) = \<sigma> i" by simp
    then show ?thesis using tr by auto
  next
    case (Some te)
    then show ?thesis using path_step(1) [OF p] cancel_run.step [OF tr] by (cases te) blast
  qed
qed

text \<open>A thread that stays able to step while it stays where it is does step from there.\<close>

lemma fair_moves:
  assumes p: "cancel_path ord \<sigma> lab" and f: "fair \<sigma> lab"
    and i: "phase (\<sigma> i) t = q" and able: "\<And>j. i \<le> j \<Longrightarrow> phase (\<sigma> j) t = q \<Longrightarrow> can_step (\<sigma> j) t"
  shows "\<exists>j \<ge> i. \<exists>e. phase (\<sigma> j) t = q \<and> lab j = Some (t, e) \<and> cancel_step ord t e (\<sigma> j) (\<sigma> (Suc j))"
proof -
  have stay: "phase (\<sigma> j) t = q" if "i \<le> j" "\<forall>k. i \<le> k \<and> k < j \<longrightarrow> (\<nexists>e. lab k = Some (t, e))" for j
    using that
  proof (induction j)
    case 0
    then show ?case using i by simp
  next
    case (Suc j)
    show ?case
    proof (cases "i \<le> j")
      case True
      then show ?thesis using Suc path_step(2) [OF p, of j t] by simp
    next
      case False
      then show ?thesis using Suc.prems(1) i by (simp add: le_Suc_eq)
    qed
  qed
  have "\<exists>j \<ge> i. \<exists>e. lab j = Some (t, e)"
  proof (rule ccontr)
    assume no: "\<not> ?thesis"
    then have "can_step (\<sigma> j) t" if "i \<le> j" for j using able [OF that] stay [OF that] by blast
    then show False using f no by (auto simp: fair_def)
  qed
  then obtain j where j: "i \<le> j" "\<exists>e. lab j = Some (t, e)" "\<forall>k. i \<le> k \<and> k < j \<longrightarrow> (\<nexists>e. lab k = Some (t, e))"
    using exists_least_iff [of "\<lambda>j. i \<le> j \<and> (\<exists>e. lab j = Some (t, e))"] by auto
  then show ?thesis using stay [OF j(1,3)] path_step(1) [OF p] by blast
qed

lemma cancelling_leads:
  assumes p: "cancel_path ord \<sigma> lab" and f: "fair \<sigma> lab"
  shows "phase (\<sigma> i) t = Cancelling l \<Longrightarrow> \<exists>j \<ge> i. phase (\<sigma> j) t = Notifying"
proof (induction l arbitrary: i)
  case Nil
  obtain j e where j: "i \<le> j" "phase (\<sigma> j) t = Cancelling []" "cancel_step ord t e (\<sigma> j) (\<sigma> (Suc j))"
    using fair_moves [OF p f Nil] by (auto simp: can_step_def)
  from j(3,2) have "phase (\<sigma> (Suc j)) t = Notifying" by (cases rule: cancel_step.cases) auto
  then show ?case using j(1) le_SucI by blast
next
  case (Cons x l)
  obtain j e where j: "i \<le> j" "phase (\<sigma> j) t = Cancelling (x # l)" "cancel_step ord t e (\<sigma> j) (\<sigma> (Suc j))"
    using fair_moves [OF p f Cons.prems] by (auto simp: can_step_def)
  from j(3,2) have "phase (\<sigma> (Suc j)) t = Cancelling l" by (cases rule: cancel_step.cases) auto
  from Cons.IH [OF this] show ?case using j(1) le_SucI order_trans by blast
qed

lemma notifying_leads:
  assumes p: "cancel_path ord \<sigma> lab" and f: "fair \<sigma> lab" and i: "phase (\<sigma> i) t = Notifying"
  shows "\<exists>j \<ge> i. notified (manager (\<sigma> j))"
proof -
  obtain j e where j: "i \<le> j" "phase (\<sigma> j) t = Notifying" "cancel_step ord t e (\<sigma> j) (\<sigma> (Suc j))"
    using fair_moves [OF p f i] by (auto simp: can_step_def)
  from j(3,2) have "notified (manager (\<sigma> (Suc j)))" by (cases rule: cancel_step.cases) (auto simp: StartCancel_notify_def)
  then show ?thesis using j(1) le_SucI by blast
qed

text \<open>After the notification a waiting thread is awake, tests the flag and returns.\<close>

lemma waiting_leads:
  assumes p: "cancel_path ord \<sigma> lab" and f: "fair \<sigma> lab" and i: "phase (\<sigma> i) t = Waiting tok pc" and n: "notified (manager (\<sigma> i))"
  shows "\<exists>j \<ge> i. lab j = Some (t, Deregister tok False)"
proof -
  have aw: "nt_waiters (cancelled_notification (manager (\<sigma> j))) = {}" "notified (manager (\<sigma> j))" if "i \<le> j" for j
    using path_run [OF p, of j] run_awake path_notified [OF p n that] by (auto simp: awake_def)
  have tests: "\<exists>j \<ge> i'. lab j = Some (t, Deregister tok False)" if i': "i \<le> i'" "phase (\<sigma> i') t = Waiting tok pc" and pc: "pc \<noteq> InWait" for i' pc
  proof -
    obtain j e where j: "i' \<le> j" "phase (\<sigma> j) t = Waiting tok pc" "lab j = Some (t, e)" "cancel_step ord t e (\<sigma> j) (\<sigma> (Suc j))"
      using fair_moves [OF p f i'(2)] pc by (cases pc) (auto simp: can_step_def)
    moreover have "notified (manager (\<sigma> j))" using aw(2) i'(1) j(1) by simp
    ultimately have "e = Deregister tok False" using pc
      by (auto elim: cancel_step.cases simp: WaitForNotification_test_def WaitForNotification_loop_def)
    then show ?thesis using j by blast
  qed
  show ?thesis
  proof (cases "pc = InWait")
    case True
    obtain j e where j: "i \<le> j" "phase (\<sigma> j) t = Waiting tok pc" "cancel_step ord t e (\<sigma> j) (\<sigma> (Suc j))"
      using fair_moves [OF p f i] aw(1) True by (auto simp: can_step_def)
    from j(3,2) have "phase (\<sigma> (Suc j)) t = Waiting tok AtLoop" using True aw(1) [OF j(1)] by (cases rule: cancel_step.cases) auto
    then show ?thesis using tests [of "Suc j" AtLoop] j(1) le_SucI order_trans by blast
  qed (use tests [OF order_refl i] in blast)
qed

section \<open>Properties\<close>

text \<open>C30. Safety of cancellation, for every interleaving: no callback runs twice; when
  \<^verbatim>\<open>DeregisterCallback\<close> returns false, every callback that was registered and not deregistered has already been
  run and none runs later; a token deregistered with true and not registered again never has its callback run; a
  cancelled manager has run all of them; and the notification is given once.\<close>

theorem cancellation_safety:
  assumes "callback_order ord" "cancel_run ord tr s"
  shows "distinct (map fst (invoked tr)) \<and>
    (tr = xs @ (t, Deregister tok False) # ys \<longrightarrow> mset (invoked xs) = mset (registered xs) \<and> invoked ys = []) \<and>
    (tr = xs @ (t, Deregister tok True) # ys \<and> (\<forall>u cb. (u, Register tok cb True) \<notin> set ys) \<longrightarrow> tok \<notin> fst ` set (invoked tr)) \<and>
    (IsCancelled (manager s) \<longrightarrow> mset (invoked tr) = mset (registered tr)) \<and>
    (phase s u = Notifying \<longrightarrow> \<not> notified (manager s))"
proof (intro conjI impI)
  note inv = callback_order.cancel_run_inv [OF assms]
  show "distinct (map fst (invoked tr))" using callback_order.invoked_registered [OF assms(1) inv] by blast
  show "mset (invoked tr) = mset (registered tr)" if "IsCancelled (manager s)"
    using inv that by (simp add: IsCancelled_def cancel_inv_after)
  show "\<not> notified (manager s)" if "phase s u = Notifying" using cancel_inv_notifying(2) [OF inv that] .
  show "tok \<notin> fst ` set (invoked tr)"
    if tr: "tr = xs @ (t, Deregister tok True) # ys \<and> (\<forall>u cb. (u, Register tok cb True) \<notin> set ys)"
  proof -
    have "tok \<notin> fst ` set (registered (xs @ [(t, Deregister tok True)]))" by (auto simp: AList.delete_eq)
    from not_registered [OF this, of ys] tr have "tok \<notin> fst ` set (registered tr)" by simp
    then show ?thesis using callback_order.invoked_registered [OF assms(1) inv] by auto
  qed
  assume tr: "tr = xs @ (t, Deregister tok False) # ys"
  then obtain s1 where "cancel_run ord (xs @ [(t, Deregister tok False)]) s1"
    using callback_order.cancel_run_prefix [OF assms, of "xs @ [(t, Deregister tok False)]" ys] by auto
  from callback_order.cancel_run_last [OF assms(1) this] obtain s0 where
    s0: "cancel_run ord xs s0" "cancel_step ord t (Deregister tok False) s0 s1" by blast
  note inv0 = callback_order.cancel_run_inv [OF assms(1) s0(1)]
  have c: "is_cancelled (manager s0)" using callback_order.Deregister_False_cancelled [OF assms(1) s0(2) inv0] .
  then show "mset (invoked xs) = mset (registered xs)" using inv0 by (simp add: cancel_inv_after)
  have "End \<in> snd ` set xs" using c callback_order.cancelled_iff_End [OF assms(1) s0(1)] by blast
  from callback_order.cancelled_frozen [OF assms tr this] show "invoked ys = []" by simp
qed

text \<open>C31. A waiting \<^verbatim>\<open>DeregisterCallback\<close> returns: in every fair run, a thread that waits for the end of the
  cancellation is woken up by the notification and returns false, wherever it stands in the loop around the condition
  variable and whatever the other threads do; spurious wakeups may happen, and nothing relies on them.\<close>

theorem waiting_deregister_returns:
  assumes "callback_order ord" "cancel_path ord \<sigma> lab" "fair \<sigma> lab" "phase (\<sigma> i) t = Waiting tok pc"
  shows "\<exists>j \<ge> i. lab j = Some (t, Deregister tok False)"
proof (rule ccontr)
  assume no: "\<not> ?thesis"
  obtain tr where "cancel_run ord tr (\<sigma> i)" using path_run [OF assms(2)] by blast
  then have inv: "cancel_inv tr (\<sigma> i)" by (rule callback_order.cancel_run_inv [OF assms(1)])
  have "\<exists>k \<ge> i. notified (manager (\<sigma> k))"
  proof (cases "is_cancelled (manager (\<sigma> i))")
    case True
    then show ?thesis using inv notifying_leads [OF assms(2,3)] unfolding cancel_inv_after [OF True] by (metis order_refl)
  next
    case False
    have c: "is_cancelling (manager (\<sigma> i))"
      by (rule ccontr) (use inv assms(4) in \<open>simp add: cancel_inv_before [OF False]\<close>)
    then obtain u l where "phase (\<sigma> i) u = Cancelling l" using inv unfolding cancel_inv_during [OF False c] by blast
    then show ?thesis using cancelling_leads [OF assms(2,3)] notifying_leads [OF assms(2,3)] by (meson order_trans)
  qed
  then obtain k where k: "i \<le> k" "notified (manager (\<sigma> k))" by blast
  have stays: "\<exists>pc. phase (\<sigma> j) t = Waiting tok pc" if "i \<le> j" for j
    using that
  proof (induction j rule: dec_induct)
    case (step j)
    show ?case
    proof (cases "\<exists>e. lab j = Some (t, e)")
      case True
      then obtain e where e: "lab j = Some (t, e)" "cancel_step ord t e (\<sigma> j) (\<sigma> (Suc j))" using path_step(1) [OF assms(2)] by blast
      have "e \<noteq> Deregister tok False" using no e(1) step.hyps(1) by blast
      with e(2) step.IH show ?thesis by (auto elim: cancel_step.cases)
    next
      case False
      then show ?thesis using path_step(2) [OF assms(2)] step.IH by metis
    qed
  qed (use assms(4) in blast)
  then obtain pc' where "phase (\<sigma> k) t = Waiting tok pc'" using k(1) by blast
  from waiting_leads [OF assms(2,3) this k(2)] show False using no k(1) order_trans by blast
qed

text \<open>A run of two threads: one cancels while the other deregisters, goes to sleep and is woken.\<close>

interpretation insertion_order: callback_order "\<lambda>l. l"
  by unfold_locales simp

definition wait_state :: "bool \<Rightarrow> bool \<Rightarrow> bool \<Rightarrow> bool set \<Rightarrow> nat phase \<Rightarrow> nat phase \<Rightarrow> (bool, nat) cancel_system" where
  "wait_state cancelling cancelled notif sleeping p q =
     \<lparr>manager = \<lparr>is_cancelling = cancelling, is_cancelled = cancelled, cancelled_notification = \<lparr>nt_notified = notif, nt_waiters = sleeping\<rparr>,
        next_cancellation_token = 0, callbacks = []\<rparr>, phase = (\<lambda>b. if b then p else q)\<rparr>"

definition wait_systems :: "(bool, nat) cancel_system list" where
  "wait_systems =
     [wait_state False False False {} Idle Idle,
      wait_state True False False {} (Cancelling []) Idle,
      wait_state True False False {} (Cancelling []) (Waiting 0 BeforeTest),
      wait_state True False False {} (Cancelling []) (Waiting 0 AtLoop),
      wait_state True False False {False} (Cancelling []) (Waiting 0 InWait),
      wait_state False True False {False} Notifying (Waiting 0 InWait),
      wait_state False True True {} Idle (Waiting 0 InWait),
      wait_state False True True {} Idle (Waiting 0 AtLoop),
      wait_state False True True {} Idle Idle]"

definition wait_events :: "(bool \<times> nat event) list" where
  "wait_events = [(True, Begin), (False, DeregisterWait 0), (False, EnterLoop), (False, Sleep), (True, End), (True, Notified),
     (False, Wake), (False, Deregister 0 False)]"

definition wait_system :: "nat \<Rightarrow> (bool, nat) cancel_system" where
  "wait_system i = wait_systems ! min i 8"

definition wait_labels :: "nat \<Rightarrow> (bool \<times> nat event) option" where
  "wait_labels i = (if i < 8 then Some (wait_events ! i) else None)"

lemmas cancel_defs = system_new_def CancellationManager_new_def StartCancel_lock_def StartCancel_unlock_def StartCancel_notify_def
  DeregisterCallback_lock_def

lemmas wait_defs = wait_systems_def wait_state_def cancel_defs notification_defs fun_upd_def fun_eq_iff

lemma step_to: "cancel_step ord t e s s' \<Longrightarrow> s' = s2 \<Longrightarrow> cancel_step ord t e s s2"
  by simp

lemma wait_steps:
  "cancel_step (\<lambda>l. l) True Begin (wait_systems ! 0) (wait_systems ! 1)"
  "cancel_step (\<lambda>l. l) False (DeregisterWait 0) (wait_systems ! 1) (wait_systems ! 2)"
  "cancel_step (\<lambda>l. l) False EnterLoop (wait_systems ! 2) (wait_systems ! 3)"
  "cancel_step (\<lambda>l. l) False Sleep (wait_systems ! 3) (wait_systems ! 4)"
  "cancel_step (\<lambda>l. l) True End (wait_systems ! 4) (wait_systems ! 5)"
  "cancel_step (\<lambda>l. l) True Notified (wait_systems ! 5) (wait_systems ! 6)"
  "cancel_step (\<lambda>l. l) False Wake (wait_systems ! 6) (wait_systems ! 7)"
  "cancel_step (\<lambda>l. l) False (Deregister 0 False) (wait_systems ! 7) (wait_systems ! 8)"
  subgoal by (rule step_to [OF begin_cancel [where cbs = "[]" and m = "manager (wait_systems ! 1)"]]; simp add: wait_defs)
  subgoal by (rule step_to [OF deregister_wait]; simp add: wait_defs)
  subgoal by (rule step_to [OF test_wait [where tok = 0 and pc = AtLoop]]; simp add: wait_defs)
  subgoal by (rule step_to [OF loop_wait [where tok = 0 and pc = InWait and n = "\<lparr>nt_notified = False, nt_waiters = {False}\<rparr>"]]; simp add: wait_defs)
  subgoal by (rule step_to [OF end_cancel]; simp add: wait_defs)
  subgoal by (rule step_to [OF notify]; simp add: wait_defs)
  subgoal by (rule step_to [OF wake [where tok = 0]]; simp add: wait_defs)
  subgoal by (rule step_to [OF loop_return [where tok = 0]]; simp add: wait_defs)
  done

theorem waiting_deregister_returns_witness: "\<exists>j \<ge> 4. wait_labels j = Some (False, Deregister 0 False)"
proof (rule waiting_deregister_returns [OF insertion_order.callback_order_axioms])
  show "cancel_path (\<lambda>l. l) wait_system wait_labels"
    unfolding cancel_path_def
  proof (intro conjI allI)
    fix i :: nat
    have "i < 8 \<longleftrightarrow> i \<in> {0, 1, 2, 3, 4, 5, 6, 7}" by auto
    then show "case wait_labels i of None \<Rightarrow> wait_system (Suc i) = wait_system i
        | Some (t, e) \<Rightarrow> cancel_step (\<lambda>l. l) t e (wait_system i) (wait_system (Suc i))"
      using wait_steps by (cases "i < 8") (auto simp: wait_labels_def wait_system_def wait_events_def eval_nat_numeral)
  qed (simp add: wait_system_def wait_systems_def wait_state_def cancel_defs notification_defs)
  show "fair wait_system wait_labels"
    unfolding fair_def
  proof (intro allI impI)
    fix t i
    assume "\<forall>j \<ge> i. can_step (wait_system j) t"
    then have "can_step (wait_system (i + 8)) t" by simp
    then show "\<exists>j \<ge> i. \<exists>e. wait_labels j = Some (t, e)" by (simp add: can_step_def wait_system_def wait_systems_def wait_state_def)
  qed
  show "phase (wait_system 4) False = Waiting 0 InWait" by (simp add: wait_system_def wait_systems_def wait_state_def)
qed

definition example_trace :: "(bool \<times> nat event) list" where
  "example_trace = [(True, Token 0), (True, Register 0 7 True), (False, Begin), (False, Invoke 0 7), (False, End)]"

definition example_state :: "bool \<Rightarrow> bool \<Rightarrow> (int \<times> nat) list \<Rightarrow> nat phase \<Rightarrow> (bool, nat) cancel_system" where
  "example_state cancelling cancelled cbs p =
     \<lparr>manager = \<lparr>is_cancelling = cancelling, is_cancelled = cancelled, cancelled_notification = Notification_new, next_cancellation_token = 1, callbacks = cbs\<rparr>,
      phase = (\<lambda>_. Idle)(False := p)\<rparr>"

lemma example_run:
  "cancel_run (\<lambda>l. l) (example_trace @ [(True, Deregister 0 False)]) (example_state False True [] Notifying)"
proof -
  note defs = example_state_def cancel_defs get_cancellation_token_def RegisterCallback_def fun_upd_def fun_eq_iff
  note run = cancel_run.step [of "\<lambda>l. l", OF _ step_to]
  have "cancel_run (\<lambda>l. l) ([] @ [(True, Token 0)]) (example_state False False [] Idle)"
    by (rule run [OF cancel_run.start token]; simp add: defs)
  then have "cancel_run (\<lambda>l. l) (([] @ [(True, Token 0)]) @ [(True, Register 0 7 True)]) (example_state False False [(0, 7)] Idle)"
    by (rule run [OF _ register]; simp add: defs)
  then have "cancel_run (\<lambda>l. l) ((([] @ [(True, Token 0)]) @ [(True, Register 0 7 True)]) @ [(False, Begin)])
      (example_state True False [] (Cancelling [(0, 7)]))"
    by (rule run [OF _ begin_cancel [where cbs = "[(0, 7)]" and m = "manager (example_state True False [] Idle)"]]; simp add: defs)
  then have "cancel_run (\<lambda>l. l) (((([] @ [(True, Token 0)]) @ [(True, Register 0 7 True)]) @ [(False, Begin)]) @ [(False, Invoke 0 7)])
      (example_state True False [] (Cancelling []))"
    by (rule run [OF _ invoke [where l = "[]"]]; simp add: defs)
  then have "cancel_run (\<lambda>l. l) ((((([] @ [(True, Token 0)]) @ [(True, Register 0 7 True)]) @ [(False, Begin)]) @ [(False, Invoke 0 7)]) @ [(False, End)])
      (example_state False True [] Notifying)"
    by (rule run [OF _ end_cancel]; simp add: defs)
  then have "cancel_run (\<lambda>l. l) example_trace (example_state False True [] Notifying)" by (simp add: example_trace_def)
  then show ?thesis by (rule run [OF _ deregister]; simp add: defs)
qed

theorem cancellation_safety_witness: "mset (invoked example_trace) = mset (registered example_trace)"
  using cancellation_safety [OF insertion_order.callback_order_axioms example_run, of example_trace True 0 "[]"] by simp

end
