(* ===== verification/Spec2Isabelle.thy ===== *)
theory Spec2Isabelle
  imports Coding Ordered_Code Crc32c Table_Reader Compressed_Records Snappy_Input Input_Buffer Path Base64 Graph_Cycles Memory_Arena Broadcast Cancellation_Manager
begin

text \<open>
  \<^bold>\<open>Verification of core libraries of TensorFlow\<close>, the C++ program under
  \<^verbatim>\<open>src/ML Kit Java/tensorflow-master/tensorflow\<close>; file names below are relative to that directory.

  \<^bold>\<open>The parts and how they interact.\<close> The storage libraries are layers. Integers and checksums are coded into bytes
  (\<^verbatim>\<open>core/lib/core\<close>, \<^verbatim>\<open>core/lib/hash\<close>, \<^verbatim>\<open>core/lib/strings\<close>). On top of them are two file formats:
  immutable sorted tables, whose blocks of prefix-compressed entries are found through an index block (the format of
  checkpoints), and TFRecord files, a sequence of checksummed records. Both read their files through the interfaces of
  \<^verbatim>\<open>RandomAccessFile\<close> and \<^verbatim>\<open>InputStreamInterface\<close>. Beside the storage libraries the development covers
  the incremental cycle detection that the JIT compiler clusters operations with, the memory arena of TensorFlow Lite, the
  broadcasting of tensor shapes, and the cancellation of steps that run in many threads.

  \<^bold>\<open>Theories.\<close>
  \<^item> \<open>TF_Prelude\<close>: machine types, \<^verbatim>\<open>Status\<close>, shared lemmas on words, byte order and lists, the locales
    \<open>codec\<close> and \<open>order_codec\<close> for encodings, the collections \<open>word_bits\<close> and \<open>codec_simps\<close>.
  \<^item> \<open>Coding\<close> (\<^verbatim>\<open>core/lib/core/coding.cc\<close>, \<^verbatim>\<open>raw_coding.h\<close>): fixed-width integers in both byte orders of
    the host, and varints. Round trips, agreement of the unrolled encoder with the loop, bounds on what readers consume.
  \<^item> \<open>Ordered_Code\<close> (\<^verbatim>\<open>core/lib/strings/ordered_code.cc\<close>): string, unsigned and signed encodings whose byte
    order is the order of the values; round trips, sizes, both logarithm routines.
  \<^item> \<open>Crc32c\<close> (\<^verbatim>\<open>core/lib/hash/crc32c.cc\<close>, \<^verbatim>\<open>crc32c_accelerate.cc\<close>, \<^verbatim>\<open>crc32c.h\<close>): the table-driven and
    the hardware routine equal a bit-by-bit reference; which corruptions the checksum detects; masking.
  \<^item> \<open>Block_Builder\<close>, \<open>Table_Iterator\<close>, \<open>Block_Reader\<close> (\<^verbatim>\<open>core/lib/io/block_builder.cc\<close>, \<^verbatim>\<open>iterator.cc\<close>,
    \<^verbatim>\<open>block.cc\<close>): a block as its layout of entries and restart points; the iterator as a position in the list of
    entries, with its behaviour on corrupt blocks.
  \<^item> \<open>Table_Format\<close>, \<open>Table_Builder\<close>, \<open>Table_Reader\<close> (\<^verbatim>\<open>format.cc\<close>, \<^verbatim>\<open>table_builder.cc\<close>, \<^verbatim>\<open>table.cc\<close>,
    \<^verbatim>\<open>two_level_iterator.cc\<close>): handles, footer and block trailer; the writer with its delayed index entries; the
    reader and the two-level iterator. The composition of all layers is the property C1.
  \<^item> \<open>Input_Stream\<close> (\<^verbatim>\<open>inputstream_interface.cc\<close>, \<^verbatim>\<open>random_inputstream.cc\<close>, \<^verbatim>\<open>buffered_inputstream.cc\<close>): the
    locale \<open>input_stream\<close> is the contract of a stream over a file; the random access stream meets it, and buffering any
    stream that meets it gives one that does.
  \<^item> \<open>Input_Buffer\<close> (\<^verbatim>\<open>inputbuffer.cc\<close>): the older buffer over a file, with lines, varints and seeks; it refines a position
    in the file (C25).
  \<^item> \<open>Record_IO\<close> (\<^verbatim>\<open>record_writer.cc\<close>, \<^verbatim>\<open>record_reader.cc\<close>, \<^verbatim>\<open>zlib_compression_options.cc\<close>): TFRecord files
    over any stream that meets the contract.
  \<^item> \<open>Byte_Buffer\<close>: byte arrays with a part in use, and the code that the output buffers of zlib and Snappy share.
  \<^item> \<open>Zlib_Input\<close>, \<open>Zlib_Output\<close> (\<^verbatim>\<open>zlib_inputstream.cc\<close>, \<^verbatim>\<open>zlib_outputbuffer.cc\<close>): the buffers around
    \<^verbatim>\<open>inflate\<close> and \<^verbatim>\<open>deflate\<close>, whose documented behaviour is in the locales \<open>inflater\<close> and \<open>deflater\<close>. The
    decompressing stream meets the contract of streams again; a closed output buffer has written one complete stream.
    \<open>deflater\<close> separates an open stream from one that is being finished, which takes no new input; \<open>inflater\<close> describes the
    zlib and gzip formats, whose streams end with a check value, and not raw streams.
  \<^item> \<open>Compressed_Records\<close>: the record writer and reader put together with these streams, up to the round trip.
  \<^item> \<open>Snappy_Output\<close>, \<open>Snappy_Input\<close> (\<^verbatim>\<open>snappy/snappy_outputbuffer.cc\<close>, \<^verbatim>\<open>snappy/snappy_inputbuffer.cc\<close>): a stream
    of compressed blocks with their lengths; what is written reads back (C39), and what a truncated file reads as.
  \<^item> \<open>Base64\<close> (\<^verbatim>\<open>core/lib/strings/base64.cc\<close>): the web-safe base64 coder, its round trip and the inputs it accepts.
  \<^item> \<open>Scanner\<close> (\<^verbatim>\<open>core/lib/strings/scanner.h\<close>): the pattern scanner as positions in its source; what a chain of calls matches and captures (C38).
  \<^item> \<open>Path\<close> (\<^verbatim>\<open>core/lib/io/path.cc\<close>): joining, splitting and cleaning paths, and URIs. \<^verbatim>\<open>CleanPath\<close> works in place
    on its character buffer; it is shown to compute the resolution of the components (C36).
  \<^item> \<open>Graph_Cycles\<close> (\<^verbatim>\<open>compiler/jit/graphcycles/graphcycles.cc\<close>): the operations keep the ranks a topological order
    and refine operations on a finite acyclic graph.
  \<^item> \<open>Memory_Arena\<close> (\<^verbatim>\<open>lite/simple_memory_arena.cc\<close>): live allocations are disjoint, and pointers resolve to memory of
    their own.
  \<^item> \<open>Broadcast\<close> (\<^verbatim>\<open>core/util/bcast.cc\<close>): the shapes computed for a binary operation against the rule of numpy.
  \<^item> \<open>Notification\<close>, \<open>Cancellation_Manager\<close> (\<^verbatim>\<open>core/platform/default/notification.h\<close>, \<^verbatim>\<open>core/framework/cancellation.cc\<close>):
    the flag with its condition variable and the loop that waits for it, and the manager as atomic critical sections that
    threads interleave; safety of every interleaving, and progress of waiting threads under weak fairness.

  \<^bold>\<open>Modelling.\<close> A class is a record with the fields of the source, a method a function that takes and returns it, and an
  output parameter one more component of the result. An \<^verbatim>\<open>Error\<close> status is a value; where a method has further
  outcomes an \<open>option\<close> stands for a failed \<^verbatim>\<open>CHECK\<close>, a fatal log or a read outside of memory, as its theory says.
  \<^verbatim>\<open>DCHECK\<close> and \<^verbatim>\<open>assert\<close> are proved and not modelled. Unsigned integers keep their width wherever they can wrap;
  an \<^verbatim>\<open>int64\<close> position in a file is an integer, and files are shorter than \<open>2 ^ 63\<close> bytes in the properties that
  need it. Error messages keep their constant part and drop the numbers spliced into them. Destructors that only release
  memory are left out. What the code calls and the repository does not hold is a parameter with its documented behaviour
  as a locale: the file (\<open>random_access_file\<close>, \<open>table_storage\<close>, \<open>appendable_file\<close>), Snappy (\<open>snappy_codec\<close>, \<open>bounded_snappy\<close>), the
  CRC instructions (\<open>crc32_hardware\<close>), operator new (\<open>array_new\<close>), the iteration order of hash tables
  (\<open>edge_iteration\<close>, \<open>callback_order\<close>), zlib (its constants, \<open>inflater\<close>, \<open>deflater\<close>).

  \<^bold>\<open>Loops.\<close> No fuel is used. Loops are structural recursion, \<open>function\<close>s with a measure, or \<open>partial_function (option)\<close>
  where the source may run forever on some input; for these termination on the states that occur is part of a property
  (C1, C2, C16, C24, C29, C32, C34, C39, C25).

  \<^bold>\<open>Findings.\<close> The proofs brought up behaviour that comments or intent contradict: a 32-bit sum in the bound check of
  \<^verbatim>\<open>DecodeEntry\<close> (C10); bytes that \<^verbatim>\<open>BufferedInputStream::ReadAll\<close> loses (\<open>ReadAll_drops_buffered\<close>); truncated record headers taken for
  the end of the file (C27); a buffered record reader that can skip around although its header forbids it (C26);
  \<^verbatim>\<open>IsCancelled\<close>, which is false while a cancellation runs; a \<^verbatim>\<open>ZlibInputStream\<close> that hangs on data behind
  the end of the compressed stream (C33) and loses output pending at the end of a raw stream
  (\<open>pending_output_unreachable\<close>); the 32-bit length in \<^verbatim>\<open>ZlibOutputBuffer::Append\<close>, and the stale
  input pointer there and in \<^verbatim>\<open>SnappyOutputBuffer::Write\<close>; the size of an uncompressed block, which only debug builds of \<^verbatim>\<open>SnappyInputBuffer\<close>
  check, the byte order of its length, and truncated blocks taken for the end of the file (C40);
  URIs with a scheme of one letter (C37); varints that are too long, whose error depends on the buffering (\<open>long_varint_codes\<close>);
  and a rest of carriage returns, which \<^verbatim>\<open>BufferedInputStream::ReadLine\<close> takes for the end of the file (C24).

  \<^bold>\<open>Not modelled.\<close> The kernels and their devices (\<^verbatim>\<open>core/kernels\<close>, \<^verbatim>\<open>stream_executor\<close>: numerics on Eigen, CUDA and
  vendor libraries), the executor, sessions and distributed runtime (\<^verbatim>\<open>core/common_runtime\<close>, \<^verbatim>\<open>core/distributed_runtime\<close>:
  thread pools, RPC), XLA code generation (\<^verbatim>\<open>compiler/xla\<close>, \<^verbatim>\<open>compiler/tf2xla\<close>: LLVM), the TensorFlow Lite
  interpreter, its kernels and the generated flatbuffer schema, the C and Python bindings, protocol buffer text handling,
  file systems and environments, and the Android and Java sources of the repository.
  In \<^verbatim>\<open>bcast.cc\<close> the conversions from and to \<^verbatim>\<open>TensorShape\<close> are left out, in \<^verbatim>\<open>path.cc\<close> \<^verbatim>\<open>GetTempFilename\<close>, which creates a file.
\<close>

end
